(* ===== verification/Prelude.thy ===== *)
theory Prelude imports Main "HOL-Library.Word" begin

unbundle bit_operations_syntax

text \<open>
  The vocabulary every component shares: the machine's integer types, the ways a kernel
  routine can fail to return, the result type of fallible routines, and generic lemmas on
  lists and function updates.
\<close>

section \<open>Machine integers (\<^verbatim>\<open>include/type.h\<close>)\<close>

type_synonym u8 = "8 word"
type_synonym u16 = "16 word"
type_synonym u32 = "32 word"
type_synonym addr_t = "32 word"

section \<open>Routines that do not return\<close>

text \<open>
  \<^verbatim>\<open>assert\<close> (\<^verbatim>\<open>include/assert.h\<close>) prints a message and spins in \<^verbatim>\<open>while(1)\<close> when its
  condition fails, and \<^verbatim>\<open>panic\<close> prints its message and then fails an \<^verbatim>\<open>assert\<close>: the machine
  stops in both cases, so the rest of the kernel never runs. \<open>Bad_access\<close> is a load or store
  outside the object it is meant for, where C gives no meaning. \<open>Hang\<close> is an explicit
  endless loop of the source.
\<close>

datatype halt = Assert_failed | Panic string | Bad_access | Hang

type_synonym 'a res = "halt + 'a"

definition bindr :: "'a res \<Rightarrow> ('a \<Rightarrow> 'b res) \<Rightarrow> 'b res" where
  "bindr m f = (case m of Inl e \<Rightarrow> Inl e | Inr x \<Rightarrow> f x)"

definition assertr :: "bool \<Rightarrow> 'a res \<Rightarrow> 'a res" where
  "assertr b k = (if b then k else Inl Assert_failed)"

lemma bindr_simps [simp]:
  "bindr (Inl e) f = Inl e"
  "bindr (Inr x) f = f x"
  by (simp_all add: bindr_def)

lemma assertr_simps [simp]:
  "assertr True k = k"
  "assertr False k = Inl Assert_failed"
  by (simp_all add: assertr_def)

lemma bindr_cong [fundef_cong]:
  "m = m' \<Longrightarrow> (\<And>x. m' = Inr x \<Longrightarrow> f x = g x) \<Longrightarrow> bindr m f = bindr m' g"
  by (cases m') simp_all

lemma assertr_cong [fundef_cong]:
  "b = b' \<Longrightarrow> (b' \<Longrightarrow> k = k') \<Longrightarrow> assertr b k = assertr b' k'"
  by (cases b') simp_all

lemma bindr_eq_Inr:
  "bindr m f = Inr y \<longleftrightarrow> (\<exists>x. m = Inr x \<and> f x = Inr y)"
  by (cases m) simp_all

lemma assertr_eq_Inr:
  "assertr b k = Inr y \<longleftrightarrow> b \<and> k = Inr y"
  by (cases b) simp_all

lemmas res_Inr = bindr_eq_Inr assertr_eq_Inr

section \<open>Generic lemmas\<close>

lemma bindr_assoc: "bindr (bindr m f) g = bindr m (\<lambda>x. bindr (f x) g)"
  by (cases m) simp_all

lemma unat_lt_u32: "unat (x :: u32) < 2 ^ 32"
  by (rule order_less_le_trans [OF unsigned_less]) simp

lemma sint_unat:
  fixes w :: "'a::len word"
  assumes "unat w < 2 ^ (LENGTH('a) - 1)"
  shows "sint w = int (unat w)"
proof -
  define n where "n = unat w"
  have "int n < 2 ^ (LENGTH('a) - 1)" using assms by (simp flip: n_def)
  moreover have "- (2 ^ (LENGTH('a) - 1)) \<le> int n"
    by (rule order_trans [of _ 0]) simp_all
  ultimately have "signed_take_bit (LENGTH('a) - 1) (int n) = int n"
    by (intro signed_take_bit_int_eq_self)
  then show ?thesis by (simp add: sint_uint n_def)
qed

lemma distinct_mid_Cons:
  "distinct (ys @ x # zs) \<Longrightarrow> distinct (ys @ zs) \<and> x \<notin> set (ys @ zs)"
  by auto

end
