(* ===== verification/Descriptor.thy ===== *)
theory Descriptor imports Prelude begin

text \<open>
  Segment descriptors and the interrupt mask (\<^verbatim>\<open>kernel/head.c\<close>, \<^verbatim>\<open>include/head.h\<close>), and the
  I/O ports of \<^verbatim>\<open>include/asm.h\<close>. What a port answers is up to the device behind it, so the
  port instructions are a parameter: a record of functions on a device state.
\<close>

section \<open>Ports\<close>

record 'e ports =
  inb :: "u16 \<Rightarrow> 'e \<Rightarrow> u8 \<times> 'e"
  outb :: "u16 \<Rightarrow> u8 \<Rightarrow> 'e \<Rightarrow> 'e"
  inw :: "u16 \<Rightarrow> 'e \<Rightarrow> u16 \<times> 'e"
  outw :: "u16 \<Rightarrow> u16 \<Rightarrow> 'e \<Rightarrow> 'e"

text \<open>
  \<^verbatim>\<open>port_read\<close> and \<^verbatim>\<open>port_write\<close> transfer \<^verbatim>\<open>(nr + 1) >> 1\<close> words, little endian, one string
  instruction each.
\<close>

fun insw :: "'e ports \<Rightarrow> u16 \<Rightarrow> nat \<Rightarrow> 'e \<Rightarrow> u8 list \<times> 'e" where
  "insw io port 0 e = ([], e)"
| "insw io port (Suc n) e =
     (let (w, e) = inw io port e; (bs, e) = insw io port n e
      in (ucast w # ucast (drop_bit 8 w) # bs, e))"

fun outsw :: "'e ports \<Rightarrow> u16 \<Rightarrow> u8 list \<Rightarrow> nat \<Rightarrow> 'e \<Rightarrow> 'e" where
  "outsw io port bs 0 e = e"
| "outsw io port bs (Suc n) e =
     (let w = (ucast (bs ! 0) :: u16) OR push_bit 8 (ucast (bs ! 1))
      in outsw io port (drop 2 bs) n (outw io port w e))"

definition port_read :: "'e ports \<Rightarrow> u16 \<Rightarrow> nat \<Rightarrow> 'e \<Rightarrow> u8 list \<times> 'e" where
  "port_read io port nr e = insw io port ((nr + 1) div 2) e"

definition port_write :: "'e ports \<Rightarrow> u16 \<Rightarrow> u8 list \<Rightarrow> nat \<Rightarrow> 'e \<Rightarrow> 'e" where
  "port_write io port bs nr e = outsw io port bs ((nr + 1) div 2) e"

section \<open>Segment descriptors\<close>

record desc_struct =
  low :: u32
  high :: u32

definition set_desc_base :: "u32 \<Rightarrow> desc_struct \<Rightarrow> desc_struct" where
  "set_desc_base base d =
     (let d = d\<lparr>low := low d AND 0x00ff\<rparr>;
          d = d\<lparr>low := low d OR push_bit 16 base\<rparr>;
          d = d\<lparr>high := high d AND 0x00ffff00\<rparr>
      in d\<lparr>high := high d OR ((drop_bit 16 base AND 0xff) OR (base AND 0xff000000))\<rparr>)"

definition set_desc_limit :: "u32 \<Rightarrow> desc_struct \<Rightarrow> desc_struct" where
  "set_desc_limit limit d =
     (let limit = limit AND 0xfffff;
          d = d\<lparr>low := (low d AND 0xffff0000) OR (limit AND 0x0000ffff)\<rparr>
      in d\<lparr>high := (high d AND 0xfff0ffff) OR (limit AND 0xf0000)\<rparr>)"

text \<open>The two fields as the processor reads them.\<close>

definition desc_base :: "desc_struct \<Rightarrow> u32" where
  "desc_base d = drop_bit 16 (low d) OR push_bit 16 (high d AND 0xff) OR (high d AND 0xff000000)"

definition desc_limit :: "desc_struct \<Rightarrow> u32" where
  "desc_limit d = (low d AND 0xffff) OR (high d AND 0xf0000)"

text \<open>Type, privilege and granularity bits.\<close>

definition desc_attr :: "desc_struct \<Rightarrow> u32" where
  "desc_attr d = high d AND 0x00f0ff00"

section \<open>The interrupt mask\<close>

text \<open>
  \<^verbatim>\<open>klock\<close> and \<^verbatim>\<open>kunlock\<close> only guard the two port accesses against interrupts.
\<close>

definition irq_bit :: "int \<Rightarrow> u8" where
  "irq_bit irq_nr = push_bit (nat (irq_nr mod 8)) 1"

definition enable_irq :: "'e ports \<Rightarrow> int \<Rightarrow> 'e \<Rightarrow> 'e res" where
  "enable_irq io irq_nr e =
     assertr (irq_nr \<ge> 0 \<and> irq_nr < 16)
     (let b = irq_bit irq_nr; port = (if irq_nr < 8 then 0x21 else 0xa1); (v, e) = inb io port e in
      if v AND b \<noteq> 0
      then let (v, e) = inb io port e in Inr (outb io port (v AND NOT b) e)
      else Inr e)"

definition disable_irq :: "'e ports \<Rightarrow> int \<Rightarrow> 'e \<Rightarrow> 'e res" where
  "disable_irq io irq_nr e =
     assertr (irq_nr \<ge> 0 \<and> irq_nr < 16)
     (let b = irq_bit irq_nr; port = (if irq_nr < 8 then 0x21 else 0xa1); (v, e) = inb io port e in
      if v AND b = 0
      then let (v, e) = inb io port e in Inr (outb io port (v OR b) e)
      else Inr e)"

text \<open>
  The handler table starts with \<^verbatim>\<open>on_unknown_irq\<close>, which spins, in every slot; an index outside
  the table is a stray store.
\<close>

definition on_unknown_irq :: "int \<Rightarrow> 's \<Rightarrow> 's res" where
  "on_unknown_irq irq s = Inl Hang"

definition initial_irqhdl_table :: "(int \<Rightarrow> 's \<Rightarrow> 's res) list" where
  "initial_irqhdl_table = replicate 16 on_unknown_irq"

definition set_irq_handler :: "int \<Rightarrow> 'h \<Rightarrow> 'h list \<Rightarrow> 'h list res" where
  "set_irq_handler irq_nr hdl table =
     (if 0 \<le> irq_nr \<and> irq_nr < int (length table) then Inr (table[nat irq_nr := hdl])
      else Inl Bad_access)"

section \<open>Properties\<close>

lemma mask_bits_u32:
  "(0xff :: u32) = mask 8" "(0xffff :: u32) = mask 16" "(0xfffff :: u32) = mask 20"
  "(0xff000000 :: u32) = push_bit 24 (mask 8)" "(0xf0000 :: u32) = push_bit 16 (mask 4)"
  "(0x00ffff00 :: u32) = push_bit 8 (mask 16)" "(0xffff0000 :: u32) = push_bit 16 (mask 16)"
  "(0xfff0ffff :: u32) = mask 16 OR push_bit 20 (mask 12)"
  "(0x00f0ff00 :: u32) = push_bit 8 (mask 8) OR push_bit 20 (mask 4)"
  "(0xf00ff :: u32) = mask 8 OR push_bit 16 (mask 4)"
  by (simp_all add: mask_eq_exp_minus_1)

lemma u32_eqI:
  assumes "\<And>n. n < 8 \<Longrightarrow> bit a n = bit b n" "\<And>n. 8 \<le> n \<Longrightarrow> n < 16 \<Longrightarrow> bit a n = bit b n"
    "\<And>n. 16 \<le> n \<Longrightarrow> n < 20 \<Longrightarrow> bit a n = bit b n" "\<And>n. 20 \<le> n \<Longrightarrow> n < 24 \<Longrightarrow> bit a n = bit b n"
    "\<And>n. 24 \<le> n \<Longrightarrow> n < 32 \<Longrightarrow> bit a n = bit b n"
  shows "a = (b :: u32)"
proof (rule bit_eqI)
  fix n assume "possible_bit TYPE(32 word) n"
  then have "n < 32" by simp
  with assms show "bit a n = bit b n"
    by (cases "n < 8"; cases "n < 16"; cases "n < 20"; cases "n < 24") simp_all
qed

lemmas desc_defs = desc_limit_def desc_base_def desc_attr_def set_desc_limit_def set_desc_base_def
  Let_def desc_struct.simps mask_bits_u32

lemma set_desc_limit_fields:
  "desc_limit (set_desc_limit l d) = l AND 0xfffff"
  "desc_base (set_desc_limit l d) = desc_base d"
  "desc_attr (set_desc_limit l d) = desc_attr d"
  by (rule u32_eqI; simp only: desc_defs; auto simp: bit_simps dest: bit_imp_le_length)+

lemma set_desc_base_fields:
  "desc_base (set_desc_base b d) = b"
  "desc_attr (set_desc_base b d) = desc_attr d"
  "desc_limit (set_desc_base b d) = desc_limit d AND 0xf00ff"
  by (rule u32_eqI; simp only: desc_defs; auto simp: bit_simps dest: bit_imp_le_length)+

text \<open>
  Writing a descriptor's limit stores its low 20 bits and leaves base and attributes alone,
  whatever the descriptor held. Writing the base stores the base and leaves the attributes
  alone, but it clears bits 8 to 15 of the limit: the mask on the low word keeps one byte of the
  limit where it should keep two, and the child process of a \<^verbatim>\<open>fork\<close>, whose descriptors start as
  copies with limit \<^verbatim>\<open>0xfff\<close> pages, is left with \<^verbatim>\<open>0xff\<close>.
\<close>

lemma descriptor_fields:
  "desc_limit (set_desc_limit l d) = l AND 0xfffff \<and> desc_base (set_desc_limit l d) = desc_base d \<and>
   desc_attr (set_desc_limit l d) = desc_attr d \<and>
   desc_base (set_desc_base b d) = b \<and> desc_attr (set_desc_base b d) = desc_attr d \<and>
   desc_limit (set_desc_base b d) = desc_limit d AND 0xf00ff"
  by (simp only: set_desc_limit_fields set_desc_base_fields)

text \<open>
  What is relied on of the two interrupt controllers: reading a mask register yields its value and
  changes nothing, writing one sets it and leaves the other. \<open>ms port e\<close> is the register's value.
\<close>

definition pic_masks :: "'e ports \<Rightarrow> (u16 \<Rightarrow> 'e \<Rightarrow> u8) \<Rightarrow> bool" where
  "pic_masks io ms \<longleftrightarrow> (\<forall>p \<in> {0x21, 0xa1}. \<forall>e v. inb io p e = (ms p e, e) \<and> ms p (outb io p v e) = v \<and>
     (\<forall>q \<in> {0x21, 0xa1}. q \<noteq> p \<longrightarrow> ms q (outb io p v e) = ms q e))"

definition masked :: "(u16 \<Rightarrow> 'e \<Rightarrow> u8) \<Rightarrow> 'e \<Rightarrow> nat \<Rightarrow> bool" where
  "masked ms e irq = bit (ms (if irq < 8 then 0x21 else 0xa1) e) (irq mod 8)"

lemma irq_bit_bit: "bit (irq_bit irq) n \<longleftrightarrow> n = nat (irq mod 8)"
proof -
  have "nat (irq mod 8) < 8" by simp
  then show ?thesis by (auto simp: irq_bit_def bit_simps bit_1_iff)
qed

lemma irq_bit_test: "v AND irq_bit irq = 0 \<longleftrightarrow> \<not> bit v (nat (irq mod 8))"
proof -
  have "bit (v AND irq_bit irq) n \<longleftrightarrow> n = nat (irq mod 8) \<and> bit v n" for n
    by (auto simp: bit_and_iff irq_bit_bit)
  then show ?thesis by (metis bit_0_eq bit_eqI bot_apply bot_bool_def)
qed

lemma same_irq_line:
  assumes "j < 16" "i < 16" "(j < 8) = (i < 8)" "j mod 8 = i mod (8::nat)"
  shows "j = i"
proof (cases "j < 8")
  case True
  with assms show ?thesis by simp
next
  case False
  with assms have "j mod 8 = j - 8" "i mod 8 = i - 8" by (simp_all add: le_mod_geq)
  with False assms show ?thesis by simp
qed

text \<open>
  For the sixteen interrupt lines, \<^verbatim>\<open>enable_irq\<close> clears and \<^verbatim>\<open>disable_irq\<close> sets the line's own mask
  bit, on the controller it belongs to, and no other line's; any other number stops the machine.
\<close>

lemma irq_masking:
  assumes pic: "pic_masks io ms"
  shows "if irq < 0 \<or> 16 \<le> irq
    then enable_irq io irq e = Inl Assert_failed \<and> disable_irq io irq e = Inl Assert_failed
    else \<exists>e1 e2. enable_irq io irq e = Inr e1 \<and> disable_irq io irq e = Inr e2 \<and>
      (\<forall>j < 16. masked ms e1 j = (masked ms e j \<and> int j \<noteq> irq)) \<and>
      (\<forall>j < 16. masked ms e2 j = (masked ms e j \<or> int j = irq))"
proof (cases "irq < 0 \<or> 16 \<le> irq")
  case True
  then show ?thesis by (auto simp: enable_irq_def disable_irq_def assertr_def)
next
  case False
  then obtain i where i: "irq = int i" "i < 16" by (metis not_less zero_le_imp_eq_int of_nat_less_iff of_nat_numeral)
  define p :: u16 where "p = (if irq < 8 then 0x21 else 0xa1)"
  have in_p: "inb io p e = (ms p e, e)" for e using pic by (simp add: pic_masks_def p_def)
  have out: "masked ms (outb io p v e) j =
      (if (j < 8) = (i < 8) then bit v (j mod 8) else masked ms e j)" for j v
    using pic i by (simp add: pic_masks_def masked_def p_def)
  have own: "masked ms e i = bit (ms p e) (i mod 8)" using i by (simp add: masked_def p_def)
  have k: "nat (irq mod 8) = i mod 8" using i by (simp add: nat_mod_distrib)
  have line: "(j < 8) = (i < 8) \<Longrightarrow> j < 16 \<Longrightarrow> j mod 8 = i mod 8 \<longleftrightarrow> j = i" for j
    using same_irq_line [OF _ i(2)] by auto
  have same: "(j < 8) = (i < 8) \<Longrightarrow> bit (ms p e) (j mod 8) = masked ms e j" for j
    using i by (auto simp: masked_def p_def)
  let ?e1 = "if ms p e AND irq_bit irq \<noteq> 0 then outb io p (ms p e AND NOT (irq_bit irq)) e else e"
  let ?e2 = "if ms p e AND irq_bit irq = 0 then outb io p (ms p e OR irq_bit irq) e else e"
  have "enable_irq io irq e = Inr ?e1" "disable_irq io irq e = Inr ?e2"
    using False in_p by (auto simp: enable_irq_def disable_irq_def Let_def p_def [symmetric])
  moreover have "masked ms ?e1 j = (masked ms e j \<and> int j \<noteq> irq)" if j: "j < 16" for j
  proof (cases "masked ms e i")
    case True
    then have "?e1 = outb io p (ms p e AND NOT (irq_bit irq)) e" by (simp add: irq_bit_test k own)
    moreover have "bit (ms p e AND NOT (irq_bit irq)) (j mod 8) \<longleftrightarrow> masked ms e j \<and> j \<noteq> i" if "(j < 8) = (i < 8)"
      using same [OF that] line [OF that j] by (simp add: bit_and_iff bit_not_iff irq_bit_bit k)
    ultimately show ?thesis using i by (cases "(j < 8) = (i < 8)") (auto simp: out)
  next
    case False
    then have "?e1 = e" by (simp add: irq_bit_test k own)
    with False i show ?thesis by auto
  qed
  moreover have "masked ms ?e2 j = (masked ms e j \<or> int j = irq)" if j: "j < 16" for j
  proof (cases "masked ms e i")
    case False
    then have "?e2 = outb io p (ms p e OR irq_bit irq) e" by (simp add: irq_bit_test k own)
    moreover have "bit (ms p e OR irq_bit irq) (j mod 8) \<longleftrightarrow> masked ms e j \<or> j = i" if "(j < 8) = (i < 8)"
      using same [OF that] line [OF that j] by (simp add: bit_or_iff irq_bit_bit k)
    ultimately show ?thesis using i by (cases "(j < 8) = (i < 8)") (auto simp: out)
  next
    case True
    then have "?e2 = e" by (simp add: irq_bit_test k own)
    with True i show ?thesis by auto
  qed
  ultimately show ?thesis unfolding if_not_P [OF False] by blast
qed

text \<open>A pair of controllers as a state: the two mask bytes.\<close>

definition two_pics :: "(u8 \<times> u8) ports" where
  "two_pics = \<lparr>inb = (\<lambda>p e. (if p = 0x21 then fst e else snd e, e)),
     outb = (\<lambda>p v e. if p = 0x21 then (v, snd e) else (fst e, v)),
     inw = (\<lambda>p e. (0, e)), outw = (\<lambda>p v e. e)\<rparr>"

lemma irq_masking_witness:
  "\<exists>e1. enable_irq two_pics 9 (0xff, 0xff) = Inr e1 \<and> \<not> masked (\<lambda>p e. if p = 0x21 then fst e else snd e) e1 9"
proof -
  have "pic_masks two_pics (\<lambda>p e. if p = 0x21 then fst e else snd e)"
    by (simp add: pic_masks_def two_pics_def)
  from irq_masking [OF this, of 9 "(0xff, 0xff)"] show ?thesis by auto
qed

end
