(* ===== verification/C_String.thy ===== *)
theory C_String imports Prelude begin

text \<open>
  The byte and string routines of \<^verbatim>\<open>lib/string.c\<close> over a byte-addressed memory of
  \<^verbatim>\<open>2^32\<close> cells: pointer arithmetic wraps, \<^verbatim>\<open>char\<close> is signed, \<^verbatim>\<open>size_t\<close> is 32 bits wide and its
  decrements wrap. A loop with a counter runs by recursion on the counter; a loop that stops
  only at a terminator is a partial function whose \<open>None\<close> is the loop that never ends.
\<close>

type_synonym mem = "addr_t \<Rightarrow> u8"

abbreviation NULL :: addr_t where "NULL \<equiv> 0"

text \<open>A loop result as a routine result: a loop that does not end is \<open>Hang\<close>.\<close>

definition of_loop :: "'a option \<Rightarrow> 'a res" where
  "of_loop r = (case r of None \<Rightarrow> Inl Hang | Some x \<Rightarrow> Inr x)"

lemma of_loop_simps [simp]: "of_loop (Some x) = Inr x" "of_loop None = Inl Hang"
  by (simp_all add: of_loop_def)

section \<open>Memory blocks\<close>

text \<open>\<^verbatim>\<open>do { *(dst++) = *(src++); } while (--num);\<close>\<close>

fun copy_up :: "addr_t \<Rightarrow> addr_t \<Rightarrow> nat \<Rightarrow> mem \<Rightarrow> mem" where
  "copy_up dst src 0 m = m"
| "copy_up dst src (Suc n) m = copy_up (dst + 1) (src + 1) n (m(dst := m src))"

text \<open>\<^verbatim>\<open>do { *(--dst) = *(--src); } while (--num);\<close>\<close>

fun copy_down :: "addr_t \<Rightarrow> addr_t \<Rightarrow> nat \<Rightarrow> mem \<Rightarrow> mem" where
  "copy_down dst src 0 m = m"
| "copy_down dst src (Suc n) m =
     (let dst' = dst - 1; src' = src - 1 in copy_down dst' src' n (m(dst' := m src')))"

text \<open>\<^verbatim>\<open>do { *(ptr++) = value; } while (--num);\<close>\<close>

fun fill_up :: "addr_t \<Rightarrow> u8 \<Rightarrow> nat \<Rightarrow> mem \<Rightarrow> mem" where
  "fill_up ptr v 0 m = m"
| "fill_up ptr v (Suc n) m = fill_up (ptr + 1) v n (m(ptr := v))"

definition memcpy :: "addr_t \<Rightarrow> addr_t \<Rightarrow> u32 \<Rightarrow> mem \<Rightarrow> (addr_t \<times> mem) res" where
  "memcpy dst src num m =
     assertr (dst \<noteq> NULL) (assertr (src \<noteq> NULL)
       (assertr (dst + num \<le> src \<or> dst \<ge> src + num)
         (Inr (dst, if num \<noteq> 0 \<and> dst \<noteq> src then copy_up dst src (unat num) m else m))))"

definition memmove :: "addr_t \<Rightarrow> addr_t \<Rightarrow> u32 \<Rightarrow> mem \<Rightarrow> (addr_t \<times> mem) res" where
  "memmove dst src num m =
     assertr (dst \<noteq> NULL) (assertr (src \<noteq> NULL)
       (if num = 0 \<or> dst = src then Inr (dst, m)
        else if dst > src then Inr (dst, copy_down (dst + num) (src + num) (unat num) m)
        else memcpy dst src num m))"

definition memset :: "addr_t \<Rightarrow> u32 \<Rightarrow> u32 \<Rightarrow> mem \<Rightarrow> (addr_t \<times> mem) res" where
  "memset ptr value num m =
     assertr (ptr \<noteq> NULL)
       (Inr (ptr, if num = 0 then m else fill_up ptr (ucast (value AND 0xff)) (unat num) m))"

section \<open>Strings\<close>

text \<open>The value of a \<^verbatim>\<open>char\<close> promoted to \<^verbatim>\<open>int\<close>.\<close>

definition char_int :: "u8 \<Rightarrow> int" where
  "char_int c = sint c"

partial_function (option) strcpy_loop :: "addr_t \<Rightarrow> addr_t \<Rightarrow> mem \<Rightarrow> mem option" where
  "strcpy_loop p src m =
     (if m src \<noteq> 0 then strcpy_loop (p + 1) (src + 1) (m(p := m src)) else Some (m(p := 0)))"

definition strcpy :: "addr_t \<Rightarrow> addr_t \<Rightarrow> mem \<Rightarrow> (addr_t \<times> mem) res" where
  "strcpy dst src m =
     assertr (dst \<noteq> NULL) (assertr (src \<noteq> NULL)
       (bindr (of_loop (strcpy_loop dst src m)) (\<lambda>m. Inr (dst, m))))"

partial_function (option) strlen_loop :: "mem \<Rightarrow> addr_t \<Rightarrow> addr_t option" where
  "strlen_loop m p = (if m p \<noteq> 0 then strlen_loop m (p + 1) else Some p)"

definition strlen :: "mem \<Rightarrow> addr_t \<Rightarrow> u32 res" where
  "strlen m str =
     assertr (str \<noteq> NULL) (bindr (of_loop (strlen_loop m str)) (\<lambda>p. Inr (p - str)))"

partial_function (option) strchr_loop :: "mem \<Rightarrow> int \<Rightarrow> addr_t \<Rightarrow> addr_t option" where
  "strchr_loop m character str =
     (if m str \<noteq> 0 \<and> char_int (m str) \<noteq> character then strchr_loop m character (str + 1)
      else Some str)"

definition strchr :: "mem \<Rightarrow> addr_t \<Rightarrow> int \<Rightarrow> addr_t res" where
  "strchr m cstr character =
     assertr (cstr \<noteq> NULL) (bindr (of_loop (strchr_loop m character cstr))
       (\<lambda>str. Inr (if char_int (m str) = character then str else NULL)))"

partial_function (option) strrchr_loop ::
  "mem \<Rightarrow> int \<Rightarrow> addr_t \<Rightarrow> addr_t \<Rightarrow> (addr_t \<times> addr_t) option" where
  "strrchr_loop m character str p =
     (if m str \<noteq> 0
      then strrchr_loop m character (str + 1) (if char_int (m str) = character then str else p)
      else Some (str, p))"

definition strrchr :: "mem \<Rightarrow> addr_t \<Rightarrow> int \<Rightarrow> addr_t res" where
  "strrchr m cstr character =
     assertr (cstr \<noteq> NULL) (bindr (of_loop (strrchr_loop m character cstr cstr))
       (\<lambda>(str, p).
          let p = (if char_int (m str) = character then str else p)
          in Inr (if char_int (m p) = character then p else NULL)))"

text \<open>The look-up table \<^verbatim>\<open>T\<close> of \<^verbatim>\<open>strcspn\<close>: the bytes of \<^verbatim>\<open>str2\<close>, its terminator included.\<close>

partial_function (option) strcspn_table :: "mem \<Rightarrow> addr_t \<Rightarrow> (u8 \<Rightarrow> bool) \<Rightarrow> (u8 \<Rightarrow> bool) option" where
  "strcspn_table m match T =
     (let T' = T(m match := True)
      in if m match \<noteq> 0 then strcspn_table m (match + 1) T' else Some T')"

partial_function (option) strcspn_scan :: "mem \<Rightarrow> (u8 \<Rightarrow> bool) \<Rightarrow> addr_t \<Rightarrow> addr_t option" where
  "strcspn_scan m T scan =
     (if T (m scan) then Some scan
      else if m scan \<noteq> 0 then strcspn_scan m T (scan + 1) else Some (scan + 1))"

definition strcspn :: "mem \<Rightarrow> addr_t \<Rightarrow> addr_t \<Rightarrow> u32 res" where
  "strcspn m str1 str2 =
     assertr (str1 \<noteq> NULL) (assertr (str2 \<noteq> NULL)
       (bindr (of_loop (strcspn_table m str2 (\<lambda>_. False)))
         (\<lambda>T. bindr (of_loop (strcspn_scan m T str1)) (\<lambda>scan. Inr (scan - str1)))))"

declare strcpy_loop.simps [code] strlen_loop.simps [code] strchr_loop.simps [code]
  strrchr_loop.simps [code] strcspn_table.simps [code] strcspn_scan.simps [code]

text \<open>
  \<^verbatim>\<open>while (*src != '\0' && num--) *(p++) = *(src++);\<close>: the decrement happens whenever the
  byte is not the terminator, so a loop that stops on an exhausted counter leaves it at
  \<^verbatim>\<open>0xffffffff\<close>.
\<close>

function strncpy_copy :: "addr_t \<Rightarrow> addr_t \<Rightarrow> u32 \<Rightarrow> mem \<Rightarrow> addr_t \<times> u32 \<times> mem" where
  "strncpy_copy p src num m =
     (if m src \<noteq> 0
      then (if num \<noteq> 0 then strncpy_copy (p + 1) (src + 1) (num - 1) (m(p := m src))
            else (p, num - 1, m))
      else (p, num, m))"
  by pat_completeness auto
termination
  by (relation "measure (\<lambda>(p, src, num, m). unat num)") (auto simp: unat_minus_one unat_gt_0)

text \<open>\<^verbatim>\<open>while (num--) *(p++) = '\0';\<close>\<close>

function strncpy_pad :: "addr_t \<Rightarrow> u32 \<Rightarrow> mem \<Rightarrow> mem" where
  "strncpy_pad p num m = (if num \<noteq> 0 then strncpy_pad (p + 1) (num - 1) (m(p := 0)) else m)"
  by pat_completeness auto
termination
  by (relation "measure (\<lambda>(p, num, m). unat num)") (auto simp: unat_minus_one unat_gt_0)

declare strncpy_copy.simps [simp del] strncpy_pad.simps [simp del]

definition strncpy :: "addr_t \<Rightarrow> addr_t \<Rightarrow> u32 \<Rightarrow> mem \<Rightarrow> (addr_t \<times> mem) res" where
  "strncpy dst src num m =
     assertr (dst \<noteq> NULL) (assertr (src \<noteq> NULL)
       (let (p, num, m) = strncpy_copy dst src num m in Inr (dst, strncpy_pad p num m)))"

function strncmp_loop :: "mem \<Rightarrow> addr_t \<Rightarrow> addr_t \<Rightarrow> u32 \<Rightarrow> addr_t \<times> addr_t" where
  "strncmp_loop m str1 str2 num =
     (if num \<noteq> 0 \<and> m str1 = m str2 \<and> m str1 \<noteq> 0
      then strncmp_loop m (str1 + 1) (str2 + 1) (num - 1) else (str1, str2))"
  by pat_completeness auto
termination
  by (relation "measure (\<lambda>(m, str1, str2, num). unat num)") (auto simp: unat_minus_one unat_gt_0)

declare strncmp_loop.simps [simp del]

definition strncmp :: "mem \<Rightarrow> addr_t \<Rightarrow> addr_t \<Rightarrow> u32 \<Rightarrow> int res" where
  "strncmp m str1 str2 num =
     assertr (str1 \<noteq> NULL) (assertr (str2 \<noteq> NULL)
       (if num = 0 then Inr 0
        else let (s1, s2) = strncmp_loop m str1 str2 num
             in Inr (if m s1 = m s2 then 0 else if char_int (m s1) < char_int (m s2) then - 1 else 1)))"

section \<open>Blocks copied, moved and filled\<close>

text \<open>
  Offsets are differences of addresses: \<open>a\<close> lies in the \<open>n\<close> bytes from \<open>p\<close> exactly when
  \<open>unat (a - p) < n\<close>, whether or not the block wraps around the end of memory.
\<close>

lemma unat_diff_Suc:
  fixes a p :: addr_t
  shows "a \<noteq> p \<Longrightarrow> unat (a - p) = Suc (unat (a - (p + 1)))"
proof -
  assume "a \<noteq> p"
  then have ne: "a - p \<noteq> 0" by simp
  have e: "a - (p + 1) = (a - p) - 1" by simp
  have "unat (a - (p + 1)) = unat (a - p) - 1" unfolding e by (rule unat_minus_one [OF ne])
  moreover have "0 < unat (a - p)" using ne by (simp add: unat_gt_0)
  ultimately show ?thesis by linarith
qed

lemma diff_self_plus_one: "p - (p + 1) = (0xffffffff :: addr_t)"
  by simp

lemma unat_minus_one_max: "unat (p - (p + 1) :: addr_t) = 2 ^ 32 - 1"
  by (simp only: diff_self_plus_one) simp

lemma unat_of_nat_addr: "n < 2 ^ 32 \<Longrightarrow> unat (of_nat n :: addr_t) = n"
  by (simp add: unat_of_nat)

definition moved :: "addr_t \<Rightarrow> addr_t \<Rightarrow> nat \<Rightarrow> mem \<Rightarrow> mem" where
  "moved dst src n m = (\<lambda>a. if unat (a - dst) < n then m (src + (a - dst)) else m a)"

lemma copy_up_moved:
  "n \<le> 2 ^ 32 \<Longrightarrow> dst = src \<or> n \<le> unat (dst - src) \<Longrightarrow> copy_up dst src n m = moved dst src n m"
proof (induction n arbitrary: dst src m)
  case 0
  then show ?case by (simp add: moved_def)
next
  case (Suc n)
  have step: "copy_up dst src (Suc n) m = moved (dst + 1) (src + 1) n (m(dst := m src))"
    using Suc.prems by (simp, intro Suc.IH) auto
  have "moved (dst + 1) (src + 1) n (m(dst := m src)) a = moved dst src (Suc n) m a" for a
  proof (cases "a = dst")
    case True
    then show ?thesis
      unfolding moved_def using Suc.prems(1) unat_minus_one_max [of dst] by simp
  next
    case False
    have eq: "src + 1 + (a - (dst + 1)) = src + (a - dst)" by simp
    have ne: "src + (a - dst) \<noteq> dst" if "unat (a - dst) < Suc n"
    proof
      assume e: "src + (a - dst) = dst"
      then have "a - dst = dst - src" by (metis add_diff_cancel_left')
      with that Suc.prems(2) False show False by auto
    qed
    show ?thesis
      using False ne unat_diff_Suc [OF False] by (simp add: moved_def eq)
  qed
  with step show ?case by auto
qed

lemma copy_down_moved:
  "n \<le> 2 ^ 32 \<Longrightarrow> dst = src \<or> n \<le> unat (src - dst) \<Longrightarrow>
   copy_down (dst + of_nat n) (src + of_nat n) n m = moved dst src n m"
proof (induction n arbitrary: m)
  case 0
  then show ?case by (simp add: moved_def)
next
  case (Suc n)
  then have n: "n < 2 ^ 32" by simp
  let ?m = "m(dst + of_nat n := m (src + of_nat n))"
  have un: "unat (of_nat n :: addr_t) = n" using n by (rule unat_of_nat_addr)
  have "moved dst src n ?m a = moved dst src (Suc n) m a" for a
  proof (cases "a = dst + of_nat n")
    case True
    with un show ?thesis by (simp add: moved_def)
  next
    case False
    then have neq: "unat (a - dst) \<noteq> n" using un
      by (metis add_diff_cancel_left' diff_add_cancel word_unat_eq_iff add.commute)
    have "src + (a - dst) \<noteq> dst + of_nat n" if lt: "unat (a - dst) < n"
    proof
      assume "src + (a - dst) = dst + of_nat n"
      then have e: "src - dst = of_nat n - (a - dst)" by (simp add: algebra_simps)
      have "unat (of_nat n - (a - dst)) = n - unat (a - dst)"
        using lt un by (subst unat_sub) (auto simp: word_le_nat_alt)
      then have u: "unat (src - dst) = n - unat (a - dst)" unfolding e .
      from Suc.prems(2) show False
      proof
        assume "dst = src"
        with u lt show False by simp
      next
        assume "Suc n \<le> unat (src - dst)"
        with u show False by simp
      qed
    qed
    with False neq show ?thesis by (auto simp: moved_def)
  qed
  moreover have "copy_down (dst + of_nat (Suc n)) (src + of_nat (Suc n)) (Suc n) m
      = copy_down (dst + of_nat n) (src + of_nat n) n ?m"
    by (simp add: Let_def algebra_simps)
  ultimately show ?case using Suc by auto
qed

lemma fill_up_eq:
  "n \<le> 2 ^ 32 \<Longrightarrow> fill_up p v n m = (\<lambda>a. if unat (a - p) < n then v else m a)"
proof (induction n arbitrary: p m)
  case 0
  then show ?case by simp
next
  case (Suc n)
  have "fill_up p v (Suc n) m a = (if unat (a - p) < Suc n then v else m a)" for a
    using Suc unat_diff_Suc [of a p] unat_minus_one_max [of p] by (cases "a = p") auto
  then show ?case by blast
qed

lemma unat_add_no_wrap:
  "unat (p :: addr_t) + unat n < 2 ^ 32 \<Longrightarrow> unat (p + n) = unat p + unat n"
  by (simp add: unat_plus_if')

lemma moved_0 [simp]: "moved dst src 0 m = m"
  by (simp add: moved_def)

lemma moved_self [simp]: "moved p p n m = m"
  by (rule ext) (simp add: moved_def)

lemma unat_diff_ge:
  fixes p q :: addr_t
  assumes "unat q + n \<le> unat p \<or> unat p + n \<le> unat q" and "unat q + n < 2 ^ 32"
    and "unat p + n < 2 ^ 32" and "0 < n"
  shows "n \<le> unat (p - q)"
  using assms by (auto simp: unat_sub_if')

lemma memcpy_spec:
  assumes "dst \<noteq> NULL" "src \<noteq> NULL"
    and "unat dst + unat num < 2 ^ 32" "unat src + unat num < 2 ^ 32"
  shows "memcpy dst src num m =
    (if unat dst + unat num \<le> unat src \<or> unat src + unat num \<le> unat dst
     then Inr (dst, moved dst src (unat num) m) else Inl Assert_failed)"
proof -
  have le: "dst + num \<le> src \<longleftrightarrow> unat dst + unat num \<le> unat src"
    "src + num \<le> dst \<longleftrightarrow> unat src + unat num \<le> unat dst"
    using assms(3,4) by (simp_all add: word_le_nat_alt unat_add_no_wrap)
  show ?thesis
  proof (cases "unat dst + unat num \<le> unat src \<or> unat src + unat num \<le> unat dst")
    case True
    show ?thesis
    proof (cases "num = 0")
      case False
      then have "unat num \<le> unat (dst - src)" "0 < unat num"
        using True assms by (auto intro!: unat_diff_ge simp: unat_gt_0)
      moreover from this have "dst \<noteq> src" by auto
      moreover have "unat num \<le> 2 ^ 32" using unat_lt_u32 [of num] by simp
      ultimately show ?thesis
        using True False assms(1,2) by (simp add: memcpy_def le copy_up_moved)
    qed (use True assms(1,2) le in \<open>simp add: memcpy_def\<close>)
  qed (use assms(1,2) le in \<open>simp add: memcpy_def\<close>)
qed

lemma memmove_spec:
  assumes "dst \<noteq> NULL" "src \<noteq> NULL"
    and "unat dst + unat num < 2 ^ 32" "unat src + unat num < 2 ^ 32"
  shows "memmove dst src num m =
    (if unat dst < unat src \<and> unat src < unat dst + unat num then Inl Assert_failed
     else Inr (dst, moved dst src (unat num) m))"
proof -
  consider (triv) "num = 0 \<or> dst = src" | (down) "num \<noteq> 0" "unat src < unat dst"
    | (up) "num \<noteq> 0" "unat dst < unat src"
    by (metis linorder_less_linear word_unat_eq_iff)
  then show ?thesis
  proof cases
    case triv
    with assms show ?thesis by (auto simp: memmove_def)
  next
    case down
    then have "unat num \<le> unat (src - dst)"
      using assms(3) by (simp add: unat_sub_if')
    moreover have "unat num \<le> 2 ^ 32" using unat_lt_u32 [of num] by simp
    ultimately have "copy_down (dst + of_nat (unat num)) (src + of_nat (unat num)) (unat num) m
        = moved dst src (unat num) m"
      by (intro copy_down_moved) auto
    with down assms(1,2) show ?thesis by (auto simp: memmove_def word_less_nat_alt)
  next
    case up
    then have "memmove dst src num m = memcpy dst src num m"
      using assms(1,2) by (auto simp: memmove_def word_less_nat_alt)
    then show ?thesis using up assms by (auto simp: memcpy_spec unat_gt_0)
  qed
qed

lemma memset_spec:
  "ptr \<noteq> NULL \<Longrightarrow> memset ptr v num m =
     Inr (ptr, \<lambda>a. if unat (a - ptr) < unat num then ucast (v AND 0xff) else m a)"
  using unat_lt_u32 [of num] by (simp add: memset_def fill_up_eq unat_gt_0)

section \<open>Strings as lists of bytes\<close>

text \<open>\<open>cstr m p s\<close>: at \<open>p\<close> stand the bytes \<open>s\<close>, none of them \<open>0\<close>, and then a terminator.\<close>

fun cstr :: "mem \<Rightarrow> addr_t \<Rightarrow> u8 list \<Rightarrow> bool" where
  "cstr m p [] \<longleftrightarrow> m p = 0"
| "cstr m p (c # s) \<longleftrightarrow> c \<noteq> 0 \<and> m p = c \<and> cstr m (p + 1) s"

lemma strlen_loop_cstr: "cstr m p s \<Longrightarrow> strlen_loop m p = Some (p + of_nat (length s))"
proof (induction s arbitrary: p)
  case (Cons c s)
  then show ?case by (subst strlen_loop.simps) (simp add: algebra_simps)
qed (simp add: strlen_loop.simps)

lemma strlen_cstr: "p \<noteq> NULL \<Longrightarrow> cstr m p s \<Longrightarrow> strlen m p = Inr (of_nat (length s))"
  by (simp add: strlen_def strlen_loop_cstr)

lemma strcspn_table_cstr:
  "cstr m q t \<Longrightarrow> strcspn_table m q T = Some (\<lambda>c. T c \<or> c = 0 \<or> c \<in> set t)"
proof (induction t arbitrary: q T)
  case Nil
  then show ?case by (subst strcspn_table.simps) (auto simp: Let_def)
next
  case (Cons c t)
  then show ?case by (subst strcspn_table.simps) (auto simp: Let_def)
qed

lemma strcspn_scan_cstr:
  "cstr m p s \<Longrightarrow> T 0 \<Longrightarrow>
   strcspn_scan m T p = Some (p + of_nat (length (takeWhile (\<lambda>c. \<not> T c) s)))"
proof (induction s arbitrary: p)
  case Nil
  then show ?case by (subst strcspn_scan.simps) simp
next
  case (Cons c s)
  then show ?case by (subst strcspn_scan.simps) (auto simp: algebra_simps)
qed

lemma cstr_nonzero: "cstr m p s \<Longrightarrow> 0 \<notin> set s"
  by (induction s arbitrary: p) auto

lemma strcspn_cstr:
  assumes "p \<noteq> NULL" "q \<noteq> NULL" "cstr m p s" "cstr m q t"
  shows "strcspn m p q = Inr (of_nat (length (takeWhile (\<lambda>c. c \<notin> set t) s)))"
proof -
  have "takeWhile (\<lambda>c. c \<noteq> 0 \<and> c \<notin> set t) s = takeWhile (\<lambda>c. c \<notin> set t) s"
    using cstr_nonzero [OF assms(3)] by (intro takeWhile_cong) auto
  then show ?thesis
    using assms by (simp add: strcspn_def strcspn_table_cstr strcspn_scan_cstr)
qed

lemma strchr_loop_cstr:
  "cstr m p s \<Longrightarrow>
   strchr_loop m ch p = Some (p + of_nat (length (takeWhile (\<lambda>c. char_int c \<noteq> ch) s)))"
proof (induction s arbitrary: p)
  case Nil
  then show ?case by (subst strchr_loop.simps) simp
next
  case (Cons c s)
  then show ?case by (subst strchr_loop.simps) (auto simp: algebra_simps)
qed

text \<open>The last occurrence: the length of the string up to and excluding it.\<close>

fun last_pos :: "('a \<Rightarrow> bool) \<Rightarrow> 'a list \<Rightarrow> nat option" where
  "last_pos P [] = None"
| "last_pos P (x # xs) =
     (case last_pos P xs of Some i \<Rightarrow> Some (Suc i) | None \<Rightarrow> if P x then Some 0 else None)"

lemma strrchr_loop_cstr:
  "cstr m p s \<Longrightarrow>
   strrchr_loop m ch p q =
     Some (p + of_nat (length s),
           case last_pos (\<lambda>c. char_int c = ch) s of Some i \<Rightarrow> p + of_nat i | None \<Rightarrow> q)"
proof (induction s arbitrary: p q)
  case Nil
  then show ?case by (subst strrchr_loop.simps) simp
next
  case (Cons c s)
  then show ?case
    by (subst strrchr_loop.simps) (auto simp: algebra_simps split: option.splits)
qed

lemma cstr_nth: "cstr m p s \<Longrightarrow> i < length s \<Longrightarrow> m (p + of_nat i) = s ! i \<and> s ! i \<noteq> 0"
proof (induction s arbitrary: p i)
  case (Cons c s)
  show ?case
  proof (cases i)
    case (Suc j)
    with Cons show ?thesis using Cons.IH [of "p + 1" j] by (simp add: algebra_simps)
  qed (use Cons in auto)
qed simp

lemma cstr_end: "cstr m p s \<Longrightarrow> m (p + of_nat (length s)) = 0"
proof (induction s arbitrary: p)
  case (Cons c s)
  then have "m (p + 1 + of_nat (length s)) = 0" by simp
  then show ?case by (simp add: algebra_simps)
qed simp

lemma last_pos_Some: "last_pos P xs = Some i \<Longrightarrow> i < length xs \<and> P (xs ! i)"
  by (induction xs arbitrary: i) (auto split: option.splits if_splits)

lemma last_pos_None: "last_pos P xs = None \<longleftrightarrow> (\<forall>x \<in> set xs. \<not> P x)"
  by (induction xs) (auto split: option.splits)

lemma strrchr_cstr:
  assumes "p \<noteq> NULL" "cstr m p s" "ch \<noteq> 0"
  shows "strrchr m p ch = Inr (case last_pos (\<lambda>c. char_int c = ch) s of
                                 Some i \<Rightarrow> p + of_nat i | None \<Rightarrow> NULL)"
proof (cases "last_pos (\<lambda>c. char_int c = ch) s")
  case None
  have "char_int (m p) \<noteq> ch"
    using assms None by (cases s) (auto simp: last_pos_None char_int_def split: option.splits)
  then show ?thesis
    using assms None
    by (auto simp: strrchr_def strrchr_loop_cstr Let_def cstr_end char_int_def)
next
  case (Some i)
  then have "char_int (m (p + of_nat i)) = ch"
    using last_pos_Some [OF Some] cstr_nth [OF assms(2)] by auto
  then show ?thesis
    using assms Some
    by (auto simp: strrchr_def strrchr_loop_cstr Let_def cstr_end char_int_def)
qed

section \<open>Bounded copies and comparisons\<close>

lemma unat_pred: "(n :: u32) \<noteq> 0 \<Longrightarrow> unat n = Suc (unat (n - 1))"
  by (simp add: unat_minus_one unat_gt_0)

lemma strncpy_pad_eq: "strncpy_pad p num m = (\<lambda>a. if unat (a - p) < unat num then 0 else m a)"
proof (induction p num m rule: strncpy_pad.induct)
  case (1 p num m)
  show ?case
  proof (cases "num = 0")
    case True
    then show ?thesis by (simp add: strncpy_pad.simps)
  next
    case False
    have lt: "unat (num - 1) < 2 ^ 32 - 1"
      using unat_pred [OF False] unat_lt_u32 [of num] by simp
    have step: "strncpy_pad p num m
        = (\<lambda>a. if unat (a - (p + 1)) < unat (num - 1) then 0 else (m(p := 0)) a)"
      using False 1 [OF False] by (subst strncpy_pad.simps) (simp only: if_True not_False_eq_True)
    have "strncpy_pad p num m a = (if unat (a - p) < unat num then 0 else m a)" for a
    proof (cases "a = p")
      case True
      with False lt unat_minus_one_max [of p] show ?thesis
        by (simp add: step unat_gt_0)
    next
      case ne: False
      with unat_diff_Suc [OF ne] unat_pred [OF False] show ?thesis
        by (simp add: step)
    qed
    then show ?thesis by blast
  qed
qed

text \<open>
  The copying loop on a source whose unread bytes it does not overwrite: what it stores, where
  it stops, and what it leaves in the counter.
\<close>

definition stored :: "addr_t \<Rightarrow> u8 list \<Rightarrow> mem \<Rightarrow> mem" where
  "stored p bs m = (\<lambda>a. if unat (a - p) < length bs then bs ! unat (a - p) else m a)"

lemma stored_Nil [simp]: "stored p [] m = m"
  by (simp add: stored_def)

lemma stored_Cons:
  assumes "length bs < 2 ^ 32 - 1"
  shows "stored (p + 1) bs (m(p := b)) = stored p (b # bs) m"
proof (rule ext)
  fix a
  show "stored (p + 1) bs (m(p := b)) a = stored p (b # bs) m a"
  proof (cases "a = p")
    case True
    with assms unat_minus_one_max [of p] show ?thesis by (simp add: stored_def)
  next
    case False
    with unat_diff_Suc [OF False] show ?thesis by (simp add: stored_def)
  qed
qed

lemma cstr_upd:
  "cstr m q s \<Longrightarrow> length s < unat (p - q) \<or> q = p + 1 \<and> length s < 2 ^ 32 - 1 \<Longrightarrow> cstr (m(p := b)) q s"
proof (induction s arbitrary: q)
  case Nil
  then show ?case by (auto dest: sym)
next
  case (Cons c s)
  have ne: "p \<noteq> q" using Cons.prems(2) by auto
  have "length s < unat (p - (q + 1))"
  proof (cases "q = p + 1")
    case True
    have e: "p - (p + 1 + 1) = (0xfffffffe :: addr_t)" by simp
    from True Cons.prems(2) unat_minus_one_max [of p] show ?thesis by (auto simp: e)
  next
    case False
    with Cons.prems(2) unat_diff_Suc [OF ne] show ?thesis by simp
  qed
  with Cons ne show ?case by simp
qed

lemma strncpy_copy_cstr:
  assumes "cstr m src s" and "dst = src \<or> length s < unat (dst - src)" and "length s < 2 ^ 32 - 1"
  shows "strncpy_copy dst src num m =
    (dst + of_nat (min (length s) (unat num)),
     if length s \<le> unat num then num - of_nat (length s) else - 1,
     stored dst (take (unat num) s) m)"
  using assms
proof (induction s arbitrary: dst src num m)
  case Nil
  then show ?case by (simp add: strncpy_copy.simps)
next
  case (Cons c s)
  show ?case
  proof (cases "num = 0")
    case True
    with Cons.prems show ?thesis by (subst strncpy_copy.simps) simp
  next
    case False
    let ?m = "m(dst := m src)"
    have tail: "cstr ?m (src + 1) s"
    proof (rule cstr_upd)
      show "cstr m (src + 1) s" using Cons.prems(1) by simp
      show "length s < unat (dst - (src + 1)) \<or> src + 1 = dst + 1 \<and> length s < 2 ^ 32 - 1"
        using Cons.prems(2,3) unat_diff_Suc [of dst src] by auto
    qed
    have "strncpy_copy (dst + 1) (src + 1) (num - 1) ?m =
      (dst + 1 + of_nat (min (length s) (unat (num - 1))),
       if length s \<le> unat (num - 1) then num - 1 - of_nat (length s) else - 1,
       stored (dst + 1) (take (unat (num - 1)) s) ?m)"
      using Cons.prems by (intro Cons.IH [OF tail]) auto
    moreover have "strncpy_copy dst src num m = strncpy_copy (dst + 1) (src + 1) (num - 1) ?m"
      using Cons.prems(1) False by (subst strncpy_copy.simps) simp
    moreover have "stored (dst + 1) (take (unat (num - 1)) s) ?m = stored dst (take (unat num) (c # s)) m"
      using Cons.prems(1,3) unat_pred [OF False] by (simp add: stored_Cons)
    ultimately show ?thesis
      using unat_pred [OF False] by (auto simp: algebra_simps)
  qed
qed

lemma strcpy_loop_cstr:
  "cstr m src s \<Longrightarrow> length s < unat (dst - src) \<Longrightarrow> length s < 2 ^ 32 - 1 \<Longrightarrow>
   strcpy_loop dst src m = Some (stored dst (s @ [0]) m)"
proof (induction s arbitrary: dst src m)
  case Nil
  have "stored dst [0] m = m(dst := 0)" by (rule ext) (auto simp: stored_def unat_eq_0)
  with Nil show ?case by (subst strcpy_loop.simps) simp
next
  case (Cons c s)
  have ne: "dst \<noteq> src" using Cons.prems(2) by auto
  have t: "cstr (m(dst := c)) (src + 1) s"
    using Cons.prems unat_diff_Suc [OF ne] by (intro cstr_upd) auto
  have "strcpy_loop (dst + 1) (src + 1) (m(dst := c)) = Some (stored (dst + 1) (s @ [0]) (m(dst := c)))"
    by (rule Cons.IH [OF t]) (use Cons.prems in simp_all)
  with Cons.prems show ?case
    by (subst strcpy_loop.simps) (simp add: stored_Cons del: fun_upd_apply)
qed

text \<open>A source that fits: its bytes, then zeros up to the bound, nothing else.\<close>

lemma strncpy_fits:
  assumes "dst \<noteq> NULL" "src \<noteq> NULL" "cstr m src s"
    and "dst = src \<or> length s < unat (dst - src)" and "length s \<le> unat num" "length s < 2 ^ 32 - 1"
  shows "strncpy dst src num m =
    Inr (dst, stored dst (s @ replicate (unat num - length s) 0) m)"
proof -
  let ?n = "num - of_nat (length s)"
  have len: "unat (of_nat (length s) :: u32) = length s"
    using assms(6) by (intro unat_of_nat_addr) simp
  have n: "unat ?n = unat num - length s"
    using assms(5) len by (simp add: unat_sub_if')
  have "strncpy_pad (dst + of_nat (length s)) ?n (stored dst s m) a
      = stored dst (s @ replicate (unat num - length s) 0) m a" for a
  proof (cases "unat (a - dst) < length s")
    case True
    have "a - (dst + of_nat (length s)) = (a - dst) - of_nat (length s)" by simp
    then have "unat (a - (dst + of_nat (length s))) = unat (a - dst) + 2 ^ 32 - length s"
      using True len by (simp only: unat_sub_if') simp
    moreover from this have "\<not> unat (a - (dst + of_nat (length s))) < unat num - length s"
      using assms(5) unat_lt_u32 [of num] by linarith
    ultimately show ?thesis
      using True n by (simp add: strncpy_pad_eq stored_def nth_append)
  next
    case False
    have "a - (dst + of_nat (length s)) = (a - dst) - of_nat (length s)" by simp
    then have "unat (a - (dst + of_nat (length s))) = unat (a - dst) - length s"
      using False len by (simp only: unat_sub_if') simp
    with False n assms(5) show ?thesis
      by (auto simp: strncpy_pad_eq stored_def nth_append)
  qed
  moreover have "strncpy_copy dst src num m = (dst + of_nat (length s), ?n, stored dst s m)"
    using assms by (subst strncpy_copy_cstr [of m src s]) (auto simp: min_def)
  ultimately show ?thesis using assms(1,2) by (simp add: strncpy_def Let_def) blast
qed

text \<open>
  A source longer than the bound: the counter has wrapped to \<^verbatim>\<open>0xffffffff\<close> when the padding
  loop starts, and the padding writes that many zeros.
\<close>

lemma strncpy_overruns:
  assumes "dst \<noteq> NULL" "src \<noteq> NULL" "cstr m src s"
    and "dst = src \<or> length s < unat (dst - src)" and "unat num < length s" "length s < 2 ^ 32 - 1"
  shows "\<exists>m'. strncpy dst src num m = Inr (dst, m') \<and>
    (\<forall>a. a \<noteq> dst + num - 1 \<longrightarrow> m' a = 0)"
proof -
  have "strncpy_copy dst src num m = (dst + num, - 1, stored dst (take (unat num) s) m)"
    using assms by (subst strncpy_copy_cstr [of m src s]) (auto simp: min_def)
  moreover have "unat (a - (dst + num)) < unat (- 1 :: u32)" if "a \<noteq> dst + num - 1" for a
  proof -
    have "a - (dst + num) \<noteq> - 1" using that by (metis add_diff_cancel_left' diff_add_cancel uminus_add_conv_diff add.commute)
    moreover have "(- 1 :: u32) = 0xffffffff" by simp
    ultimately have "unat (a - (dst + num)) \<noteq> unat (- 1 :: u32)" by (metis word_unat_eq_iff)
    moreover have "unat (- 1 :: u32) = 2 ^ 32 - 1" by (simp only: \<open>(- 1 :: u32) = 0xffffffff\<close>) simp
    ultimately show ?thesis using unat_lt_u32 [of "a - (dst + num)"] by linarith
  qed
  ultimately show ?thesis
    using assms(1,2) by (simp add: strncpy_def strncpy_pad_eq)
qed

text \<open>
  The comparison of at most \<open>n\<close> leading bytes of two strings, terminators included, as the C
  standard describes \<^verbatim>\<open>strncmp\<close> (with \<^verbatim>\<open>char\<close> signed).
\<close>

fun str_cmp :: "nat \<Rightarrow> u8 list \<Rightarrow> u8 list \<Rightarrow> int" where
  "str_cmp 0 s t = 0"
| "str_cmp (Suc n) s t =
     (let c = (case s of [] \<Rightarrow> 0 | c # _ \<Rightarrow> c); d = (case t of [] \<Rightarrow> 0 | d # _ \<Rightarrow> d)
      in if c \<noteq> d then (if char_int c < char_int d then - 1 else 1)
         else if c = 0 then 0 else str_cmp n (tl s) (tl t))"

lemma strncmp_loop_cstr:
  assumes "cstr m p s" "cstr m q t"
  shows "(case strncmp_loop m p q n of (a, b) \<Rightarrow>
            if m a = m b then 0 else if char_int (m a) < char_int (m b) then - 1 else 1)
         = str_cmp (Suc (unat n)) s t"
  using assms
proof (induction m p q n arbitrary: s t rule: strncmp_loop.induct)
  case (1 m p q n)
  have hp: "m p = (case s of [] \<Rightarrow> 0 | c # _ \<Rightarrow> c)" using 1(2) by (cases s) simp_all
  have hq: "m q = (case t of [] \<Rightarrow> 0 | d # _ \<Rightarrow> d)" using 1(3) by (cases t) simp_all
  show ?case
  proof (cases "n \<noteq> 0 \<and> m p = m q \<and> m p \<noteq> 0")
    case True
    have "cstr m (p + 1) (tl s)" using True hp 1(2) by (cases s) simp_all
    moreover have "cstr m (q + 1) (tl t)" using True hq 1(3) by (cases t) simp_all
    ultimately have "(case strncmp_loop m (p + 1) (q + 1) (n - 1) of (a, b) \<Rightarrow>
        if m a = m b then 0 else if char_int (m a) < char_int (m b) then - 1 else 1)
      = str_cmp (Suc (unat (n - 1))) (tl s) (tl t)"
      using 1(1) [OF True] by blast
    moreover have "strncmp_loop m p q n = strncmp_loop m (p + 1) (q + 1) (n - 1)"
      by (subst strncmp_loop.simps, subst if_P [OF True]) (rule refl)
    moreover have "str_cmp (Suc (unat n)) s t = str_cmp (unat n) (tl s) (tl t)"
    proof -
      have "m q \<noteq> 0" "m p = m q" using True by metis+
      then show ?thesis by (simp add: Let_def hp [symmetric] hq [symmetric])
    qed
    moreover have "unat n = Suc (unat (n - 1))" using True by (intro unat_pred) simp
    ultimately show ?thesis by (simp only:)
  next
    case False
    have "strncmp_loop m p q n = (p, q)"
      by (subst strncmp_loop.simps, subst if_not_P [OF False]) (rule refl)
    with False show ?thesis by (auto simp: Let_def hp [symmetric] hq [symmetric] unat_gt_0)
  qed
qed

lemma strncmp_cstr:
  assumes "p \<noteq> NULL" "q \<noteq> NULL" "cstr m p s" "cstr m q t"
  shows "strncmp m p q n = Inr (str_cmp (if n = 0 then 0 else Suc (unat n)) s t)"
  using assms(1,2) strncmp_loop_cstr [OF assms(3,4), of n]
  by (simp add: strncmp_def Let_def case_prod_unfold del: str_cmp.simps(2))

section \<open>Properties\<close>

text \<open>
  C38: \<^verbatim>\<open>memmove\<close> on two blocks inside the address space. When the destination does not start below
  an overlapping source, the block arrives intact, overlap included, and nothing else changes.
  When the destination starts below the source and the blocks overlap, the call hands over to
  \<^verbatim>\<open>memcpy\<close>, whose overlap assertion stops the machine.
\<close>

theorem memmove_result:
  assumes "dst \<noteq> NULL" "src \<noteq> NULL"
    and "unat dst + unat num < 2 ^ 32" "unat src + unat num < 2 ^ 32"
  shows "memmove dst src num m =
    (if unat dst < unat src \<and> unat src < unat dst + unat num then Inl Assert_failed
     else Inr (dst, \<lambda>a. if unat (a - dst) < unat num then m (src + (a - dst)) else m a))"
  using memmove_spec [OF assms, of m] by (simp only: moved_def)

theorem memmove_result_witness:
  "\<forall>m. memmove 100 101 2 m = Inl Assert_failed \<and>
    memmove 101 100 2 m = Inr (101, \<lambda>a. if unat (a - 101) < 2 then m (100 + (a - 101)) else m a)"
proof
  fix m :: mem
  show "memmove 100 101 2 m = Inl Assert_failed \<and>
    memmove 101 100 2 m = Inr (101, \<lambda>a. if unat (a - 101) < 2 then m (100 + (a - 101)) else m a)"
    using memmove_result [of 100 101 2 m] memmove_result [of 101 100 2 m] by simp
qed

text \<open>
  \<^verbatim>\<open>strncpy\<close> of a string that fits the bound stores the string and pads it with zeros up to
  the bound, and touches nothing else. For a string longer than the bound the counter wraps, and
  the padding loop overwrites the whole memory with zeros, all but the one byte before the place
  where the padding started.
\<close>

lemma strncpy_result:
  assumes "dst \<noteq> NULL" "src \<noteq> NULL" "cstr m src s"
    and "length s < unat (dst - src)" and "length s < 2 ^ 32 - 1"
  shows "if length s \<le> unat num
    then strncpy dst src num m = Inr (dst, stored dst (s @ replicate (unat num - length s) 0) m)
    else \<exists>m'. strncpy dst src num m = Inr (dst, m') \<and> (\<forall>a. a \<noteq> dst + num - 1 \<longrightarrow> m' a = 0)"
  using strncpy_fits [OF assms(1-3), of num] strncpy_overruns [OF assms(1-3), of num] assms(4,5)
  by auto

lemma strncpy_result_witness:
  "\<exists>m'. strncpy 200 100 1 ((\<lambda>_. 7)(102 := 0)) = Inr (200, m') \<and> (\<forall>a. a \<noteq> 200 \<longrightarrow> m' a = 0)"
proof -
  have "cstr ((\<lambda>_. 7)(102 := 0)) 100 [7, 7]" by simp
  from strncpy_result [OF _ _ this, of 200 1] show ?thesis by simp
qed

text \<open>
  C39: \<^verbatim>\<open>strncmp\<close> with a bound \<open>n > 0\<close> compares one byte more than it is asked to: on any two strings
  its result is that of the standard comparison of at most \<open>n + 1\<close> bytes.
\<close>

theorem strncmp_result:
  assumes "p \<noteq> NULL" "q \<noteq> NULL" "cstr m p s" "cstr m q t"
  shows "strncmp m p q n = Inr (str_cmp (if n = 0 then 0 else unat n + 1) s t)"
  using strncmp_cstr [OF assms, of n] by simp

theorem strncmp_result_witness:
  "strncmp ((\<lambda>_. 0)(100 := 97, 101 := 98, 200 := 97, 201 := 99)) 100 200 1 = Inr (- 1)
   \<and> str_cmp 1 [97, 98] [97, 99] = 0"
proof -
  let ?m = "(\<lambda>_. 0)(100 := 97, 101 := 98, 200 := 97, 201 := 99) :: mem"
  have "cstr ?m 100 [97, 98]" "cstr ?m 200 [97, 99]" by simp_all
  from strncmp_result [OF _ _ this, of 1]
  have "strncmp ?m 100 200 1 = Inr (str_cmp (Suc (Suc 0)) [97, 98] [97, 99])" by simp
  then show ?thesis by (simp add: Let_def char_int_def)
qed

end
