(* ===== verification/Hd.thy ===== *)
theory Hd imports Descriptor C_String begin

text \<open>
  The IDE disk driver (\<^verbatim>\<open>kernel/blk_drv/hd.c\<close>): polling the status register, identifying the
  drives, encoding a sector number into the address registers in the three addressing modes, and
  transferring sectors through the data port. The controller is whatever stands behind the
  ports; what a drive makes of the register writes is read off them by the task file below.
\<close>

definition DATA :: u16 where "DATA = 0x1f0"
definition FEATURES :: u16 where "FEATURES = 0x1f1"
definition SECT_CNT :: u16 where "SECT_CNT = 0x1f2"
definition ADDR_0 :: u16 where "ADDR_0 = 0x1f3"
definition ADDR_1 :: u16 where "ADDR_1 = 0x1f4"
definition ADDR_2 :: u16 where "ADDR_2 = 0x1f5"
definition DEVICE :: u16 where "DEVICE = 0x1f6"
definition COMMAND :: u16 where "COMMAND = 0x1f7"
definition STATUS :: u16 where "STATUS = 0x1f7"
definition DEV_CTRL :: u16 where "DEV_CTRL = 0x3f6"

definition STAT_DRQ :: u8 where "STAT_DRQ = 0x08"
definition STAT_BUSY :: u8 where "STAT_BUSY = 0x80"

definition NORM_WAIT_TIME :: nat where "NORM_WAIT_TIME = 10000"
definition LONG_WAIT_TIME :: nat where "LONG_WAIT_TIME = 100000"

record hd_dev =
  addr_mode :: int
  sect_cnt :: u32
  sect_cnt_ex :: u32

text \<open>
  The driver's table, the two boot parameters it reads, the memory it transfers to and from, and
  the devices.
\<close>

record 'e hd_state =
  hd :: "hd_dev list"
  sect_per_trk :: u8
  head_nr :: u8
  dmem :: mem
  dev_st :: 'e

text \<open>\<^verbatim>\<open>while (--time_out && (inb_p(STATUS) & stat) != value);\<close>\<close>

fun wait_status :: "'e ports \<Rightarrow> u8 \<Rightarrow> u8 \<Rightarrow> nat \<Rightarrow> 'e \<Rightarrow> (nat \<times> 'e) res" where
  "wait_status io stat v 0 e = Inl Assert_failed"
| "wait_status io stat v (Suc t) e =
     (if t = 0 then Inr (0, e)
      else let (b, e) = inb io STATUS e in
           if b AND stat \<noteq> v then wait_status io stat v t e else Inr (t, e))"

fun outs :: "'e ports \<Rightarrow> (u16 \<times> u8) list \<Rightarrow> 'e \<Rightarrow> 'e" where
  "outs io [] e = e"
| "outs io ((p, v) # ws) e = outs io ws (outb io p v e)"

text \<open>The words of the identification block: \<^verbatim>\<open>buf[i]\<close>.\<close>

definition word_at :: "u8 list \<Rightarrow> nat \<Rightarrow> u16" where
  "word_at bs i = ucast (bs ! (2 * i)) OR push_bit 8 (ucast (bs ! (2 * i + 1)))"

definition identified :: "u8 list \<Rightarrow> hd_dev \<Rightarrow> hd_dev" where
  "identified bs d =
     (let d = d\<lparr>addr_mode := (if word_at bs 49 AND 0x0200 \<noteq> 0
                              then (if word_at bs 83 AND 0x400 \<noteq> 0 then 2 else 1) else 0)\<rparr>
      in if addr_mode d = 1
         then d\<lparr>sect_cnt := push_bit 16 (ucast (word_at bs 61)) OR ucast (word_at bs 60)\<rparr>
         else if addr_mode d = 2
         then d\<lparr>sect_cnt := push_bit 16 (ucast (word_at bs 101)) OR ucast (word_at bs 100),
                sect_cnt_ex := push_bit 16 (ucast (word_at bs 103)) OR ucast (word_at bs 102)\<rparr>
         else d)"

definition hd_identity :: "'e ports \<Rightarrow> u8 \<Rightarrow> 'e hd_state \<Rightarrow> 'e hd_state res" where
  "hd_identity io dev_nr s =
     assertr (dev_nr \<le> 1)
     (let e = outs io [(DEV_CTRL, 0x02), (SECT_CNT, 0), (ADDR_0, 0), (ADDR_1, 0), (ADDR_2, 0),
                (DEVICE, push_bit 4 dev_nr OR 0xa0), (COMMAND, 0xec)] (dev_st s);
          (b, e) = inb io STATUS e
      in if b = 0 then Inr (s\<lparr>dev_st := e\<rparr>)
         else bindr (wait_status io (STAT_BUSY OR STAT_DRQ) STAT_DRQ LONG_WAIT_TIME e) (\<lambda>(t, e).
           if t = 0 then Inl (Panic ''HD: disk identify failed.'')
           else let (bs, e) = port_read io DATA 512 e
                in Inr (s\<lparr>hd := (hd s)[unat dev_nr := identified bs (hd s ! unat dev_nr)], dev_st := e\<rparr>)))"

text \<open>
  The switch of \<^verbatim>\<open>hd_cmd_out\<close>: device register, command and the low part of the sector number,
  which in CHS mode becomes sector and cylinder. A zero boot parameter makes the division trap.
\<close>

definition encode_address ::
  "int \<Rightarrow> u8 \<Rightarrow> u8 \<Rightarrow> u8 \<Rightarrow> u8 \<Rightarrow> u32 \<Rightarrow> (u8 \<times> u8 \<times> u32) res" where
  "encode_address mode spt heads dev_nr cmd nsect_low =
     (let dev_reg = push_bit 4 dev_nr in
      if mode = 0 then
        if spt = 0 \<or> heads = 0 then Inl Bad_access
        else
          let dev_reg = dev_reg OR 0xa0;
              a0 = (nsect_low mod ucast spt + 1) AND 0x000000ff;
              a1 = nsect_low div ucast spt;
              dev_reg = dev_reg OR (ucast (a1 mod ucast heads) AND 0x0f);
              a1 = (a1 div ucast heads) AND 0x0000ffff
          in Inr (dev_reg, cmd, a0 OR push_bit 8 a1)
      else if mode = 1 then
        Inr ((dev_reg OR 0xe0) OR (ucast (drop_bit 24 nsect_low) AND 0x0f), cmd, nsect_low)
      else if mode = 2 then Inr (dev_reg OR 0x40, cmd OR 0x04, nsect_low)
      else Inl (Panic ''HD: unknown addring mode.''))"

text \<open>The register writes that issue the command, in their order.\<close>

definition command_writes :: "int \<Rightarrow> u8 \<Rightarrow> u8 \<Rightarrow> u32 \<Rightarrow> u32 \<Rightarrow> u32 \<Rightarrow> (u16 \<times> u8) list" where
  "command_writes mode dev_reg cmd cnt nsect_low nsect_high =
     [(DEV_CTRL, 0), (FEATURES, 0)] @
     (if mode = 2
      then [(SECT_CNT, ucast (drop_bit 8 cnt AND 0xff)), (ADDR_0, ucast (drop_bit 24 nsect_low)),
            (ADDR_1, ucast (nsect_high AND 0xff)), (ADDR_2, ucast (drop_bit 8 nsect_high AND 0xff))]
      else []) @
     [(SECT_CNT, ucast (cnt AND 0xff)), (ADDR_0, ucast (nsect_low AND 0xff)),
      (ADDR_1, ucast (drop_bit 8 nsect_low AND 0xff)), (ADDR_2, ucast (drop_bit 16 nsect_low AND 0xff)),
      (DEVICE, dev_reg), (COMMAND, cmd)]"

definition hd_cmd_out ::
  "'e ports \<Rightarrow> u8 \<Rightarrow> u8 \<Rightarrow> u32 \<Rightarrow> u32 \<Rightarrow> u32 \<Rightarrow> 'e hd_state \<Rightarrow> 'e hd_state res" where
  "hd_cmd_out io dev_nr cmd cnt nsect_low nsect_high s =
     assertr (dev_nr \<le> 1)
     (let mode = addr_mode (hd s ! unat dev_nr) in
      if cnt = 0 \<or> cnt > (if mode = 2 then 65536 else 256) then Inl (Panic ''HD: invalid sector count.'')
      else if nsect_high \<noteq> 0 \<or> nsect_low \<ge> 0x10000000
      then Inl (Panic ''HD: sorry, the largest capacity we support now is 128GB.'')
      else bindr (wait_status io STAT_BUSY 0 NORM_WAIT_TIME (dev_st s)) (\<lambda>(t, e).
        if t = 0 then Inl (Panic ''HD: controller not ready.'')
        else bindr (encode_address mode (sect_per_trk s) (head_nr s) dev_nr cmd nsect_low)
          (\<lambda>(dev_reg, cmd, nsect_low).
             Inr (s\<lparr>dev_st := outs io (command_writes mode dev_reg cmd cnt nsect_low nsect_high) e\<rparr>))))"

text \<open>The transfer loops. A read stores each sector without waiting for the drive's data request.\<close>

fun read_sectors :: "'e ports \<Rightarrow> nat \<Rightarrow> addr_t \<Rightarrow> 'e hd_state \<Rightarrow> 'e hd_state" where
  "read_sectors io 0 p s = s"
| "read_sectors io (Suc n) p s =
     (let (bs, e) = port_read io DATA 512 (dev_st s)
      in read_sectors io n (p + 512) (s\<lparr>dmem := stored p bs (dmem s), dev_st := e\<rparr>))"

definition load_bytes :: "mem \<Rightarrow> addr_t \<Rightarrow> nat \<Rightarrow> u8 list" where
  "load_bytes m p n = map (\<lambda>i. m (p + of_nat i)) [0..<n]"

fun write_sectors :: "'e ports \<Rightarrow> nat \<Rightarrow> addr_t \<Rightarrow> 'e hd_state \<Rightarrow> 'e hd_state res" where
  "write_sectors io 0 p s = Inr s"
| "write_sectors io (Suc n) p s =
     bindr (wait_status io STAT_DRQ STAT_DRQ NORM_WAIT_TIME (dev_st s)) (\<lambda>(t, e).
       if t = 0 then Inl (Panic ''HD: writing error.'')
       else write_sectors io n (p + 512)
              (s\<lparr>dev_st := port_write io DATA (load_bytes (dmem s) p 512) 512 e\<rparr>))"

definition hd_rdwt ::
  "'e ports \<Rightarrow> int \<Rightarrow> int \<Rightarrow> int \<Rightarrow> addr_t \<Rightarrow> 'e hd_state \<Rightarrow> (int \<times> 'e hd_state) res" where
  "hd_rdwt io rw start_sect cnt buf s =
     assertr (start_sect \<ge> 0 \<and> cnt > 0)
     (bindr (wait_status io STAT_BUSY 0 NORM_WAIT_TIME (dev_st s)) (\<lambda>(t, e).
        let s = s\<lparr>dev_st := e\<rparr> in
        if t = 0 then Inr (- 1, s)
        else if rw = 0 then
          bindr (hd_cmd_out io 0 0x20 (of_int cnt) (of_int start_sect) 0 s) (\<lambda>s.
            Inr (0, read_sectors io (nat cnt) buf s))
        else if rw = 1 then
          bindr (hd_cmd_out io 0 0x30 (of_int cnt) (of_int start_sect) 0 s) (\<lambda>s.
          bindr (write_sectors io (nat cnt) buf s) (\<lambda>s. Inr (0, s)))
        else Inl (Panic ''HD: unknown cmd'')))"

definition on_hd_interrupt :: "int \<Rightarrow> 's \<Rightarrow> 's res" where
  "on_hd_interrupt int_nr s = Inr s"

text \<open>\<^verbatim>\<open>hd_init\<close>, with the interrupt handler as an argument and the handler table beside the state.\<close>

definition hd_init ::
  "'e ports \<Rightarrow> 'h \<Rightarrow> 'e hd_state \<times> 'h list \<Rightarrow> ('e hd_state \<times> 'h list) res" where
  "hd_init io hdl = (\<lambda>(s, table).
     bindr (set_irq_handler 14 hdl table) (\<lambda>table.
     bindr (enable_irq io 2 (dev_st s)) (\<lambda>e.
     bindr (enable_irq io 14 e) (\<lambda>e.
     bindr (hd_identity io 0 (s\<lparr>dev_st := e\<rparr>)) (\<lambda>s.
     bindr (hd_identity io 1 s) (\<lambda>s. Inr (s, table)))))))"

section \<open>The command a drive makes of its registers\<close>

text \<open>
  The other side of the cable, for the register writes of a host: the task file of an ATA
  controller. The sector count and the three address registers are two bytes deep, each write moving
  the byte before it to the back; a write to the command register makes the controller take up a
  command with what the registers hold at that moment. Bit 4 of the device register selects the
  drive and bit 6 addressing by sector number instead of by cylinder, head and sector; the 48-bit
  commands (\<^verbatim>\<open>0x24\<close>, \<^verbatim>\<open>0x34\<close>) need bit 6 and use both bytes of each register, the others
  (\<^verbatim>\<open>0x20\<close>, \<^verbatim>\<open>0x30\<close>) the last one and the low half of the device register.
\<close>

record task_file =
  tf_count :: "u8 \<times> u8"
  tf_addr0 :: "u8 \<times> u8"
  tf_addr1 :: "u8 \<times> u8"
  tf_addr2 :: "u8 \<times> u8"
  tf_device :: u8
  tf_features :: u8
  tf_control :: u8

datatype ata_op = Read_sectors | Write_sectors | Other_op

datatype ata_addr = CHS nat nat nat | LBA nat | No_addr

record ata_cmd =
  at_drive :: nat
  at_op :: ata_op
  at_count :: nat
  at_addr :: ata_addr
  at_features :: u8
  at_control :: u8

definition reg_write :: "u16 \<Rightarrow> u8 \<Rightarrow> task_file \<Rightarrow> task_file" where
  "reg_write p v tf =
     (let push = (\<lambda>r. (v, fst r)) in
      if p = 0x1f1 then tf\<lparr>tf_features := v\<rparr>
      else if p = 0x1f2 then tf\<lparr>tf_count := push (tf_count tf)\<rparr>
      else if p = 0x1f3 then tf\<lparr>tf_addr0 := push (tf_addr0 tf)\<rparr>
      else if p = 0x1f4 then tf\<lparr>tf_addr1 := push (tf_addr1 tf)\<rparr>
      else if p = 0x1f5 then tf\<lparr>tf_addr2 := push (tf_addr2 tf)\<rparr>
      else if p = 0x1f6 then tf\<lparr>tf_device := v\<rparr>
      else if p = 0x3f6 then tf\<lparr>tf_control := v\<rparr>
      else tf)"

definition low_address :: "task_file \<Rightarrow> nat" where
  "low_address tf =
     unat (fst (tf_addr0 tf)) + 256 * unat (fst (tf_addr1 tf)) + 65536 * unat (fst (tf_addr2 tf))"

definition high_address :: "task_file \<Rightarrow> nat" where
  "high_address tf =
     unat (snd (tf_addr0 tf)) + 256 * unat (snd (tf_addr1 tf)) + 65536 * unat (snd (tf_addr2 tf))"

text \<open>A count of 0 stands for the largest one.\<close>

definition taken_up :: "task_file \<Rightarrow> u8 \<Rightarrow> ata_cmd" where
  "taken_up tf op =
     (let d = tf_device tf; wide = op \<in> {0x24, 0x34};
          n = unat (fst (tf_count tf)) + (if wide then 256 * unat (snd (tf_count tf)) else 0)
      in \<lparr>at_drive = (if bit d 4 then 1 else 0),
          at_op = (if op \<in> {0x20, 0x24} then Read_sectors else if op \<in> {0x30, 0x34} then Write_sectors else Other_op),
          at_count = (if n = 0 then (if wide then 65536 else 256) else n),
          at_addr = (if wide then (if bit d 6 then LBA (low_address tf + 2 ^ 24 * high_address tf) else No_addr)
                     else if bit d 6 then LBA (low_address tf + 2 ^ 24 * (unat d mod 16))
                     else CHS (unat (fst (tf_addr1 tf)) + 256 * unat (fst (tf_addr2 tf))) (unat d mod 16)
                            (unat (fst (tf_addr0 tf)))),
          at_features = tf_features tf, at_control = tf_control tf\<rparr>)"

text \<open>The commands the drives take up in the course of the writes \<open>ws\<close>.\<close>

fun commands_of :: "task_file \<Rightarrow> (u16 \<times> u8) list \<Rightarrow> ata_cmd list" where
  "commands_of tf [] = []"
| "commands_of tf ((p, v) # ws) =
     (if p = 0x1f7 then taken_up tf v # commands_of tf ws else commands_of (reg_write p v tf) ws)"

text \<open>The sector \<open>n\<close> of a drive, by number or on its geometry.\<close>

definition address_of :: "int \<Rightarrow> u8 \<Rightarrow> u8 \<Rightarrow> nat \<Rightarrow> ata_addr" where
  "address_of mode spt heads n =
     (if mode = 0 then CHS (n div unat spt div unat heads) (n div unat spt mod unat heads) (n mod unat spt + 1)
      else LBA n)"

lemma unat_drop: "unat (drop_bit k (n :: u32)) = unat n div 2 ^ k"
proof -
  have "unat n < 2 ^ 32" using unsigned_less [of n] by simp
  then show ?thesis by (simp only: unsigned_drop_bit_eq) (simp add: drop_bit_eq_div take_bit_eq_mod)
qed

lemma unat_byte: "unat (ucast (n AND 0xff :: u32) :: u8) = unat n mod 256"
proof -
  have m: "(0xff :: u32) = mask 8" by (simp add: mask_eq_exp_minus_1)
  show ?thesis
    by (simp only: m take_bit_eq_mask [symmetric] unsigned_ucast_eq unsigned_take_bit_eq)
      (simp add: take_bit_eq_mod)
qed

lemma base_256: "n = r0 + 256 * q1 \<Longrightarrow> q1 = r1 + 256 * q2 \<Longrightarrow> q2 = r2 + 256 * q3 \<Longrightarrow>
    (n :: nat) = r0 + 256 * r1 + 65536 * r2 + 2 ^ 24 * q3"
  by simp

lemma bytes_of_number:
  "(n :: nat) = n mod 256 + 256 * (n div 2 ^ 8 mod 256) + 65536 * (n div 2 ^ 16 mod 256) + 2 ^ 24 * (n div 2 ^ 24)"
proof (rule base_256)
  have step: "m = m mod 256 + 256 * (m div 256)" for m :: nat by simp
  show "n = n mod 256 + 256 * (n div 2 ^ 8)" using step [of n] by simp
  have "n div 2 ^ 8 div 256 = n div 2 ^ 16" "n div 2 ^ 16 div 256 = n div 2 ^ 24"
    by (simp_all flip: div_mult2_eq)
  then show "n div 2 ^ 8 = n div 2 ^ 8 mod 256 + 256 * (n div 2 ^ 16)"
    "n div 2 ^ 16 = n div 2 ^ 16 mod 256 + 256 * (n div 2 ^ 24)"
    using step [of "n div 2 ^ 8"] step [of "n div 2 ^ 16"] by metis+
qed

lemma low_nibble:
  "(a OR 0xe0) AND 0x0f = a AND (0x0f :: u8)" "(a OR 0xa0) AND 0x0f = a AND (0x0f :: u8)"
  "(push_bit 4 d :: u8) AND 0x0f = 0" "unat (a AND (0x0f :: u8)) = unat a mod 16"
proof -
  have m: "(0x0f :: u8) = mask 4" by (simp add: mask_eq_exp_minus_1)
  have "(0xe0 :: u8) AND 0x0f = 0" "(0xa0 :: u8) AND 0x0f = 0" by simp_all
  then show "(a OR 0xe0) AND 0x0f = a AND (0x0f :: u8)" "(a OR 0xa0) AND 0x0f = a AND (0x0f :: u8)"
    by (simp_all only: bit.conj_disj_distrib2 or.right_neutral)
  show "(push_bit 4 d :: u8) AND 0x0f = 0" unfolding m by (auto simp: bit_eq_iff bit_simps)
  show "unat (a AND (0x0f :: u8)) = unat a mod 16"
    by (simp only: m take_bit_eq_mask [symmetric] unsigned_take_bit_eq) (simp add: take_bit_eq_mod)
qed

lemma device_nibble:
  "unat (((push_bit 4 d OR c) OR (x AND 0x0f)) :: u8) mod 16 = unat x mod 16" if "c = 0xe0 \<or> c = 0xa0"
proof -
  have "((push_bit 4 d OR c) OR (x AND 0x0f)) AND 0x0f = x AND (0x0f :: u8)"
    using that by (auto simp: bit.conj_disj_distrib2 low_nibble and.assoc)
  then show ?thesis by (simp flip: low_nibble(4))
qed

lemma bytes_of_sector:
  "unat (ucast (n AND 0xff :: u32) :: u8) + 256 * unat (ucast (drop_bit 8 n AND 0xff) :: u8) +
     65536 * unat (ucast (drop_bit 16 n AND 0xff) :: u8) + 2 ^ 24 * (unat n div 2 ^ 24) = unat n"
  using bytes_of_number [of "unat n"] by (simp only: unat_byte unat_drop)

lemma top_byte: "(n :: u32) < 0x10000000 \<Longrightarrow> unat (ucast (drop_bit 24 n) :: u8) = unat n div 2 ^ 24 \<and> unat n div 2 ^ 24 < 16"
proof -
  assume n: "n < 0x10000000"
  then have lt: "unat n div 2 ^ 24 < 16" by (simp add: word_less_nat_alt div_less_iff_less_mult)
  then show ?thesis by (simp add: unsigned_ucast_eq take_bit_eq_mod drop_bit_eq_div unat_div)
qed

text \<open>The drive and the addressing bit in the device register.\<close>

lemma device_bits:
  assumes "d \<le> 1"
  shows "bit ((push_bit 4 d OR 0xe0) OR (x AND 0x0f) :: u8) 4 \<longleftrightarrow> d = 1" "bit ((push_bit 4 d OR 0xe0) OR (x AND 0x0f) :: u8) 6"
    "bit ((push_bit 4 d OR 0xa0) OR (x AND 0x0f) :: u8) 4 \<longleftrightarrow> d = 1" "\<not> bit ((push_bit 4 d OR 0xa0) OR (x AND 0x0f) :: u8) 6"
    "bit (push_bit 4 d OR 0x40 :: u8) 4 \<longleftrightarrow> d = 1" "bit (push_bit 4 d OR 0x40 :: u8) 6"
proof -
  have "unat d = 0 \<or> unat d = 1" using assms by (auto simp: word_le_nat_alt)
  then have "d = 0 \<or> d = 1" by (auto simp: word_unat_eq_iff)
  then show "bit ((push_bit 4 d OR 0xe0) OR (x AND 0x0f) :: u8) 4 \<longleftrightarrow> d = 1" "bit ((push_bit 4 d OR 0xe0) OR (x AND 0x0f) :: u8) 6"
    "bit ((push_bit 4 d OR 0xa0) OR (x AND 0x0f) :: u8) 4 \<longleftrightarrow> d = 1" "\<not> bit ((push_bit 4 d OR 0xa0) OR (x AND 0x0f) :: u8) 6"
    "bit (push_bit 4 d OR 0x40 :: u8) 4 \<longleftrightarrow> d = 1" "bit (push_bit 4 d OR 0x40 :: u8) 6"
    by (auto simp: bit_simps)
qed

text \<open>One command is taken up, at the last write, with the bytes written before it.\<close>

lemmas port_defs = DEV_CTRL_def FEATURES_def SECT_CNT_def ADDR_0_def ADDR_1_def ADDR_2_def DEVICE_def COMMAND_def

lemma command_writes_narrow:
  "mode \<noteq> 2 \<Longrightarrow> commands_of tf (command_writes mode dreg cmd cnt n hi) =
    [taken_up \<lparr>tf_count = (ucast (cnt AND 0xff), fst (tf_count tf)), tf_addr0 = (ucast (n AND 0xff), fst (tf_addr0 tf)),
       tf_addr1 = (ucast (drop_bit 8 n AND 0xff), fst (tf_addr1 tf)), tf_addr2 = (ucast (drop_bit 16 n AND 0xff), fst (tf_addr2 tf)),
       tf_device = dreg, tf_features = 0, tf_control = 0\<rparr> cmd]"
  by (cases tf) (simp add: command_writes_def port_defs reg_write_def Let_def)

lemma command_writes_wide:
  "commands_of tf (command_writes 2 dreg cmd cnt n hi) =
    [taken_up \<lparr>tf_count = (ucast (cnt AND 0xff), ucast (drop_bit 8 cnt AND 0xff)),
       tf_addr0 = (ucast (n AND 0xff), ucast (drop_bit 24 n)),
       tf_addr1 = (ucast (drop_bit 8 n AND 0xff), ucast (hi AND 0xff)),
       tf_addr2 = (ucast (drop_bit 16 n AND 0xff), ucast (drop_bit 8 hi AND 0xff)),
       tf_device = dreg, tf_features = 0, tf_control = 0\<rparr> cmd]"
  by (cases tf) (simp add: command_writes_def port_defs reg_write_def Let_def)

text \<open>In CHS mode the low part of the sector number holds sector and cylinder.\<close>

lemma unat_or_push:
  assumes "unat a < 256" "unat b < 65536"
  shows "unat (a OR push_bit 8 b :: u32) = unat a + 256 * unat b"
proof -
  have a: "\<not> bit a k" if "8 \<le> k" for k
  proof -
    have "unat a div 2 ^ k = 0" using assms(1) power_increasing [OF that, of "2 :: nat"] by simp
    then have "unat (drop_bit k a) = 0" by (simp only: unat_drop)
    then show ?thesis by (simp add: bit_iff_odd_drop_bit unat_eq_0)
  qed
  have "a AND push_bit 8 b = 0" by (rule bit_eqI) (auto simp: bit_simps dest: a)
  then have "a OR push_bit 8 b = a + push_bit 8 b" by (simp add: disjunctive_add_eq_or)
  then have "unat (a OR push_bit 8 b) = unat (a + 256 * b)" by (simp add: push_bit_eq_mult mult.commute)
  also have "\<dots> = unat a + 256 * unat b"
    using assms by (simp add: unat_word_ariths)
  finally show ?thesis .
qed

lemma chs_registers:
  assumes enc: "encode_address 0 spt heads d cmd nsect = Inr (dev_reg, cmd', nl)"
    and fits: "unat heads \<le> 16" "unat nsect div unat spt div unat heads < 65536"
  shows "unat (ucast (nl AND 0xff) :: u8) = unat nsect mod unat spt + 1"
    "unat (ucast (drop_bit 8 nl AND 0xff) :: u8) + 256 * unat (ucast (drop_bit 16 nl AND 0xff) :: u8)
      = unat nsect div unat spt div unat heads"
    "unat dev_reg mod 16 = unat nsect div unat spt mod unat heads"
    "\<exists>x. dev_reg = (push_bit 4 d OR 0xa0) OR (x AND 0x0f)"
proof -
  define n t h where "n = unat nsect" and "t = unat spt" and "h = unat heads"
  have pos: "0 < t" "0 < h" and t: "t < 256" and h: "h \<le> 16"
    using enc fits unsigned_less [of spt]
    by (auto simp: encode_address_def Let_def t_def h_def unat_gt_0 split: if_splits)
  define a0 a1 where "a0 = (nsect mod ucast spt + 1) AND 0xff"
    and "a1 = nsect div ucast spt"
  have sp: "unat (ucast spt :: u32) = t" and hd: "unat (ucast heads :: u32) = h"
    by (simp_all add: t_def h_def unsigned_ucast_eq take_bit_eq_mod order_less_trans [OF unsigned_less])
  have m8: "(0xff :: u32) = mask 8" and m16: "(0xffff :: u32) = mask 16"
    by (simp_all add: mask_eq_exp_minus_1)
  have lt: "n mod t < t" using pos by simp
  have "unat (nsect mod ucast spt + 1) = n mod t + 1"
    using lt t by (simp add: unat_word_ariths sp n_def unat_mod_distrib)
  then have a0: "unat a0 = n mod t + 1"
    using lt t by (simp only: a0_def m8 take_bit_eq_mask [symmetric] unsigned_take_bit_eq)
      (simp add: take_bit_eq_mod)
  have a1: "unat a1 = n div t" by (simp add: a1_def sp n_def unat_div_distrib)
  have cyl: "unat ((a1 div ucast heads) AND 0xffff) = n div t div h"
    using fits by (simp only: m16 take_bit_eq_mask [symmetric] unsigned_take_bit_eq)
      (simp add: take_bit_eq_mod unat_div_distrib a1 hd n_def t_def h_def)
  have head: "unat (ucast (a1 mod ucast heads) :: u8) mod 16 = n div t mod h"
  proof -
    have "n div t mod h < 16" using pos h by (meson less_le_trans mod_less_divisor)
    moreover have "unat (a1 mod ucast heads) = n div t mod h"
      by (simp only: unat_mod_distrib a1 hd)
    ultimately show ?thesis by (simp add: unsigned_ucast_eq take_bit_eq_mod)
  qed
  have nl: "nl = a0 OR push_bit 8 ((a1 div ucast heads) AND 0xffff)"
    and dr: "dev_reg = (push_bit 4 d OR 0xa0) OR (ucast (a1 mod ucast heads) AND 0x0f)"
    using enc by (auto simp: encode_address_def Let_def a0_def a1_def split: if_splits)
  have ulow: "unat nl = n mod t + 1 + 256 * (n div t div h)"
    using lt t fits unfolding nl by (subst unat_or_push) (auto simp: a0 cyl n_def t_def h_def)
  have r: "unat nl mod 256 = n mod t + 1" "unat nl div 256 = n div t div h"
    using lt t unfolding ulow by simp_all
  have "unat nl div 2 ^ 16 = unat nl div 256 div 256" by (simp flip: div_mult2_eq)
  then have c: "unat nl div 256 mod 256 + 256 * (unat nl div 2 ^ 16 mod 256) = n div t div h"
    using fits by (simp add: r n_def t_def h_def)
  show "unat (ucast (nl AND 0xff) :: u8) = unat nsect mod unat spt + 1"
    using r(1) by (simp only: unat_byte n_def t_def)
  show "unat (ucast (drop_bit 8 nl AND 0xff) :: u8) + 256 * unat (ucast (drop_bit 16 nl AND 0xff) :: u8)
      = unat nsect div unat spt div unat heads"
    using c by (simp add: unat_byte unat_drop n_def t_def h_def)
  show "unat dev_reg mod 16 = unat nsect div unat spt mod unat heads"
    using head by (simp add: dr device_nibble n_def t_def h_def)
  show "\<exists>x. dev_reg = (push_bit 4 d OR 0xa0) OR (x AND 0x0f)" using dr by blast
qed

text \<open>What the drive takes up in each mode.\<close>

lemma unat_drive: "(d :: u8) \<le> 1 \<Longrightarrow> (if d = 1 then 1 else 0) = unat d"
proof -
  assume "d \<le> 1"
  then have "unat d = 0 \<or> unat d = 1" by (auto simp: word_le_nat_alt)
  then show ?thesis by (auto simp: word_unat_eq_iff)
qed

definition read_or_write :: "u8 \<Rightarrow> ata_op" where
  "read_or_write cmd = (if cmd = 0x20 then Read_sectors else Write_sectors)"

lemma taken_up_chs:
  assumes enc: "encode_address 0 spt heads dev cmd nsect = Inr (d, c, nl)" and "dev \<le> 1" "cmd = 0x20 \<or> cmd = 0x30"
    and fits: "unat heads \<le> 16" "unat nsect div unat spt div unat heads < 65536"
    and cnt: "cnt \<noteq> 0" "cnt \<le> 256"
  shows "commands_of tf (command_writes 0 d c cnt nl 0) =
    [\<lparr>at_drive = unat dev, at_op = read_or_write cmd, at_count = unat cnt,
      at_addr = address_of 0 spt heads (unat nsect), at_features = 0, at_control = 0\<rparr>]"
proof -
  note r = chs_registers [OF enc fits]
  have c: "c = cmd" using enc by (auto simp: encode_address_def Let_def split: if_splits)
  have "0 < unat cnt" "unat cnt \<le> 256" using cnt by (simp_all add: unat_gt_0 word_le_nat_alt)
  then have n: "unat (ucast (cnt AND 0xff) :: u8) = (if unat cnt = 256 then 0 else unat cnt)" by (auto simp: unat_byte)
  from r(4) obtain x where "d = (push_bit 4 dev OR 0xa0) OR (x AND 0x0f)" by blast
  then have "bit d 4 \<longleftrightarrow> dev = 1" "\<not> bit d 6" using device_bits [OF assms(2)] by simp_all
  with r(1-3) n c assms(3) \<open>0 < unat cnt\<close> unat_drive [OF assms(2)] show ?thesis
    by (auto simp: command_writes_narrow taken_up_def address_of_def read_or_write_def Let_def)
qed

lemma taken_up_lba28:
  assumes "dev \<le> 1" "cmd = 0x20 \<or> cmd = 0x30" and nsect: "nsect < 0x10000000" and cnt: "cnt \<noteq> 0" "cnt \<le> 256"
  shows "commands_of tf (command_writes 1 ((push_bit 4 dev OR 0xe0) OR (ucast (drop_bit 24 nsect) AND 0x0f)) cmd cnt nsect 0) =
    [\<lparr>at_drive = unat dev, at_op = read_or_write cmd, at_count = unat cnt,
      at_addr = LBA (unat nsect), at_features = 0, at_control = 0\<rparr>]"
proof -
  have "0 < unat cnt" "unat cnt \<le> 256" using cnt by (simp_all add: unat_gt_0 word_le_nat_alt)
  then have n: "unat (ucast (cnt AND 0xff) :: u8) = (if unat cnt = 256 then 0 else unat cnt)" by (auto simp: unat_byte)
  note bits = device_bits(1,2) [OF assms(1)] device_nibble [of "0xe0" dev "ucast (drop_bit 24 nsect)"]
  from assms(2) n bits \<open>0 < unat cnt\<close> unat_drive [OF assms(1)] bytes_of_sector [of nsect] top_byte [OF nsect]
  show ?thesis
    by (auto simp: command_writes_narrow taken_up_def read_or_write_def low_address_def Let_def)
qed

lemma taken_up_lba48:
  assumes "dev \<le> 1" "cmd = 0x20 \<or> cmd = 0x30" and nsect: "nsect < 0x10000000" and cnt: "cnt \<noteq> 0" "cnt \<le> 65536"
  shows "commands_of tf (command_writes 2 (push_bit 4 dev OR 0x40) (cmd OR 4) cnt nsect 0) =
    [\<lparr>at_drive = unat dev, at_op = read_or_write cmd, at_count = unat cnt,
      at_addr = LBA (unat nsect), at_features = 0, at_control = 0\<rparr>]"
proof -
  have c: "0 < unat cnt" "unat cnt \<le> 65536" using cnt by (simp_all add: unat_gt_0 word_le_nat_alt)
  have "unat (ucast (cnt AND 0xff) :: u8) + 256 * unat (ucast (drop_bit 8 cnt AND 0xff) :: u8) = unat cnt mod 65536"
    using mod_mult2_eq [of "unat cnt" 256 256] by (simp add: unat_byte unat_drop)
  also have "\<dots> = (if unat cnt = 65536 then 0 else unat cnt)" using c by auto
  finally have n: "unat (ucast (cnt AND 0xff) :: u8) + 256 * unat (ucast (drop_bit 8 cnt AND 0xff) :: u8)
    = (if unat cnt = 65536 then 0 else unat cnt)" .
  have op: "(0x20 :: u8) OR 4 = 0x24" "(0x30 :: u8) OR 4 = 0x34" by simp_all
  from assms(2) n op c(1) device_bits(5,6) [OF assms(1)] unat_drive [OF assms(1)] bytes_of_sector [of nsect] top_byte [OF nsect]
  show ?thesis
    by (auto simp: command_writes_wide taken_up_def read_or_write_def low_address_def high_address_def Let_def)
qed

text \<open>The command of \<^verbatim>\<open>hd_cmd_out\<close>, once the controller is seen idle.\<close>

lemma hd_cmd_taken_up:
  assumes run: "hd_cmd_out io dev cmd cnt nsect hi s = Inr s'" and cmd: "cmd = 0x20 \<or> cmd = 0x30"
    and mode: "mode = addr_mode (hd s ! unat dev)"
    and geometry: "mode = 0 \<Longrightarrow> unat (head_nr s) \<le> 16
      \<and> unat nsect div unat (sect_per_trk s) div unat (head_nr s) < 65536"
  shows "\<exists>t e ws. wait_status io STAT_BUSY 0 NORM_WAIT_TIME (dev_st s) = Inr (t, e) \<and> 0 < t
    \<and> s' = s\<lparr>dev_st := outs io ws e\<rparr>
    \<and> (\<forall>tf. commands_of tf ws =
          [\<lparr>at_drive = unat dev, at_op = (if cmd = 0x20 then Read_sectors else Write_sectors), at_count = unat cnt,
            at_addr = address_of mode (sect_per_trk s) (head_nr s) (unat nsect),
            at_features = 0, at_control = 0\<rparr>])"
proof -
  from run mode have hi: "hi = 0" and lt: "nsect < 0x10000000" and dev: "dev \<le> 1"
    and cnt: "cnt \<noteq> 0" "cnt \<le> (if mode = 2 then 65536 else 256)"
    by (auto simp: hd_cmd_out_def assertr_def Let_def split: if_splits)
  with run mode obtain t e d c nl where
    w: "wait_status io STAT_BUSY 0 NORM_WAIT_TIME (dev_st s) = Inr (t, e)" "0 < t"
    and enc: "encode_address mode (sect_per_trk s) (head_nr s) dev cmd nsect = Inr (d, c, nl)"
    and s': "s' = s\<lparr>dev_st := outs io (command_writes mode d c cnt nl 0) e\<rparr>"
    by (auto simp: hd_cmd_out_def assertr_def Let_def bindr_eq_Inr split: if_splits)
  from enc have three: "mode = 0 \<or> mode = 1 \<or> mode = 2"
    by (auto simp: encode_address_def Let_def split: if_splits)
  have "commands_of tf (command_writes mode d c cnt nl 0) = [\<lparr>at_drive = unat dev, at_op = read_or_write cmd,
      at_count = unat cnt, at_addr = address_of mode (sect_per_trk s) (head_nr s) (unat nsect),
      at_features = 0, at_control = 0\<rparr>]" for tf
    using three
  proof (elim disjE)
    assume m: "mode = 0"
    with geometry cnt(2) show ?thesis unfolding m
      by (intro taken_up_chs [OF enc [unfolded m] dev cmd _ _ cnt(1)]) auto
  next
    assume m: "mode = 1"
    with enc cnt taken_up_lba28 [OF dev cmd lt cnt(1), of tf] show ?thesis
      by (auto simp: encode_address_def address_of_def Let_def)
  next
    assume m: "mode = 2"
    with enc cnt taken_up_lba48 [OF dev cmd lt cnt(1), of tf] show ?thesis
      by (auto simp: encode_address_def address_of_def Let_def)
  qed
  with w s' show ?thesis
    by (intro exI [of _ t] exI [of _ e] exI [of _ "command_writes mode d c cnt nl 0"])
      (simp add: read_or_write_def)
qed

lemma hd_cmd_out_returns:
  assumes "wait_status io STAT_BUSY 0 NORM_WAIT_TIME (dev_st s) = Inr (t, e)" "0 < t" "dev \<le> 1" "0 < cnt" "cnt \<le> 256"
    "nsect < 0x10000000" "addr_mode (hd s ! unat dev) \<in> {0, 1, 2}"
    "addr_mode (hd s ! unat dev) = 0 \<Longrightarrow> sect_per_trk s \<noteq> 0 \<and> head_nr s \<noteq> 0"
  shows "\<exists>s'. hd_cmd_out io dev cmd cnt nsect 0 s = Inr s'"
proof -
  have "cnt \<le> 65536" "cnt \<noteq> 0" using assms(4,5) by (auto simp: word_le_nat_alt)
  with assms show ?thesis
    by (auto simp: hd_cmd_out_def encode_address_def Let_def not_less)
qed

text \<open>
  C28: When \<^verbatim>\<open>hd_cmd_out\<close> returns from a read or write command, the controller was seen idle and the
  bytes then written to its registers make the drives take up exactly one command, whatever the
  registers held before: the drive asked for reads or writes, from exactly the sector asked for,
  exactly the number of sectors asked for. In CHS mode the address is the cylinder, head and
  sector of that number on the drive's geometry, which has to reach it; in the modes with 28 and 48
  bits it is the number itself. Nothing else of the driver's state changes; the error exits are
  the panics.
\<close>

theorem hd_cmd_addresses_sector:
  assumes run: "hd_cmd_out io dev cmd cnt nsect hi s = Inr s'" and cmd: "cmd = 0x20 \<or> cmd = 0x30"
    and mode: "mode = addr_mode (hd s ! unat dev)"
    and geometry: "mode = 0 \<Longrightarrow> unat (head_nr s) \<le> 16
      \<and> unat nsect div unat (sect_per_trk s) div unat (head_nr s) < 65536"
  shows "\<exists>t e ws. wait_status io STAT_BUSY 0 NORM_WAIT_TIME (dev_st s) = Inr (t, e) \<and> 0 < t
    \<and> s' = s\<lparr>dev_st := outs io ws e\<rparr>
    \<and> (\<forall>tf. commands_of tf ws =
          [\<lparr>at_drive = unat dev, at_op = (if cmd = 0x20 then Read_sectors else Write_sectors), at_count = unat cnt,
            at_addr = address_of mode (sect_per_trk s) (head_nr s) (unat nsect),
            at_features = 0, at_control = 0\<rparr>])"
  using assms by (rule hd_cmd_taken_up)

text \<open>A drive that is always idle and records what it is told.\<close>

definition idle_drive :: "(u16 \<times> u8) list ports" where
  "idle_drive = \<lparr>inb = \<lambda>p e. (0, e), outb = \<lambda>p v e. e @ [(p, v)], inw = \<lambda>p e. (0, e), outw = \<lambda>p v e. e\<rparr>"

lemma idle_drive_ready:
  "wait_status idle_drive STAT_BUSY 0 (Suc (Suc n)) e = Inr (Suc n, e)"
  by (simp add: idle_drive_def)

lemma idle_drive_waited: "wait_status idle_drive STAT_BUSY 0 NORM_WAIT_TIME e = Inr (9999, e)"
  using idle_drive_ready [of 9998 e] by (simp add: NORM_WAIT_TIME_def numeral_eq_Suc)

lemma idle_drive_records: "outs idle_drive ws e = e @ ws"
  by (induction ws arbitrary: e) (auto simp: idle_drive_def)

text \<open>
  Sector 1000000 read from drive 1, on 16 heads and 63 sectors a track, by number in 28 bits, and
  by number in 48 bits with the largest count.
\<close>

definition stale_registers :: task_file where
  "stale_registers = \<lparr>tf_count = (7, 7), tf_addr0 = (7, 7), tf_addr1 = (7, 7), tf_addr2 = (7, 7),
    tf_device = 7, tf_features = 7, tf_control = 7\<rparr>"

definition two_drives :: "int \<Rightarrow> (u16 \<times> u8) list hd_state" where
  "two_drives mode = \<lparr>hd = [\<lparr>addr_mode = 0, sect_cnt = 0, sect_cnt_ex = 0\<rparr>, \<lparr>addr_mode = mode, sect_cnt = 0, sect_cnt_ex = 0\<rparr>],
    sect_per_trk = 63, head_nr = 16, dmem = \<lambda>_. 0, dev_st = []\<rparr>"

lemma two_drives_simps [simp]:
  "sect_per_trk (two_drives m) = 63" "head_nr (two_drives m) = 16" "dev_st (two_drives m) = []"
  "addr_mode (hd (two_drives m) ! Suc 0) = m"
  by (simp_all add: two_drives_def)

lemma two_drives_command:
  assumes "mode = 0 \<or> mode = 1 \<or> mode = 2" "0 < cnt" "cnt \<le> (if mode = 2 then 65536 else 256)"
  obtains s' where "hd_cmd_out idle_drive 1 0x20 cnt 1000000 0 (two_drives mode) = Inr s'"
  using assms by (auto simp: hd_cmd_out_def two_drives_def idle_drive_waited encode_address_def Let_def word_gt_0 not_less)

theorem hd_cmd_addresses_sector_witness:
  "\<exists>s0 s1 s2. hd_cmd_out idle_drive 1 0x20 3 1000000 0 (two_drives 0) = Inr s0 \<and>
      hd_cmd_out idle_drive 1 0x20 3 1000000 0 (two_drives 1) = Inr s1 \<and>
      hd_cmd_out idle_drive 1 0x20 65536 1000000 0 (two_drives 2) = Inr s2 \<and>
      map (\<lambda>c. (at_drive c, at_addr c, at_count c)) (commands_of stale_registers (dev_st s0)) = [(1, CHS 992 1 2, 3)] \<and>
      map (\<lambda>c. (at_drive c, at_addr c, at_count c)) (commands_of stale_registers (dev_st s1)) = [(1, LBA 1000000, 3)] \<and>
      map (\<lambda>c. (at_drive c, at_addr c, at_count c)) (commands_of stale_registers (dev_st s2)) = [(1, LBA 1000000, 65536)]"
proof -
  have run: "\<exists>s'. hd_cmd_out idle_drive 1 0x20 cnt 1000000 0 (two_drives m) = Inr s' \<and>
      map (\<lambda>c. (at_drive c, at_addr c, at_count c)) (commands_of stale_registers (dev_st s')) = [(1, address_of m 63 16 1000000, unat cnt)]"
    if m: "m = 0 \<or> m = 1 \<or> m = 2" "0 < cnt" "cnt \<le> (if m = 2 then 65536 else 256)" for m cnt
  proof -
    from two_drives_command [OF m] obtain s' where r: "hd_cmd_out idle_drive 1 0x20 cnt 1000000 0 (two_drives m) = Inr s'" .
    have "m = addr_mode (hd (two_drives m) ! unat (1 :: u8))" by simp
    from hd_cmd_addresses_sector [OF r _ this] r show ?thesis
      by (auto simp: idle_drive_waited idle_drive_records)
  qed
  have a: "address_of 0 63 16 1000000 = CHS 992 1 2" "address_of 1 63 16 1000000 = LBA 1000000"
    "address_of 2 63 16 1000000 = LBA 1000000"
    by (simp_all add: address_of_def)
  let ?c = "\<lambda>s'. map (\<lambda>c. (at_drive c, at_addr c, at_count c)) (commands_of stale_registers (dev_st s'))"
  obtain s0 where "hd_cmd_out idle_drive 1 0x20 3 1000000 0 (two_drives 0) = Inr s0" "?c s0 = [(1, CHS 992 1 2, 3)]"
    using run [of 0 3] a(1) by auto
  moreover obtain s1 where "hd_cmd_out idle_drive 1 0x20 3 1000000 0 (two_drives 1) = Inr s1" "?c s1 = [(1, LBA 1000000, 3)]"
    using run [of 1 3] a(2) by auto
  moreover obtain s2 where "hd_cmd_out idle_drive 1 0x20 65536 1000000 0 (two_drives 2) = Inr s2"
    "?c s2 = [(1, LBA 1000000, 65536)]"
    using run [of 2 65536] a(3) by auto
  ultimately show ?thesis by (intro exI [of _ s0] exI [of _ s1] exI [of _ s2]) simp
qed

end
