(* ===== verification/Blk.thy ===== *)
theory Blk imports Hd begin

text \<open>
  Block requests (\<^verbatim>\<open>kernel/blk_drv/ll_rw_blk.c\<close>, \<^verbatim>\<open>kernel/blk_drv/blk.h\<close>, and the request handler of
  \<^verbatim>\<open>hd.c\<close>): a table of 32 request slots, filled by \<^verbatim>\<open>ll_rw_block\<close> and handed to the driver at once.
\<close>

definition NR_REQUEST :: nat where "NR_REQUEST = 32"
definition BIO_READ :: int where "BIO_READ = 0"
definition BIO_WRITE :: int where "BIO_WRITE = 1"
definition NR_BLK_DEV :: u16 where "NR_BLK_DEV = 4"
definition BLK_DEV_HD :: u16 where "BLK_DEV_HD = 3"

text \<open>A request points to the next one in the table; \<^verbatim>\<open>waiting\<close> is always null and left out.\<close>

record bio_request =
  rq_rw :: int
  rq_sector :: u32
  rq_count :: u32
  rq_buffer :: addr_t
  rq_dev :: int
  rq_next :: "nat option"

text \<open>The request table, each device's current request, and the disk driver's state.\<close>

record 'e blk_state =
  request :: "bio_request list"
  bd_request :: "nat option list"
  drive :: "'e hd_state"

partial_function (option) hd_handle_request ::
  "'e ports \<Rightarrow> bio_request list \<Rightarrow> nat option \<Rightarrow> 'e hd_state \<Rightarrow> 'e hd_state res option" where
  "hd_handle_request io rqs head d =
     (case head of
        None \<Rightarrow> Some (Inr d)
      | Some i \<Rightarrow>
          (case hd_rdwt io (rq_rw (rqs ! i)) (sint (rq_sector (rqs ! i))) (sint (rq_count (rqs ! i)))
                  (rq_buffer (rqs ! i)) d of
             Inl h \<Rightarrow> Some (Inl h)
           | Inr (r, d) \<Rightarrow> hd_handle_request io rqs (rq_next (rqs ! i)) d))"

text \<open>The table \<^verbatim>\<open>blk_dev\<close>: device 3 has a driver, the others have null pointers.\<close>

definition bd_req_handle ::
  "'e ports \<Rightarrow> nat \<Rightarrow> (bio_request list \<Rightarrow> nat option \<Rightarrow> 'e hd_state \<Rightarrow> 'e hd_state res option) option" where
  "bd_req_handle io dev = (if dev = 3 then Some (hd_handle_request io) else None)"

definition add_request :: "'e ports \<Rightarrow> bio_request \<Rightarrow> 'e blk_state \<Rightarrow> 'e blk_state res" where
  "add_request io req s =
     (let begin = (if rq_rw req = BIO_READ then 0 else NR_REQUEST div 3) in
      case find (\<lambda>i. rq_dev (request s ! i) = - 1) [begin..<NR_REQUEST] of
        None \<Rightarrow> Inl (Panic ''BLK: Too many requests.'')
      | Some i \<Rightarrow>
          let s = s\<lparr>request := (request s)[i := req]\<rparr>; dev = nat (rq_dev (request s ! i)) in
          case bd_request s ! dev of
            None \<Rightarrow>
              let s = s\<lparr>bd_request := (bd_request s)[dev := Some i]\<rparr> in
              (case bd_req_handle io dev of
                 None \<Rightarrow> Inl Bad_access
               | Some handle \<Rightarrow>
                   bindr (case handle (request s) (bd_request s ! dev) (drive s) of
                            None \<Rightarrow> Inl Hang | Some r \<Rightarrow> r) (\<lambda>d.
                   Inr (s\<lparr>drive := d, bd_request := (bd_request s)[dev := None]\<rparr>)))
          | Some _ \<Rightarrow> Inl (Panic ''BLK: We don't support wait request list now.''))"

definition ll_rw_block ::
  "'e ports \<Rightarrow> u16 \<Rightarrow> int \<Rightarrow> u32 \<Rightarrow> u32 \<Rightarrow> addr_t \<Rightarrow> 'e blk_state \<Rightarrow> 'e blk_state res" where
  "ll_rw_block io dev rw sector count buffer s =
     assertr (dev > 0 \<and> dev < NR_BLK_DEV)
     (assertr (rw = BIO_READ \<or> rw = BIO_WRITE)
     (if dev \<noteq> BLK_DEV_HD then Inl (Panic ''BLK: Device not supported.'')
      else add_request io \<lparr>rq_rw = rw, rq_sector = sector, rq_count = count, rq_buffer = buffer,
             rq_dev = int (unat dev), rq_next = None\<rparr> s))"

definition blk_dev_init ::
  "'e ports \<Rightarrow> 'h \<Rightarrow> 'e blk_state \<times> 'h list \<Rightarrow> ('e blk_state \<times> 'h list) res" where
  "blk_dev_init io hdl = (\<lambda>(s, table).
     let s = s\<lparr>request := map (\<lambda>r. r\<lparr>rq_dev := - 1, rq_next := None\<rparr>) (request s)\<rparr> in
     bindr (hd_init io hdl (drive s, table)) (\<lambda>(d, table). Inr (s\<lparr>drive := d\<rparr>, table)))"

section \<open>Slots are used up\<close>

text \<open>The shape the table has at boot and keeps: 32 slots, 4 idle devices.\<close>

definition blk_ok :: "'e blk_state \<Rightarrow> bool" where
  "blk_ok s \<longleftrightarrow> length (request s) = NR_REQUEST \<and> bd_request s = replicate 4 None"

definition free_slots :: "nat \<Rightarrow> 'e blk_state \<Rightarrow> nat set" where
  "free_slots b s = {i. b \<le> i \<and> i < NR_REQUEST \<and> rq_dev (request s ! i) = - 1}"

lemma finite_free_slots [simp]: "finite (free_slots b s)"
  by (rule finite_subset [of _ "{..<NR_REQUEST}"]) (auto simp: free_slots_def)

lemma handle_one:
  "rq_next (rqs ! i) = None \<Longrightarrow> hd_handle_request io rqs (Some i) d =
     Some (bindr (hd_rdwt io (rq_rw (rqs ! i)) (sint (rq_sector (rqs ! i))) (sint (rq_count (rqs ! i)))
       (rq_buffer (rqs ! i)) d) (\<lambda>(r, d). Inr d))"
  by (simp add: hd_handle_request.simps [of _ _ "Some i"] hd_handle_request.simps [of _ _ None] bindr_def
      split: sum.split)

text \<open>What a call does when its arguments pass the checks.\<close>

definition slot_for :: "int \<Rightarrow> 'e blk_state \<Rightarrow> nat option" where
  "slot_for rw s = find (\<lambda>i. rq_dev (request s ! i) = - 1) [if rw = BIO_READ then 0 else NR_REQUEST div 3..<NR_REQUEST]"

lemma slot_for_Some:
  "slot_for rw s = Some i \<Longrightarrow> i \<in> free_slots (if rw = BIO_READ then 0 else NR_REQUEST div 3) s"
  by (auto simp: slot_for_def free_slots_def find_Some_iff)

lemma slot_for_None:
  "slot_for rw s = None \<longleftrightarrow> free_slots (if rw = BIO_READ then 0 else NR_REQUEST div 3) s = {}"
  by (auto simp: slot_for_def free_slots_def find_None_iff)

lemma ll_rw_block_cases:
  assumes ok: "blk_ok s" and rw: "rw = BIO_READ \<or> rw = BIO_WRITE"
  shows "ll_rw_block io BLK_DEV_HD rw sector count buffer s =
    (case slot_for rw s of
       None \<Rightarrow> Inl (Panic ''BLK: Too many requests.'')
     | Some i \<Rightarrow> bindr (hd_rdwt io rw (sint sector) (sint count) buffer (drive s)) (\<lambda>(r, d).
         Inr (s\<lparr>request := (request s)[i := \<lparr>rq_rw = rw, rq_sector = sector, rq_count = count,
           rq_buffer = buffer, rq_dev = 3, rq_next = None\<rparr>], drive := d\<rparr>)))"
proof -
  have dev: "BLK_DEV_HD > 0" "BLK_DEV_HD < NR_BLK_DEV" "int (unat BLK_DEV_HD) = 3"
    by (simp_all add: BLK_DEV_HD_def NR_BLK_DEV_def)
  have bd: "bd_request s ! 3 = None" "(replicate 4 None)[3 := None :: nat option] = replicate 4 None"
    using ok by (simp_all add: blk_ok_def eval_nat_numeral)
  show ?thesis
  proof (cases "slot_for rw s")
    case None
    with rw dev show ?thesis by (simp add: ll_rw_block_def add_request_def slot_for_def)
  next
    case (Some i)
    then have i: "i < length (request s)"
      using ok by (auto dest!: slot_for_Some simp: free_slots_def blk_ok_def)
    have bd3: "(bd_request s)[3 := Some i] ! 3 = Some i" "((bd_request s)[3 := Some i])[3 := None] = bd_request s"
      using ok by (simp_all add: blk_ok_def eval_nat_numeral)
    show ?thesis
      using Some rw dev bd i bd3
      by (simp add: ll_rw_block_def add_request_def slot_for_def [symmetric] bd_req_handle_def handle_one
          bindr_assoc Let_def case_prod_unfold)
  qed
qed

lemma ll_rw_block_Inr:
  assumes ok: "blk_ok s" and run: "ll_rw_block io dev rw sector count buffer s = Inr s'"
  obtains i r d where "dev = BLK_DEV_HD" "rw = BIO_READ \<or> rw = BIO_WRITE" "slot_for rw s = Some i"
    "hd_rdwt io rw (sint sector) (sint count) buffer (drive s) = Inr (r, d)"
    "s' = s\<lparr>request := (request s)[i := \<lparr>rq_rw = rw, rq_sector = sector, rq_count = count,
           rq_buffer = buffer, rq_dev = 3, rq_next = None\<rparr>], drive := d\<rparr>"
proof -
  from run have dev: "dev = BLK_DEV_HD" and rw: "rw = BIO_READ \<or> rw = BIO_WRITE"
    by (auto simp: ll_rw_block_def assertr_eq_Inr split: if_splits)
  with run ok that show thesis
    by (auto simp: ll_rw_block_cases bindr_eq_Inr split: option.splits)
qed

lemma ll_rw_block_uses_slot:
  assumes ok: "blk_ok s" and run: "ll_rw_block io dev rw sector count buffer s = Inr s'"
  shows "blk_ok s'"
    and "card (free_slots 0 s) = Suc (card (free_slots 0 s'))"
    and "card (free_slots 10 s') \<le> card (free_slots 10 s)"
    and "rw = BIO_WRITE \<Longrightarrow> card (free_slots 10 s) = Suc (card (free_slots 10 s'))"
proof -
  from ok run obtain i r d where slot: "slot_for rw s = Some i"
    and s': "s' = s\<lparr>request := (request s)[i := \<lparr>rq_rw = rw, rq_sector = sector, rq_count = count,
           rq_buffer = buffer, rq_dev = 3, rq_next = None\<rparr>], drive := d\<rparr>"
    by (rule ll_rw_block_Inr)
  have i: "i \<in> free_slots (if rw = BIO_READ then 0 else NR_REQUEST div 3) s" by (rule slot_for_Some [OF slot])
  then have i0: "i \<in> free_slots 0 s" by (auto simp: free_slots_def)
  show "blk_ok s'" using ok by (simp add: s' blk_ok_def)
  have "i < NR_REQUEST" using i0 by (simp add: free_slots_def)
  then have diff: "free_slots b s' = free_slots b s - {i}" for b
    using ok by (auto simp: s' free_slots_def blk_ok_def nth_list_update split: if_splits)
  show "card (free_slots 0 s) = Suc (card (free_slots 0 s'))"
    unfolding diff by (rule card.remove) (use i0 in simp_all)
  show "card (free_slots 10 s') \<le> card (free_slots 10 s)"
    unfolding diff by (rule card_mono) auto
  assume "rw = BIO_WRITE"
  with i have "i \<in> free_slots 10 s" by (simp add: BIO_READ_def BIO_WRITE_def NR_REQUEST_def)
  then show "card (free_slots 10 s) = Suc (card (free_slots 10 s'))"
    unfolding diff by (intro card.remove) simp_all
qed

text \<open>A sequence of requests, each with its device, direction, sector, count and buffer.\<close>

fun io_calls :: "'e ports \<Rightarrow> (u16 \<times> int \<times> u32 \<times> u32 \<times> addr_t) list \<Rightarrow> 'e blk_state \<Rightarrow> 'e blk_state res" where
  "io_calls io [] s = Inr s"
| "io_calls io ((dev, rw, sector, count, buffer) # cs) s =
     bindr (ll_rw_block io dev rw sector count buffer s) (io_calls io cs)"

definition is_write :: "u16 \<times> int \<times> u32 \<times> u32 \<times> addr_t \<Rightarrow> bool" where
  "is_write c \<longleftrightarrow> fst (snd c) = BIO_WRITE"

lemma io_calls_slots:
  assumes "blk_ok s" "io_calls io cs s = Inr s'"
  shows "blk_ok s' \<and> card (free_slots 0 s) = length cs + card (free_slots 0 s')
    \<and> length (filter is_write cs) + card (free_slots 10 s') \<le> card (free_slots 10 s)"
  using assms
proof (induction io cs s rule: io_calls.induct)
  case (2 io dev rw sector count buffer cs s)
  from 2(3) obtain s1 where one: "ll_rw_block io dev rw sector count buffer s = Inr s1"
    and rest: "io_calls io cs s1 = Inr s'"
    by (auto simp: bindr_eq_Inr)
  note step = ll_rw_block_uses_slot [OF 2(2) one]
  from 2(1) [OF one step(1) rest] step show ?case by (auto simp: is_write_def)
qed simp

lemma blk_dev_init_slots:
  assumes "blk_dev_init io hdl (s0, table) = Inr (s, table')"
    and "length (request s0) = NR_REQUEST" "bd_request s0 = replicate 4 None"
  shows "blk_ok s" "card (free_slots 0 s) = 32" "card (free_slots 10 s) = 22"
proof -
  have "free_slots b s = {b..<NR_REQUEST}" for b
    using assms by (auto simp: blk_dev_init_def bindr_eq_Inr free_slots_def)
  then show "card (free_slots 0 s) = 32" "card (free_slots 10 s) = 22" by (simp_all add: NR_REQUEST_def)
  show "blk_ok s" using assms by (auto simp: blk_dev_init_def bindr_eq_Inr blk_ok_def)
qed

text \<open>
  C33: request slots are taken and never given back. After \<^verbatim>\<open>blk_dev_init\<close>, whatever the drive does,
  a sequence of requests that all return has at most 32 of them and at most 22 writes, and once
  32 have been served every further one stops the machine: on a device that is no disk by an
  assertion or a panic, on the disk by the panic \<^verbatim>\<open>Too many requests\<close>.
\<close>

theorem request_slots_run_out:
  assumes init: "blk_dev_init io hdl (s0, table) = Inr (s, table')"
    and boot: "length (request s0) = NR_REQUEST" "bd_request s0 = replicate 4 None"
    and run: "io_calls io cs s = Inr s'"
  shows "length cs \<le> 32 \<and> length (filter is_write cs) \<le> 22
    \<and> (length cs = 32 \<longrightarrow> (\<forall>dev rw sector count buffer. \<exists>h. ll_rw_block io dev rw sector count buffer s' = Inl h)
        \<and> (\<forall>rw sector count buffer. rw = BIO_READ \<or> rw = BIO_WRITE \<longrightarrow>
             ll_rw_block io BLK_DEV_HD rw sector count buffer s' = Inl (Panic ''BLK: Too many requests.'')))"
proof -
  note i = blk_dev_init_slots [OF init boot]
  note c = io_calls_slots [OF i(1) run]
  have stop: "ll_rw_block io BLK_DEV_HD rw sector count buffer s' = Inl (Panic ''BLK: Too many requests.'')"
    if "length cs = 32" "rw = BIO_READ \<or> rw = BIO_WRITE" for rw sector count buffer
  proof -
    have "card (free_slots 0 s') = 0" using c i(2) that(1) by simp
    then have "free_slots 0 s' = {}" by simp
    then have "free_slots b s' = {}" for b by (auto simp: free_slots_def)
    then have "slot_for rw s' = None" by (simp add: slot_for_None)
    with c that(2) show ?thesis by (simp add: ll_rw_block_cases)
  qed
  have "\<exists>h. ll_rw_block io dev rw sector count buffer s' = Inl h" if "length cs = 32" for dev rw sector count buffer
  proof (cases "dev = BLK_DEV_HD \<and> (rw = BIO_READ \<or> rw = BIO_WRITE)")
    case True
    with stop [OF that] show ?thesis by blast
  next
    case False
    then show ?thesis by (auto simp: ll_rw_block_def assertr_def)
  qed
  with stop c i show ?thesis by auto
qed

text \<open>The boot state with a drive that answers nothing, as the emulator has without a disk.\<close>

definition boot_blk :: "(u16 \<times> u8) list blk_state" where
  "boot_blk = \<lparr>request = replicate NR_REQUEST \<lparr>rq_rw = 0, rq_sector = 0, rq_count = 0, rq_buffer = 0, rq_dev = 0, rq_next = None\<rparr>,
     bd_request = replicate 4 None,
     drive = \<lparr>hd = replicate 2 \<lparr>addr_mode = 0, sect_cnt = 0, sect_cnt_ex = 0\<rparr>, sect_per_trk = 63, head_nr = 16,
       dmem = \<lambda>_. 0, dev_st = []\<rparr>\<rparr>"

definition boot_table :: "(int \<Rightarrow> unit \<Rightarrow> unit res) list" where
  "boot_table = initial_irqhdl_table"

lemma boot_blk_init:
  "\<exists>s t. blk_dev_init idle_drive on_hd_interrupt (boot_blk, boot_table) = Inr (s, t)
     \<and> (\<exists>s'. io_calls idle_drive [(3, BIO_READ, 7, 1, 0x9000)] s = Inr s')"
proof -
  have n: "NORM_WAIT_TIME = Suc (Suc 9998)" by (simp add: NORM_WAIT_TIME_def)
  have w: "wait_status idle_drive STAT_BUSY 0 NORM_WAIT_TIME e = Inr (Suc 9998, e)" for e
    unfolding n by (rule idle_drive_ready)
  have inb: "inb idle_drive p e = (0, e)" for p e by (simp add: idle_drive_def)
  have id: "dev_nr \<le> 1 \<Longrightarrow> \<exists>e. hd_identity idle_drive dev_nr d = Inr (d\<lparr>dev_st := e\<rparr>)" for dev_nr and d :: "(u16 \<times> u8) list hd_state"
    by (simp add: hd_identity_def inb Let_def) blast
  have irq: "0 \<le> i \<Longrightarrow> i < 16 \<Longrightarrow> enable_irq idle_drive i e = Inr e" for i e
    by (simp add: enable_irq_def inb Let_def)
  obtain t where t: "set_irq_handler 14 on_hd_interrupt boot_table = Inr t"
    by (simp add: set_irq_handler_def boot_table_def initial_irqhdl_table_def)
  let ?d = "drive boot_blk"
  obtain e0 where e0: "hd_identity idle_drive 0 ?d = Inr (?d\<lparr>dev_st := e0\<rparr>)" using id [of 0 ?d] by auto
  obtain e1 where e1: "hd_identity idle_drive 1 (?d\<lparr>dev_st := e0\<rparr>) = Inr (?d\<lparr>dev_st := e1\<rparr>)"
    using id [of 1 "?d\<lparr>dev_st := e0\<rparr>"] by auto
  define s where "s = boot_blk\<lparr>request := map (\<lambda>r. r\<lparr>rq_dev := - 1, rq_next := None\<rparr>) (request boot_blk),
    drive := ?d\<lparr>dev_st := e1\<rparr>\<rparr>"
  have init: "blk_dev_init idle_drive on_hd_interrupt (boot_blk, boot_table) = Inr (s, t)"
    by (simp add: blk_dev_init_def hd_init_def t irq e0 e1 s_def)
  have boot: "length (request boot_blk) = NR_REQUEST" "bd_request boot_blk = replicate 4 None"
    by (simp_all add: boot_blk_def)
  note ok = blk_dev_init_slots [OF init boot]
  from ok(2) have "free_slots 0 s \<noteq> {}" by auto
  then obtain i where i: "slot_for BIO_READ s = Some i" by (cases "slot_for BIO_READ s") (auto simp: slot_for_None)
  have "\<exists>d. hd_rdwt idle_drive BIO_READ 7 1 0x9000 (drive s) = Inr (0, d)"
    by (simp add: s_def boot_blk_def hd_rdwt_def hd_cmd_out_def BIO_READ_def w encode_address_def Let_def)
  then obtain d where "hd_rdwt idle_drive BIO_READ 7 1 0x9000 (drive s) = Inr (0, d)" ..
  then have "\<exists>s'. io_calls idle_drive [(3, BIO_READ, 7, 1, 0x9000)] s = Inr s'"
    using ll_rw_block_cases [OF ok(1), where io = idle_drive and rw = BIO_READ and sector = 7 and count = 1 and buffer = "0x9000"] i
    by (simp add: BLK_DEV_HD_def)
  with init show ?thesis by blast
qed

theorem request_slots_run_out_witness:
  "\<exists>s t s'. blk_dev_init idle_drive on_hd_interrupt (boot_blk, boot_table) = Inr (s, t)
     \<and> io_calls idle_drive [(3, BIO_READ, 7, 1, 0x9000)] s = Inr s' 
     \<and> length [(3 :: u16, BIO_READ, 7 :: u32, 1 :: u32, 0x9000 :: addr_t)] \<le> 32"
proof -
  from boot_blk_init obtain s t s' where
    *: "blk_dev_init idle_drive on_hd_interrupt (boot_blk, boot_table) = Inr (s, t)"
      "io_calls idle_drive [(3, BIO_READ, 7, 1, 0x9000)] s = Inr s'"
    by blast
  have boot: "length (request boot_blk) = NR_REQUEST" "bd_request boot_blk = replicate 4 None"
    by (simp_all add: boot_blk_def)
  from request_slots_run_out [OF *(1) boot *(2)] * show ?thesis by (intro exI conjI) auto
qed

end
