(* ===== verification/Ata_Disk.thy ===== *)
theory Ata_Disk imports Hd begin

text \<open>
  What a write of the disk driver does to the disk. The drive is an ATA drive as its standard
  describes one, as far as a host sees it in polled writes: it answers busy for a while after each
  command and each sector, ignores its registers meanwhile, takes up a command from the task file of
  \<open>Hd\<close> and stores the words that come through the data port, 256 for a sector. Any device state
  will do for the driver, so long as what it holds of the drive behaves like this one.
\<close>

section \<open>The drive\<close>

text \<open>
  \<open>ata_busy\<close> counts the status reads still answered busy, \<open>ata_delay\<close> how many there will be after a
  command or a sector; \<open>ata_job\<close> is a write in progress: drive, next sector, sectors left.
\<close>

record ata =
  ata_regs :: task_file
  ata_busy :: nat
  ata_delay :: nat
  ata_job :: "(nat \<times> nat \<times> nat) option"
  ata_buf :: "u8 list"
  ata_heads :: nat
  ata_spt :: nat
  ata_disk :: "nat \<Rightarrow> nat \<Rightarrow> u8 list"

definition ata_status :: "ata \<Rightarrow> u8" where
  "ata_status a = (if 0 < ata_busy a then 0x80 else if ata_job a = None then 0x40 else 0x48)"

definition ata_polled :: "ata \<Rightarrow> ata" where
  "ata_polled a = a\<lparr>ata_busy := ata_busy a - 1\<rparr>"

definition ata_sector :: "ata \<Rightarrow> ata_addr \<Rightarrow> nat option" where
  "ata_sector a addr =
     (case addr of
        CHS c h n \<Rightarrow> if h < ata_heads a \<and> 0 < n \<and> n \<le> ata_spt a then Some ((c * ata_heads a + h) * ata_spt a + (n - 1)) else None
      | LBA n \<Rightarrow> Some n
      | No_addr \<Rightarrow> None)"

definition ata_accept :: "ata_cmd \<Rightarrow> ata \<Rightarrow> ata" where
  "ata_accept c a = a\<lparr>ata_busy := ata_delay a, ata_buf := [],
     ata_job := (case ata_sector a (at_addr c) of
                   Some n \<Rightarrow> if at_op c = Write_sectors then Some (at_drive c, n, at_count c) else None
                 | None \<Rightarrow> None)\<rparr>"

definition ata_out :: "u16 \<Rightarrow> u8 \<Rightarrow> ata \<Rightarrow> ata" where
  "ata_out p v a =
     (if 0 < ata_busy a then a
      else if p = 0x1f7 then ata_accept (taken_up (ata_regs a) v) a
      else a\<lparr>ata_regs := reg_write p v (ata_regs a)\<rparr>)"

definition ata_word :: "u16 \<Rightarrow> ata \<Rightarrow> ata" where
  "ata_word w a =
     (case ata_job a of
        Some (d, n, left) \<Rightarrow>
          if 0 < ata_busy a then a
          else let bs = ata_buf a @ [ucast w, ucast (drop_bit 8 w)] in
               if length bs < 512 then a\<lparr>ata_buf := bs\<rparr>
               else a\<lparr>ata_buf := [], ata_disk := (ata_disk a)(d := (ata_disk a d)(n := bs)), ata_busy := ata_delay a,
                      ata_job := (if left = 1 then None else Some (d, n + 1, left - 1))\<rparr>
      | None \<Rightarrow> a)"

text \<open>The devices hold such a drive, which \<open>view\<close> shows.\<close>

definition conforms :: "'e ports \<Rightarrow> ('e \<Rightarrow> ata) \<Rightarrow> bool" where
  "conforms io view \<longleftrightarrow>
     (\<forall>e. fst (inb io 0x1f7 e) = ata_status (view e) \<and> view (snd (inb io 0x1f7 e)) = ata_polled (view e)) \<and>
     (\<forall>p v e. view (outb io p v e) = ata_out p v (view e)) \<and>
     (\<forall>w e. view (outw io 0x1f0 w e) = ata_word w (view e))"

text \<open>The drive by itself, as a device state.\<close>

definition ata_ports :: "ata ports" where
  "ata_ports = \<lparr>inb = \<lambda>p a. if p = 0x1f7 then (ata_status a, ata_polled a) else (0, a), outb = ata_out,
     inw = \<lambda>p a. (0, a), outw = \<lambda>p w a. if p = 0x1f0 then ata_word w a else a\<rparr>"

lemma ata_ports_conform: "conforms ata_ports (\<lambda>a. a)"
  by (simp add: conforms_def ata_ports_def)

section \<open>Waiting\<close>

lemma wait_step:
  "t \<noteq> 0 \<Longrightarrow> wait_status io stat v (Suc t) e =
     (if fst (inb io 0x1f7 e) AND stat \<noteq> v then wait_status io stat v t (snd (inb io 0x1f7 e))
      else Inr (t, snd (inb io 0x1f7 e)))"
  by (simp add: STATUS_def Let_def case_prod_unfold)

text \<open>The drive answers in time exactly when it is busy for fewer reads than the limit allows.\<close>

lemma wait_for:
  assumes "conforms io view"
    and ready: "\<And>a. 0 < ata_busy a \<Longrightarrow> ata_status a AND stat \<noteq> v"
      "\<And>a. ata_busy a = 0 \<Longrightarrow> ata_job a = ata_job (view e) \<Longrightarrow> ata_status a AND stat = v"
  shows "\<exists>t' e'. wait_status io stat v (Suc t) e = Inr (t', e') \<and>
    (0 < t' \<longleftrightarrow> ata_busy (view e) < t) \<and> view e' = (view e)\<lparr>ata_busy := ata_busy (view e) - t\<rparr>"
  using ready(2)
proof (induction t arbitrary: e)
  case (Suc t)
  let ?b = "fst (inb io 0x1f7 e)" and ?e = "snd (inb io 0x1f7 e)"
  have b: "?b = ata_status (view e)" and v: "view ?e = ata_polled (view e)"
    using assms(1) by (simp_all add: conforms_def)
  show ?case
  proof (cases "ata_busy (view e) = 0")
    case True
    then have "?b AND stat = v" using Suc.prems [of "view e"] by (simp add: b)
    moreover have "view ?e = (view e)\<lparr>ata_busy := 0\<rparr>" using True by (simp add: v ata_polled_def)
    ultimately show ?thesis using True by (simp add: wait_step del: wait_status.simps)
  next
    case False
    then have m: "?b AND stat \<noteq> v" using ready(1) [of "view e"] by (simp add: b)
    have "\<exists>t' e'. wait_status io stat v (Suc t) ?e = Inr (t', e') \<and>
        (0 < t' \<longleftrightarrow> ata_busy (view ?e) < t) \<and> view e' = (view ?e)\<lparr>ata_busy := ata_busy (view ?e) - t\<rparr>"
      using Suc.prems by (intro Suc.IH) (simp add: v ata_polled_def)
    with m False show ?thesis by (auto simp: wait_step v ata_polled_def simp del: wait_status.simps)
  qed
qed simp

lemma norm_wait: "NORM_WAIT_TIME = Suc 9999"
  by (simp add: NORM_WAIT_TIME_def)

lemma wait_not_busy:
  "conforms io view \<Longrightarrow> \<exists>t e'. wait_status io STAT_BUSY 0 NORM_WAIT_TIME e = Inr (t, e') \<and>
    (0 < t \<longleftrightarrow> ata_busy (view e) < 9999) \<and> view e' = (view e)\<lparr>ata_busy := ata_busy (view e) - 9999\<rparr>"
  unfolding norm_wait by (intro wait_for) (auto simp: ata_status_def STAT_BUSY_def)

lemma wait_data_request:
  "conforms io view \<Longrightarrow> ata_job (view e) \<noteq> None \<Longrightarrow>
   \<exists>t e'. wait_status io STAT_DRQ STAT_DRQ NORM_WAIT_TIME e = Inr (t, e') \<and>
    (0 < t \<longleftrightarrow> ata_busy (view e) < 9999) \<and> view e' = (view e)\<lparr>ata_busy := ata_busy (view e) - 9999\<rparr>"
  unfolding norm_wait by (intro wait_for) (auto simp: ata_status_def STAT_DRQ_def)

section \<open>A command and its data\<close>

text \<open>What writes to other registers leave alone once a command is taken up.\<close>

definition same_job :: "ata \<Rightarrow> ata \<Rightarrow> bool" where
  "same_job a a' \<longleftrightarrow> (\<exists>r. a' = a\<lparr>ata_regs := r\<rparr>)"

lemma same_job_simps:
  "same_job a a' \<Longrightarrow> ata_busy a' = ata_busy a \<and> ata_job a' = ata_job a \<and> ata_buf a' = ata_buf a \<and>
     ata_disk a' = ata_disk a \<and> ata_delay a' = ata_delay a"
  by (auto simp: same_job_def)

lemma accept_regs: "ata_accept c (a\<lparr>ata_regs := r\<rparr>) = (ata_accept c a)\<lparr>ata_regs := r\<rparr>"
  by (cases "at_addr c") (simp_all add: ata_accept_def ata_sector_def)

lemma outs_no_command:
  "conforms io view \<Longrightarrow> commands_of tf ws = [] \<Longrightarrow> same_job (view e) (view (outs io ws e))"
proof (induction ws arbitrary: tf e)
  case Nil
  then show ?case by (simp add: same_job_def) (metis ata.surjective ata.update_convs(1))
next
  case (Cons w ws)
  obtain p v where w: "w = (p, v)" by (cases w)
  with Cons.prems(2) have p: "p \<noteq> 0x1f7" and rest: "commands_of (reg_write p v tf) ws = []" by (auto split: if_splits)
  have "view (outb io p v e) = ata_out p v (view e)" using Cons.prems(1) by (simp add: conforms_def)
  moreover have "same_job (view e) (ata_out p v (view e))"
    using p by (simp add: ata_out_def same_job_def) (metis ata.surjective ata.update_convs(1))
  ultimately have "same_job (view e) (view (outb io p v e))" by simp
  with Cons.IH [OF Cons.prems(1) rest, of "outb io p v e"] show ?case by (auto simp: w same_job_def)
qed

lemma outs_command:
  "conforms io view \<Longrightarrow> ata_busy (view e) = 0 \<Longrightarrow> commands_of (ata_regs (view e)) ws = [c] \<Longrightarrow>
   same_job (ata_accept c (view e)) (view (outs io ws e))"
proof (induction ws arbitrary: e)
  case (Cons w ws)
  obtain p v where w: "w = (p, v)" by (cases w)
  have out: "view (outb io p v e) = ata_out p v (view e)" using Cons.prems(1) by (simp add: conforms_def)
  show ?case
  proof (cases "p = 0x1f7")
    case True
    with Cons.prems(3) have c: "c = taken_up (ata_regs (view e)) v" and rest: "commands_of (ata_regs (view e)) ws = []"
      by (simp_all add: w)
    from outs_no_command [OF Cons.prems(1) rest, of "outb io p v e"] show ?thesis
      using True Cons.prems(2) out by (simp add: w ata_out_def c)
  next
    case False
    let ?e = "outb io p v e"
    have v: "view ?e = (view e)\<lparr>ata_regs := reg_write p v (ata_regs (view e))\<rparr>"
      using False Cons.prems(2) by (simp add: out ata_out_def)
    have "same_job (ata_accept c (view ?e)) (view (outs io ws ?e))"
      using False Cons.prems by (intro Cons.IH) (simp_all add: v w)
    moreover have "same_job (ata_accept c (view e)) (ata_accept c (view ?e))"
      unfolding v accept_regs by (auto simp: same_job_def)
    ultimately show ?thesis by (auto simp: w same_job_def)
  qed
qed simp

text \<open>The two bytes of a word.\<close>

lemma word_bytes:
  "ucast ((ucast b0 :: u16) OR push_bit 8 (ucast b1)) = (b0 :: u8)"
  "ucast (drop_bit 8 ((ucast b0 :: u16) OR push_bit 8 (ucast b1))) = (b1 :: u8)"
  by (auto simp: bit_eq_iff bit_simps dest: bit_imp_le_length)

text \<open>The state of the drive after a sector's worth of words.\<close>

definition stored_sector :: "nat \<Rightarrow> nat \<Rightarrow> nat \<Rightarrow> u8 list \<Rightarrow> ata \<Rightarrow> ata" where
  "stored_sector d n left bs a = a\<lparr>ata_buf := [], ata_disk := (ata_disk a)(d := (ata_disk a d)(n := bs)),
     ata_busy := ata_delay a, ata_job := (if left = 1 then None else Some (d, n + 1, left - 1))\<rparr>"

lemma two_bytes: "length bs = 2 * Suc k \<Longrightarrow> \<exists>x y zs. bs = x # y # zs \<and> length zs = 2 * k"
  by (cases bs; cases "tl bs") auto

lemma outsw_word:
  assumes "conforms io view"
  shows "\<exists>w e'. outsw io 0x1f0 (x # y # zs) (Suc k) e = outsw io 0x1f0 zs k e' \<and> view e' = ata_word w (view e) \<and>
    ucast w = x \<and> ucast (drop_bit 8 w) = y"
proof -
  define w where "w = (ucast x :: u16) OR push_bit 8 (ucast y)"
  have "outsw io 0x1f0 (x # y # zs) (Suc k) e = outsw io 0x1f0 zs k (outw io 0x1f0 w e)"
    by (simp add: w_def Let_def)
  moreover have "view (outw io 0x1f0 w e) = ata_word w (view e)" using assms by (simp add: conforms_def)
  moreover have "ucast w = x" "ucast (drop_bit 8 w) = y" unfolding w_def by (rule word_bytes)+
  ultimately show ?thesis by blast
qed

lemma outsw_sector:
  assumes "conforms io view"
  shows "length bs = 2 * Suc k \<Longrightarrow> length (ata_buf (view e)) + length bs = 512 \<Longrightarrow> ata_busy (view e) = 0 \<Longrightarrow>
    ata_job (view e) = Some (d, n, left) \<Longrightarrow>
    view (outsw io 0x1f0 bs (Suc k) e) = stored_sector d n left (ata_buf (view e) @ bs) (view e)"
proof (induction k arbitrary: bs e)
  case 0
  obtain x y where bs: "bs = [x, y]" using two_bytes [OF 0(1)] by auto
  obtain w e' where "outsw io 0x1f0 bs (Suc 0) e = e'" "view e' = ata_word w (view e)"
    "ucast w = x" "ucast (drop_bit 8 w) = y"
    using outsw_word [OF assms, of x y "[]" 0 e] bs by auto
  with 0 show ?case by (simp add: bs ata_word_def stored_sector_def del: outsw.simps)
next
  case (Suc k)
  obtain x y zs where bs: "bs = x # y # zs" and zs: "length zs = 2 * Suc k" using two_bytes [OF Suc.prems(1)] by auto
  obtain w e' where w: "outsw io 0x1f0 bs (Suc (Suc k)) e = outsw io 0x1f0 zs (Suc k) e'"
    "view e' = ata_word w (view e)" "ucast w = x" "ucast (drop_bit 8 w) = y"
    using outsw_word [OF assms, of x y zs "Suc k" e] bs by auto
  then have v: "view e' = (view e)\<lparr>ata_buf := ata_buf (view e) @ [x, y]\<rparr>"
    using Suc.prems zs by (simp add: bs ata_word_def)
  have "view (outsw io 0x1f0 zs (Suc k) e') = stored_sector d n left (ata_buf (view e') @ zs) (view e')"
    using Suc.prems zs by (intro Suc.IH) (simp_all add: v bs)
  then show ?case using w(1) by (simp add: bs v stored_sector_def del: outsw.simps)
qed

lemma port_write_sector:
  assumes "conforms io view" "length bs = 512" "ata_buf (view e) = []" "ata_busy (view e) = 0"
    "ata_job (view e) = Some (d, n, left)"
  shows "view (port_write io DATA bs 512 e) = stored_sector d n left bs (view e)"
proof -
  have "(512 + 1) div 2 = Suc (255 :: nat)" by simp
  then show ?thesis
    using outsw_sector [OF assms(1), of bs 255 e d n left] assms by (simp only: port_write_def DATA_def) simp
qed

text \<open>The write loop of \<^verbatim>\<open>hd_rdwt\<close>, one sector at a time.\<close>

lemma write_sectors_step:
  assumes c: "conforms io view" and job: "ata_job (view (dev_st s)) = Some (d, n, left)" "ata_buf (view (dev_st s)) = []"
  shows "if ata_busy (view (dev_st s)) < 9999
    then \<exists>e. write_sectors io (Suc k) p s = write_sectors io k (p + 512) (s\<lparr>dev_st := e\<rparr>) \<and>
      view e = stored_sector d n left (load_bytes (dmem s) p 512) ((view (dev_st s))\<lparr>ata_busy := 0\<rparr>)
    else write_sectors io (Suc k) p s = Inl (Panic ''HD: writing error.'')"
proof -
  from wait_data_request [OF c, of "dev_st s"] job obtain t e where
    w: "wait_status io STAT_DRQ STAT_DRQ NORM_WAIT_TIME (dev_st s) = Inr (t, e)"
      "0 < t \<longleftrightarrow> ata_busy (view (dev_st s)) < 9999"
      "view e = (view (dev_st s))\<lparr>ata_busy := ata_busy (view (dev_st s)) - 9999\<rparr>" by auto
  show ?thesis
  proof (cases "ata_busy (view (dev_st s)) < 9999")
    case True
    then have v: "view e = (view (dev_st s))\<lparr>ata_busy := 0\<rparr>" using w(3) by simp
    let ?e = "port_write io DATA (load_bytes (dmem s) p 512) 512 e"
    have "view ?e = stored_sector d n left (load_bytes (dmem s) p 512) (view e)"
      using job by (intro port_write_sector [OF c]) (simp_all add: v load_bytes_def)
    then show ?thesis using True w(1,2) by (auto simp: v)
  qed (use w in auto)
qed

section \<open>A write request of two sectors\<close>

text \<open>The driver addresses drive 0 in a mode and on a geometry that are the drive's, and reaches sector \<open>n\<close>.\<close>

definition reaches :: "'e hd_state \<Rightarrow> ata \<Rightarrow> nat \<Rightarrow> bool" where
  "reaches d a n \<longleftrightarrow> n < 2 ^ 28 \<and> addr_mode (hd d ! 0) \<in> {0, 1, 2} \<and>
     (addr_mode (hd d ! 0) = 0 \<longrightarrow> ata_heads a = unat (head_nr d) \<and> ata_spt a = unat (sect_per_trk d) \<and>
        0 < ata_heads a \<and> ata_heads a \<le> 16 \<and> 0 < ata_spt a \<and> n div ata_spt a div ata_heads a < 65536)"

lemma reaches_cong:
  "hd d' = hd d \<Longrightarrow> head_nr d' = head_nr d \<Longrightarrow> sect_per_trk d' = sect_per_trk d \<Longrightarrow>
   ata_heads a' = ata_heads a \<Longrightarrow> ata_spt a' = ata_spt a \<Longrightarrow> reaches d' a' n = reaches d a n"
  unfolding reaches_def by metis

lemma ata_sector_address:
  assumes "reaches d a n"
  shows "ata_sector a (address_of (addr_mode (hd d ! 0)) (sect_per_trk d) (head_nr d) n) = Some n"
proof (cases "addr_mode (hd d ! 0) = 0")
  case True
  define t h where "t = ata_spt a" and "h = ata_heads a"
  have g: "unat (sect_per_trk d) = t" "unat (head_nr d) = h" "0 < t" "0 < h"
    using assms True by (simp_all add: reaches_def t_def h_def)
  have "n mod t < t" using g(3) by simp
  then have "n mod t + 1 \<le> t" by linarith
  moreover have "n div t mod h < h" using g(4) by simp
  moreover have "(n div t div h * h + n div t mod h) * t + n mod t = n" by simp
  ultimately show ?thesis using True by (simp add: ata_sector_def address_of_def g flip: t_def h_def)
qed (simp add: ata_sector_def address_of_def)

lemma command_accepted:
  assumes c: "conforms io view" and busy: "ata_busy (view (dev_st d)) < 9999"
    and n: "reaches d (view (dev_st d)) n"
  shows "\<exists>e. hd_cmd_out io 0 0x30 2 (of_nat n) 0 d = Inr (d\<lparr>dev_st := e\<rparr>) \<and>
    ata_busy (view e) = ata_delay (view (dev_st d)) \<and> ata_delay (view e) = ata_delay (view (dev_st d)) \<and>
    ata_job (view e) = Some (0, n, 2) \<and> ata_buf (view e) = [] \<and> ata_disk (view e) = ata_disk (view (dev_st d))"
proof -
  have n28: "(of_nat n :: u32) < 0x10000000" and un: "unat (of_nat n :: u32) = n"
  proof -
    have "n < 2 ^ 28" using n by (simp add: reaches_def)
    then show un: "unat (of_nat n :: u32) = n" by (intro unat_of_nat_addr) simp
    show "(of_nat n :: u32) < 0x10000000" using \<open>n < 2 ^ 28\<close> by (simp only: word_less_nat_alt un) simp
  qed
  let ?a = "view (dev_st d)"
  from wait_not_busy [OF c, of "dev_st d"] busy obtain t e where
    w: "wait_status io STAT_BUSY 0 NORM_WAIT_TIME (dev_st d) = Inr (t, e)" "0 < t" "view e = ?a\<lparr>ata_busy := 0\<rparr>"
    by auto
  have mode: "addr_mode (hd d ! unat (0 :: u8)) \<in> {0, 1, 2}" using n by (simp add: reaches_def)
  have "addr_mode (hd d ! unat (0 :: u8)) = 0 \<Longrightarrow> sect_per_trk d \<noteq> 0 \<and> head_nr d \<noteq> 0"
    using n by (auto simp: reaches_def)
  from hd_cmd_out_returns [OF w(1,2) _ _ _ n28 mode this, of 2 "0x30"]
  obtain d' where run: "hd_cmd_out io 0 0x30 2 (of_nat n) 0 d = Inr d'" by auto
  have "unat (head_nr d) \<le> 16 \<and> unat (of_nat n :: u32) div unat (sect_per_trk d) div unat (head_nr d) < 65536"
    if "addr_mode (hd d ! unat (0 :: u8)) = 0"
    using n that by (auto simp: reaches_def un)
  from hd_cmd_taken_up [OF run _ refl this] w obtain ws where
    d': "d' = d\<lparr>dev_st := outs io ws e\<rparr>"
    and ws: "\<And>tf. commands_of tf ws = [\<lparr>at_drive = 0, at_op = Write_sectors, at_count = 2,
      at_addr = address_of (addr_mode (hd d ! 0)) (sect_per_trk d) (head_nr d) n, at_features = 0, at_control = 0\<rparr>]"
    by (auto simp: un)
  have "ata_sector (view e) (address_of (addr_mode (hd d ! 0)) (sect_per_trk d) (head_nr d) n) = Some n"
    using n reaches_cong [of d d "view e" ?a n] by (intro ata_sector_address) (simp add: w(3))
  with same_job_simps [OF outs_command [OF c _ ws, of e]] have
    "ata_busy (view (outs io ws e)) = ata_delay ?a \<and> ata_job (view (outs io ws e)) = Some (0, n, 2) \<and>
     ata_buf (view (outs io ws e)) = [] \<and> ata_disk (view (outs io ws e)) = ata_disk ?a \<and>
     ata_delay (view (outs io ws e)) = ata_delay ?a"
    by (simp add: w(3) ata_accept_def)
  with run d' show ?thesis by (intro exI [of _ "outs io ws e"]) simp
qed

text \<open>
  Busy for too long, the drive sees only status reads, and the request returns all the same; too slow
  after the command or the first sector, it stops the machine; else the two sectors are on the disk.
\<close>

lemma hd_rdwt_write:
  assumes c: "conforms io view" and n: "reaches d (view (dev_st d)) n" and a: "a = view (dev_st d)"
  shows "if 9999 \<le> ata_busy a
    then \<exists>e. hd_rdwt io 1 (int n) 2 p d = Inr (- 1, d\<lparr>dev_st := e\<rparr>) \<and> view e = a\<lparr>ata_busy := ata_busy a - 9999\<rparr>
    else if 9999 \<le> ata_delay a
    then hd_rdwt io 1 (int n) 2 p d = Inl (Panic ''HD: writing error.'')
    else \<exists>e. hd_rdwt io 1 (int n) 2 p d = Inr (0, d\<lparr>dev_st := e\<rparr>) \<and>
      ata_disk (view e) = (ata_disk a)(0 := (ata_disk a 0)(n := load_bytes (dmem d) p 512,
        n + 1 := load_bytes (dmem d) (p + 512) 512)) \<and> ata_job (view e) = None"
proof -
  from wait_not_busy [OF c, of "dev_st d"] obtain t e where
    w: "wait_status io STAT_BUSY 0 NORM_WAIT_TIME (dev_st d) = Inr (t, e)" "0 < t \<longleftrightarrow> ata_busy a < 9999"
      "view e = a\<lparr>ata_busy := ata_busy a - 9999\<rparr>" unfolding a by auto
  show ?thesis
  proof (cases "9999 \<le> ata_busy a")
    case True
    with w show ?thesis by (auto simp: hd_rdwt_def)
  next
    case False
    let ?d = "d\<lparr>dev_st := e\<rparr>"
    have "reaches ?d (view (dev_st ?d)) n" using n reaches_cong [of ?d d "view e" a n] by (simp add: w(3) a)
    from command_accepted [OF c _ this] False w(3) obtain e1 where
      cmd: "hd_cmd_out io 0 0x30 2 (of_nat n) 0 ?d = Inr (d\<lparr>dev_st := e1\<rparr>)"
      and e1: "ata_busy (view e1) = ata_delay a" "ata_delay (view e1) = ata_delay a" "ata_job (view e1) = Some (0, n, 2)"
        "ata_buf (view e1) = []" "ata_disk (view e1) = ata_disk a" by auto
    let ?d1 = "d\<lparr>dev_st := e1\<rparr>"
    have run: "hd_rdwt io 1 (int n) 2 p d = bindr (write_sectors io (Suc (Suc 0)) p ?d1) (\<lambda>s. Inr (0, s))"
      using w False cmd by (simp add: hd_rdwt_def numeral_2_eq_2)
    note one = write_sectors_step [OF c, of ?d1 0 n 2 "Suc 0" p]
    show ?thesis
    proof (cases "9999 \<le> ata_delay a")
      case True
      with one e1 False show ?thesis by (simp add: run del: write_sectors.simps)
    next
      case fast: False
      with one e1 obtain e2 where w2: "write_sectors io (Suc (Suc 0)) p ?d1 = write_sectors io (Suc 0) (p + 512) (d\<lparr>dev_st := e2\<rparr>)"
        and e2: "view e2 = stored_sector 0 n 2 (load_bytes (dmem d) p 512) ((view e1)\<lparr>ata_busy := 0\<rparr>)"
        by (auto simp del: write_sectors.simps)
      have "ata_busy (view e2) < 9999" "ata_job (view e2) = Some (0, n + 1, 1)" "ata_buf (view e2) = []"
        using fast e1 by (simp_all add: e2 stored_sector_def)
      with write_sectors_step [OF c, of "d\<lparr>dev_st := e2\<rparr>" 0 "n + 1" 1 0 "p + 512"] obtain e3 where
        w3: "write_sectors io (Suc 0) (p + 512) (d\<lparr>dev_st := e2\<rparr>) = Inr (d\<lparr>dev_st := e3\<rparr>)"
        and e3: "view e3 = stored_sector 0 (n + 1) 1 (load_bytes (dmem d) (p + 512) 512) ((view e2)\<lparr>ata_busy := 0\<rparr>)"
        by auto
      have "ata_disk (view e3) = (ata_disk a)(0 := (ata_disk a 0)(n := load_bytes (dmem d) p 512,
          n + 1 := load_bytes (dmem d) (p + 512) 512))" "ata_job (view e3) = None"
        by (simp_all add: e3 e2 e1 stored_sector_def)
      then show ?thesis using False fast by (auto simp: run w2 w3 simp del: write_sectors.simps)
    qed
  qed
qed

end
