(* ===== verification/Linked_List.thy ===== *)
theory Linked_List imports Prelude begin

text \<open>
  The intrusive lists of \<^verbatim>\<open>include/list.h\<close>: the circular doubly linked
  \<^verbatim>\<open>list_head\<close> and the hash-bucket \<^verbatim>\<open>hlist\<close>. The store is the pointer fields themselves,
  as functions from node addresses, and every routine performs the assignments of the
  source in their order, since the nodes may alias. A predicate relates the store to the
  list of nodes it represents, and each routine is shown to be the list operation it stands for.
\<close>

section \<open>\<^verbatim>\<open>struct list_head\<close>\<close>

record 'a links =
  lnext :: "'a \<Rightarrow> 'a"
  lprev :: "'a \<Rightarrow> 'a"

definition set_next :: "'a \<Rightarrow> 'a \<Rightarrow> 'a links \<Rightarrow> 'a links" where
  "set_next p v h = h\<lparr>lnext := (lnext h)(p := v)\<rparr>"

definition set_prev :: "'a \<Rightarrow> 'a \<Rightarrow> 'a links \<Rightarrow> 'a links" where
  "set_prev p v h = h\<lparr>lprev := (lprev h)(p := v)\<rparr>"

definition INIT_LIST_HEAD :: "'a \<Rightarrow> 'a links \<Rightarrow> 'a links" where
  "INIT_LIST_HEAD ptr h = set_prev ptr ptr (set_next ptr ptr h)"

definition list_add_between :: "'a \<Rightarrow> 'a \<Rightarrow> 'a \<Rightarrow> 'a links \<Rightarrow> 'a links" where
  "list_add_between new prv nxt h =
     (let h = set_prev nxt new h;
          h = set_next new nxt h;
          h = set_prev new prv h
      in set_next prv new h)"

definition list_add :: "'a \<Rightarrow> 'a \<Rightarrow> 'a links \<Rightarrow> 'a links" where
  "list_add new head h = list_add_between new head (lnext h head) h"

definition list_add_tail :: "'a \<Rightarrow> 'a \<Rightarrow> 'a links \<Rightarrow> 'a links" where
  "list_add_tail new head h = list_add_between new (lprev h head) head h"

definition list_del_between :: "'a \<Rightarrow> 'a \<Rightarrow> 'a links \<Rightarrow> 'a links" where
  "list_del_between prv nxt h = (let h = set_prev nxt prv h in set_next prv nxt h)"

definition list_del :: "'a \<Rightarrow> 'a links \<Rightarrow> 'a links" where
  "list_del entry h = list_del_between (lprev h entry) (lnext h entry) h"

definition list_empty :: "'a \<Rightarrow> 'a links \<Rightarrow> bool" where
  "list_empty head h \<longleftrightarrow> lnext h head = head"

text \<open>
  \<^verbatim>\<open>list_for_each(pos, head)\<close>: the nodes the loop visits from \<open>pos\<close> on. The loop of
  the source ends only when it meets the head again; on a list that never does, the value is
  \<open>None\<close>.
\<close>

partial_function (option) list_for_each_from :: "'a links \<Rightarrow> 'a \<Rightarrow> 'a \<Rightarrow> 'a list option" where
  "list_for_each_from h head pos =
     (if pos = head then Some []
      else Option.bind (list_for_each_from h head (lnext h pos)) (\<lambda>ps. Some (pos # ps)))"

definition list_for_each :: "'a links \<Rightarrow> 'a \<Rightarrow> 'a list option" where
  "list_for_each h head = list_for_each_from h head (lnext h head)"

section \<open>The list a circular store represents\<close>

text \<open>
  \<open>dseg h a xs b\<close>: from node \<open>a\<close> the \<^verbatim>\<open>next\<close> pointers run through \<open>xs\<close> to \<open>b\<close>, and
  every \<^verbatim>\<open>prev\<close> pointer on the way points back. \<open>dlist h head xs\<close>: the ring through the
  head \<open>head\<close> holds exactly the nodes \<open>xs\<close>, in this order, none twice.
\<close>

fun dseg :: "'a links \<Rightarrow> 'a \<Rightarrow> 'a list \<Rightarrow> 'a \<Rightarrow> bool" where
  "dseg h a [] b \<longleftrightarrow> lnext h a = b \<and> lprev h b = a"
| "dseg h a (x # xs) b \<longleftrightarrow> lnext h a = x \<and> lprev h x = a \<and> dseg h x xs b"

definition dlist :: "'a links \<Rightarrow> 'a \<Rightarrow> 'a list \<Rightarrow> bool" where
  "dlist h head xs \<longleftrightarrow> distinct (head # xs) \<and> dseg h head xs head"

lemmas links_defs = set_next_def set_prev_def INIT_LIST_HEAD_def list_add_between_def
  list_add_def list_add_tail_def list_del_between_def list_del_def Let_def

lemma dseg_append: "dseg h a (xs @ y # ys) b \<longleftrightarrow> dseg h a xs y \<and> dseg h y ys b"
  by (induction xs arbitrary: a) auto

lemma dseg_cong:
  "\<lbrakk>\<And>p. p \<in> set (a # xs) \<Longrightarrow> lnext h' p = lnext h p;
    \<And>p. p \<in> set (xs @ [b]) \<Longrightarrow> lprev h' p = lprev h p\<rbrakk>
   \<Longrightarrow> dseg h' a xs b = dseg h a xs b"
  by (induction xs arbitrary: a) auto

lemma dlist_cong:
  assumes "\<And>p. p \<in> set (head # xs) \<Longrightarrow> lnext h' p = lnext h p \<and> lprev h' p = lprev h p"
  shows "dlist h' head xs = dlist h head xs"
proof -
  have "dseg h' head xs head = dseg h head xs head"
    by (rule dseg_cong) (use assms in auto)
  then show ?thesis by (simp add: dlist_def)
qed

lemma dseg_first: "dseg h a xs b \<Longrightarrow> lnext h a = (case xs of [] \<Rightarrow> b | x # _ \<Rightarrow> x)"
  by (cases xs) auto

lemma dseg_last: "dseg h a xs b \<Longrightarrow> lprev h b = (if xs = [] then a else last xs)"
  by (induction xs arbitrary: a) auto

lemma dlist_INIT: "dlist (INIT_LIST_HEAD head h) head []"
  by (simp add: dlist_def links_defs)

lemma dlist_empty_iff: "dlist h head xs \<Longrightarrow> list_empty head h \<longleftrightarrow> xs = []"
  by (cases xs) (auto simp: dlist_def list_empty_def)

lemma dlist_first: "dlist h head (x # xs) \<Longrightarrow> lnext h head = x"
  by (simp add: dlist_def)

lemma dlist_add:
  assumes "dlist h head xs" and "new \<notin> set (head # xs)"
  shows "dlist (list_add new head h) head (new # xs)"
proof (cases xs)
  case Nil
  with assms show ?thesis by (simp add: dlist_def links_defs)
next
  case (Cons x zs)
  have "dseg (list_add new head h) x zs head = dseg h x zs head"
    using assms Cons by (intro dseg_cong) (auto simp: dlist_def links_defs)
  with assms Cons show ?thesis by (auto simp: dlist_def links_defs)
qed

lemma dlist_add_tail:
  assumes "dlist h head xs" and "new \<notin> set (head # xs)"
  shows "dlist (list_add_tail new head h) head (xs @ [new])"
proof (cases xs rule: rev_cases)
  case Nil
  with assms show ?thesis by (simp add: dlist_def links_defs)
next
  case (snoc zs z)
  have "dseg (list_add_tail new head h) head zs z = dseg h head zs z"
    using assms snoc by (intro dseg_cong) (auto simp: dlist_def dseg_append links_defs)
  with assms snoc show ?thesis by (auto simp: dlist_def dseg_append links_defs)
qed

lemma dlist_del:
  assumes "dlist h head (ys @ x # zs)"
  shows "dlist (list_del x h) head (ys @ zs)"
proof -
  let ?h = "list_del x h"
  have segs: "dseg h head ys x" "dseg h x zs head" and dist: "distinct (head # ys @ x # zs)"
    using assms by (auto simp: dlist_def dseg_append)
  have p: "lprev h x = (if ys = [] then head else last ys)"
    using segs(1) by (rule dseg_last)
  have n: "lnext h x = (case zs of [] \<Rightarrow> head | z # _ \<Rightarrow> z)"
    using segs(2) by (rule dseg_first)
  show ?thesis
  proof (cases ys rule: rev_cases)
    case ysNil: Nil
    show ?thesis
    proof (cases zs)
      case Nil
      with ysNil dist p n show ?thesis by (simp add: dlist_def links_defs)
    next
      case (Cons z zs')
      have "dseg ?h z zs' head = dseg h z zs' head"
        using Cons ysNil dist p n by (intro dseg_cong) (auto simp: links_defs)
      with Cons ysNil dist p n segs show ?thesis by (simp add: dlist_def links_defs)
    qed
  next
    case (snoc ys' y)
    have ysseg: "dseg ?h head ys' y = dseg h head ys' y"
      using snoc dist p n by (intro dseg_cong) (auto simp: links_defs split: list.splits)
    show ?thesis
    proof (cases zs)
      case Nil
      with snoc dist p n segs ysseg show ?thesis
        by (simp add: dlist_def links_defs dseg_append)
    next
      case (Cons z zs')
      have "dseg ?h z zs' head = dseg h z zs' head"
        using Cons snoc dist p n by (intro dseg_cong) (auto simp: links_defs)
      with Cons snoc dist p n segs ysseg show ?thesis
        by (simp add: dlist_def links_defs dseg_append)
    qed
  qed
qed

text \<open>The routines leave every list alone that does not hold one of the nodes they touch.\<close>

lemma dlist_add_frame:
  assumes "dlist h head xs" and "new \<notin> set (head' # ys)"
    and "set (head # xs) \<inter> set (head' # ys) = {}"
  shows "dlist (list_add new head h) head' ys = dlist h head' ys"
proof (rule dlist_cong)
  fix p assume p: "p \<in> set (head' # ys)"
  have "lnext h head \<in> set (head # xs)"
    using assms(1) by (cases xs) (auto simp: dlist_def)
  with p assms(2,3) have "p \<noteq> lnext h head" "p \<noteq> head" "p \<noteq> new" by auto
  then show "lnext (list_add new head h) p = lnext h p \<and> lprev (list_add new head h) p = lprev h p"
    by (simp add: links_defs)
qed

lemma dlist_del_frame:
  assumes "dlist h head xs" and "x \<in> set xs"
    and "set (head # xs) \<inter> set (head' # ys) = {}"
  shows "dlist (list_del x h) head' ys = dlist h head' ys"
proof (rule dlist_cong)
  fix p assume p: "p \<in> set (head' # ys)"
  from assms(2) obtain as bs where xs: "xs = as @ x # bs" by (meson split_list)
  with assms(1) have segs: "dseg h head as x" "dseg h x bs head"
    by (auto simp: dlist_def dseg_append)
  have "lprev h x \<in> set (head # xs)" using dseg_last [OF segs(1)] xs by auto
  moreover have "lnext h x \<in> set (head # xs)"
    using dseg_first [OF segs(2)] xs by (auto split: list.splits)
  ultimately have "p \<noteq> lprev h x" "p \<noteq> lnext h x" using p assms(3) by auto
  then show "lnext (list_del x h) p = lnext h p \<and> lprev (list_del x h) p = lprev h p"
    by (simp add: links_defs)
qed

lemma INIT_frame:
  "ptr \<notin> set (head' # ys) \<Longrightarrow> dlist (INIT_LIST_HEAD ptr h) head' ys = dlist h head' ys"
  by (rule dlist_cong) (auto simp: links_defs)

text \<open>What a routine writes: the neighbours of the node it is about.\<close>

definition same_links :: "'a \<Rightarrow> 'a links \<Rightarrow> 'a links \<Rightarrow> bool" where
  "same_links p h h' \<longleftrightarrow> lnext h p = lnext h' p \<and> lprev h p = lprev h' p"

lemma list_del_only:
  "a \<noteq> lprev h x \<Longrightarrow> a \<noteq> lnext h x \<Longrightarrow> lnext (list_del x h) a = lnext h a \<and> lprev (list_del x h) a = lprev h a"
  by (simp add: links_defs)

lemma list_add_only:
  "a \<notin> {new, head, lnext h head} \<Longrightarrow>
   lnext (list_add new head h) a = lnext h a \<and> lprev (list_add new head h) a = lprev h a"
  by (simp add: links_defs)

lemma dlist_neighbours:
  assumes "dlist h head xs" "x \<in> set (head # xs)"
  shows "lnext h x \<in> set (head # xs)" "lprev h x \<in> set (head # xs)"
proof -
  have seg: "lnext h y \<in> set (xs @ [b]) \<and> lprev h z \<in> set (a # xs)"
    if "dseg h a xs b" "y \<in> set (a # xs)" "z \<in> set (xs @ [b])" for a b y z
    using that by (induction xs arbitrary: a y z) auto
  have "x \<in> set (xs @ [head])" using assms(2) by auto
  with seg [of head head x x] assms show "lnext h x \<in> set (head # xs)" "lprev h x \<in> set (head # xs)"
    by (auto simp: dlist_def)
qed

lemma list_for_each_from_dseg:
  "dseg h a xs head \<Longrightarrow> head \<notin> set xs \<Longrightarrow> list_for_each_from h head (lnext h a) = Some xs"
proof (induction xs arbitrary: a)
  case Nil
  then show ?case by (simp add: list_for_each_from.simps)
next
  case (Cons x xs)
  then show ?case by (subst list_for_each_from.simps) auto
qed

lemma list_for_each_dlist: "dlist h head xs \<Longrightarrow> list_for_each h head = Some xs"
  unfolding list_for_each_def by (rule list_for_each_from_dseg) (auto simp: dlist_def)

lemma dlist_unique: "dlist h head xs \<Longrightarrow> dlist h head ys \<Longrightarrow> xs = ys"
  by (drule list_for_each_dlist)+ simp

section \<open>\<^verbatim>\<open>struct hlist_head\<close> and \<^verbatim>\<open>struct hlist_node\<close>\<close>

text \<open>
  A hash bucket is singly linked from \<^verbatim>\<open>first\<close>; each node also holds \<^verbatim>\<open>pprev\<close>, the address
  of the pointer that points at it: the \<^verbatim>\<open>first\<close> field of a head or the \<^verbatim>\<open>next\<close> field of a node.
\<close>

datatype ('h, 'a) ploc = Null_loc | First_of 'h | Next_of 'a

record ('h, 'a) hlinks =
  hfirst :: "'h \<Rightarrow> 'a option"
  hnext :: "'a \<Rightarrow> 'a option"
  hpprev :: "'a \<Rightarrow> ('h, 'a) ploc"

definition set_hnext :: "'a \<Rightarrow> 'a option \<Rightarrow> ('h, 'a) hlinks \<Rightarrow> ('h, 'a) hlinks" where
  "set_hnext n v h = h\<lparr>hnext := (hnext h)(n := v)\<rparr>"

definition set_hpprev :: "'a \<Rightarrow> ('h, 'a) ploc \<Rightarrow> ('h, 'a) hlinks \<Rightarrow> ('h, 'a) hlinks" where
  "set_hpprev n v h = h\<lparr>hpprev := (hpprev h)(n := v)\<rparr>"

text \<open>\<^verbatim>\<open>*pprev = v\<close>\<close>

fun store_ploc :: "('h, 'a) ploc \<Rightarrow> 'a option \<Rightarrow> ('h, 'a) hlinks \<Rightarrow> ('h, 'a) hlinks res" where
  "store_ploc Null_loc v h = Inl Bad_access"
| "store_ploc (First_of b) v h = Inr (h\<lparr>hfirst := (hfirst h)(b := v)\<rparr>)"
| "store_ploc (Next_of n) v h = Inr (set_hnext n v h)"

text \<open>\<^verbatim>\<open>if (next) next->pprev = pprev;\<close>\<close>

definition relink_next :: "'a option \<Rightarrow> ('h, 'a) ploc \<Rightarrow> ('h, 'a) hlinks \<Rightarrow> ('h, 'a) hlinks" where
  "relink_next nxt l h = (case nxt of None \<Rightarrow> h | Some n \<Rightarrow> set_hpprev n l h)"

definition INIT_HLIST_HEAD :: "'h \<Rightarrow> ('h, 'a) hlinks \<Rightarrow> ('h, 'a) hlinks" where
  "INIT_HLIST_HEAD ptr h = h\<lparr>hfirst := (hfirst h)(ptr := None)\<rparr>"

definition INIT_HLIST_NODE :: "'a \<Rightarrow> ('h, 'a) hlinks \<Rightarrow> ('h, 'a) hlinks" where
  "INIT_HLIST_NODE ptr h = set_hpprev ptr Null_loc (set_hnext ptr None h)"

definition hlist_empty :: "'h \<Rightarrow> ('h, 'a) hlinks \<Rightarrow> bool" where
  "hlist_empty head h \<longleftrightarrow> hfirst h head = None"

definition hlist_del :: "'a \<Rightarrow> ('h, 'a) hlinks \<Rightarrow> ('h, 'a) hlinks res" where
  "hlist_del node h =
     (let nxt = hnext h node; pprev = hpprev h node
      in bindr (store_ploc pprev nxt h) (\<lambda>h. Inr (relink_next nxt pprev h)))"

definition hlist_add_head :: "'a \<Rightarrow> 'h \<Rightarrow> ('h, 'a) hlinks \<Rightarrow> ('h, 'a) hlinks" where
  "hlist_add_head new head h =
     (let first = hfirst h head;
          h = set_hpprev new (First_of head) h;
          h = set_hnext new first h;
          h = relink_next first (Next_of new) h
      in h\<lparr>hfirst := (hfirst h)(head := Some new)\<rparr>)"

definition hlist_add_before :: "'a \<Rightarrow> 'a \<Rightarrow> ('h, 'a) hlinks \<Rightarrow> ('h, 'a) hlinks res" where
  "hlist_add_before new node h =
     (let h = set_hpprev new (hpprev h node) h;
          h = set_hnext new (Some node) h;
          h = set_hpprev node (Next_of new) h
      in store_ploc (hpprev h new) (Some new) h)"

definition hlist_add_after :: "'a \<Rightarrow> 'a \<Rightarrow> ('h, 'a) hlinks \<Rightarrow> ('h, 'a) hlinks" where
  "hlist_add_after new node h =
     (let nxt = hnext h node;
          h = set_hpprev new (Next_of node) h;
          h = set_hnext new nxt h;
          h = relink_next nxt (Next_of new) h
      in set_hnext node (Some new) h)"

text \<open>\<^verbatim>\<open>hlist_for_each(pos, head)\<close>: the nodes visited.\<close>

partial_function (option) hlist_for_each_from :: "('h, 'a) hlinks \<Rightarrow> 'a option \<Rightarrow> 'a list option" where
  "hlist_for_each_from h pos =
     (case pos of None \<Rightarrow> Some []
      | Some n \<Rightarrow> Option.bind (hlist_for_each_from h (hnext h n)) (\<lambda>ns. Some (n # ns)))"

definition hlist_for_each :: "('h, 'a) hlinks \<Rightarrow> 'h \<Rightarrow> 'a list option" where
  "hlist_for_each h head = hlist_for_each_from h (hfirst h head)"

text \<open>
  \<open>hchain h l p xs\<close>: the pointer \<open>p\<close>, stored at location \<open>l\<close>, starts the chain \<open>xs\<close>, and each
  node's \<^verbatim>\<open>pprev\<close> is the location that points at it.
\<close>

fun hchain :: "('h, 'a) hlinks \<Rightarrow> ('h, 'a) ploc \<Rightarrow> 'a option \<Rightarrow> 'a list \<Rightarrow> bool" where
  "hchain h l p [] \<longleftrightarrow> p = None"
| "hchain h l p (x # xs) \<longleftrightarrow>
     p = Some x \<and> hpprev h x = l \<and> hchain h (Next_of x) (hnext h x) xs"

definition hlist :: "('h, 'a) hlinks \<Rightarrow> 'h \<Rightarrow> 'a list \<Rightarrow> bool" where
  "hlist h head xs \<longleftrightarrow> distinct xs \<and> hchain h (First_of head) (hfirst h head) xs"

lemmas hlinks_defs = set_hnext_def set_hpprev_def relink_next_def INIT_HLIST_HEAD_def
  INIT_HLIST_NODE_def hlist_del_def hlist_add_head_def hlist_add_before_def
  hlist_add_after_def Let_def

lemma hchain_cong:
  "(\<And>p. p \<in> set xs \<Longrightarrow> hnext h' p = hnext h p \<and> hpprev h' p = hpprev h p)
   \<Longrightarrow> hchain h' l p xs = hchain h l p xs"
  by (induction xs arbitrary: l p) auto

lemma hlist_cong:
  "\<lbrakk>\<And>p. p \<in> set xs \<Longrightarrow> hnext h' p = hnext h p \<and> hpprev h' p = hpprev h p;
    hfirst h' head = hfirst h head\<rbrakk> \<Longrightarrow> hlist h' head xs = hlist h head xs"
  using hchain_cong [of xs h' h "First_of head" "hfirst h head"] by (simp add: hlist_def)

text \<open>The chain up to a node: every pointer before it is set, and it is pointed at from the
  location its \<^verbatim>\<open>pprev\<close> names.\<close>

fun hpath :: "('h, 'a) hlinks \<Rightarrow> ('h, 'a) ploc \<Rightarrow> 'a option \<Rightarrow> 'a list \<Rightarrow> ('h, 'a) ploc \<Rightarrow> 'a option \<Rightarrow> bool" where
  "hpath h l p [] l' p' \<longleftrightarrow> l = l' \<and> p = p'"
| "hpath h l p (x # xs) l' p' \<longleftrightarrow>
     p = Some x \<and> hpprev h x = l \<and> hpath h (Next_of x) (hnext h x) xs l' p'"

lemma hchain_hpath:
  "hchain h l p (xs @ ys) \<longleftrightarrow> (\<exists>l' p'. hpath h l p xs l' p' \<and> hchain h l' p' ys)"
  by (induction xs arbitrary: l p) auto

lemma hpath_loc:
  "hpath h l p xs l' p' \<Longrightarrow> l' = (if xs = [] then l else Next_of (last xs))"
  by (induction xs arbitrary: l p) auto

lemma hpath_cong:
  "\<lbrakk>\<And>q. q \<in> set (butlast xs) \<Longrightarrow> hnext h' q = hnext h q;
    \<And>q. q \<in> set xs \<Longrightarrow> hpprev h' q = hpprev h q; xs \<noteq> []; hpath h l p xs l' p'\<rbrakk>
   \<Longrightarrow> hpath h' l p xs l' (hnext h' (last xs))"
  by (induction xs arbitrary: l p) (auto split: if_splits)

lemma hlist_INIT: "hlist (INIT_HLIST_HEAD head h) head []"
  by (simp add: hlist_def hlinks_defs)

lemma hlist_empty_iff: "hlist h head xs \<Longrightarrow> hlist_empty head h \<longleftrightarrow> xs = []"
  by (cases xs) (auto simp: hlist_def hlist_empty_def)

lemma hlist_for_each_hlist: "hlist h head xs \<Longrightarrow> hlist_for_each h head = Some xs"
proof -
  have "hchain h l p xs \<Longrightarrow> hlist_for_each_from h p = Some xs" for l p xs
    by (induction xs arbitrary: l p) (subst hlist_for_each_from.simps, auto)+
  then show "hlist h head xs \<Longrightarrow> ?thesis"
    by (auto simp: hlist_def hlist_for_each_def)
qed

lemma hlist_add_head_hlist:
  assumes "hlist h head xs" and "new \<notin> set xs"
  shows "hlist (hlist_add_head new head h) head (new # xs)"
proof (cases xs)
  case Nil
  with assms show ?thesis by (auto simp: hlist_def hlinks_defs)
next
  case (Cons x zs)
  have "hchain (hlist_add_head new head h) (Next_of x) (hnext h x) zs
      = hchain h (Next_of x) (hnext h x) zs"
    using assms Cons by (intro hchain_cong) (auto simp: hlist_def hlinks_defs)
  with assms Cons show ?thesis by (auto simp: hlist_def hlinks_defs)
qed

lemma hlist_del_hlist:
  assumes "hlist h head (ys @ x # zs)"
  shows "\<exists>h'. hlist_del x h = Inr h' \<and> hlist h' head (ys @ zs)"
proof -
  from assms have dist: "distinct (ys @ x # zs)" by (simp add: hlist_def)
  from assms obtain l p where ys: "hpath h (First_of head) (hfirst h head) ys l p"
    and x: "p = Some x" "hpprev h x = l" and zs: "hchain h (Next_of x) (hnext h x) zs"
    by (auto simp: hlist_def hchain_hpath)
  have l: "l = (if ys = [] then First_of head else Next_of (last ys))"
    using hpath_loc [OF ys] .
  have lst: "last ys \<notin> set (x # zs)" if "ys \<noteq> []"
    using dist last_in_set [OF that] by (auto simp: disjoint_iff)
  obtain h' where h': "hlist_del x h = Inr h'" using x l by (cases "ys = []") (auto simp: hlinks_defs)
  have zs': "hchain h' l (hnext h x) zs"
  proof (cases zs)
    case Nil
    with zs show ?thesis by simp
  next
    case (Cons z zs')
    have "hchain h' (Next_of z) (hnext h z) zs' = hchain h (Next_of z) (hnext h z) zs'"
      using dist h' x l zs Cons lst by (intro hchain_cong) (auto simp: hlinks_defs split: if_splits)
    with zs h' x l dist Cons show ?thesis by (auto simp: hlinks_defs split: if_splits)
  qed
  have "hchain h' (First_of head) (hfirst h' head) (ys @ zs)"
  proof (cases "ys = []")
    case True
    with zs zs' h' x l show ?thesis by (auto simp: hlinks_defs split: option.splits)
  next
    case False
    then have last: "last ys \<in> set ys" by simp
    have "hpath h' (First_of head) (hfirst h head) ys l (hnext h' (last ys))"
    proof (rule hpath_cong [OF _ _ False ys])
      fix q assume q: "q \<in> set (butlast ys)"
      then have "q \<noteq> last ys"
        using dist False by (metis append_butlast_last_id distinct_append disjoint_iff list.set_intros(1))
      with q show "hnext h' q = hnext h q"
        using h' x l False by (auto simp: hlinks_defs split: option.splits)
    next
      fix q assume "q \<in> set ys"
      then show "hpprev h' q = hpprev h q"
        using h' x l False dist zs by (cases zs) (auto simp: hlinks_defs split: option.splits)
    qed
    moreover have "hnext h' (last ys) = hnext h x" "hfirst h' head = hfirst h head"
      using h' x l False by (auto simp: hlinks_defs split: option.splits)
    ultimately show ?thesis using zs' by (auto simp: hchain_hpath)
  qed
  with dist h' show ?thesis by (auto simp: hlist_def)
qed

lemma hpath_frame:
  "(\<And>q. q \<in> set xs \<Longrightarrow> hnext h' q = hnext h q \<and> hpprev h' q = hpprev h q)
   \<Longrightarrow> hpath h' l p xs l' p' = hpath h l p xs l' p'"
  by (induction xs arbitrary: l p) auto

lemma hlist_add_after_hlist:
  assumes "hlist h head (ys @ n # zs)" and new: "new \<notin> set (ys @ n # zs)"
  shows "hlist (hlist_add_after new n h) head (ys @ n # new # zs)"
proof -
  let ?h = "hlist_add_after new n h"
  from assms have dist: "distinct (ys @ n # zs)" by (simp add: hlist_def)
  from assms obtain l p where ys: "hpath h (First_of head) (hfirst h head) ys l p"
    and n: "p = Some n" "hpprev h n = l" and zs: "hchain h (Next_of n) (hnext h n) zs"
    by (auto simp: hlist_def hchain_hpath)
  have nxt: "hnext h n = (case zs of [] \<Rightarrow> None | z # _ \<Rightarrow> Some z)"
    using zs by (cases zs) auto
  have "hpath ?h (First_of head) (hfirst h head) ys l p"
    using ys dist new nxt
    by (subst hpath_frame) (auto simp: hlinks_defs split: list.splits)
  moreover have "hchain ?h (Next_of new) (hnext h n) zs"
  proof (cases zs)
    case Nil
    with nxt show ?thesis by simp
  next
    case (Cons z zs')
    have "hchain ?h (Next_of z) (hnext h z) zs' = hchain h (Next_of z) (hnext h z) zs'"
      using Cons dist new nxt by (intro hchain_cong) (auto simp: hlinks_defs)
    with Cons zs nxt dist new show ?thesis by (auto simp: hlinks_defs)
  qed
  moreover have "hpprev ?h n = l" "hnext ?h n = Some new" "hpprev ?h new = Next_of n"
    "hnext ?h new = hnext h n" "hfirst ?h head = hfirst h head"
    using n new dist nxt by (auto simp: hlinks_defs split: list.splits)
  ultimately show ?thesis using n dist new by (auto simp: hlist_def hchain_hpath)
qed

lemma hlist_add_before_hlist:
  assumes "hlist h head (ys @ n # zs)" and new: "new \<notin> set (ys @ n # zs)"
  shows "\<exists>h'. hlist_add_before new n h = Inr h' \<and> hlist h' head (ys @ new # n # zs)"
proof -
  from assms have dist: "distinct (ys @ n # zs)" by (simp add: hlist_def)
  from assms obtain l p where ys: "hpath h (First_of head) (hfirst h head) ys l p"
    and n: "p = Some n" "hpprev h n = l" and zs: "hchain h (Next_of n) (hnext h n) zs"
    by (auto simp: hlist_def hchain_hpath)
  have l: "l = (if ys = [] then First_of head else Next_of (last ys))"
    using hpath_loc [OF ys] .
  have lst: "last ys \<notin> set (new # n # zs)" if "ys \<noteq> []"
    using dist new last_in_set [OF that] by (auto simp: disjoint_iff)
  obtain h' where h': "hlist_add_before new n h = Inr h'"
    using n l new by (cases "ys = []") (auto simp: hlinks_defs)
  have "hchain h' (Next_of n) (hnext h n) zs = hchain h (Next_of n) (hnext h n) zs"
    using dist new h' n l lst
    by (intro hchain_cong) (cases "ys = []"; auto simp: hlinks_defs)
  moreover have "hpprev h' new = l" "hnext h' new = Some n" "hpprev h' n = Next_of new"
    "hnext h' n = hnext h n"
    using h' n l lst new by (cases "ys = []"; auto simp: hlinks_defs)+
  ultimately have tail: "hchain h' l (Some new) (new # n # zs)" using zs by simp
  have "hchain h' (First_of head) (hfirst h' head) (ys @ new # n # zs)"
  proof (cases "ys = []")
    case True
    with tail h' n l new show ?thesis by (auto simp: hlinks_defs)
  next
    case False
    have "hpath h' (First_of head) (hfirst h head) ys l (hnext h' (last ys))"
    proof (rule hpath_cong [OF _ _ False ys])
      fix q assume q: "q \<in> set (butlast ys)"
      then have "q \<noteq> last ys"
        using dist False by (metis append_butlast_last_id distinct_append disjoint_iff list.set_intros(1))
      with q show "hnext h' q = hnext h q"
        using h' n l False new in_set_butlastD [OF q] by (auto simp: hlinks_defs)
    next
      fix q assume "q \<in> set ys"
      then show "hpprev h' q = hpprev h q"
        using h' n l False new dist by (auto simp: hlinks_defs)
    qed
    moreover have "hnext h' (last ys) = Some new" "hfirst h' head = hfirst h head"
      using h' n l False new lst by (auto simp: hlinks_defs)
    ultimately show ?thesis using tail by (auto simp: hchain_hpath)
  qed
  with dist new h' show ?thesis by (auto simp: hlist_def)
qed

section \<open>The contract the clients of \<^verbatim>\<open>list_head\<close> rely on\<close>

text \<open>
  The slab allocator and the inode and dentry caches only ever add a node at the front of a
  list, remove a node from wherever it is, and walk a list. The contract states what these
  do to the list they are about and that they leave disjoint lists alone.
\<close>

text \<open>
  Several lists in one store, no node on two of them: \<open>L h\<close> is the list with head \<open>h\<close>.
\<close>

definition family :: "('s \<Rightarrow> 'n \<Rightarrow> 'n list \<Rightarrow> bool) \<Rightarrow> 's \<Rightarrow> 'n set \<Rightarrow> ('n \<Rightarrow> 'n list) \<Rightarrow> bool" where
  "family rep s H L \<longleftrightarrow> (\<forall>h \<in> H. rep s h (L h)) \<and>
     (\<forall>h \<in> H. \<forall>h' \<in> H. h \<noteq> h' \<longrightarrow> set (h # L h) \<inter> set (h' # L h') = {})"

lemma family_apart:
  "family rep s H L \<Longrightarrow> h \<in> H \<Longrightarrow> h' \<in> H \<Longrightarrow> h \<noteq> h' \<Longrightarrow> set (h # L h) \<inter> set (h' # L h') = {}"
  unfolding family_def by blast

lemma familyI:
  "(\<And>h. h \<in> H \<Longrightarrow> rep s h (L h)) \<Longrightarrow>
   (\<And>h h'. h \<in> H \<Longrightarrow> h' \<in> H \<Longrightarrow> h \<noteq> h' \<Longrightarrow> set (h # L h) \<inter> set (h' # L h') = {}) \<Longrightarrow> family rep s H L"
  by (simp only: family_def) blast

locale front_list =
  fixes rep :: "'s \<Rightarrow> 'n \<Rightarrow> 'n list \<Rightarrow> bool"
    and add :: "'n \<Rightarrow> 'n \<Rightarrow> 's \<Rightarrow> 's"
    and del :: "'n \<Rightarrow> 's \<Rightarrow> 's"
    and walk :: "'s \<Rightarrow> 'n \<Rightarrow> 'n list option"
  assumes rep_distinct: "rep s head xs \<Longrightarrow> distinct (head # xs)"
    and rep_add: "rep s head xs \<Longrightarrow> n \<notin> set (head # xs) \<Longrightarrow> rep (add n head s) head (n # xs)"
    and rep_del: "rep s head (ys @ n # zs) \<Longrightarrow> rep (del n s) head (ys @ zs)"
    and add_frame: "rep s head xs \<Longrightarrow> n \<notin> set (head' # ys) \<Longrightarrow>
      set (head # xs) \<inter> set (head' # ys) = {} \<Longrightarrow> rep (add n head s) head' ys = rep s head' ys"
    and del_frame: "rep s head xs \<Longrightarrow> n \<in> set xs \<Longrightarrow>
      set (head # xs) \<inter> set (head' # ys) = {} \<Longrightarrow> rep (del n s) head' ys = rep s head' ys"
    and rep_walk: "rep s head xs \<Longrightarrow> walk s head = Some xs"
begin

lemma rep_unique: "rep s head xs \<Longrightarrow> rep s head ys \<Longrightarrow> xs = ys"
  using rep_walk [of s head xs] rep_walk [of s head ys] by simp

text \<open>Moving a node to the front of another list, or of its own.\<close>

lemma move_other:
  assumes "rep s head (ys @ n # zs)" and "rep s head' ws"
    and "set (head # ys @ n # zs) \<inter> set (head' # ws) = {}"
  shows "rep (add n head' (del n s)) head (ys @ zs)"
    and "rep (add n head' (del n s)) head' (n # ws)"
proof -
  have del: "rep (del n s) head (ys @ zs)" by (rule rep_del [OF assms(1)])
  have del': "rep (del n s) head' ws"
    using del_frame [OF assms(1) _ assms(3)] assms(2) by simp
  have fresh: "n \<notin> set (head' # ws)" "n \<notin> set (head # ys @ zs)"
    using assms(3) rep_distinct [OF assms(1)] by auto
  have disj: "set (head' # ws) \<inter> set (head # ys @ zs) = {}" using assms(3) by auto
  show "rep (add n head' (del n s)) head' (n # ws)" by (rule rep_add [OF del' fresh(1)])
  show "rep (add n head' (del n s)) head (ys @ zs)"
    using add_frame [OF del' fresh(2) disj] del by simp
qed

lemma move_same:
  assumes "rep s head (ys @ n # zs)"
  shows "rep (add n head (del n s)) head (n # ys @ zs)"
  using rep_add [OF rep_del [OF assms]] rep_distinct [OF assms] by auto

lemma move_frame:
  assumes "rep s head (ys @ n # zs)" and "rep (del n s) head' ws" and "rep s head'' vs"
    and "set (head # ys @ n # zs) \<inter> set (head'' # vs) = {}"
    and "set (head' # ws) \<inter> set (head'' # vs) = {}"
  shows "rep (add n head' (del n s)) head'' vs"
proof -
  have "rep (del n s) head'' vs"
    using del_frame [OF assms(1) _ assms(4)] assms(3) by simp
  moreover have "n \<notin> set (head'' # vs)" using assms(4) by auto
  ultimately show ?thesis using add_frame [OF assms(2) _ assms(5)] by simp
qed

text \<open>The same for a family of lists.\<close>

lemma family_del:
  assumes fam: "family rep s H L" and h: "h1 \<in> H" "L h1 = ys @ n # zs"
  shows "family rep (del n s) H (L(h1 := ys @ zs))"
proof -
  have "rep (del n s) h ((L(h1 := ys @ zs)) h)" if "h \<in> H" for h
  proof (cases "h = h1")
    case True
    with fam h show ?thesis unfolding family_def by (metis fun_upd_same rep_del)
  next
    case False
    from fam h that have "rep s h1 (L h1)" "rep s h (L h)" "n \<in> set (L h1)"
      unfolding family_def by auto
    with del_frame False family_apart [OF fam h(1) that] show ?thesis by (metis fun_upd_other)
  qed
  moreover have "set (h # (L(h1 := ys @ zs)) h) \<subseteq> set (h # L h)" for h using h(2) by auto
  ultimately show ?thesis using fam unfolding family_def by blast
qed

lemma family_add:
  assumes fam: "family rep s H L" and h: "h2 \<in> H" and n: "\<And>h. h \<in> H \<Longrightarrow> n \<notin> set (h # L h)"
  shows "family rep (add n h2 s) H (L(h2 := n # L h2))"
proof -
  have "rep (add n h2 s) h ((L(h2 := n # L h2)) h)" if "h \<in> H" for h
  proof (cases "h = h2")
    case True
    with fam h n rep_add show ?thesis unfolding family_def by simp
  next
    case False
    from fam h that have "rep s h2 (L h2)" "rep s h (L h)" unfolding family_def by auto
    with add_frame n [OF that] False family_apart [OF fam h that] show ?thesis by simp
  qed
  moreover have "set (h # (L(h2 := n # L h2)) h) \<inter> set (h' # (L(h2 := n # L h2)) h') = {}"
    if "h \<in> H" "h' \<in> H" "h \<noteq> h'" for h h'
    using family_apart [OF fam that] n [OF that(1)] n [OF that(2)] that(3) by auto
  ultimately show ?thesis by (rule familyI)
qed

lemma family_move:
  assumes fam: "family rep s H L" and h: "h1 \<in> H" "h2 \<in> H" "L h1 = ys @ n # zs"
    and M: "M = L(h1 := ys @ zs)"
  shows "family rep (add n h2 (del n s)) H (M(h2 := n # M h2))"
proof -
  have "n \<notin> set (h # M h)" if "h \<in> H" for h
  proof (cases "h = h1")
    case True
    have "distinct (h1 # L h1)" using fam h rep_distinct unfolding family_def by blast
    with True h show ?thesis by (auto simp: M)
  next
    case False
    then show ?thesis using family_apart [OF fam h(1) that] h(3) by (auto simp: M)
  qed
  with family_add [OF _ h(2)] family_del [OF fam h(1,3)] show ?thesis unfolding M by blast
qed

lemma family_head: "family rep s H L \<Longrightarrow> h \<in> H \<Longrightarrow> rep s h (L h)"
  by (simp add: family_def)

lemma family_unique: "family rep s H L \<Longrightarrow> family rep s H L' \<Longrightarrow> h \<in> H \<Longrightarrow> L h = L' h"
  by (metis family_head rep_unique)

lemma family_one_list:
  "family rep s H L \<Longrightarrow> h \<in> H \<Longrightarrow> h' \<in> H \<Longrightarrow> n \<in> set (L h) \<Longrightarrow> n \<in> set (L h') \<Longrightarrow> h = h'"
  unfolding family_def by (metis IntI empty_iff list.set_intros(2))

end

interpretation dl: front_list dlist list_add list_del list_for_each
proof unfold_locales
  show "distinct (head # xs)" if "dlist s head xs" for s :: "'a links" and head xs
    using that by (simp add: dlist_def)
qed (fact dlist_add dlist_del dlist_add_frame dlist_del_frame list_for_each_dlist)+

section \<open>Properties\<close>

text \<open>
  C36: On any ring, the empty one included, the routines of \<^verbatim>\<open>list.h\<close> are the list operations:
  \<^verbatim>\<open>INIT_LIST_HEAD\<close> makes the empty list of whatever the head held before, \<^verbatim>\<open>list_empty\<close> tests for
  it, the \<^verbatim>\<open>list_for_each\<close> loop ends after visiting exactly the nodes of the list, in order,
  \<^verbatim>\<open>list_add\<close> puts a new node in front, \<^verbatim>\<open>list_add_tail\<close> behind, and \<^verbatim>\<open>list_del\<close> takes a node out
  wherever it stands. None of them changes a link of a node outside the ring.
\<close>

theorem list_routines_refine:
  assumes "dlist h head xs" and "new \<notin> set (head # xs)"
  shows "dlist (INIT_LIST_HEAD head g) head []
    \<and> (list_empty head h \<longleftrightarrow> xs = [])
    \<and> list_for_each h head = Some xs
    \<and> dlist (list_add new head h) head (new # xs)
    \<and> dlist (list_add_tail new head h) head (xs @ [new])
    \<and> (\<forall>ys x zs. xs = ys @ x # zs \<longrightarrow> dlist (list_del x h) head (ys @ zs))
    \<and> (\<forall>p. p \<noteq> head \<longrightarrow> same_links p (INIT_LIST_HEAD head g) g)
    \<and> (\<forall>p. p \<notin> set (new # head # xs) \<longrightarrow> same_links p (list_add new head h) h \<and>
        same_links p (list_add_tail new head h) h \<and> (\<forall>x \<in> set xs. same_links p (list_del x h) h))"
proof (intro conjI allI impI ballI)
  show "list_empty head h \<longleftrightarrow> xs = []" using assms(1) by (rule dlist_empty_iff)
  show "same_links p (INIT_LIST_HEAD head g) g" if "p \<noteq> head" for p
    using that by (simp add: same_links_def links_defs)
next
  fix p
  assume p: "p \<notin> set (new # head # xs)"
  have head: "lnext h head \<in> set (head # xs)" "lprev h head \<in> set (head # xs)"
    using dlist_neighbours [OF assms(1), of head] by simp_all
  show "same_links p (list_add new head h) h" using p head by (auto simp: same_links_def links_defs)
  show "same_links p (list_add_tail new head h) h" using p head by (auto simp: same_links_def links_defs)
  show "same_links p (list_del x h) h" if "x \<in> set xs" for x
    using p that dlist_neighbours [OF assms(1), of x] by (auto simp: same_links_def links_defs)
next
  show "dlist (list_del x h) head (ys @ zs)" if "xs = ys @ x # zs" for ys x zs
    using assms(1) unfolding that by (rule dlist_del)
qed (use assms in \<open>simp_all add: dlist_INIT list_for_each_dlist dlist_add dlist_add_tail\<close>)

text \<open>From stale links: an empty ring, one node, two, and one again.\<close>

theorem list_routines_refine_witness:
  "let h0 = INIT_LIST_HEAD (0::nat) \<lparr>lnext = Suc, lprev = Suc\<rparr>; h1 = list_add 5 0 h0;
       h2 = list_add_tail 7 0 h1; h3 = list_del 5 h2
   in list_empty 0 h0 \<and> list_for_each h0 0 = Some [] \<and> list_for_each h1 0 = Some [5] \<and>
      list_for_each h2 0 = Some [5, 7] \<and> list_for_each h3 0 = Some [7] \<and> lnext h3 9 = 10"
proof -
  let ?g = "\<lparr>lnext = Suc, lprev = Suc\<rparr>"
  define h0 h1 h2 h3 where "h0 = INIT_LIST_HEAD (0::nat) ?g" and "h1 = list_add 5 0 h0"
    and "h2 = list_add_tail 7 0 h1" and "h3 = list_del 5 h2"
  note defs = h0_def h1_def h2_def h3_def
  have r0: "dlist h0 0 []" unfolding h0_def by (rule dlist_INIT)
  have t0: "list_empty 0 h0" "list_for_each h0 0 = Some []" and r1: "dlist h1 0 [5]"
    using list_routines_refine [OF r0, of 5 ?g] by (simp_all add: h1_def)
  have t1: "list_for_each h1 0 = Some [5]" and r2: "dlist h2 0 [5, 7]"
    using list_routines_refine [OF r1, of 7 ?g] by (simp_all add: h2_def)
  have t2: "list_for_each h2 0 = Some [5, 7]" and del: "\<forall>ys x zs. [5, 7] = ys @ x # zs \<longrightarrow> dlist (list_del x h2) 0 (ys @ zs)"
    using list_routines_refine [OF r2, of 9 ?g] by simp_all
  have r3: "dlist h3 0 [7]" using del [rule_format, of "[]" 5 "[7]"] by (simp add: h3_def)
  have t3: "list_for_each h3 0 = Some [7]" using list_routines_refine [OF r3, of 9 ?g] by simp
  have "lnext h3 9 = 10" by (simp add: defs links_defs)
  then show ?thesis using t0 t1 t2 t3 by (simp add: Let_def flip: defs)
qed

text \<open>
  \<^verbatim>\<open>list_del\<close> followed by \<^verbatim>\<open>list_add\<close> moves a node to the front of another list: the first list
  loses exactly that node, the second gains it in front, and every third list with nodes of its
  own is unchanged. This is how slabs change state.
\<close>

lemma list_move_refines:
  assumes "dlist h head (ys @ x # zs)" and "dlist h head' ws" and "dlist h head'' vs"
    and "set (head # ys @ x # zs) \<inter> set (head' # ws) = {}"
    and "set (head # ys @ x # zs) \<inter> set (head'' # vs) = {}"
    and "set (head' # ws) \<inter> set (head'' # vs) = {}"
  shows "dlist (list_add x head' (list_del x h)) head (ys @ zs)
    \<and> dlist (list_add x head' (list_del x h)) head' (x # ws)
    \<and> dlist (list_add x head' (list_del x h)) head'' vs"
proof -
  have "dlist (list_del x h) head' ws"
    using dl.del_frame [OF assms(1) _ assms(4)] assms(2) by simp
  from dl.move_frame [OF assms(1) this assms(3,5,6)] dl.move_other [OF assms(1,2,4)]
  show ?thesis by simp
qed

lemma list_move_refines_witness:
  "\<exists>h. dlist h (0::nat) [5] \<and> dlist h 1 [] \<and> dlist h 2 []
    \<and> dlist (list_add 5 1 (list_del 5 h)) 1 [5]"
proof -
  let ?h = "list_add (5::nat) 0 \<lparr>lnext = id, lprev = id\<rparr>"
  have h: "dlist ?h 0 ([] @ 5 # [])" "dlist ?h 1 []" "dlist ?h 2 []"
    by (simp_all add: dlist_def links_defs)
  from list_move_refines [OF h] h show ?thesis by auto
qed

text \<open>
  In a hash bucket, \<^verbatim>\<open>hlist_del\<close> unlinks a node in the middle through its \<^verbatim>\<open>pprev\<close> alone, without
  the head, and \<^verbatim>\<open>hlist_add_before\<close> and \<^verbatim>\<open>hlist_add_after\<close> insert a new node on either side of it.
\<close>

lemma hlist_routines_refine:
  assumes "hlist h head (ys @ x # zs)" and "new \<notin> set (ys @ x # zs)"
  shows "(\<exists>h'. hlist_del x h = Inr h' \<and> hlist h' head (ys @ zs))
    \<and> (\<exists>h'. hlist_add_before new x h = Inr h' \<and> hlist h' head (ys @ new # x # zs))
    \<and> hlist (hlist_add_after new x h) head (ys @ x # new # zs)
    \<and> hlist (hlist_add_head new head h) head (new # ys @ x # zs)"
  using hlist_del_hlist [OF assms(1)] hlist_add_before_hlist [OF assms]
    hlist_add_after_hlist [OF assms] hlist_add_head_hlist [OF assms] by blast

lemma hlist_routines_refine_witness:
  "\<exists>h. hlist h () ([] @ 3 # []) \<and> hlist (hlist_add_after (4::nat) 3 h) () [3, 4]"
proof -
  let ?h = "hlist_add_head (3::nat) () \<lparr>hfirst = (\<lambda>_. None), hnext = (\<lambda>_. None), hpprev = (\<lambda>_. Null_loc)\<rparr>"
  have h: "hlist ?h () ([] @ 3 # [])" by (simp add: hlist_def hlinks_defs)
  from hlist_routines_refine [OF h, of 4] have "hlist (hlist_add_after 4 3 ?h) () [3, 4]" by simp
  with h show ?thesis by blast
qed

end
