(* ===== verification/Buffer.thy ===== *)
theory Buffer imports Blk Ata_Disk Linked_List begin

text \<open>
  The buffer cache (\<^verbatim>\<open>kernel/blk_drv/buffer.c\<close>, \<^verbatim>\<open>struct buffer_head\<close> of \<^verbatim>\<open>blk.h\<close>): every buffer is
  either on the hash chain \<^verbatim>\<open>cached_list\<close> or on \<^verbatim>\<open>free_list\<close>. A block that is not cached takes a
  free buffer, or, when there is none, all buffers nobody uses are moved to the free list first.
\<close>

definition SECTOR_SIZE :: nat where "SECTOR_SIZE = 512"
definition BLOCK_SIZE :: nat where "BLOCK_SIZE = 1024"
definition SECTORS_PER_BLK :: int where "SECTORS_PER_BLK = 2"
definition sizeof_buffer_head :: addr_t where "sizeof_buffer_head = 56"

text \<open>The lock, the wait queue and the two old hash pointers are never used.\<close>

record buffer_head =
  b_dev :: u16
  b_blocknr :: int
  b_uptodate :: int
  b_data :: addr_t
  b_dirty :: int
  b_count :: int

text \<open>
  The buffer heads by address, the two lists with the addresses of the heads as nodes (\<open>()\<close> stands
  for \<^verbatim>\<open>cached_list\<close>, \<open>None\<close> for \<^verbatim>\<open>free_list\<close>), and the block layer below.
\<close>

record 'e buf_state =
  blk :: "'e blk_state"
  bufs :: "addr_t \<Rightarrow> buffer_head option"
  cached :: "(unit, addr_t) hlinks"
  bfree :: "addr_t option links"
  NR_BUFFERS :: int

definition buf_at :: "addr_t \<Rightarrow> 'e buf_state \<Rightarrow> buffer_head res" where
  "buf_at p s = (case bufs s p of None \<Rightarrow> Inl Bad_access | Some b \<Rightarrow> Inr b)"

definition upd_buf :: "addr_t \<Rightarrow> (buffer_head \<Rightarrow> buffer_head) \<Rightarrow> 'e buf_state \<Rightarrow> 'e buf_state" where
  "upd_buf p f s = s\<lparr>bufs := (bufs s)(p := map_option f (bufs s p))\<rparr>"

section \<open>Operations\<close>

definition holds :: "u16 \<Rightarrow> int \<Rightarrow> buffer_head \<Rightarrow> bool" where
  "holds dev blk_nr b \<longleftrightarrow> b_uptodate b \<noteq> 0 \<and> b_dev b = dev \<and> b_blocknr b = blk_nr"

text \<open>The first loop of \<^verbatim>\<open>bread\<close>, from the node \<open>pos\<close> on.\<close>

partial_function (option) search_cached ::
  "u16 \<Rightarrow> int \<Rightarrow> addr_t option \<Rightarrow> 'e buf_state \<Rightarrow> addr_t option res option" where
  "search_cached dev blk_nr pos s =
     (case pos of
        None \<Rightarrow> Some (Inr None)
      | Some cur \<Rightarrow>
          (case bufs s cur of
             None \<Rightarrow> Some (Inl Bad_access)
           | Some b \<Rightarrow> if holds dev blk_nr b then Some (Inr (Some cur))
                       else search_cached dev blk_nr (hnext (cached s) cur) s))"

text \<open>
  The loop that reclaims unused buffers, safe against removal of the entry it is at; \<open>cur\<close> is the
  source's loop variable, which keeps the last entry when the loop ends.
\<close>

partial_function (option) reclaim ::
  "addr_t option \<Rightarrow> addr_t option \<Rightarrow> 'e buf_state \<Rightarrow> (addr_t option \<times> 'e buf_state) res option" where
  "reclaim pos cur s =
     (case pos of
        None \<Rightarrow> Some (Inr (cur, s))
      | Some p \<Rightarrow>
          (case bufs s p of
             None \<Rightarrow> Some (Inl Bad_access)
           | Some b \<Rightarrow>
               if b_count b = 0
               then (case hlist_del p (cached s) of
                       Inl h \<Rightarrow> Some (Inl h)
                     | Inr c \<Rightarrow> reclaim (hnext (cached s) p) (Some p)
                         (s\<lparr>cached := c, bfree := list_add (Some p) None (bfree s)\<rparr>))
               else reclaim (hnext (cached s) p) (Some p) s))"

text \<open>The choice of a buffer for a block that is not cached.\<close>

definition pick_buffer :: "'e buf_state \<Rightarrow> (addr_t option \<times> 'e buf_state) res" where
  "pick_buffer s =
     (if list_empty None (bfree s)
      then bindr (of_loop (reclaim (hfirst (cached s) ()) None s)) (\<lambda>r. bindr r (\<lambda>(cur, s).
        if list_empty None (bfree s) then Inl (Panic ''Buffer: cache pool full'') else Inr (cur, s)))
      else Inr (lnext (bfree s) None, s))"

definition bread :: "'e ports \<Rightarrow> u16 \<Rightarrow> int \<Rightarrow> 'e buf_state \<Rightarrow> (addr_t \<times> 'e buf_state) res" where
  "bread io dev blk_nr s =
     bindr (of_loop (search_cached dev blk_nr (hfirst (cached s) ()) s)) (\<lambda>r. bindr r (\<lambda>hit.
       case hit of
         Some cur \<Rightarrow> Inr (cur, upd_buf cur (\<lambda>b. b\<lparr>b_count := b_count b + 1\<rparr>) s)
       | None \<Rightarrow>
           bindr (pick_buffer s) (\<lambda>(cur, s).
             case cur of
               None \<Rightarrow> Inl Assert_failed
             | Some cur \<Rightarrow>
                 bindr (buf_at cur s) (\<lambda>b. assertr (b_count b = 0)
                 (let s = s\<lparr>bfree := list_del (Some cur) (bfree s)\<rparr>;
                      s = s\<lparr>cached := hlist_add_head cur () (cached s)\<rparr>;
                      s = upd_buf cur (\<lambda>b. b\<lparr>b_count := 1\<rparr>) s;
                      s = upd_buf cur (\<lambda>b. b\<lparr>b_dev := dev\<rparr>) s;
                      s = upd_buf cur (\<lambda>b. b\<lparr>b_blocknr := blk_nr\<rparr>) s
                  in bindr (ll_rw_block io dev BIO_READ (of_int (blk_nr * SECTORS_PER_BLK))
                              (of_int SECTORS_PER_BLK) (b_data b) (blk s)) (\<lambda>k.
                     Inr (cur, upd_buf cur (\<lambda>b. b\<lparr>b_uptodate := 1\<rparr>) (s\<lparr>blk := k\<rparr>))))))))"

definition brelease :: "'e ports \<Rightarrow> addr_t \<Rightarrow> 'e buf_state \<Rightarrow> 'e buf_state res" where
  "brelease io bh s =
     (let s = upd_buf bh (\<lambda>b. b\<lparr>b_count := b_count b - 1\<rparr>) s in
      bindr (buf_at bh s) (\<lambda>b.
      assertr (b_count b \<ge> 0)
      (if b_count b = 0 \<and> b_dirty b = 1
       then bindr (ll_rw_block io (b_dev b) BIO_WRITE (of_int (b_blocknr b * SECTORS_PER_BLK))
                     (of_int SECTORS_PER_BLK) (b_data b) (blk s)) (\<lambda>k.
            Inr (upd_buf bh (\<lambda>b. b\<lparr>b_dirty := 0\<rparr>) (s\<lparr>blk := k\<rparr>)))
       else Inr s)))"

definition bwrite :: "addr_t \<Rightarrow> 'e buf_state \<Rightarrow> 'e buf_state res" where
  "bwrite bh s = bindr (buf_at bh s) (\<lambda>_. Inr (upd_buf bh (\<lambda>b. b\<lparr>b_dirty := 1\<rparr>) s))"

text \<open>The number of free buffers \<^verbatim>\<open>buffer_stat\<close> prints.\<close>

definition buffer_stat :: "'e buf_state \<Rightarrow> nat res" where
  "buffer_stat s = bindr (of_loop (list_for_each (bfree s) None)) (\<lambda>ns. Inr (length ns))"

text \<open>
  The loop of \<^verbatim>\<open>buffer_init\<close>: heads from the start up, blocks from the end down. What the memory
  held, and so the fields it leaves unset, is the argument \<open>raw\<close>.
\<close>

partial_function (option) init_buffers ::
  "(addr_t \<Rightarrow> buffer_head) \<Rightarrow> addr_t \<Rightarrow> addr_t \<Rightarrow> 'e buf_state \<Rightarrow> (addr_t \<times> 'e buf_state) option" where
  "init_buffers raw buffer block s =
     (if sint block - sint buffer \<ge> sint sizeof_buffer_head
      then init_buffers raw (buffer + sizeof_buffer_head) (block - of_nat BLOCK_SIZE)
             (s\<lparr>bufs := (bufs s)(buffer \<mapsto> (raw buffer)\<lparr>b_uptodate := 0, b_data := block\<rparr>),
                cached := INIT_HLIST_NODE buffer (cached s),
                bfree := list_add (Some buffer) None (bfree s)\<rparr>)
      else Some (buffer, s))"

definition buffer_init ::
  "(addr_t \<Rightarrow> buffer_head) \<Rightarrow> addr_t \<Rightarrow> addr_t \<Rightarrow> 'e buf_state \<Rightarrow> 'e buf_state res" where
  "buffer_init raw start stop s =
     (let s = s\<lparr>bfree := INIT_LIST_HEAD None (bfree s)\<rparr>;
          s = s\<lparr>cached := INIT_HLIST_HEAD () (cached s)\<rparr>
      in bindr (of_loop (init_buffers raw start (stop - of_nat BLOCK_SIZE) s)) (\<lambda>(buffer, s).
         let s = s\<lparr>NR_BUFFERS := (sint buffer - sint start) div sint sizeof_buffer_head\<rparr>
         in bindr (buffer_stat s) (\<lambda>_. Inr s)))"

section \<open>The two lists\<close>

definition block_key :: "'e buf_state \<Rightarrow> addr_t \<Rightarrow> u16 \<times> int" where
  "block_key s p = (let b = the (bufs s p) in (b_dev b, b_blocknr b))"

definition uses :: "'e buf_state \<Rightarrow> addr_t \<Rightarrow> int" where
  "uses s p = b_count (the (bufs s p))"

text \<open>
  \<open>cs\<close> are the cached and \<open>fs\<close> the free buffers: every one has a head, none is on both lists, a cached
  one holds its block's data, and no block is cached twice.
\<close>

definition buf_rep :: "'e buf_state \<Rightarrow> addr_t list \<Rightarrow> addr_t list \<Rightarrow> bool" where
  "buf_rep s cs fs \<longleftrightarrow> hlist (cached s) () cs \<and> dlist (bfree s) None (map Some fs)
     \<and> distinct (cs @ fs) \<and> (\<forall>p \<in> set (cs @ fs). bufs s p \<noteq> None)
     \<and> (\<forall>p \<in> set cs. b_uptodate (the (bufs s p)) \<noteq> 0 \<and> 0 \<le> uses s p)
     \<and> distinct (map (block_key s) cs)"

lemma hlist_next:
  "hlist h head (ys @ x # zs) \<Longrightarrow> hnext h x = (case zs of [] \<Rightarrow> None | z # _ \<Rightarrow> Some z)"
  by (cases zs) (auto simp: hlist_def hchain_hpath)

lemma hlist_first: "hlist h head xs \<Longrightarrow> hfirst h head = (case xs of [] \<Rightarrow> None | x # _ \<Rightarrow> Some x)"
  by (cases xs) (auto simp: hlist_def)

lemma search_cached_from:
  assumes "hlist (cached s) () (ys @ zs)" "\<forall>p \<in> set zs. bufs s p \<noteq> None"
  shows "search_cached dev blk_nr (case zs of [] \<Rightarrow> None | z # _ \<Rightarrow> Some z) s
    = Some (Inr (find (\<lambda>p. holds dev blk_nr (the (bufs s p))) zs))"
  using assms
proof (induction zs arbitrary: ys)
  case Nil
  then show ?case by (simp add: search_cached.simps)
next
  case (Cons z zs)
  from Cons.prems obtain b where b: "bufs s z = Some b" by auto
  have "hlist (cached s) () ((ys @ [z]) @ zs)" using Cons.prems by simp
  from Cons.IH [OF this] Cons.prems hlist_next [OF Cons.prems(1)] b
  show ?case by (subst search_cached.simps) auto
qed

lemma search_cached_list:
  "buf_rep s cs fs \<Longrightarrow> search_cached dev blk_nr (hfirst (cached s) ()) s
     = Some (Inr (find (\<lambda>p. holds dev blk_nr (the (bufs s p))) cs))"
  using search_cached_from [of s "[]" cs dev blk_nr] hlist_first [of "cached s" "()" cs]
  by (simp add: buf_rep_def)

text \<open>The reclaim loop splits the cached list: those in use stay, the others go to the free list.\<close>

lemma reclaim_from:
  assumes "hlist (cached s) () (ys @ zs)" "dlist (bfree s) None (map Some fs)"
    and "distinct (ys @ zs @ fs)" "\<forall>p \<in> set zs. bufs s p \<noteq> None"
  shows "\<exists>c f. reclaim (case zs of [] \<Rightarrow> None | z # _ \<Rightarrow> Some z) cur s
      = Some (Inr (if zs = [] then cur else Some (last zs), s\<lparr>cached := c, bfree := f\<rparr>))
    \<and> hlist c () (ys @ filter (\<lambda>p. uses s p \<noteq> 0) zs)
    \<and> dlist f None (map Some (rev (filter (\<lambda>p. uses s p = 0) zs) @ fs))"
  using assms
proof (induction zs arbitrary: ys fs s cur)
  case Nil
  then show ?case
    by (intro exI [of _ "cached s"] exI [of _ "bfree s"]) (simp add: reclaim.simps)
next
  case (Cons z zs)
  from Cons.prems obtain b where b: "bufs s z = Some b" by auto
  note nxt = hlist_next [OF Cons.prems(1)]
  show ?case
  proof (cases "b_count b = 0")
    case True
    obtain c where c: "hlist_del z (cached s) = Inr c" "hlist c () (ys @ zs)"
      using hlist_del_hlist [OF Cons.prems(1)] by blast
    let ?f = "list_add (Some z) None (bfree s)"
    have f: "dlist ?f None (map Some (z # fs))"
      using dlist_add [OF Cons.prems(2), of "Some z"] Cons.prems(3) by auto
    let ?s = "s\<lparr>cached := c, bfree := ?f\<rparr>"
    have "uses ?s = uses s" by (simp add: uses_def fun_eq_iff)
    moreover have "uses s z = 0" using True b by (simp add: uses_def)
    ultimately show ?thesis
      using Cons.IH [of ?s ys "z # fs" "Some z"] Cons.prems c f True b nxt
      by (subst reclaim.simps) auto
  next
    case False
    have "hlist (cached s) () ((ys @ [z]) @ zs)" using Cons.prems by simp
    from Cons.IH [OF this Cons.prems(2), of "Some z"] Cons.prems False b nxt
    show ?thesis by (subst reclaim.simps) (auto simp: uses_def)
  qed
qed

section \<open>Reading a block\<close>

text \<open>
  The buffer a new block gets, and the two lists without it: the first free one; with none free,
  the last cached one, provided nobody uses it, after all unused ones have become free.
\<close>

definition victim :: "'e buf_state \<Rightarrow> addr_t list \<Rightarrow> addr_t list \<Rightarrow> (addr_t \<times> addr_t list \<times> addr_t list) res" where
  "victim s cs fs =
     (case fs of
        f # fs' \<Rightarrow> if uses s f = 0 then Inr (f, cs, fs') else Inl Assert_failed
      | [] \<Rightarrow>
          if filter (\<lambda>p. uses s p = 0) cs = [] then Inl (Panic ''Buffer: cache pool full'')
          else if uses s (last cs) \<noteq> 0 then Inl Assert_failed
          else Inr (last cs, filter (\<lambda>p. uses s p \<noteq> 0) cs, tl (rev (filter (\<lambda>p. uses s p = 0) cs))))"

definition loaded :: "u16 \<Rightarrow> int \<Rightarrow> buffer_head \<Rightarrow> buffer_head" where
  "loaded dev blk_nr b = b\<lparr>b_count := 1, b_dev := dev, b_blocknr := blk_nr, b_uptodate := 1\<rparr>"

lemma pick_buffer_victim:
  assumes rep: "buf_rep s cs fs"
  shows "\<exists>c f v. pick_buffer s = (if fs = [] \<and> filter (\<lambda>p. uses s p = 0) cs = []
        then Inl (Panic ''Buffer: cache pool full'') else Inr (Some v, s\<lparr>cached := c, bfree := f\<rparr>))
    \<and> (\<forall>v' cs' fs'. victim s cs fs = Inr (v', cs', fs') \<longrightarrow>
         v = v' \<and> uses s v = 0 \<and> v \<in> set (cs @ fs) \<and> hlist c () cs' \<and> dlist f None (map Some (v # fs')))
    \<and> (victim s cs fs = Inl Assert_failed \<longrightarrow> v \<in> set (cs @ fs) \<and> uses s v \<noteq> 0)"
proof (cases fs)
  case (Cons f fs')
  then have "list_empty None (bfree s) = False" "lnext (bfree s) None = Some f"
    using rep dlist_empty_iff [of "bfree s" None "map Some fs"] dlist_first [of "bfree s" None "Some f"]
    by (auto simp: buf_rep_def)
  with Cons rep show ?thesis
    by (intro exI [of _ "cached s"] exI [of _ "bfree s"] exI [of _ f])
      (auto simp: pick_buffer_def buf_rep_def victim_def split: if_splits)
next
  case Nil
  let ?idle = "filter (\<lambda>p. uses s p = 0) cs"
  from rep Nil obtain c f where
    r: "reclaim (hfirst (cached s) ()) None s
      = Some (Inr (if cs = [] then None else Some (last cs), s\<lparr>cached := c, bfree := f\<rparr>))"
    and c: "hlist c () (filter (\<lambda>p. uses s p \<noteq> 0) cs)" and f: "dlist f None (map Some (rev ?idle))"
    using reclaim_from [of s "[]" cs "[]" None] hlist_first [of "cached s" "()" cs]
    by (auto simp: buf_rep_def)
  have e: "list_empty None (bfree s)" "list_empty None f \<longleftrightarrow> ?idle = []"
    using rep Nil dlist_empty_iff [of "bfree s" None "[]"] dlist_empty_iff [OF f] by (auto simp: buf_rep_def)
  have last: "uses s (last cs) = 0 \<Longrightarrow> cs \<noteq> [] \<Longrightarrow> rev ?idle = last cs # tl (rev ?idle)"
    by (cases cs rule: rev_cases) auto
  show ?thesis
  proof (cases "?idle = []")
    case True
    with Nil r e show ?thesis by (auto simp: pick_buffer_def victim_def)
  next
    case False
    then have "cs \<noteq> []" by auto
    with last have "uses s (last cs) = 0 \<Longrightarrow> dlist f None (Some (last cs) # map Some (tl (rev ?idle)))"
      using f by (metis list.simps(9))
    with Nil r e False c \<open>cs \<noteq> []\<close> show ?thesis
      by (intro exI [of _ c] exI [of _ f] exI [of _ "last cs"]) (auto simp: pick_buffer_def victim_def)
  qed
qed

lemma victim_lists:
  assumes rep: "buf_rep s cs fs" and v: "victim s cs fs = Inr (v, cs', fs')"
  shows "distinct (v # cs' @ fs')" "set (v # cs' @ fs') = set (cs @ fs)" "set cs' \<subseteq> set cs"
    "distinct (map (block_key s) cs')"
proof -
  let ?idle = "filter (\<lambda>p. uses s p = 0) cs"
  have "distinct (v # cs' @ fs') \<and> set (v # cs' @ fs') = set (cs @ fs) \<and> (\<exists>P. cs' = filter P cs)"
  proof (cases fs)
    case (Cons f fs'')
    with rep v have "cs' = filter (\<lambda>_. True) cs" by (auto simp: victim_def split: if_splits)
    then have "\<exists>P. cs' = filter P cs" by blast
    with Cons rep v show ?thesis by (auto simp: victim_def buf_rep_def split: if_splits)
  next
    case Nil
    with v have ne: "?idle \<noteq> []" and l: "uses s (last cs) = 0" "v = last cs"
      "cs' = filter (\<lambda>p. uses s p \<noteq> 0) cs" "fs' = tl (rev ?idle)"
      by (auto simp: victim_def split: if_splits)
    then have "cs \<noteq> []" by auto
    with l have r: "rev ?idle = v # fs'" by (cases cs rule: rev_cases) auto
    have "distinct (rev ?idle @ cs')" using rep Nil l by (auto simp: buf_rep_def)
    moreover have "set (rev ?idle @ cs') = set cs" using l by auto
    ultimately have "distinct (v # cs' @ fs')" "set (v # cs' @ fs') = set (cs @ fs)"
      unfolding r using Nil by auto
    with l show ?thesis by blast
  qed
  then show "distinct (v # cs' @ fs')" "set (v # cs' @ fs') = set (cs @ fs)" "set cs' \<subseteq> set cs"
    and "distinct (map (block_key s) cs')"
    using rep by (auto simp: buf_rep_def distinct_map_filter)
qed

lemma find_holds:
  assumes "buf_rep s cs fs" "find (\<lambda>p. holds dev blk_nr (the (bufs s p))) cs = None"
  shows "(dev, blk_nr) \<notin> block_key s ` set cs"
  using assms by (auto simp: find_None_iff holds_def block_key_def buf_rep_def Let_def)

text \<open>The state after a block has been read into the buffer \<open>v\<close>.\<close>

lemma buf_rep_loaded:
  assumes rep: "buf_rep s cs fs" and v: "victim s cs fs = Inr (v, cs', fs')"
    and miss: "find (\<lambda>p. holds dev blk_nr (the (bufs s p))) cs = None"
    and c: "hlist c () cs'" and f: "dlist f None (map Some (v # fs'))"
    and s': "cached s' = hlist_add_head v () c" "bfree s' = list_del (Some v) f"
      "bufs s' = (bufs s)(v \<mapsto> loaded dev blk_nr (the (bufs s v)))"
  shows "buf_rep s' (v # cs') fs'"
proof -
  note l = victim_lists [OF rep v]
  have h: "hlist (cached s') () (v # cs')" unfolding s' by (rule hlist_add_head_hlist [OF c]) (use l(1) in auto)
  have d: "dlist (bfree s') None (map Some fs')"
    using dlist_del [of f None "[]" "Some v"] f by (simp add: s')
  have heads: "\<forall>p \<in> set (v # cs' @ fs'). bufs s' p \<noteq> None"
    using rep l(2) by (auto simp: s' buf_rep_def)
  have same: "bufs s' p = bufs s p" if "p \<in> set cs'" for p
    using that l(1) by (auto simp: s')
  then have keys: "map (block_key s') cs' = map (block_key s) cs'" and u: "\<forall>p \<in> set cs'. uses s' p = uses s p"
    by (auto simp: block_key_def uses_def)
  have v': "block_key s' v = (dev, blk_nr)" "uses s' v = 1" "b_uptodate (the (bufs s' v)) = 1"
    by (simp_all add: s' block_key_def uses_def loaded_def)
  have "(dev, blk_nr) \<notin> set (map (block_key s) cs')"
    using find_holds [OF rep miss] l(3) by auto
  then have "distinct (map (block_key s') (v # cs'))"
    unfolding list.map keys distinct.simps v'(1) using l(4) by simp
  moreover have "\<forall>p \<in> set (v # cs'). b_uptodate (the (bufs s' p)) \<noteq> 0 \<and> 0 \<le> uses s' p"
    using rep l(3) same u v' by (auto simp: buf_rep_def)
  ultimately show ?thesis
    unfolding buf_rep_def using h d heads l(1) by simp
qed

lemma rep_head:
  assumes "buf_rep s cs fs" "p \<in> set (cs @ fs)"
  obtains b where "bufs s p = Some b" "p \<in> set cs \<longrightarrow> 0 \<le> b_count b"
proof -
  from assms obtain b where "bufs s p = Some b" unfolding buf_rep_def by blast
  with assms that show thesis by (auto simp: buf_rep_def uses_def)
qed

text \<open>Counting users and marking as dirty does not touch the lists.\<close>

lemma buf_rep_upd:
  assumes rep: "buf_rep s cs fs" and b: "bufs s p = Some b"
    and f: "b_dev (f b) = b_dev b" "b_blocknr (f b) = b_blocknr b" "b_uptodate (f b) = b_uptodate b"
      "p \<in> set cs \<Longrightarrow> 0 \<le> b_count (f b)"
  shows "buf_rep (upd_buf p f s) cs fs"
proof -
  have "block_key (upd_buf p f s) = block_key s"
    using b f by (auto simp: fun_eq_iff upd_buf_def block_key_def)
  moreover have "b_uptodate (the (bufs (upd_buf p f s) q)) = b_uptodate (the (bufs s q))"
    "bufs (upd_buf p f s) q = None \<longleftrightarrow> bufs s q = None" for q
    using b f by (auto simp: upd_buf_def)
  moreover have "uses (upd_buf p f s) q = (if q = p then b_count (f b) else uses s q)" for q
    using b by (simp add: upd_buf_def uses_def)
  moreover have "cached (upd_buf p f s) = cached s" "bfree (upd_buf p f s) = bfree s"
    by (simp_all add: upd_buf_def)
  ultimately show ?thesis using rep f(4) by (auto simp: buf_rep_def)
qed

lemma bread_refines_eq:
  assumes rep: "buf_rep s cs fs"
  shows "case find (\<lambda>p. holds dev blk_nr (the (bufs s p))) cs of
      Some p \<Rightarrow> let s' = upd_buf p (\<lambda>b. b\<lparr>b_count := b_count b + 1\<rparr>) s in
        bread io dev blk_nr s = Inr (p, s') \<and> buf_rep s' cs fs
    | None \<Rightarrow> (case victim s cs fs of
        Inl h \<Rightarrow> bread io dev blk_nr s = Inl h
      | Inr (v, cs', fs') \<Rightarrow>
          (case ll_rw_block io dev BIO_READ (of_int (2 * blk_nr)) 2 (b_data (the (bufs s v))) (blk s) of
             Inl h \<Rightarrow> bread io dev blk_nr s = Inl h
           | Inr k \<Rightarrow> \<exists>s'. bread io dev blk_nr s = Inr (v, s') \<and> buf_rep s' (v # cs') fs' \<and> blk s' = k
               \<and> bufs s' = (bufs s)(v \<mapsto> loaded dev blk_nr (the (bufs s v)))))"
proof (cases "find (\<lambda>p. holds dev blk_nr (the (bufs s p))) cs")
  case (Some p)
  then have p: "p \<in> set cs" by (auto simp: find_Some_iff)
  let ?s = "upd_buf p (\<lambda>b. b\<lparr>b_count := b_count b + 1\<rparr>) s"
  obtain b where b: "bufs s p = Some b" "0 \<le> b_count b" by (rule rep_head [OF rep, of p]) (use p in auto)
  then have "buf_rep ?s cs fs" by (intro buf_rep_upd [OF rep b(1)]) simp_all
  with Some search_cached_list [OF rep, of dev blk_nr] show ?thesis by (simp add: bread_def)
next
  case miss: None
  note search = search_cached_list [OF rep, of dev blk_nr, unfolded miss]
  from pick_buffer_victim [OF rep] obtain c f v0 where
    pick: "pick_buffer s = (if fs = [] \<and> filter (\<lambda>p. uses s p = 0) cs = []
        then Inl (Panic ''Buffer: cache pool full'') else Inr (Some v0, s\<lparr>cached := c, bfree := f\<rparr>))"
    and good: "\<And>v cs' fs'. victim s cs fs = Inr (v, cs', fs') \<Longrightarrow>
         v0 = v \<and> uses s v = 0 \<and> v \<in> set (cs @ fs) \<and> hlist c () cs' \<and> dlist f None (map Some (v # fs'))"
    and bad: "victim s cs fs = Inl Assert_failed \<Longrightarrow> v0 \<in> set (cs @ fs) \<and> uses s v0 \<noteq> 0"
    by blast
  show ?thesis
  proof (cases "victim s cs fs")
    case (Inl h)
    then consider "h = Assert_failed" "\<not> (fs = [] \<and> filter (\<lambda>p. uses s p = 0) cs = [])"
      | "h = Panic ''Buffer: cache pool full''" "fs = []" "filter (\<lambda>p. uses s p = 0) cs = []"
      by (auto simp: victim_def split: list.splits if_splits)
    then show ?thesis
    proof cases
      case 1
      with bad Inl have v0: "v0 \<in> set (cs @ fs)" "uses s v0 \<noteq> 0" by auto
      obtain b where "bufs s v0 = Some b" by (rule rep_head [OF rep v0(1)])
      with v0(2) have "bufs s v0 = Some b" "b_count b \<noteq> 0" by (auto simp: uses_def)
      with 1 Inl miss search pick show ?thesis by (auto simp: bread_def buf_at_def)
    qed (use Inl miss search pick in \<open>simp add: bread_def\<close>)
  next
    case (Inr r)
    obtain v cs' fs' where r: "r = (v, cs', fs')" by (cases r)
    note v = Inr [unfolded r] and g = good [OF Inr [unfolded r]]
    obtain b where "bufs s v = Some b" by (rule rep_head [OF rep, of v]) (use g in auto)
    with g have b: "bufs s v = Some b" "b_count b = 0" by (auto simp: uses_def)
    from v have "\<not> (fs = [] \<and> filter (\<lambda>p. uses s p = 0) cs = [])"
      by (auto simp: victim_def split: if_splits)
    with pick g have p: "pick_buffer s = Inr (Some v, s\<lparr>cached := c, bfree := f\<rparr>)" by simp
    show ?thesis
    proof (cases "ll_rw_block io dev BIO_READ (of_int (2 * blk_nr)) 2 (b_data b) (blk s)")
      case (Inl h)
      with miss search p b v show ?thesis
        by (simp add: bread_def buf_at_def upd_buf_def SECTORS_PER_BLK_def mult.commute Let_def)
    next
      case (Inr k)
      define s' where "s' = s\<lparr>blk := k, bufs := (bufs s)(v \<mapsto> loaded dev blk_nr b),
        cached := hlist_add_head v () c, bfree := list_del (Some v) f\<rparr>"
      have "bread io dev blk_nr s = Inr (v, s')"
        using Inr miss search p b
        by (simp add: bread_def buf_at_def upd_buf_def SECTORS_PER_BLK_def mult.commute Let_def s'_def
            loaded_def)
      moreover have "buf_rep s' (v # cs') fs'"
        by (rule buf_rep_loaded [OF rep v miss, of c f]) (use g b in \<open>auto simp: s'_def\<close>)
      ultimately show ?thesis using Inr miss v b by (auto simp: s'_def)
    qed
  qed
qed

text \<open>
  C29: \<^verbatim>\<open>bread\<close> on a buffer cache in order. A cached block costs no I/O: its one buffer is returned with one
  more user. Otherwise the buffer that is chosen is filled by exactly one read request for the
  block's two sectors, and becomes the only buffer caching the block; every other buffer keeps
  its contents. The cache is in order again. When no buffer is free and none unused, the call panics;
  and when there are unused ones but the oldest cached buffer is in use, the reclaim loop's
  leftover variable fails the assertion although buffers were found.
\<close>

theorem bread_refines:
  assumes rep: "buf_rep s cs fs"
  shows "case find (\<lambda>p. holds dev blk_nr (the (bufs s p))) cs of
      Some p \<Rightarrow> let s' = upd_buf p (\<lambda>b. b\<lparr>b_count := b_count b + 1\<rparr>) s in
        bread io dev blk_nr s = Inr (p, s') \<and> buf_rep s' cs fs
    | None \<Rightarrow> (case victim s cs fs of
        Inl h \<Rightarrow> bread io dev blk_nr s = Inl h
      | Inr (v, cs', fs') \<Rightarrow>
          (case ll_rw_block io dev BIO_READ (of_int (2 * blk_nr)) 2 (b_data (the (bufs s v))) (blk s) of
             Inl h \<Rightarrow> bread io dev blk_nr s = Inl h
           | Inr k \<Rightarrow> \<exists>s'. bread io dev blk_nr s = Inr (v, s') \<and> buf_rep s' (v # cs') fs' \<and> blk s' = k
               \<and> bufs s' = (bufs s)(v \<mapsto> loaded dev blk_nr (the (bufs s v)))))"
  by (rule bread_refines_eq [OF rep])

text \<open>A cache with one buffer, which holds block 5 of the disk for one user and is dirty.\<close>

definition one_buffer :: "unit buf_state" where
  "one_buffer = \<lparr>blk = \<lparr>request = [], bd_request = [],
       drive = \<lparr>hd = [], sect_per_trk = 0, head_nr = 0, dmem = \<lambda>_. 0, dev_st = ()\<rparr>\<rparr>,
     bufs = [0x20000 \<mapsto> \<lparr>b_dev = 3, b_blocknr = 5, b_uptodate = 1, b_data = 0x8fc00, b_dirty = 1, b_count = 2\<rparr>],
     cached = \<lparr>hfirst = \<lambda>_. Some 0x20000, hnext = \<lambda>_. None, hpprev = \<lambda>_. First_of ()\<rparr>,
     bfree = \<lparr>lnext = \<lambda>_. None, lprev = \<lambda>_. None\<rparr>, NR_BUFFERS = 1\<rparr>"

lemma one_buffer_rep: "buf_rep one_buffer [0x20000] []"
  by (simp add: buf_rep_def one_buffer_def hlist_def dlist_def uses_def)

theorem bread_refines_witness:
  "\<forall>io. \<exists>s'. bread io 3 5 one_buffer = Inr (0x20000, s') \<and> uses s' 0x20000 = 3"
proof -
  have "\<exists>s'. bread io 3 5 one_buffer = Inr (0x20000, s') \<and> uses s' 0x20000 = 3" for io
  proof -
    have "find (\<lambda>p. holds 3 5 (the (bufs one_buffer p))) [0x20000] = Some 0x20000"
      by (simp add: one_buffer_def holds_def)
    with bread_refines [OF one_buffer_rep, where dev = 3 and blk_nr = 5 and io = io] show ?thesis
      by (auto simp: Let_def upd_buf_def uses_def one_buffer_def)
  qed
  then show ?thesis by blast
qed

section \<open>Releasing a block\<close>

lemma brelease_eq:
  assumes "bufs s p = Some b"
  shows "brelease io p s = (if b_count b \<le> 0 then Inl Assert_failed
    else if b_count b = 1 \<and> b_dirty b = 1
    then bindr (ll_rw_block io (b_dev b) BIO_WRITE (of_int (2 * b_blocknr b)) 2 (b_data b) (blk s)) (\<lambda>k.
      Inr (s\<lparr>blk := k, bufs := (bufs s)(p \<mapsto> b\<lparr>b_count := 0, b_dirty := 0\<rparr>)\<rparr>))
    else Inr (s\<lparr>bufs := (bufs s)(p \<mapsto> b\<lparr>b_count := b_count b - 1\<rparr>)\<rparr>))"
  using assms
  by (auto simp: brelease_def buf_at_def upd_buf_def SECTORS_PER_BLK_def mult.commute assertr_def Let_def)

lemma brelease_shape:
  assumes b: "bufs s p = Some b" and run: "brelease io p s = Inr s'"
  shows "\<exists>d k. 0 < b_count b
      \<and> (k = blk s \<or> ll_rw_block io (b_dev b) BIO_WRITE (of_int (2 * b_blocknr b)) 2 (b_data b) (blk s) = Inr k)
      \<and> s' = (upd_buf p (\<lambda>b. b\<lparr>b_count := b_count b - 1, b_dirty := d\<rparr>) s)\<lparr>blk := k\<rparr>"
proof (cases "b_count b = 1 \<and> b_dirty b = 1")
  case True
  with run b obtain x where x: "ll_rw_block io (b_dev b) BIO_WRITE (of_int (2 * b_blocknr b)) 2 (b_data b) (blk s) = Inr x"
    "s' = s\<lparr>blk := x, bufs := (bufs s)(p \<mapsto> b\<lparr>b_count := 0, b_dirty := 0\<rparr>)\<rparr>"
    by (auto simp: brelease_eq bindr_eq_Inr)
  with True b show ?thesis by (intro exI [of _ 0] exI [of _ x]) (simp add: upd_buf_def)
next
  case False
  with run b show ?thesis
    by (intro exI [of _ "b_dirty b"] exI [of _ "blk s"])
      (auto simp: brelease_eq upd_buf_def split: if_splits)
qed

lemma buf_rep_release:
  assumes rep: "buf_rep s cs fs" and b: "bufs s p = Some b" and run: "brelease io p s = Inr s'"
  shows "buf_rep s' cs fs"
proof -
  have rep': "buf_rep (upd_buf p (\<lambda>b. b\<lparr>b_count := b_count b - 1, b_dirty := d\<rparr>) s) cs fs"
    if "0 < b_count b" for d
    by (rule buf_rep_upd [OF rep b]) (use that in simp_all)
  from brelease_shape [OF b run] have "\<exists>d k. 0 < b_count b
      \<and> s' = (upd_buf p (\<lambda>b. b\<lparr>b_count := b_count b - 1, b_dirty := d\<rparr>) s)\<lparr>blk := k\<rparr>"
    by blast
  then obtain d k where pos: "0 < b_count b"
    and s': "s' = (upd_buf p (\<lambda>b. b\<lparr>b_count := b_count b - 1, b_dirty := d\<rparr>) s)\<lparr>blk := k\<rparr>"
    by blast
  have "block_key (s\<lparr>blk := k\<rparr>) = block_key s" "uses (s\<lparr>blk := k\<rparr>) = uses s" for s :: "'a buf_state" and k
    by (simp_all add: block_key_def uses_def fun_eq_iff)
  with rep' [OF pos, of d] show ?thesis by (simp add: s' buf_rep_def)
qed

text \<open>The last release of a dirty buffer, down to the drive.\<close>

lemma sector_number:
  assumes "0 \<le> n" "nat (2 * n) < 2 ^ 28"
  shows "sint (of_int (2 * n) :: u32) = int (nat (2 * n))"
proof -
  have "unat (of_nat (nat (2 * n)) :: u32) = nat (2 * n)" using assms by (intro unat_of_nat_addr) simp
  moreover have "(of_nat (nat (2 * n)) :: u32) = of_int (2 * n)" using assms(1) by (simp only: of_nat_nat)
  ultimately have "unat (of_int (2 * n) :: u32) = nat (2 * n)" by simp
  moreover from this assms(2) have "sint (of_int (2 * n) :: u32) = int (unat (of_int (2 * n) :: u32))"
    by (intro sint_unat) simp
  ultimately show ?thesis by simp
qed

lemma brelease_dirty:
  assumes rep: "buf_rep s cs fs" and b: "bufs s p = Some b"
    and cable: "conforms io view" and a: "a = view (dev_st (drive (blk s)))"
    and dirty: "b_count b = 1 \<and> b_dirty b = 1 \<and> b_dev b = BLK_DEV_HD \<and> 0 \<le> b_blocknr b
        \<and> blk_ok (blk s) \<and> reaches (drive (blk s)) a (nat (2 * b_blocknr b))"
  shows "if slot_for BIO_WRITE (blk s) = None then brelease io p s = Inl (Panic ''BLK: Too many requests.'')
         else if ata_busy a < 9999 \<and> 9999 \<le> ata_delay a then brelease io p s = Inl (Panic ''HD: writing error.'')
         else \<exists>s'. brelease io p s = Inr s' \<and> buf_rep s' cs fs
           \<and> bufs s' = (bufs s)(p \<mapsto> b\<lparr>b_count := 0, b_dirty := 0\<rparr>)
           \<and> ata_disk (view (dev_st (drive (blk s')))) =
              (if 9999 \<le> ata_busy a then ata_disk a
               else (ata_disk a)(0 := (ata_disk a 0)
                 (nat (2 * b_blocknr b) := load_bytes (dmem (drive (blk s))) (b_data b) 512,
                  nat (2 * b_blocknr b) + 1 := load_bytes (dmem (drive (blk s))) (b_data b + 512) 512)))"
proof -
  let ?n = "nat (2 * b_blocknr b)"
  have n: "reaches (drive (blk s)) (view (dev_st (drive (blk s)))) ?n" using dirty a by simp
  have pos: "0 \<le> b_blocknr b" "?n < 2 ^ 28" using dirty n unfolding reaches_def by blast+
  have sect: "sint (of_int (2 * b_blocknr b) :: u32) = int ?n" by (rule sector_number [OF pos])
  have two: "sint (2 :: u32) = 2" by simp
  note w = hd_rdwt_write [OF cable n a, of "b_data b"]
  have eq: "brelease io p s = bindr (ll_rw_block io BLK_DEV_HD BIO_WRITE (of_int (2 * b_blocknr b)) 2 (b_data b) (blk s)) (\<lambda>k.
      Inr (s\<lparr>blk := k, bufs := (bufs s)(p \<mapsto> b\<lparr>b_count := 0, b_dirty := 0\<rparr>)\<rparr>))"
    using dirty brelease_eq [OF b, of io] by simp
  show ?thesis
  proof (cases "slot_for BIO_WRITE (blk s)")
    case None
    with dirty show ?thesis by (simp add: eq ll_rw_block_cases)
  next
    case (Some i)
    let ?req = "\<lambda>d. (blk s)\<lparr>request := (request (blk s))[i := \<lparr>rq_rw = BIO_WRITE, rq_sector = of_int (2 * b_blocknr b),
      rq_count = 2, rq_buffer = b_data b, rq_dev = 3, rq_next = None\<rparr>], drive := d\<rparr>"
    have run: "brelease io p s = bindr (hd_rdwt io 1 (int ?n) 2 (b_data b) (drive (blk s))) (\<lambda>(r, d).
        Inr (s\<lparr>blk := ?req d, bufs := (bufs s)(p \<mapsto> b\<lparr>b_count := 0, b_dirty := 0\<rparr>)\<rparr>))"
    proof -
      have ok: "blk_ok (blk s)" using dirty by blast
      note ll = ll_rw_block_cases [OF ok, where rw = BIO_WRITE and io = io and sector = "of_int (2 * b_blocknr b)"
        and count = 2 and buffer = "b_data b", unfolded Some option.case sect two]
      show ?thesis unfolding eq by (subst ll) (simp_all add: BIO_WRITE_def bindr_assoc case_prod_unfold)
    qed
    have finished: "\<exists>s'. brelease io p s = Inr s' \<and> buf_rep s' cs fs \<and> bufs s' = (bufs s)(p \<mapsto> b\<lparr>b_count := 0, b_dirty := 0\<rparr>)
        \<and> ata_disk (view (dev_st (drive (blk s')))) = ata_disk (view e)"
      if "hd_rdwt io 1 (int ?n) 2 (b_data b) (drive (blk s)) = Inr (r, (drive (blk s))\<lparr>dev_st := e\<rparr>)" for r e
      using buf_rep_release [OF rep b, of io] that by (simp add: run)
    consider "9999 \<le> ata_busy a" | "ata_busy a < 9999" "9999 \<le> ata_delay a" | "ata_busy a < 9999" "ata_delay a < 9999"
      by linarith
    then show ?thesis
    proof cases
      case 1
      with w obtain e where "hd_rdwt io 1 (int ?n) 2 (b_data b) (drive (blk s)) = Inr (- 1, (drive (blk s))\<lparr>dev_st := e\<rparr>)"
        "view e = a\<lparr>ata_busy := ata_busy a - 9999\<rparr>" by auto
      with finished [OF this(1)] 1 Some show ?thesis by simp
    next
      case 2
      with w Some show ?thesis by (simp add: run)
    next
      case 3
      with w obtain e where "hd_rdwt io 1 (int ?n) 2 (b_data b) (drive (blk s)) = Inr (0, (drive (blk s))\<lparr>dev_st := e\<rparr>)"
        "ata_disk (view e) = (ata_disk a)(0 := (ata_disk a 0)(?n := load_bytes (dmem (drive (blk s))) (b_data b) 512,
          ?n + 1 := load_bytes (dmem (drive (blk s))) (b_data b + 512) 512))" by auto
      with finished [OF this(1)] 3 Some show ?thesis by simp
    qed
  qed
qed

text \<open>
  C31: What \<^verbatim>\<open>brelease\<close> does to the disk. A buffer nobody uses fails the assertion; as long as users
  are left, or when the buffer is not marked dirty, it only counts one user less. The last release of
  a dirty buffer of the hard disk needs one of the request slots for writes, or panics. With a slot,
  and an ATA drive that answers within the 9999 polls the driver allows, exactly the two sectors of
  the buffer's block on drive 0 become the buffer's 1024 bytes, every other sector of every drive stays
  what it was, and the buffer is clean. A drive slow to ask for the data stops the machine. A drive
  busy at the start is only polled: nothing is written, but the buffer is marked clean all the same,
  and its data are lost. The lists of the cache stay in order whenever it returns.
\<close>

theorem brelease_writes_back:
  assumes rep: "buf_rep s cs fs" and b: "bufs s p = Some b"
    and cable: "conforms io view" and a: "a = view (dev_st (drive (blk s)))"
  shows "(b_count b \<le> 0 \<longrightarrow> brelease io p s = Inl Assert_failed)
    \<and> (1 < b_count b \<or> b_count b = 1 \<and> b_dirty b \<noteq> 1 \<longrightarrow>
        brelease io p s = Inr (s\<lparr>bufs := (bufs s)(p \<mapsto> b\<lparr>b_count := b_count b - 1\<rparr>)\<rparr>))
    \<and> (b_count b = 1 \<and> b_dirty b = 1 \<and> b_dev b = BLK_DEV_HD \<and> 0 \<le> b_blocknr b
        \<and> blk_ok (blk s) \<and> reaches (drive (blk s)) a (nat (2 * b_blocknr b)) \<longrightarrow>
        (if slot_for BIO_WRITE (blk s) = None then brelease io p s = Inl (Panic ''BLK: Too many requests.'')
         else if ata_busy a < 9999 \<and> 9999 \<le> ata_delay a then brelease io p s = Inl (Panic ''HD: writing error.'')
         else \<exists>s'. brelease io p s = Inr s' \<and> buf_rep s' cs fs
           \<and> bufs s' = (bufs s)(p \<mapsto> b\<lparr>b_count := 0, b_dirty := 0\<rparr>)
           \<and> ata_disk (view (dev_st (drive (blk s')))) =
              (if 9999 \<le> ata_busy a then ata_disk a
               else (ata_disk a)(0 := (ata_disk a 0)
                 (nat (2 * b_blocknr b) := load_bytes (dmem (drive (blk s))) (b_data b) 512,
                  nat (2 * b_blocknr b) + 1 := load_bytes (dmem (drive (blk s))) (b_data b + 512) 512)))))
    \<and> (\<forall>s'. brelease io p s = Inr s' \<longrightarrow> buf_rep s' cs fs)"
proof (intro conjI impI allI)
  show "brelease io p s = Inl Assert_failed" if "b_count b \<le> 0" using that brelease_eq [OF b, of io] by simp
  show "brelease io p s = Inr (s\<lparr>bufs := (bufs s)(p \<mapsto> b\<lparr>b_count := b_count b - 1\<rparr>)\<rparr>)"
    if "1 < b_count b \<or> b_count b = 1 \<and> b_dirty b \<noteq> 1" using that brelease_eq [OF b, of io] by auto
  show "buf_rep s' cs fs" if "brelease io p s = Inr s'" for s' using buf_rep_release [OF rep b that] .
qed (rule brelease_dirty [OF rep b cable a], auto)

text \<open>
  One dirty buffer with block 5 and one user, in a driver that addresses its drive by sector number;
  the drive is busy for a while at first.
\<close>

definition dirty_buffer :: "nat \<Rightarrow> ata buf_state" where
  "dirty_buffer busy = \<lparr>blk = \<lparr>request = replicate NR_REQUEST \<lparr>rq_rw = 0, rq_sector = 0, rq_count = 0, rq_buffer = 0,
         rq_dev = - 1, rq_next = None\<rparr>, bd_request = replicate 4 None,
       drive = \<lparr>hd = [\<lparr>addr_mode = 1, sect_cnt = 100, sect_cnt_ex = 0\<rparr>], sect_per_trk = 0, head_nr = 0, dmem = \<lambda>_. 7,
         dev_st = \<lparr>ata_regs = stale_registers, ata_busy = busy, ata_delay = 3, ata_job = None, ata_buf = [], ata_heads = 16,
           ata_spt = 63, ata_disk = \<lambda>_ _. replicate 512 0\<rparr>\<rparr>\<rparr>,
     bufs = [0x20000 \<mapsto> \<lparr>b_dev = 3, b_blocknr = 5, b_uptodate = 1, b_data = 0x8fc00, b_dirty = 1, b_count = 1\<rparr>],
     cached = \<lparr>hfirst = \<lambda>_. Some 0x20000, hnext = \<lambda>_. None, hpprev = \<lambda>_. First_of ()\<rparr>,
     bfree = \<lparr>lnext = \<lambda>_. None, lprev = \<lambda>_. None\<rparr>, NR_BUFFERS = 1\<rparr>"

lemma dirty_buffer_facts:
  "buf_rep (dirty_buffer n) [0x20000] []" "blk_ok (blk (dirty_buffer n))" "slot_for BIO_WRITE (blk (dirty_buffer n)) \<noteq> None"
  "reaches (drive (blk (dirty_buffer n))) (dev_st (drive (blk (dirty_buffer n)))) 10"
proof -
  show "buf_rep (dirty_buffer n) [0x20000] []"
    by (simp add: buf_rep_def dirty_buffer_def hlist_def dlist_def uses_def)
  show "blk_ok (blk (dirty_buffer n))" by (simp add: blk_ok_def dirty_buffer_def)
  have "10 \<in> free_slots 10 (blk (dirty_buffer n))"
    by (simp add: free_slots_def dirty_buffer_def NR_REQUEST_def)
  then show "slot_for BIO_WRITE (blk (dirty_buffer n)) \<noteq> None"
    by (auto simp: slot_for_None NR_REQUEST_def BIO_READ_def BIO_WRITE_def)
  show "reaches (drive (blk (dirty_buffer n))) (dev_st (drive (blk (dirty_buffer n)))) 10"
    by (simp add: reaches_def dirty_buffer_def)
qed

text \<open>Written after 5 polls; lost when the drive is busy for 20000.\<close>

theorem brelease_writes_back_witness:
  "\<exists>s1 s2. brelease ata_ports 0x20000 (dirty_buffer 5) = Inr s1 \<and> b_dirty (the (bufs s1 0x20000)) = 0
     \<and> ata_disk (dev_st (drive (blk s1))) 0 10 = replicate 512 7 \<and> ata_disk (dev_st (drive (blk s1))) 0 11 = replicate 512 7
     \<and> ata_disk (dev_st (drive (blk s1))) 0 12 = replicate 512 0
     \<and> brelease ata_ports 0x20000 (dirty_buffer 20000) = Inr s2 \<and> b_dirty (the (bufs s2 0x20000)) = 0
     \<and> ata_disk (dev_st (drive (blk s2))) 0 10 = replicate 512 0"
proof -
  let ?b = "\<lparr>b_dev = 3, b_blocknr = 5, b_uptodate = 1, b_data = 0x8fc00, b_dirty = 1, b_count = 1\<rparr>"
  have b: "bufs (dirty_buffer n) 0x20000 = Some ?b" for n by (simp add: dirty_buffer_def)
  have d: "ata_busy (dev_st (drive (blk (dirty_buffer n)))) = n" "ata_delay (dev_st (drive (blk (dirty_buffer n)))) = 3"
    "ata_disk (dev_st (drive (blk (dirty_buffer n)))) = (\<lambda>_ _. replicate 512 0)"
    "load_bytes (dmem (drive (blk (dirty_buffer n)))) q k = replicate k 7" for n q k
    by (simp_all add: dirty_buffer_def load_bytes_def map_replicate_const)
  note rel = brelease_writes_back [OF dirty_buffer_facts(1) b ata_ports_conform refl, THEN conjunct2, THEN conjunct2, THEN conjunct1, THEN mp]
  have "\<exists>s'. brelease ata_ports 0x20000 (dirty_buffer n) = Inr s' \<and> b_dirty (the (bufs s' 0x20000)) = 0
     \<and> ata_disk (dev_st (drive (blk s'))) = (if 9999 \<le> n then (\<lambda>_ _. replicate 512 0) else
        (\<lambda>_ _. replicate 512 0)(0 := (\<lambda>_. replicate 512 0)(10 := replicate 512 7, 11 := replicate 512 7)))" for n
    using rel [of n] dirty_buffer_facts [of n] by (auto simp: d BLK_DEV_HD_def)
  from this [of 5] this [of 20000] show ?thesis by auto
qed

section \<open>The buffers at boot\<close>

definition head_addr :: "addr_t \<Rightarrow> nat \<Rightarrow> addr_t" where
  "head_addr start i = start + of_nat i * sizeof_buffer_head"

definition block_addr :: "addr_t \<Rightarrow> nat \<Rightarrow> addr_t" where
  "block_addr stop i = stop - of_nat (Suc i) * of_nat BLOCK_SIZE"

lemma sint_small: "unat (w :: addr_t) < 2 ^ 31 \<Longrightarrow> sint w = int (unat w)"
  by (rule sint_unat) simp

lemma addr_small:
  assumes "unat start \<le> unat stop" "unat stop < 2 ^ 31" "1080 * i \<le> unat stop - unat start"
  shows "unat (head_addr start i) = unat start + 56 * i"
    and "i * 1024 + 1024 \<le> unat stop \<Longrightarrow> unat (block_addr stop i) = unat stop - 1024 * Suc i"
proof -
  have lt: "unat start + 56 * i < 2 ^ 31" using assms by linarith
  have n: "unat (of_nat (56 * i) :: addr_t) = 56 * i"
    by (simp only: unat_of_nat) (use lt in simp)
  have "head_addr start i = start + of_nat (56 * i)"
    by (simp add: head_addr_def sizeof_buffer_head_def mult.commute)
  then have "unat (head_addr start i) = (unat start + 56 * i) mod 2 ^ 32"
    by (simp only: unat_word_ariths n) simp
  with lt show "unat (head_addr start i) = unat start + 56 * i" by simp
next
  assume le: "i * 1024 + 1024 \<le> unat stop"
  have "unat (of_nat (Suc i * 1024) :: addr_t) = Suc i * 1024"
    by (simp only: unat_of_nat) (use le assms(2) in simp)
  moreover have "block_addr stop i = stop - of_nat (Suc i * 1024)"
    by (simp add: block_addr_def BLOCK_SIZE_def)
  ultimately show "unat (block_addr stop i) = unat stop - 1024 * Suc i"
    using le by (simp add: unat_sub word_le_nat_alt)
qed

text \<open>The state after \<open>i\<close> rounds of the loop.\<close>

definition laid_out :: "(addr_t \<Rightarrow> buffer_head) \<Rightarrow> addr_t \<Rightarrow> addr_t \<Rightarrow> nat \<Rightarrow> 'e buf_state \<Rightarrow> bool" where
  "laid_out raw start stop i s \<longleftrightarrow> hlist (cached s) () []
     \<and> dlist (bfree s) None (map Some (rev (map (head_addr start) [0..<i])))
     \<and> (\<forall>k < i. bufs s (head_addr start k) =
          Some ((raw (head_addr start k))\<lparr>b_uptodate := 0, b_data := block_addr stop k\<rparr>))"

lemma head_addr_inj:
  assumes "unat start \<le> unat (stop :: addr_t)" "unat stop < 2 ^ 31" "1080 * i \<le> unat stop - unat start"
    "1080 * k \<le> unat stop - unat start" "head_addr start i = head_addr start k"
  shows "i = k"
proof -
  have "unat start + 56 * i = unat (head_addr start i)" by (rule addr_small(1) [OF assms(1-3), symmetric])
  also have "\<dots> = unat (head_addr start k)" by (simp only: assms(5))
  also have "\<dots> = unat start + 56 * k" by (rule addr_small(1) [OF assms(1,2,4)])
  finally show ?thesis by simp
qed

lemma laid_out_step:
  assumes s: "laid_out raw start stop i s" and new: "\<forall>k < i. head_addr start k \<noteq> head_addr start i"
  shows "laid_out raw start stop (Suc i)
    (s\<lparr>bufs := (bufs s)(head_addr start i \<mapsto>
          (raw (head_addr start i))\<lparr>b_uptodate := 0, b_data := block_addr stop i\<rparr>),
       cached := INIT_HLIST_NODE (head_addr start i) (cached s),
       bfree := list_add (Some (head_addr start i)) None (bfree s)\<rparr>)"
proof -
  have "hlist (INIT_HLIST_NODE (head_addr start i) (cached s)) () []"
    using s by (simp add: laid_out_def hlist_def hlinks_defs)
  moreover have "dlist (list_add (Some (head_addr start i)) None (bfree s)) None
      (map Some (rev (map (head_addr start) [0..<Suc i])))"
    using s new dlist_add [of "bfree s" None _ "Some (head_addr start i)"]
    by (fastforce simp: laid_out_def)
  ultimately show ?thesis
    using s new by (auto simp: laid_out_def less_Suc_eq)
qed

lemma init_buffers_layout:
  assumes bounds: "1024 \<le> unat start" "unat start \<le> unat stop" "unat stop < 2 ^ 31"
    and n: "n = (unat stop - unat start) div 1080" and i: "i + j = n"
    and s: "laid_out raw start stop i s"
  shows "\<exists>s'. init_buffers raw (head_addr start i) (block_addr stop i) s = Some (head_addr start n, s')
    \<and> laid_out raw start stop n s' \<and> blk s' = blk s"
  using i s
proof (induction j arbitrary: i s)
  have room: "1080 * k \<le> unat stop - unat start" if "k \<le> n" for k
    using that n by (metis div_times_less_eq_dividend le_trans mult.commute mult_le_mono2)
  have cond: "sint (block_addr stop k) - sint (head_addr start k) \<ge> sint sizeof_buffer_head \<longleftrightarrow> k < n"
    if k: "k \<le> n" for k
  proof -
    note r = room [OF k]
    then have le: "k * 1024 + 1024 \<le> unat stop" using bounds by linarith
    note u = addr_small(1) [OF bounds(2,3) r] addr_small(2) [OF bounds(2,3) r le]
    have "unat (head_addr start k) < 2 ^ 31" "unat (block_addr stop k) < 2 ^ 31"
      unfolding u using bounds r by linarith+
    then have "sint (head_addr start k) = int (unat start) + 56 * int k"
      "sint (block_addr stop k) = int (unat stop) - 1024 * (int k + 1)"
      using le by (simp_all add: sint_small u of_nat_diff algebra_simps)
    moreover have "sint sizeof_buffer_head = 56" by (simp add: sizeof_buffer_head_def)
    moreover have "k < n \<longleftrightarrow> 1080 * (k + 1) \<le> unat stop - unat start"
      unfolding n by (simp add: less_eq_div_iff_mult_less_eq Suc_le_eq [symmetric] mult.commute)
    moreover define a z where "a = unat start" and "z = unat stop"
    ultimately show ?thesis using bounds(2) unfolding a_def [symmetric] z_def [symmetric] by auto
  qed
  {
    case 0
    then have "\<not> sint (block_addr stop i) - sint (head_addr start i) \<ge> sint sizeof_buffer_head"
      using cond [of i] by simp
    with 0 show ?case by (subst init_buffers.simps) auto
  next
    case (Suc j)
    let ?s = "s\<lparr>bufs := (bufs s)(head_addr start i \<mapsto>
          (raw (head_addr start i))\<lparr>b_uptodate := 0, b_data := block_addr stop i\<rparr>),
       cached := INIT_HLIST_NODE (head_addr start i) (cached s),
       bfree := list_add (Some (head_addr start i)) None (bfree s)\<rparr>"
    have "i < n" using Suc.prems by simp
    then have c: "sint (block_addr stop i) - sint (head_addr start i) \<ge> sint sizeof_buffer_head"
      using cond [of i] by simp
    have "head_addr start k \<noteq> head_addr start i" if "k < i" for k
      using head_addr_inj [OF bounds(2,3) room room, of k i] that \<open>i < n\<close> by auto
    then have "laid_out raw start stop (Suc i) ?s" using laid_out_step [OF Suc.prems(2)] by blast
    from Suc.IH [OF _ this] Suc.prems(1)
    obtain s' where "init_buffers raw (head_addr start (Suc i)) (block_addr stop (Suc i)) ?s = Some (head_addr start n, s')"
      "laid_out raw start stop n s'" "blk s' = blk s"
      by auto
    moreover have "head_addr start (Suc i) = head_addr start i + sizeof_buffer_head"
      "block_addr stop (Suc i) = block_addr stop i - of_nat BLOCK_SIZE"
      by (simp_all add: head_addr_def block_addr_def algebra_simps)
    ultimately show ?case using c by (subst init_buffers.simps) simp
  }
qed

lemma buffer_init_lists:
  assumes bounds: "1024 \<le> unat start" "unat start \<le> unat stop" "unat stop < 2 ^ 31"
    and n: "n = (unat stop - unat start) div 1080"
  shows "\<exists>s'. buffer_init raw start stop s = Inr s' \<and> NR_BUFFERS s' = int n \<and> blk s' = blk s
    \<and> buf_rep s' [] (rev (map (head_addr start) [0..<n]))
    \<and> (\<forall>k < n. bufs s' (head_addr start k)
          = Some ((raw (head_addr start k))\<lparr>b_uptodate := 0, b_data := block_addr stop k\<rparr>))
    \<and> (\<forall>k < n. unat start \<le> unat (head_addr start k)
          \<and> unat (head_addr start k) + 56 \<le> unat (head_addr start (Suc k))
          \<and> unat (head_addr start n) \<le> unat (block_addr stop k)
          \<and> unat (block_addr stop k) + 1024 = (if k = 0 then unat stop else unat (block_addr stop (k - 1))))"
proof -
  have room: "1080 * k \<le> unat stop - unat start" if "k \<le> n" for k
    using that n by (metis div_times_less_eq_dividend le_trans mult.commute mult_le_mono2)
  let ?s = "s\<lparr>bfree := INIT_LIST_HEAD None (bfree s), cached := INIT_HLIST_HEAD () (cached s)\<rparr>"
  have "laid_out raw start stop 0 ?s" using dlist_INIT hlist_INIT by (fastforce simp: laid_out_def)
  from init_buffers_layout [OF bounds n _ this, of n]
  obtain s1 where run: "init_buffers raw start (stop - of_nat BLOCK_SIZE) ?s = Some (head_addr start n, s1)"
    and s1: "laid_out raw start stop n s1" "blk s1 = blk s"
    by (auto simp: head_addr_def [of start 0] block_addr_def [of stop 0])
  have u: "unat (head_addr start k) = unat start + 56 * k" if "k \<le> n" for k
    by (rule addr_small(1) [OF bounds(2,3) room [OF that]])
  have v: "unat (block_addr stop k) = unat stop - 1024 * Suc k" if "k < n" for k
  proof (rule addr_small(2) [OF bounds(2,3) room])
    have "1080 * Suc k \<le> unat stop - unat start" by (rule room) (use that in simp)
    then have "1080 * Suc k \<le> unat stop" by (rule order_trans) simp
    then show "k * 1024 + 1024 \<le> unat stop" by simp
  qed (use that in simp)
  have nr: "(sint (head_addr start n) - sint start) div sint sizeof_buffer_head = int n"
  proof -
    have "unat (head_addr start n) < 2 ^ 31" "unat start < 2 ^ 31"
      using u [of n] room [of n] bounds by linarith+
    then have "sint (head_addr start n) - sint start = 56 * int n"
      by (simp add: sint_small u)
    then show ?thesis by (simp add: sizeof_buffer_head_def)
  qed
  let ?fs = "rev (map (head_addr start) [0..<n])"
  define s' where "s' = s1\<lparr>NR_BUFFERS := int n\<rparr>"
  have "list_for_each (bfree s1) None = Some (map Some ?fs)"
    using s1(1) by (intro list_for_each_dlist) (simp add: laid_out_def)
  then have "buffer_init raw start stop s = Inr s'"
    using run nr by (simp add: buffer_init_def buffer_stat_def s'_def Let_def)
  moreover have "distinct ?fs"
    using head_addr_inj [OF bounds(2,3) room room] by (auto simp: distinct_map inj_on_def)
  then have "buf_rep s' [] ?fs"
    using s1(1) by (auto simp: buf_rep_def laid_out_def s'_def)
  moreover have "unat start \<le> unat (head_addr start k) \<and> unat (head_addr start k) + 56 \<le> unat (head_addr start (Suc k))
      \<and> unat (head_addr start n) \<le> unat (block_addr stop k)
      \<and> unat (block_addr stop k) + 1024 = (if k = 0 then unat stop else unat (block_addr stop (k - 1)))"
    if k: "k < n" for k
    using k u [of k] u [of "Suc k"] u [of n] v [of k] v [of "k - 1"] room [of n] room [of "Suc k"] bounds
    by (cases k) (auto simp: algebra_simps)
  ultimately show ?thesis
    using s1 by (intro exI [of _ s']) (auto simp: s'_def laid_out_def)
qed

text \<open>
  C40: \<^verbatim>\<open>buffer_init\<close> returns and lays out one buffer per 1080 bytes of its region (424 with the bounds of
  \<^verbatim>\<open>kmain\<close>): all free, none cached, their heads one after the other from the start up, their blocks from the end
  down, no head and no block overlapping another or leaving the region. Fields it does not set
  keep what the memory held.
\<close>

theorem buffer_init_layout:
  assumes bounds: "1024 \<le> unat start" "unat start \<le> unat stop" "unat stop < 2 ^ 31"
    and n: "n = (unat stop - unat start) div 1080"
  shows "\<exists>s'. buffer_init raw start stop s = Inr s' \<and> NR_BUFFERS s' = int n \<and> blk s' = blk s
    \<and> buf_rep s' [] (rev (map (head_addr start) [0..<n]))
    \<and> (\<forall>k < n. bufs s' (head_addr start k)
          = Some ((raw (head_addr start k))\<lparr>b_uptodate := 0, b_data := block_addr stop k\<rparr>))
    \<and> (\<forall>k < n. unat start \<le> unat (head_addr start k)
          \<and> unat (head_addr start k) + 56 \<le> unat (head_addr start (Suc k))
          \<and> unat (head_addr start n) \<le> unat (block_addr stop k)
          \<and> unat (block_addr stop k) + 1024 = (if k = 0 then unat stop else unat (block_addr stop (k - 1))))"
  by (rule buffer_init_lists [OF bounds n])

theorem buffer_init_layout_witness:
  "\<forall>raw s. \<exists>s' :: unit buf_state. buffer_init raw 0x20000 0x90000 s = Inr s' \<and> NR_BUFFERS s' = 424"
proof (intro allI)
  fix raw and s :: "unit buf_state"
  from buffer_init_layout [of "0x20000" "0x90000" 424 raw s]
  show "\<exists>s' :: unit buf_state. buffer_init raw 0x20000 0x90000 s = Inr s' \<and> NR_BUFFERS s' = 424" by auto
qed

section \<open>The cache stays in order\<close>

datatype buf_op = Bread u16 int | Brelease addr_t | Bwrite addr_t

fun buf_step :: "'e ports \<Rightarrow> buf_op \<Rightarrow> 'e buf_state \<Rightarrow> 'e buf_state res" where
  "buf_step io (Bread dev n) s = bindr (bread io dev n s) (\<lambda>(p, s). Inr s)"
| "buf_step io (Brelease p) s = brelease io p s"
| "buf_step io (Bwrite p) s = bwrite p s"

fun buf_run :: "'e ports \<Rightarrow> buf_op list \<Rightarrow> 'e buf_state \<Rightarrow> 'e buf_state res" where
  "buf_run io [] s = Inr s"
| "buf_run io (a # as) s = bindr (buf_step io a s) (buf_run io as)"

text \<open>One step keeps the lists in order, with the same buffers on them.\<close>

lemma bread_keeps:
  assumes rep: "buf_rep s cs fs" and run: "bread io dev n s = Inr (p, s')"
  obtains cs' fs' where "buf_rep s' cs' fs'" "set (cs' @ fs') = set (cs @ fs)" "p \<in> set cs'"
    "holds dev n (the (bufs s' p))"
proof (cases "find (\<lambda>p. holds dev n (the (bufs s p))) cs")
  case (Some q)
  with bread_refines_eq [OF rep, where dev = dev and blk_nr = n and io = io] run
  have pq: "p = q" "s' = upd_buf q (\<lambda>b. b\<lparr>b_count := b_count b + 1\<rparr>) s" "buf_rep s' cs fs" by (auto simp: Let_def)
  from Some have q: "q \<in> set cs" "holds dev n (the (bufs s q))" by (auto simp: find_Some_iff)
  obtain b where "bufs s q = Some b" by (rule rep_head [OF rep, of q]) (use q in auto)
  with q(2) have "holds dev n (the (bufs s' p))" unfolding pq by (simp add: upd_buf_def holds_def)
  with q pq that show thesis by blast
next
  case None
  note eq = bread_refines_eq [OF rep, where dev = dev and blk_nr = n and io = io, unfolded None run, simplified]
  from eq obtain q cs' fs' where v0: "victim s cs fs = Inr (q, cs', fs')" by (cases "victim s cs fs") auto
  from eq have q: "p = q" "buf_rep s' (q # cs') fs'" "bufs s' = (bufs s)(q \<mapsto> loaded dev n (the (bufs s q)))"
    by (cases "ll_rw_block io dev BIO_READ (2 * of_int n) 2 (b_data (the (bufs s q))) (blk s)"; simp add: v0)+
  note v = v0 [folded q(1)] and s' = q(2,3) [folded q(1)]
  have "holds dev n (the (bufs s' p))" by (simp add: s' holds_def loaded_def)
  with victim_lists(2) [OF rep v] s' that [of "p # cs'" fs'] show thesis by simp
qed

lemma buf_step_keeps:
  assumes rep: "buf_rep s cs fs" and run: "buf_step io a s = Inr s'"
  shows "\<exists>cs' fs'. buf_rep s' cs' fs' \<and> set (cs' @ fs') = set (cs @ fs)"
proof (cases a)
  case (Bread dev n)
  with run obtain p where "bread io dev n s = Inr (p, s')" by (auto simp: bindr_eq_Inr)
  from bread_keeps [OF rep this] show ?thesis by blast
next
  case (Brelease p)
  with run obtain b where "bufs s p = Some b"
    by (auto simp: brelease_def buf_at_def upd_buf_def bindr_eq_Inr Let_def split: option.splits)
  from buf_rep_release [OF rep this] run Brelease show ?thesis by auto
next
  case (Bwrite p)
  with run obtain b where b: "bufs s p = Some b" and s': "s' = upd_buf p (\<lambda>b. b\<lparr>b_dirty := 1\<rparr>) s"
    by (auto simp: bwrite_def buf_at_def bindr_eq_Inr split: option.splits)
  have "buf_rep s' cs fs" unfolding s'
    using rep b by (intro buf_rep_upd [OF rep b]) (auto simp: buf_rep_def uses_def)
  then show ?thesis by blast
qed

lemma buf_run_keeps:
  assumes "buf_rep s cs fs" "buf_run io as s = Inr s'"
  shows "\<exists>cs' fs'. buf_rep s' cs' fs' \<and> set (cs' @ fs') = set (cs @ fs)"
  using assms
proof (induction io as s arbitrary: cs fs rule: buf_run.induct)
  case (2 io a as s)
  then obtain s1 where one: "buf_step io a s = Inr s1" and rest: "buf_run io as s1 = Inr s'"
    by (auto simp: bindr_eq_Inr)
  from buf_step_keeps [OF 2(2) one] obtain cs1 fs1 where
    "buf_rep s1 cs1 fs1" "set (cs1 @ fs1) = set (cs @ fs)" by blast
  with 2(1) [OF one this(1) rest] show ?case by simp
qed auto

text \<open>
  C30: from \<^verbatim>\<open>buffer_init\<close> on, whatever the disk does and in whatever order blocks are read, released and
  marked: as long as the calls return, every buffer stays on exactly one of the two lists, none is lost
  or gained, every cached buffer holds its block and no block is ever cached twice.
\<close>

theorem buffer_cache_consistent:
  assumes bounds: "1024 \<le> unat start" "unat start \<le> unat stop" "unat stop < 2 ^ 31"
    and init: "buffer_init raw start stop s0 = Inr s" and run: "buf_run io ops s = Inr s'"
  shows "\<exists>cs fs. buf_rep s' cs fs \<and> distinct (map (block_key s') cs)
    \<and> int (length cs + length fs) = NR_BUFFERS s"
proof -
  let ?n = "(unat stop - unat start) div 1080"
  from init buffer_init_lists [OF bounds refl, of raw s0]
  have s: "buf_rep s [] (rev (map (head_addr start) [0..<?n]))" "NR_BUFFERS s = int ?n" by auto
  from buf_run_keeps [OF s(1) run] obtain cs fs where
    r: "buf_rep s' cs fs" "set (cs @ fs) = set (rev (map (head_addr start) [0..<?n]))" by auto
  have "distinct (cs @ fs)" "distinct (rev (map (head_addr start) [0..<?n]))"
    using r(1) s(1) by (auto simp: buf_rep_def)
  then have "length (cs @ fs) = length (rev (map (head_addr start) [0..<?n]))"
    using r(2) by (metis distinct_card)
  then have "int (length cs + length fs) = NR_BUFFERS s" using s(2) by simp
  moreover have "distinct (map (block_key s') cs)" using r(1) by (simp add: buf_rep_def)
  ultimately show ?thesis using r(1) by blast
qed

theorem buffer_cache_consistent_witness:
  "\<forall>io raw s0. \<exists>(s :: unit buf_state) s'. buffer_init (\<lambda>_. raw) 0x20000 0x90000 s0 = Inr s
     \<and> buf_run io [Bwrite 0x20000] s = Inr s' \<and> (\<exists>cs fs. buf_rep s' cs fs \<and> length cs + length fs = 424)"
proof -
  have "\<exists>(s :: unit buf_state) s'. buffer_init (\<lambda>_. raw) 0x20000 0x90000 s0 = Inr s
     \<and> buf_run io [Bwrite 0x20000] s = Inr s' \<and> (\<exists>cs fs. buf_rep s' cs fs \<and> length cs + length fs = 424)" for io raw s0
  proof -
    from buffer_init_lists [of "0x20000" "0x90000" 424 "\<lambda>_. raw" s0] obtain s where
      s: "buffer_init (\<lambda>_. raw) 0x20000 0x90000 s0 = Inr s" "NR_BUFFERS s = 424"
        "\<forall>k < 424. bufs s (head_addr 0x20000 k) \<noteq> None"
      by auto
    from s(3) have "bufs s 0x20000 \<noteq> None" by (auto simp: head_addr_def dest: spec [of _ 0])
    then obtain s' where r: "buf_run io [Bwrite 0x20000] s = Inr s'" by (auto simp: bwrite_def buf_at_def)
    from buffer_cache_consistent [OF _ _ _ s(1) r] obtain cs fs where
      "buf_rep s' cs fs" "int (length cs + length fs) = NR_BUFFERS s" by auto
    then have "buf_rep s' cs fs \<and> length cs + length fs = 424" using s(2) by linarith
    with s(1) r show ?thesis by blast
  qed
  then show ?thesis by blast
qed

end
