(* ===== verification/Cached_Block.thy ===== *)
theory Cached_Block imports Buffer begin

text \<open>
  What the file system relies on when it works on a block that is in the cache: reading it finds its
  buffer without I/O, changing its data, marking and releasing it keep it and every other cached
  block where they are, and a write to the disk leaves the memory alone.
\<close>

text \<open>The memory the buffers lie in.\<close>

definition bmem :: "'e buf_state \<Rightarrow> mem" where
  "bmem s = dmem (drive (blk s))"

definition upd_bmem :: "(mem \<Rightarrow> mem) \<Rightarrow> 'e buf_state \<Rightarrow> 'e buf_state" where
  "upd_bmem f s = s\<lparr>blk := (blk s)\<lparr>drive := (drive (blk s))\<lparr>dmem := f (bmem s)\<rparr>\<rparr>\<rparr>"

lemma bmem_simps [simp]:
  "bmem (upd_bmem f s) = f (bmem s)" "bufs (upd_bmem f s) = bufs s" "cached (upd_bmem f s) = cached s"
  "bfree (upd_bmem f s) = bfree s" "bmem (upd_buf p g s) = bmem s"
  by (simp_all add: bmem_def upd_bmem_def upd_buf_def)

section \<open>Steps that keep the cache\<close>

definition block_data :: "'e buf_state \<Rightarrow> addr_t \<Rightarrow> addr_t" where
  "block_data s p = b_data (the (bufs s p))"

text \<open>The same buffers cache the same blocks at the same places.\<close>

definition same_blocks :: "'e buf_state \<Rightarrow> 'e buf_state \<Rightarrow> bool" where
  "same_blocks s s' \<longleftrightarrow> (\<forall>cs fs. buf_rep s cs fs \<longrightarrow> buf_rep s' cs fs)
     \<and> (\<forall>p. (bufs s' p = None) = (bufs s p = None) \<and> block_data s' p = block_data s p
          \<and> (\<forall>dev n. holds dev n (the (bufs s' p)) = holds dev n (the (bufs s p))))"

lemma same_blocks_refl [simp]: "same_blocks s s"
  by (simp add: same_blocks_def)

lemma same_blocks_trans: "same_blocks s s' \<Longrightarrow> same_blocks s' s'' \<Longrightarrow> same_blocks s s''"
  by (simp add: same_blocks_def)

lemma buf_rep_cong:
  "\<lbrakk>bufs s' = bufs s; cached s' = cached s; bfree s' = bfree s\<rbrakk> \<Longrightarrow> buf_rep s' cs fs = buf_rep s cs fs"
proof -
  assume *: "bufs s' = bufs s" "cached s' = cached s" "bfree s' = bfree s"
  have "block_key s' = block_key s" by (rule ext) (simp add: block_key_def *(1))
  moreover have "uses s' = uses s" by (rule ext) (simp add: uses_def *(1))
  ultimately show ?thesis by (simp only: buf_rep_def *)
qed

lemma same_blocks_mem: "\<lbrakk>bufs s' = bufs s; cached s' = cached s; bfree s' = bfree s\<rbrakk> \<Longrightarrow> same_blocks s s'"
  using buf_rep_cong [of s' s] by (simp add: same_blocks_def block_data_def)

lemma same_blocks_upd:
  assumes "bufs s p = Some b" "b_dev (f b) = b_dev b" "b_blocknr (f b) = b_blocknr b"
    "b_uptodate (f b) = b_uptodate b" "b_data (f b) = b_data b" "0 \<le> b_count b \<Longrightarrow> 0 \<le> b_count (f b)"
  shows "same_blocks s (upd_buf p f s)"
proof -
  have "buf_rep (upd_buf p f s) cs fs" if rep: "buf_rep s cs fs" for cs fs
    by (rule buf_rep_upd [OF rep]) (use assms rep in \<open>auto simp: buf_rep_def uses_def\<close>)
  with assms show ?thesis by (auto simp: same_blocks_def upd_buf_def block_data_def holds_def)
qed

lemma hd_write_mem: "write_sectors io n p d = Inr d' \<Longrightarrow> dmem d' = dmem d"
  by (induction io n p d rule: write_sectors.induct) (auto simp: bindr_eq_Inr split: if_splits)

lemma hd_cmd_out_mem: "hd_cmd_out io dev cmd cnt l h d = Inr d' \<Longrightarrow> dmem d' = dmem d"
  by (auto simp: hd_cmd_out_def assertr_def bindr_eq_Inr Let_def split: if_splits)

lemma hd_rdwt_write_mem:
  assumes "hd_rdwt io 1 sect cnt buf d = Inr (r, d')"
  shows "dmem d' = dmem d"
proof -
  from assms obtain t e where e: "wait_status io STAT_BUSY 0 NORM_WAIT_TIME (dev_st d) = Inr (t, e)"
    by (auto simp: hd_rdwt_def assertr_eq_Inr bindr_eq_Inr)
  show ?thesis
  proof (cases "t = 0")
    case True
    with assms e show ?thesis by (auto simp: hd_rdwt_def assertr_eq_Inr)
  next
    case False
    with assms e obtain d1 where "hd_cmd_out io 0 0x30 (of_int cnt) (of_int sect) 0 (d\<lparr>dev_st := e\<rparr>) = Inr d1"
      "write_sectors io (nat cnt) buf d1 = Inr d'"
      by (auto simp: hd_rdwt_def assertr_eq_Inr bindr_eq_Inr)
    from hd_write_mem [OF this(2)] hd_cmd_out_mem [OF this(1)] show ?thesis by simp
  qed
qed

lemma ll_write_mem:
  assumes ok: "blk_ok k" and run: "ll_rw_block io dev BIO_WRITE sector cnt buf k = Inr k'"
  shows "dmem (drive k') = dmem (drive k)" "blk_ok k'"
proof -
  from ok run obtain i r d where
    d: "hd_rdwt io BIO_WRITE (sint sector) (sint cnt) buf (drive k) = Inr (r, d)"
    and k': "k' = k\<lparr>request := (request k)[i := \<lparr>rq_rw = BIO_WRITE, rq_sector = sector, rq_count = cnt,
           rq_buffer = buf, rq_dev = 3, rq_next = None\<rparr>], drive := d\<rparr>"
    by (rule ll_rw_block_Inr)
  have "dmem d = dmem (drive k)" by (rule hd_rdwt_write_mem [OF d [unfolded BIO_WRITE_def]])
  then show "dmem (drive k') = dmem (drive k)" by (simp add: k')
  show "blk_ok k'" using ll_rw_block_uses_slot(1) [OF ok run] .
qed

section \<open>Blocks in the cache\<close>

definition block_in :: "'e buf_state \<Rightarrow> u16 \<Rightarrow> int \<Rightarrow> addr_t \<Rightarrow> bool" where
  "block_in s dev n p \<longleftrightarrow> (\<exists>cs fs. buf_rep s cs fs \<and> p \<in> set cs) \<and> holds dev n (the (bufs s p)) \<and> blk_ok (blk s)"

lemma block_in_unique: "block_in s dev n p \<Longrightarrow> buf_rep s cs fs \<Longrightarrow>
    find (\<lambda>p. holds dev n (the (bufs s p))) cs = Some p"
proof -
  assume c: "block_in s dev n p" and rep: "buf_rep s cs fs"
  from c obtain cs' fs' where "buf_rep s cs' fs'" "p \<in> set cs'" by (auto simp: block_in_def)
  moreover from this(1) rep have "Some cs' = Some cs"
    unfolding buf_rep_def by (metis hlist_for_each_hlist)
  ultimately have p: "p \<in> set cs" by simp
  show ?thesis
  proof (cases "find (\<lambda>p. holds dev n (the (bufs s p))) cs")
    case None
    with c p show ?thesis by (auto simp: find_None_iff block_in_def)
  next
    case (Some q)
    then have q: "q \<in> set cs" "holds dev n (the (bufs s q))" by (auto simp: find_Some_iff)
    then have "block_key s q = block_key s p" using c by (simp add: block_key_def holds_def block_in_def)
    with rep p q have "q = p" by (auto simp: buf_rep_def distinct_map dest: inj_onD)
    with Some show ?thesis by simp
  qed
qed

lemma block_inE:
  assumes "block_in s dev n p"
  obtains b cs fs where "bufs s p = Some b" "holds dev n b" "0 \<le> b_count b" "buf_rep s cs fs" "p \<in> set cs"
    "blk_ok (blk s)"
proof -
  from assms obtain cs fs where rep: "buf_rep s cs fs" "p \<in> set cs" and h: "holds dev n (the (bufs s p))" "blk_ok (blk s)"
    by (auto simp: block_in_def)
  obtain b where "bufs s p = Some b" "0 \<le> b_count b" by (rule rep_head [OF rep(1), of p]) (use rep in auto)
  with rep h that show thesis by auto
qed

lemma block_in_same: "\<lbrakk>block_in s dev n p; same_blocks s s'; blk_ok (blk s')\<rbrakk> \<Longrightarrow> block_in s' dev n p"
  by (auto simp: block_in_def same_blocks_def)

text \<open>Reading, writing and releasing a cached block.\<close>

lemma bread_cached:
  assumes "block_in s dev n p"
  shows "bread io dev n s = Inr (p, upd_buf p (\<lambda>b. b\<lparr>b_count := b_count b + 1\<rparr>) s)"
    "same_blocks s (upd_buf p (\<lambda>b. b\<lparr>b_count := b_count b + 1\<rparr>) s)"
proof -
  obtain b cs fs where b: "bufs s p = Some b" and rep: "buf_rep s cs fs" by (rule block_inE [OF assms])
  show "bread io dev n s = Inr (p, upd_buf p (\<lambda>b. b\<lparr>b_count := b_count b + 1\<rparr>) s)"
    using bread_refines_eq [OF rep, where dev = dev and blk_nr = n and io = io] block_in_unique [OF assms rep]
    by (simp add: Let_def)
  show "same_blocks s (upd_buf p (\<lambda>b. b\<lparr>b_count := b_count b + 1\<rparr>) s)"
    by (rule same_blocks_upd [OF b]) simp_all
qed

lemma brelease_cached:
  assumes c: "block_in s dev n p" and run: "brelease io p s = Inr s'"
  shows "block_in s' dev n p" "same_blocks s s'" "bmem s' = bmem s" "0 < uses s p" "uses s' p = uses s p - 1"
proof -
  obtain b where b: "bufs s p = Some b" and ok: "blk_ok (blk s)" by (rule block_inE [OF c])
  from run obtain d k where pos: "0 < b_count b"
    and k: "blk_ok k" "dmem (drive k) = dmem (drive (blk s))"
    and s': "s' = (upd_buf p (\<lambda>b. b\<lparr>b_count := b_count b - 1, b_dirty := d\<rparr>) s)\<lparr>blk := k\<rparr>"
    using brelease_shape [OF b run] ok ll_write_mem by blast
  have "same_blocks s (upd_buf p (\<lambda>b. b\<lparr>b_count := b_count b - 1, b_dirty := d\<rparr>) s)"
    by (rule same_blocks_upd [OF b]) (use pos in simp_all)
  then show same: "same_blocks s s'"
    unfolding s' by (rule same_blocks_trans) (rule same_blocks_mem, simp_all)
  show "block_in s' dev n p" by (rule block_in_same [OF c same]) (simp add: s' k)
  show "bmem s' = bmem s" by (simp add: s' bmem_def k)
  show "0 < uses s p" "uses s' p = uses s p - 1" using b pos by (simp_all add: uses_def s' upd_buf_def)
qed

text \<open>With a second user, releasing does no I/O.\<close>

lemma brelease_returns:
  assumes c: "block_in s dev n p" and u: "1 < uses s p"
  shows "\<exists>s'. brelease io p s = Inr s'"
proof -
  obtain b where b: "bufs s p = Some b" by (rule block_inE [OF c])
  with u have "1 < b_count b" by (simp add: uses_def)
  with brelease_eq [OF b, of io] show ?thesis by auto
qed

end
