(* ===== verification/Page_Alloc.thy ===== *)
theory Page_Alloc imports Prelude begin

text \<open>
  The physical page allocator of \<^verbatim>\<open>mm/memory.c\<close>: one use counter per page of the 15 MB above
  \<^verbatim>\<open>LOW_MEM\<close>, first-fit search for a run of free pages, and the counters' decrement on
  release. The counters are \<^verbatim>\<open>unsigned char\<close>s, so they wrap; addresses are 32 bits wide.
\<close>

definition LOW_MEM :: addr_t where "LOW_MEM = 0x100000"
definition TOTAL_MEM :: nat where "TOTAL_MEM = 15 * 1024 * 1024"
definition NR_PAGES :: nat where "NR_PAGES = TOTAL_MEM div 2 ^ 12"
definition RESERVED_PAGE :: u8 where "RESERVED_PAGE = 100"
definition PAGE_SIZE :: nat where "PAGE_SIZE = 4096"

definition mmi :: "addr_t \<Rightarrow> nat" where
  "mmi addr = unat (drop_bit 12 (addr - LOW_MEM))"

record page_state =
  HIGH_MEMORY :: addr_t
  mem_map :: "u8 list"

text \<open>\<^verbatim>\<open>for (i = mmi(mem_start), j = mmi(mem_end); i <= j; ++i) mem_map[i] = 0;\<close>\<close>

fun clear_upto :: "nat \<Rightarrow> nat \<Rightarrow> u8 list \<Rightarrow> u8 list" where
  "clear_upto i 0 mm = mm"
| "clear_upto i (Suc n) mm = clear_upto (Suc i) n (mm[i := 0])"

definition mem_init :: "addr_t \<Rightarrow> addr_t \<Rightarrow> page_state res" where
  "mem_init mem_start mem_end =
     assertr (mem_start \<ge> LOW_MEM \<and> mem_start < mem_end \<and> mem_end < LOW_MEM + of_nat TOTAL_MEM)
       (let mm = replicate NR_PAGES RESERVED_PAGE;
            i = mmi mem_start; j = mmi mem_end
        in Inr \<lparr>HIGH_MEMORY = mem_end, mem_map = clear_upto i (Suc j - i) mm\<rparr>)"

text \<open>The count \<^verbatim>\<open>mem_stat\<close> prints.\<close>

definition mem_stat :: "page_state \<Rightarrow> nat" where
  "mem_stat s = length (filter (\<lambda>b. b = 0) (mem_map s))"

text \<open>
  The search loop of \<^verbatim>\<open>alloc_pages\<close> from page \<open>i\<close> on, with \<open>accum\<close> free pages just before
  \<open>i\<close>: the index where it breaks, \<open>None\<close> when it reaches \<^verbatim>\<open>NR_PAGES\<close>.
\<close>

fun find_run :: "nat \<Rightarrow> u8 list \<Rightarrow> nat \<Rightarrow> nat \<Rightarrow> nat option" where
  "find_run require [] i accum = None"
| "find_run require (b # bs) i accum =
     (let accum = (if b = 0 then Suc accum else 0)
      in if accum = require then Some i else find_run require bs (Suc i) accum)"

text \<open>\<^verbatim>\<open>for (; accum > 0; --accum, --i) { assert(mem_map[i] == 0); ++(mem_map[i]); }\<close>\<close>

fun mark_run :: "nat \<Rightarrow> int \<Rightarrow> u8 list \<Rightarrow> (int \<times> u8 list) res" where
  "mark_run 0 i mm = Inr (i, mm)"
| "mark_run (Suc accum) i mm =
     (if 0 \<le> i \<and> nat i < length mm
      then assertr (mm ! nat i = 0) (mark_run accum (i - 1) (mm[nat i := mm ! nat i + 1]))
      else Inl Bad_access)"

text \<open>\<^verbatim>\<open>1 << order\<close>\<close>

definition pages_of_order :: "nat \<Rightarrow> u32" where
  "pages_of_order order = push_bit order 1"

definition alloc_pages :: "nat \<Rightarrow> page_state \<Rightarrow> (addr_t \<times> page_state) res" where
  "alloc_pages order s =
     (let require = unat (pages_of_order order)
      in case find_run require (mem_map s) 0 0 of
           None \<Rightarrow> Inl (Panic ''out of memory'')
         | Some i \<Rightarrow>
             bindr (mark_run require (int i) (mem_map s))
               (\<lambda>(i, mm).
                  let page = LOW_MEM + push_bit 12 (of_int (i + 1))
                  in assertr (page \<ge> LOW_MEM \<and> page < HIGH_MEMORY s)
                       (Inr (page, s\<lparr>mem_map := mm\<rparr>))))"

definition alloc_page :: "page_state \<Rightarrow> (addr_t \<times> page_state) res" where
  "alloc_page s = alloc_pages 0 s"

text \<open>\<^verbatim>\<open>for (; require > 0; --require, ++start) --mem_map[start];\<close>\<close>

fun release_run :: "nat \<Rightarrow> nat \<Rightarrow> u8 list \<Rightarrow> u8 list" where
  "release_run 0 start mm = mm"
| "release_run (Suc require) start mm = release_run require (Suc start) (mm[start := mm ! start - 1])"

text \<open>
  The second assertion of the source, that the decremented \<^verbatim>\<open>unsigned char\<close> is not negative,
  always holds.
\<close>

definition free_pages :: "addr_t \<Rightarrow> nat \<Rightarrow> page_state \<Rightarrow> page_state res" where
  "free_pages addr order s =
     (let require = pages_of_order order; start = mmi addr
      in assertr (of_nat start + require < of_nat NR_PAGES)
           (Inr (s\<lparr>mem_map := release_run (unat require) start (mem_map s)\<rparr>)))"

definition free_page :: "addr_t \<Rightarrow> page_state \<Rightarrow> page_state res" where
  "free_page addr s = free_pages addr 0 s"

section \<open>What the search finds\<close>

text \<open>\<open>run_at mm i n\<close>: the \<open>n\<close> pages from \<open>i\<close> on exist and are free.\<close>

definition run_at :: "u8 list \<Rightarrow> nat \<Rightarrow> nat \<Rightarrow> bool" where
  "run_at mm i n \<longleftrightarrow> i + n \<le> length mm \<and> (\<forall>k < n. mm ! (i + k) = 0)"

text \<open>The loop's invariant: exactly \<open>accum\<close> free pages end before \<open>i\<close>, and no run was met.\<close>

lemma find_run_Some:
  assumes "find_run n bs (length as) accum = Some i" and "accum < n"
    and "accum \<le> length as" and "\<forall>k < accum. (as @ bs) ! (length as - Suc k) = 0"
  shows "i < length (as @ bs) \<and> n \<le> Suc i \<and> run_at (as @ bs) (Suc i - n) n"
  using assms
proof (induction bs arbitrary: as accum)
  case (Cons b bs)
  let ?acc = "if b = 0 then Suc accum else 0"
  have inv: "\<forall>k < ?acc. (as @ b # bs) ! (length as - k) = 0"
  proof (intro allI impI)
    fix k assume k: "k < ?acc"
    then have "b = 0" by (simp split: if_splits)
    show "(as @ b # bs) ! (length as - k) = 0"
    proof (cases k)
      case 0
      with \<open>b = 0\<close> show ?thesis by simp
    next
      case (Suc k')
      then have "k' < accum" using k by (simp split: if_splits)
      with Cons.prems(4) Suc show ?thesis by simp
    qed
  qed
  show ?case
  proof (cases "?acc = n")
    case True
    with Cons.prems have i: "i = length as" by (simp add: Let_def split: if_splits)
    have n: "n \<le> Suc (length as)" using True Cons.prems(3) by (auto split: if_splits)
    have "(as @ b # bs) ! (Suc i - n + j) = 0" if j: "j < n" for j
      using inv [rule_format, of "n - Suc j"] True j i n by simp
    with i n show ?thesis by (simp add: run_at_def)
  next
    case False
    have "find_run n bs (length (as @ [b])) ?acc = Some i"
      using Cons.prems(1) False by (simp add: Let_def)
    moreover have "?acc < n" using False Cons.prems(2) by (simp split: if_splits)
    moreover have "?acc \<le> length (as @ [b])" using Cons.prems(3) by simp
    moreover have "\<forall>k < ?acc. ((as @ [b]) @ bs) ! (length (as @ [b]) - Suc k) = 0"
      using inv by simp
    ultimately have "i < length ((as @ [b]) @ bs) \<and> n \<le> Suc i \<and> run_at ((as @ [b]) @ bs) (Suc i - n) n"
      by (rule Cons.IH)
    then show ?thesis by simp
  qed
qed simp

lemma find_run_first:
  assumes "accum < n" and "accum \<le> length as"
    and "accum < length as \<longrightarrow> (as @ bs) ! (length as - Suc accum) \<noteq> 0"
    and "\<And>s. run_at (as @ bs) s n \<Longrightarrow> length as < s + n"
  shows "case find_run n bs (length as) accum of
      None \<Rightarrow> \<forall>s. \<not> run_at (as @ bs) s n
    | Some i \<Rightarrow> \<forall>s. run_at (as @ bs) s n \<longrightarrow> i < s + n"
  using assms
proof (induction bs arbitrary: as accum)
  case Nil
  have "\<not> run_at as s n" for s
    using Nil.prems(4) [of s] by (auto simp: run_at_def)
  then show ?case by simp
next
  case (Cons b bs)
  let ?acc = "if b = 0 then Suc accum else 0"
  show ?case
  proof (cases "?acc = n")
    case True
    with Cons.prems(4) show ?thesis by (auto simp: Let_def split: if_splits)
  next
    case False
    have later: "length (as @ [b]) < s + n" if run: "run_at ((as @ [b]) @ bs) s n" for s
    proof (rule ccontr)
      assume "\<not> ?thesis"
      with Cons.prems(4) [of s] run have s: "s + n = Suc (length as)" by auto
      have zero: "(as @ b # bs) ! (s + k) = 0" if "k < n" for k
        using run that by (simp add: run_at_def)
      have "b = 0" using zero [of "n - 1"] s Cons.prems(1) by (simp add: nth_append)
      with False Cons.prems(1) have acc: "Suc accum < n" by simp
      with s have "accum < length as" by simp
      moreover have "(as @ b # bs) ! (length as - Suc accum) = 0"
      proof -
        have "length as - Suc accum = s + (n - Suc (Suc accum))" using s acc by simp
        then show ?thesis using zero [of "n - Suc (Suc accum)"] acc by simp
      qed
      ultimately show False using Cons.prems(3) by simp
    qed
    have "case find_run n bs (length (as @ [b])) ?acc of
        None \<Rightarrow> \<forall>s. \<not> run_at ((as @ [b]) @ bs) s n
      | Some i \<Rightarrow> \<forall>s. run_at ((as @ [b]) @ bs) s n \<longrightarrow> i < s + n"
    proof (rule Cons.IH)
      show "?acc < n" using False Cons.prems(1) by (simp split: if_splits)
      show "?acc \<le> length (as @ [b])" using Cons.prems(2) by simp
      show "?acc < length (as @ [b]) \<longrightarrow> ((as @ [b]) @ bs) ! (length (as @ [b]) - Suc ?acc) \<noteq> 0"
        using Cons.prems(3) by (auto simp: nth_append)
    qed (rule later)
    moreover have "find_run n (b # bs) (length as) accum = find_run n bs (length (as @ [b])) ?acc"
      using False by (simp add: Let_def)
    moreover have "(as @ [b]) @ bs = as @ b # bs" by simp
    ultimately show ?thesis by (simp only:)
  qed
qed

text \<open>The first run of \<open>n\<close> free pages, as a specification of the search.\<close>

definition first_run :: "u8 list \<Rightarrow> nat \<Rightarrow> nat option" where
  "first_run mm n = (if \<exists>s. run_at mm s n then Some (LEAST s. run_at mm s n) else None)"

lemma find_run_first_run:
  assumes "0 < n"
  shows "find_run n mm 0 0 = map_option (\<lambda>s. s + n - 1) (first_run mm n)"
proof (cases "find_run n mm 0 0")
  case None
  with find_run_first [of 0 n "[]" mm] assms show ?thesis by (simp add: first_run_def)
next
  case (Some i)
  with find_run_Some [of n mm "[]" 0 i] assms
  have i: "n \<le> Suc i" "run_at mm (Suc i - n) n" by auto
  moreover have "\<forall>s. run_at mm s n \<longrightarrow> i < s + n"
    using Some find_run_first [of 0 n "[]" mm] assms by simp
  ultimately have "(LEAST s. run_at mm s n) = Suc i - n"
    by (intro Least_equality) auto
  with i Some show ?thesis by (auto simp: first_run_def)
qed

lemma first_run_Some: "first_run mm n = Some s \<Longrightarrow> run_at mm s n"
  by (auto simp: first_run_def split: if_splits intro: LeastI)

text \<open>Marking a run downwards, releasing one upwards.\<close>

definition set_run :: "nat \<Rightarrow> nat \<Rightarrow> u8 \<Rightarrow> u8 list \<Rightarrow> u8 list" where
  "set_run s n v mm = map (\<lambda>i. if s \<le> i \<and> i < s + n then v else mm ! i) [0..<length mm]"

lemma length_set_run [simp]: "length (set_run s n v mm) = length mm"
  by (simp add: set_run_def)

lemma nth_set_run [simp]:
  "i < length mm \<Longrightarrow> set_run s n v mm ! i = (if s \<le> i \<and> i < s + n then v else mm ! i)"
  by (simp add: set_run_def)

lemma mark_run_eq:
  "run_at mm s n \<Longrightarrow> mark_run n (int s + int n - 1) mm = Inr (int s - 1, set_run s n 1 mm)"
proof (induction n arbitrary: mm)
  case 0
  have "set_run s 0 1 mm = mm" by (rule nth_equalityI) auto
  then show ?case by simp
next
  case (Suc n)
  let ?mm = "mm[s + n := 1]"
  have le: "s + n < length mm" and zero: "mm ! (s + n) = 0" "run_at ?mm s n"
    using Suc.prems by (auto simp: run_at_def)
  have "mark_run (Suc n) (int s + int (Suc n) - 1) mm = mark_run n (int s + int n - 1) ?mm"
    using le zero by (simp add: nat_plus_as_int [symmetric] nat_int_add)
  also have "\<dots> = Inr (int s - 1, set_run s n 1 ?mm)" using Suc.IH [OF zero(2)] .
  also have "set_run s n 1 ?mm = set_run s (Suc n) 1 mm"
    using le by (intro nth_equalityI) (auto simp: nth_list_update)
  finally show ?case .
qed

lemma release_run_nth:
  "s + n \<le> length mm \<Longrightarrow> i < length mm \<Longrightarrow>
   release_run n s mm ! i = (if s \<le> i \<and> i < s + n then mm ! i - 1 else mm ! i)"
  by (induction n arbitrary: s mm) (auto simp: nth_list_update)

lemma length_release_run [simp]: "length (release_run n s mm) = length mm"
  by (induction n arbitrary: s mm) auto

lemma clear_upto_nth:
  "s + n \<le> length mm \<Longrightarrow> i < length mm \<Longrightarrow>
   clear_upto s n mm ! i = (if s \<le> i \<and> i < s + n then 0 else mm ! i)"
  by (induction n arbitrary: s mm) (auto simp: nth_list_update)

lemma length_clear_upto [simp]: "length (clear_upto s n mm) = length mm"
  by (induction n arbitrary: s mm) auto

section \<open>Addresses of pages\<close>

definition page_addr :: "nat \<Rightarrow> addr_t" where
  "page_addr i = LOW_MEM + push_bit 12 (of_nat i)"

lemma NR_PAGES_eq: "NR_PAGES = 3840"
  by (simp add: NR_PAGES_def TOTAL_MEM_def)

lemma unat_push_12: "i < 2 ^ 20 \<Longrightarrow> unat (push_bit 12 (of_nat i) :: addr_t) = 4096 * i"
  by (simp add: push_bit_eq_mult unat_word_ariths unat_of_nat)

lemma unat_page_addr: "i \<le> NR_PAGES \<Longrightarrow> unat (page_addr i) = 0x100000 + 4096 * i"
proof -
  assume i: "i \<le> NR_PAGES"
  then have "unat (push_bit 12 (of_nat i) :: addr_t) = 4096 * i"
    by (intro unat_push_12) (simp add: NR_PAGES_eq)
  moreover have "unat LOW_MEM = 0x100000" by (simp add: LOW_MEM_def)
  ultimately show ?thesis
    unfolding page_addr_def using i by (subst unat_plus_if') (simp add: NR_PAGES_eq)
qed

lemma page_addr_ge: "i \<le> NR_PAGES \<Longrightarrow> LOW_MEM \<le> page_addr i"
  by (simp add: word_le_nat_alt unat_page_addr) (simp add: LOW_MEM_def)

lemma page_addr_nonzero: "i \<le> NR_PAGES \<Longrightarrow> page_addr i \<noteq> 0"
  using unat_page_addr [of i] by (auto simp: unat_gt_0)

lemma mmi_page_addr: "i \<le> NR_PAGES \<Longrightarrow> mmi (page_addr i) = i"
proof -
  assume i: "i \<le> NR_PAGES"
  then have "unat (push_bit 12 (of_nat i) :: addr_t) = 4096 * i"
    by (intro unat_push_12) (simp add: NR_PAGES_eq)
  moreover have "page_addr i - LOW_MEM = push_bit 12 (of_nat i)" by (simp add: page_addr_def)
  ultimately show ?thesis by (simp add: mmi_def drop_bit_eq_div unat_div)
qed

lemma page_addr_inject: "i \<le> NR_PAGES \<Longrightarrow> j \<le> NR_PAGES \<Longrightarrow> page_addr i = page_addr j \<longleftrightarrow> i = j"
  by (metis mmi_page_addr)

lemma pages_of_order_unat: "order < 32 \<Longrightarrow> unat (pages_of_order order) = 2 ^ order"
proof -
  assume order: "order < 32"
  have "(2::nat) ^ order < 2 ^ 32" by (rule power_strict_increasing [OF order]) simp
  then have "unat (of_nat (2 ^ order) :: u32) = 2 ^ order" by (simp only: unat_of_nat) simp
  then show ?thesis by (simp add: pages_of_order_def push_bit_eq_mult)
qed

section \<open>Allocation and release, functionally\<close>

text \<open>The invariant: the table covers \<^verbatim>\<open>NR_PAGES\<close> pages, and no page at or above
  \<^verbatim>\<open>HIGH_MEMORY\<close> is free.\<close>

definition pages_ok :: "page_state \<Rightarrow> bool" where
  "pages_ok s \<longleftrightarrow> length (mem_map s) = NR_PAGES \<and>
     (\<forall>i < NR_PAGES. mem_map s ! i = 0 \<longrightarrow> page_addr i < HIGH_MEMORY s)"

lemma alloc_pages_eq:
  assumes "pages_ok s" and "order < 32"
  shows "alloc_pages order s =
    (case first_run (mem_map s) (2 ^ order) of
       None \<Rightarrow> Inl (Panic ''out of memory'')
     | Some i \<Rightarrow> Inr (page_addr i, s\<lparr>mem_map := set_run i (2 ^ order) 1 (mem_map s)\<rparr>))"
proof -
  let ?n = "2 ^ order :: nat"
  have n: "0 < ?n" by simp
  show ?thesis
  proof (cases "first_run (mem_map s) ?n")
    case None
    with assms(2) n show ?thesis
      by (simp add: alloc_pages_def Let_def pages_of_order_unat find_run_first_run)
  next
    case (Some i)
    then have run: "run_at (mem_map s) i ?n" by (rule first_run_Some)
    then have i: "i + ?n \<le> NR_PAGES" and "\<forall>k < ?n. mem_map s ! (i + k) = 0"
      using assms(1) by (auto simp: run_at_def pages_ok_def)
    with n have "mem_map s ! i = 0" by (metis add.right_neutral)
    note i = i this
    then have "i < NR_PAGES" using n by linarith
    with i assms(1) have hi: "page_addr i < HIGH_MEMORY s" by (simp add: pages_ok_def)
    have "int (i + ?n - 1) = int i + int ?n - 1" using n by linarith
    then have mark: "mark_run ?n (int (i + ?n - 1)) (mem_map s) =
        Inr (int i - 1, set_run i ?n 1 (mem_map s))"
      using mark_run_eq [OF run] by (simp only:)
    have addr: "LOW_MEM + push_bit 12 (of_int (int i - 1 + 1)) = page_addr i"
      by (simp add: page_addr_def)
    have find: "find_run ?n (mem_map s) 0 0 = Some (i + ?n - 1)"
      using Some n by (simp add: find_run_first_run)
    show ?thesis
      using hi \<open>i < NR_PAGES\<close>
      by (simp only: alloc_pages_def Let_def pages_of_order_unat [OF assms(2)] find Some
          option.case mark bindr_simps prod.case addr) (simp add: page_addr_ge)
  qed
qed

lemma free_pages_eq:
  assumes "i \<le> NR_PAGES" and "order < 32"
  shows "free_pages (page_addr i) order s =
    assertr (i + 2 ^ order < NR_PAGES)
      (Inr (s\<lparr>mem_map := release_run (2 ^ order) i (mem_map s)\<rparr>))"
proof -
  have "(2::nat) ^ order \<le> 2 ^ 31" using assms(2) by (intro power_increasing) auto
  then have "unat (of_nat i + pages_of_order order :: u32) = i + 2 ^ order"
    using assms by (subst unat_plus_if') (simp add: pages_of_order_unat unat_of_nat NR_PAGES_eq)
  moreover have "unat (of_nat NR_PAGES :: u32) = NR_PAGES" by (simp add: NR_PAGES_eq)
  ultimately have "of_nat i + pages_of_order order < (of_nat NR_PAGES :: u32) \<longleftrightarrow> i + 2 ^ order < NR_PAGES"
    by (simp only: word_less_nat_alt)
  then show ?thesis
    using assms by (simp add: free_pages_def Let_def mmi_page_addr pages_of_order_unat)
qed

lemma release_set_run:
  assumes "run_at mm i n"
  shows "release_run n i (set_run i n 1 mm) = mm"
proof (rule nth_equalityI)
  fix j assume j: "j < length (release_run n i (set_run i n 1 mm))"
  have "mm ! j = 0" if "i \<le> j" "j < i + n"
    using assms that by (auto simp: run_at_def dest!: spec [of _ "j - i"])
  with j assms show "release_run n i (set_run i n 1 mm) ! j = mm ! j"
    by (simp add: run_at_def release_run_nth)
qed simp

lemma pages_ok_set_run:
  "pages_ok s \<Longrightarrow> pages_ok (s\<lparr>mem_map := set_run i n 1 (mem_map s)\<rparr>)"
  by (auto simp: pages_ok_def)

lemma alloc_pages_ok:
  "pages_ok s \<Longrightarrow> order < 32 \<Longrightarrow> alloc_pages order s = Inr (p, s') \<Longrightarrow> pages_ok s'"
  by (auto simp: alloc_pages_eq pages_ok_set_run split: option.splits)

text \<open>A page in use: allocated once and not released. \<open>Reserved\<close> pages are never handed out.\<close>

definition page_owned :: "page_state \<Rightarrow> addr_t \<Rightarrow> bool" where
  "page_owned s p \<longleftrightarrow> (\<exists>i < NR_PAGES. p = page_addr i \<and> mem_map s ! i = 1)"

lemma page_owned_addr: "i < NR_PAGES \<Longrightarrow> page_owned s (page_addr i) \<longleftrightarrow> mem_map s ! i = 1"
  by (auto simp: page_owned_def page_addr_inject)

lemma alloc_page_cases:
  assumes "pages_ok s" and "alloc_page s = Inr (p, s')"
  obtains i where "i < NR_PAGES" "p = page_addr i" "mem_map s ! i = 0"
    "s' = s\<lparr>mem_map := (mem_map s)[i := 1]\<rparr>"
proof -
  from assms obtain i where i: "first_run (mem_map s) 1 = Some i" "p = page_addr i"
    and s': "s' = s\<lparr>mem_map := set_run i 1 1 (mem_map s)\<rparr>"
    by (auto simp: alloc_page_def alloc_pages_eq split: option.splits)
  from first_run_Some [OF i(1)] have run: "run_at (mem_map s) i 1" .
  then have lt: "i < NR_PAGES" and z: "mem_map s ! i = 0"
    using assms(1) by (auto simp: run_at_def pages_ok_def)
  have "set_run i 1 1 (mem_map s) = (mem_map s)[i := 1]"
    by (rule nth_equalityI) (auto simp: nth_list_update)
  with s' have "s' = s\<lparr>mem_map := (mem_map s)[i := 1]\<rparr>" by simp
  with that lt i(2) z show thesis by blast
qed

lemma free_page_cases:
  assumes "free_page (page_addr i) s = Inr s'" and "i < NR_PAGES" and "length (mem_map s) = NR_PAGES"
  shows "i + 1 < NR_PAGES \<and> s' = s\<lparr>mem_map := (mem_map s)[i := mem_map s ! i - 1]\<rparr>"
  using assms by (simp add: free_page_def free_pages_eq assertr_eq_Inr)

section \<open>The contract of a page source\<close>

text \<open>
  What the slab allocator, the page-fault handlers and \<^verbatim>\<open>fork\<close> rely on: an allocated page was
  not in use, is in use afterwards, and no other page changes hands; releasing a page in use
  gives it back and touches no other page.
\<close>

fun repeat_alloc :: "('s \<Rightarrow> ('p \<times> 's) res) \<Rightarrow> nat \<Rightarrow> 's \<Rightarrow> ('p list \<times> 's) res" where
  "repeat_alloc alloc 0 s = Inr ([], s)"
| "repeat_alloc alloc (Suc n) s =
     bindr (alloc s) (\<lambda>(p, s). bindr (repeat_alloc alloc n s) (\<lambda>(ps, s). Inr (p # ps, s)))"

locale resource_pool =
  fixes alloc :: "'s \<Rightarrow> ('p :: zero \<times> 's) res"
    and free :: "'p \<Rightarrow> 's \<Rightarrow> 's res"
    and owned :: "'s \<Rightarrow> 'p \<Rightarrow> bool"
    and ok :: "'s \<Rightarrow> bool"
  assumes alloc_ok: "ok s \<Longrightarrow> alloc s = Inr (p, s') \<Longrightarrow> ok s'"
    and alloc_fresh: "ok s \<Longrightarrow> alloc s = Inr (p, s') \<Longrightarrow> p \<noteq> 0 \<and> \<not> owned s p \<and> owned s' p"
    and alloc_frame: "ok s \<Longrightarrow> alloc s = Inr (p, s') \<Longrightarrow> q \<noteq> p \<Longrightarrow> owned s' q = owned s q"
    and free_gives_back: "ok s \<Longrightarrow> owned s p \<Longrightarrow> free p s = Inr s' \<Longrightarrow> \<not> owned s' p"
    and free_frame: "ok s \<Longrightarrow> owned s p \<Longrightarrow> free p s = Inr s' \<Longrightarrow> q \<noteq> p \<Longrightarrow> owned s' q = owned s q"
begin

lemma alloc_keeps_owned: "ok s \<Longrightarrow> alloc s = Inr (p, s') \<Longrightarrow> owned s q \<Longrightarrow> owned s' q \<and> q \<noteq> p"
  by (metis alloc_fresh alloc_frame)

lemma alloc_many_owned:
  "ok s \<Longrightarrow> repeat_alloc alloc n s = Inr (ps, s') \<Longrightarrow> owned s q \<Longrightarrow> owned s' q \<and> q \<notin> set ps"
proof (induction n arbitrary: s ps)
  case (Suc n)
  from Suc.prems(2) obtain p s1 qs where p: "alloc s = Inr (p, s1)"
    and qs: "repeat_alloc alloc n s1 = Inr (qs, s')" and ps: "ps = p # qs"
    by (auto simp: bindr_eq_Inr)
  have "owned s1 q \<and> q \<noteq> p" using alloc_keeps_owned [OF Suc.prems(1) p Suc.prems(3)] .
  then show ?case using Suc.IH [OF alloc_ok [OF Suc.prems(1) p] qs] ps by simp
qed simp

lemma alloc_many_distinct:
  "ok s \<Longrightarrow> repeat_alloc alloc n s = Inr (ps, s') \<Longrightarrow>
   distinct ps \<and> length ps = n \<and> (\<forall>p \<in> set ps. \<not> owned s p \<and> owned s' p)"
proof (induction n arbitrary: s ps)
  case (Suc n)
  from Suc.prems(2) obtain p s1 qs where p: "alloc s = Inr (p, s1)"
    and qs: "repeat_alloc alloc n s1 = Inr (qs, s')" and ps: "ps = p # qs"
    by (auto simp: bindr_eq_Inr)
  note ok1 = alloc_ok [OF Suc.prems(1) p]
  from alloc_fresh [OF Suc.prems(1) p] have fresh: "\<not> owned s p" "owned s1 p" by auto
  from alloc_many_owned [OF ok1 qs fresh(2)] have "owned s' p" "p \<notin> set qs" by auto
  moreover have "\<not> owned s q" if "q \<in> set qs" for q
    using Suc.IH [OF ok1 qs] that alloc_keeps_owned [OF Suc.prems(1) p, of q] by auto
  ultimately show ?case using Suc.IH [OF ok1 qs] fresh ps by auto
qed simp

end

interpretation pgs: resource_pool alloc_page free_page page_owned pages_ok
proof unfold_locales
  fix s p s' q
  assume ok: "pages_ok s" and al: "alloc_page s = Inr (p, s')"
  show "pages_ok s'" using ok al alloc_pages_ok [of s 0 p s'] by (simp add: alloc_page_def)
  from ok al obtain i where i: "i < NR_PAGES" "p = page_addr i" "mem_map s ! i = 0"
    and s': "s' = s\<lparr>mem_map := (mem_map s)[i := 1]\<rparr>" by (rule alloc_page_cases)
  have len: "length (mem_map s) = NR_PAGES" using ok by (simp add: pages_ok_def)
  show "p \<noteq> 0 \<and> \<not> page_owned s p \<and> page_owned s' p"
    using i len s' by (simp add: page_owned_addr page_addr_nonzero)
  show "page_owned s' q = page_owned s q" if "q \<noteq> p"
    using that i len s' by (auto simp: page_owned_def nth_list_update)
next
  fix s p s' q
  assume ok: "pages_ok s" and own: "page_owned s p" and fr: "free_page p s = Inr s'"
  from own obtain i where i: "i < NR_PAGES" "p = page_addr i" "mem_map s ! i = 1"
    by (auto simp: page_owned_def)
  have len: "length (mem_map s) = NR_PAGES" using ok by (simp add: pages_ok_def)
  from free_page_cases [OF _ i(1) len] fr i(2)
  have s': "s' = s\<lparr>mem_map := (mem_map s)[i := mem_map s ! i - 1]\<rparr>" by simp
  show "\<not> page_owned s' p" using i len s' by (simp add: page_owned_addr)
  show "page_owned s' q = page_owned s q" if "q \<noteq> p"
    using that i len s' by (auto simp: page_owned_def nth_list_update)
qed

section \<open>Properties\<close>

lemma mem_init_boot:
  "mem_init 0x100000 0xffffff = Inr \<lparr>HIGH_MEMORY = 0xffffff, mem_map = replicate NR_PAGES 0\<rparr>"
proof -
  have "mmi 0x100000 = 0" "mmi 0xffffff = 3839" by (simp_all add: mmi_def LOW_MEM_def)
  moreover have "clear_upto 0 3840 (replicate 3840 RESERVED_PAGE) = replicate 3840 0"
    by (rule nth_equalityI) (auto simp: clear_upto_nth)
  ultimately show ?thesis
    by (simp add: mem_init_def LOW_MEM_def TOTAL_MEM_def NR_PAGES_eq)
qed

lemma pages_ok_high: "length mm = NR_PAGES \<Longrightarrow> pages_ok \<lparr>HIGH_MEMORY = 0xffffff, mem_map = mm\<rparr>"
proof -
  have "page_addr i < 0xffffff" if "i < NR_PAGES" for i
    using that by (simp add: word_less_nat_alt unat_page_addr NR_PAGES_eq)
  then show "length mm = NR_PAGES \<Longrightarrow> ?thesis" by (simp add: pages_ok_def)
qed

text \<open>
  C26: on a table whose free pages all lie below \<^verbatim>\<open>HIGH_MEMORY\<close>, \<^verbatim>\<open>alloc_pages\<close> returns the first run
  of \<^verbatim>\<open>2^order\<close> free pages, marks exactly these as used once, and panics exactly when there is no
  such run; no assertion of it ever fails.
\<close>

theorem alloc_pages_first_fit:
  assumes "pages_ok s" and "order < 32"
  shows "alloc_pages order s =
    (if \<exists>i. run_at (mem_map s) i (2 ^ order)
     then let i = (LEAST i. run_at (mem_map s) i (2 ^ order))
          in Inr (page_addr i, s\<lparr>mem_map := set_run i (2 ^ order) 1 (mem_map s)\<rparr>)
     else Inl (Panic ''out of memory''))"
  by (simp add: alloc_pages_eq [OF assms] first_run_def Let_def)

theorem alloc_pages_first_fit_witness:
  "\<exists>s'. alloc_pages 1 \<lparr>HIGH_MEMORY = 0xffffff, mem_map = 1 # replicate 3839 0\<rparr> = Inr (0x101000, s')"
proof -
  let ?s = "\<lparr>HIGH_MEMORY = 0xffffff, mem_map = 1 # replicate 3839 0\<rparr>"
  have run: "run_at (mem_map ?s) 1 2" by (auto simp: run_at_def nth_Cons')
  have "(LEAST i. run_at (mem_map ?s) i (2 ^ 1)) = 1"
  proof (rule Least_equality)
    show "1 \<le> i" if "run_at (mem_map ?s) i (2 ^ 1)" for i
      using that by (cases i) (auto simp: run_at_def dest: spec [of _ 0])
  qed (use run in simp)
  with run alloc_pages_first_fit [of ?s 1] show ?thesis
    by (auto simp: pages_ok_high NR_PAGES_eq page_addr_def LOW_MEM_def Let_def)
qed

text \<open>
  C37: releasing what was just allocated restores the allocator's state exactly, unless the run
  reaches the last page of the table: then the bound check of \<^verbatim>\<open>free_pages\<close>, which demands
  \<^verbatim>\<open>start + require < NR_PAGES\<close>, stops the machine. Page 3839, free after the boot's \<^verbatim>\<open>mem_init\<close>, can
  be handed out and never be given back.
\<close>

theorem free_after_alloc:
  assumes "pages_ok s" and "order < 32" and "alloc_pages order s = Inr (p, s')"
  shows "free_pages p order s' =
    (if mmi p + 2 ^ order = NR_PAGES then Inl Assert_failed else Inr s)"
proof -
  from assms obtain i where i: "first_run (mem_map s) (2 ^ order) = Some i" "p = page_addr i"
    and s': "s' = s\<lparr>mem_map := set_run i (2 ^ order) 1 (mem_map s)\<rparr>"
    by (auto simp: alloc_pages_eq split: option.splits)
  from first_run_Some [OF i(1)] have run: "run_at (mem_map s) i (2 ^ order)" .
  then have "i + 2 ^ order \<le> NR_PAGES" using assms(1) by (simp add: run_at_def pages_ok_def)
  moreover from this have "i \<le> NR_PAGES" by simp
  ultimately show ?thesis
    using i(2) s' assms(2) release_set_run [OF run]
    by (auto simp: free_pages_eq mmi_page_addr)
qed

theorem free_after_alloc_witness:
  "\<exists>s p s'. pages_ok s \<and> alloc_pages 0 s = Inr (p, s') \<and> free_pages p 0 s' = Inl Assert_failed"
proof -
  let ?mm = "replicate 3839 1 @ [0 :: u8]"
  let ?s = "\<lparr>HIGH_MEMORY = 0xffffff, mem_map = ?mm\<rparr>"
  have ok: "pages_ok ?s" by (simp add: pages_ok_high NR_PAGES_eq)
  have run: "run_at ?mm 3839 1" by (simp add: run_at_def nth_append)
  have "(LEAST i. run_at ?mm i 1) = 3839"
  proof (rule Least_equality)
    show "3839 \<le> i" if "run_at ?mm i 1" for i
      using that by (auto simp: run_at_def nth_append split: if_splits)
  qed (rule run)
  with run have "first_run ?mm 1 = Some 3839" by (auto simp: first_run_def)
  with alloc_pages_eq [OF ok, of 0]
  have "alloc_pages 0 ?s = Inr (page_addr 3839, ?s\<lparr>mem_map := set_run 3839 1 1 ?mm\<rparr>)"
    by simp
  then obtain s' where al: "alloc_pages 0 ?s = Inr (page_addr 3839, s')" by blast
  from free_after_alloc [OF ok _ al] have "free_pages (page_addr 3839) 0 s' = Inl Assert_failed"
    by (simp add: mmi_page_addr NR_PAGES_eq)
  with ok al show ?thesis by blast
qed

text \<open>
  After \<^verbatim>\<open>mem_init\<close> with the bounds \<^verbatim>\<open>kmain\<close> passes, all 3840 pages are free and every free page
  lies below \<^verbatim>\<open>HIGH_MEMORY\<close>; from there on, however many pages are allocated one by one, no page is
  handed out twice.
\<close>

lemma boot_pages_distinct:
  assumes "mem_init 0x100000 0xffffff = Inr s" and "repeat_alloc alloc_page n s = Inr (ps, s')"
  shows "mem_stat s = 3840 \<and> pages_ok s \<and> distinct ps \<and> length ps = n \<and>
    (\<forall>p \<in> set ps. page_owned s' p)"
proof -
  have s: "s = \<lparr>HIGH_MEMORY = 0xffffff, mem_map = replicate NR_PAGES 0\<rparr>"
    using assms(1) by (simp add: mem_init_boot)
  then have "pages_ok s" by (simp add: pages_ok_high)
  moreover have "mem_stat s = 3840" by (simp add: s mem_stat_def NR_PAGES_eq)
  ultimately show ?thesis using pgs.alloc_many_distinct [OF _ assms(2)] by blast
qed

lemma boot_pages_distinct_witness:
  "\<exists>s ps s'. mem_init 0x100000 0xffffff = Inr s \<and> repeat_alloc alloc_page 1 s = Inr (ps, s')
    \<and> distinct ps \<and> length ps = 1"
proof -
  let ?s = "\<lparr>HIGH_MEMORY = 0xffffff, mem_map = replicate NR_PAGES 0\<rparr>"
  have ok: "pages_ok ?s" by (simp add: pages_ok_high)
  have "run_at (mem_map ?s) 0 1" by (simp add: run_at_def NR_PAGES_eq)
  then have "\<exists>i. run_at (mem_map ?s) i (2 ^ 0)" by (auto simp del: page_state.simps)
  then obtain p s' where "alloc_page ?s = Inr (p, s')"
    using alloc_pages_eq [OF ok, of 0] by (auto simp: alloc_page_def first_run_def)
  then have many: "repeat_alloc alloc_page 1 ?s = Inr ([p], s')" by simp
  from boot_pages_distinct [OF mem_init_boot many] many mem_init_boot show ?thesis by blast
qed

end
