(* ===== verification/Bitmap.thy ===== *)
theory Bitmap imports Cached_Block Page_Alloc begin

text \<open>
  The allocation bitmaps of the file system (\<^verbatim>\<open>fs/bitmap.h\<close>): bits in the first 512 bytes of each
  block of the map, found, set, cleared and tested in the buffer that caches the block.
\<close>

definition SECTOR_BITS :: int where "SECTOR_BITS = int SECTOR_SIZE * 8"

section \<open>Bits of a byte block\<close>

definition set_bit_at :: "addr_t \<Rightarrow> nat \<Rightarrow> mem \<Rightarrow> mem" where
  "set_bit_at addr offset m =
     (let p = addr + of_nat (offset div 8) in m(p := m p OR push_bit (offset mod 8) 1))"

definition unset_bit_at :: "addr_t \<Rightarrow> nat \<Rightarrow> mem \<Rightarrow> mem" where
  "unset_bit_at addr offset m =
     (let p = addr + of_nat (offset div 8) in m(p := m p AND NOT (push_bit (offset mod 8) 1)))"

definition test_bit_at :: "addr_t \<Rightarrow> nat \<Rightarrow> mem \<Rightarrow> int" where
  "test_bit_at addr offset m =
     (if m (addr + of_nat (offset div 8)) AND push_bit (offset mod 8) 1 \<noteq> 0 then 1 else 0)"

text \<open>\<^verbatim>\<open>while ((--bytes) >= 0) *(addr++) = 0xff;\<close>\<close>

fun set_bytes :: "nat \<Rightarrow> addr_t \<Rightarrow> mem \<Rightarrow> addr_t \<times> mem" where
  "set_bytes 0 addr m = (addr, m)"
| "set_bytes (Suc bytes) addr m = set_bytes bytes (addr + 1) (m(addr := 0xff))"

text \<open>\<^verbatim>\<open>while (--bits) *addr = ((*addr) << 1) | 1;\<close>, for \<^verbatim>\<open>bits > 0\<close>\<close>

fun grow_ones :: "nat \<Rightarrow> u8 \<Rightarrow> u8" where
  "grow_ones 0 b = b"
| "grow_ones (Suc bits) b = (if bits = 0 then b else grow_ones bits (push_bit 1 b OR 1))"

definition set_n_bit :: "addr_t \<Rightarrow> nat \<Rightarrow> mem \<Rightarrow> mem" where
  "set_n_bit addr count m =
     (let bytes = count div 8; bits = count mod 8; (addr, m) = set_bytes bytes addr m in
      if bits \<noteq> 0 then m(addr := grow_ones bits 1) else m)"

text \<open>\<^verbatim>\<open>while (tmp & 1) { tmp >>= 1; ++zero_offset; }\<close>\<close>

function low_ones :: "u8 \<Rightarrow> nat \<Rightarrow> nat" where
  "low_ones tmp zero_offset =
     (if tmp AND 1 \<noteq> 0 then low_ones (drop_bit 1 tmp) (Suc zero_offset) else zero_offset)"
  by pat_completeness auto
termination
proof (relation "measure (\<lambda>(tmp, z). unat tmp)")
  fix tmp :: u8 and z
  assume "tmp AND 1 \<noteq> 0"
  then have "0 < unat tmp" by (auto simp: unat_gt_0)
  moreover have "unat (drop_bit 1 tmp) = unat tmp div 2"
    by (simp add: drop_bit_eq_div unat_div)
  ultimately show "((drop_bit 1 tmp, Suc z), (tmp, z)) \<in> measure (\<lambda>(tmp, z). unat tmp)" by simp
qed simp

declare low_ones.simps [simp del]

text \<open>The byte loop of \<^verbatim>\<open>_find_first_zero\<close>, with \<open>n\<close> bytes left at index \<open>i\<close>.\<close>

fun zero_from :: "mem \<Rightarrow> addr_t \<Rightarrow> nat \<Rightarrow> nat \<Rightarrow> int" where
  "zero_from m addr i 0 = - 1"
| "zero_from m addr i (Suc n) =
     (if m (addr + of_nat i) = 0xff then zero_from m addr (Suc i) n
      else int (low_ones (m (addr + of_nat i)) (8 * i)))"

definition find_first_zero :: "mem \<Rightarrow> addr_t \<Rightarrow> nat \<Rightarrow> int" where
  "find_first_zero m addr limit = zero_from m addr 0 limit"

section \<open>Operations on the map\<close>

partial_function (option) bitmap_scan ::
  "'e ports \<Rightarrow> u16 \<Rightarrow> int \<Rightarrow> int \<Rightarrow> int \<Rightarrow> 'e buf_state \<Rightarrow> (int \<times> 'e buf_state) res option" where
  "bitmap_scan io dev start stop nbit s =
     (if start = stop then Some (Inl (Panic ''_bitmap_alloc: map is full''))
      else case bread io dev start s of
             Inl h \<Rightarrow> Some (Inl h)
           | Inr (bh, s) \<Rightarrow>
               (case buf_at bh s of
                  Inl h \<Rightarrow> Some (Inl h)
                | Inr b \<Rightarrow>
                    let tmp = find_first_zero (bmem s) (b_data b) SECTOR_SIZE in
                    if tmp \<ge> 0
                    then let nbit = nbit + tmp;
                             s = upd_bmem (set_bit_at (b_data b) (nat (nbit mod SECTOR_BITS))) s
                         in Some (bindr (bwrite bh s) (\<lambda>s. bindr (brelease io bh s) (\<lambda>s. Inr (nbit, s))))
                    else (case brelease io bh s of
                            Inl h \<Rightarrow> Some (Inl h)
                          | Inr s \<Rightarrow> bitmap_scan io dev (start + 1) stop (nbit + SECTOR_BITS) s)))"

definition bitmap_alloc ::
  "'e ports \<Rightarrow> u16 \<Rightarrow> int \<Rightarrow> int \<Rightarrow> 'e buf_state \<Rightarrow> (int \<times> 'e buf_state) res" where
  "bitmap_alloc io dev start stop s = bindr (of_loop (bitmap_scan io dev start stop 0 s)) id"

definition bitmap_free ::
  "'e ports \<Rightarrow> u16 \<Rightarrow> int \<Rightarrow> int \<Rightarrow> int \<Rightarrow> 'e buf_state \<Rightarrow> 'e buf_state res" where
  "bitmap_free io dev start stop nbit s =
     (if nbit < 0 \<or> nbit \<ge> (stop - start) * SECTOR_BITS then Inl (Panic ''_bitmap_free: invalid bit'')
      else bindr (bread io dev (start + nbit div SECTOR_BITS) s) (\<lambda>(bh, s).
           bindr (buf_at bh s) (\<lambda>b.
           bindr (bwrite bh (upd_bmem (unset_bit_at (b_data b) (nat (nbit mod SECTOR_BITS))) s)) (\<lambda>s.
           brelease io bh s))))"

definition bitmap_test ::
  "'e ports \<Rightarrow> u16 \<Rightarrow> int \<Rightarrow> int \<Rightarrow> int \<Rightarrow> 'e buf_state \<Rightarrow> (int \<times> 'e buf_state) res" where
  "bitmap_test io dev start stop nbit s =
     (if nbit < 0 \<or> nbit \<ge> (stop - start) * SECTOR_BITS then Inl (Panic ''_bitmap_test: invalid bit'')
      else bindr (bread io dev (start + nbit div SECTOR_BITS) s) (\<lambda>(bh, s).
           bindr (buf_at bh s) (\<lambda>b.
           let test = test_bit_at (b_data b) (nat (nbit mod SECTOR_BITS)) (bmem s) in
           bindr (brelease io bh s) (\<lambda>s. Inr (test, s)))))"

section \<open>The bits as a set\<close>

definition bit_set :: "mem \<Rightarrow> addr_t \<Rightarrow> nat \<Rightarrow> bool" where
  "bit_set m addr k = bit (m (addr + of_nat (k div 8))) (k mod 8)"

lemma offset_inj:
  "i < 512 \<Longrightarrow> j < 512 \<Longrightarrow> (a :: addr_t) + of_nat i = a + of_nat j \<longleftrightarrow> i = j"
  by (simp add: word_of_nat_eq_iff take_bit_nat_eq_self)

lemma low_ones_least: "\<exists>k. low_ones b z = z + k \<and> \<not> bit b k \<and> (\<forall>j < k. bit b j)"
proof (induction b z rule: low_ones.induct)
  case (1 b z)
  have odd: "b AND 1 \<noteq> 0 \<longleftrightarrow> bit b 0" by (simp add: bit_0 and_one_eq odd_iff_mod_2_eq_one)
  show ?case
  proof (cases "bit b 0")
    case True
    with 1 odd obtain k where k: "low_ones (drop_bit 1 b) (Suc z) = Suc z + k"
      "\<not> bit (drop_bit 1 b) k" "\<forall>j < k. bit (drop_bit 1 b) j"
      by auto
    have "bit b j" if "j < Suc k" for j
      using that k(3) True by (cases j) (auto simp: bit_simps)
    moreover have "\<not> bit b (Suc k)" using k(2) by (simp add: bit_simps)
    moreover have "low_ones b z = z + Suc k" using True odd k(1) by (subst low_ones.simps) simp
    ultimately show ?thesis by blast
  next
    case False
    then show ?thesis using odd by (intro exI [of _ 0]) (simp add: low_ones.simps [of b z])
  qed
qed

lemma all_ones: "(b :: u8) = 0xff \<longleftrightarrow> (\<forall>k < 8. bit b k)"
proof -
  have m: "(0xff :: u8) = mask 8" by (simp add: mask_eq_exp_minus_1)
  show ?thesis unfolding m by (auto simp: bit_eq_iff bit_simps)
qed

lemma low_ones_spec:
  assumes "b \<noteq> 0xff"
  shows "\<exists>k < 8. low_ones b z = z + k \<and> \<not> bit b k \<and> (\<forall>j < k. bit b j)"
proof -
  obtain k where k: "low_ones b z = z + k" "\<not> bit b k" "\<forall>j < k. bit b j"
    using low_ones_least by blast
  moreover have "k < 8"
  proof (rule ccontr)
    assume "\<not> k < 8"
    with k(3) have "\<forall>j < 8. bit b j" by auto
    with assms show False by (simp add: all_ones)
  qed
  ultimately show ?thesis by blast
qed

text \<open>\<^verbatim>\<open>_find_first_zero\<close> finds the least zero bit, or none.\<close>

lemma bit_set_byte:
  "j < 8 \<Longrightarrow> bit_set m addr (8 * i + j) = bit (m (addr + of_nat i)) j"
  by (simp add: bit_set_def)

lemma zero_from_spec:
  assumes "\<forall>k < 8 * i. bit_set m addr k"
  shows "(zero_from m addr i n = - 1 \<and> (\<forall>k < 8 * (i + n). bit_set m addr k))
    \<or> (\<exists>k < 8 * (i + n). zero_from m addr i n = int k \<and> \<not> bit_set m addr k \<and> (\<forall>j < k. bit_set m addr j))"
  using assms
proof (induction n arbitrary: i)
  case (Suc n)
  let ?b = "m (addr + of_nat i)"
  show ?case
  proof (cases "?b = 0xff")
    case True
    have "bit_set m addr k" if "k < 8 * Suc i" for k
    proof (cases "k < 8 * i")
      case False
      define j where "j = k - 8 * i"
      have "k = 8 * i + j" "j < 8" using that False by (simp_all add: j_def)
      with True all_ones [of ?b] show ?thesis by (simp add: bit_set_byte)
    qed (use Suc.prems in blast)
    with Suc.IH [of "Suc i"] True show ?thesis by simp
  next
    case False
    from low_ones_spec [OF False, of "8 * i"] obtain k where
      k: "k < 8" "low_ones ?b (8 * i) = 8 * i + k" "\<not> bit ?b k" "\<forall>j < k. bit ?b j" by blast
    have "bit_set m addr j" if "j < 8 * i + k" for j
    proof (cases "j < 8 * i")
      case False
      define j' where "j' = j - 8 * i"
      have "j = 8 * i + j'" "j' < k" using that False by (simp_all add: j'_def)
      with k show ?thesis by (simp add: bit_set_byte)
    qed (use Suc.prems in blast)
    with k False show ?thesis
      by (intro disjI2 exI [of _ "8 * i + k"]) (auto simp: bit_set_byte)
  qed
qed simp

lemma find_first_zero_spec:
  "find_first_zero m addr n = (if \<forall>k < 8 * n. bit_set m addr k then - 1
     else int (LEAST k. k < 8 * n \<and> \<not> bit_set m addr k))"
proof -
  from zero_from_spec [of 0 m addr n] consider
    "find_first_zero m addr n = - 1" "\<forall>k < 8 * n. bit_set m addr k"
  | k where "k < 8 * n" "find_first_zero m addr n = int k" "\<not> bit_set m addr k" "\<forall>j < k. bit_set m addr j"
    by (auto simp: find_first_zero_def)
  then show ?thesis
  proof cases
    case (2 k)
    then have "(LEAST k. k < 8 * n \<and> \<not> bit_set m addr k) = k"
      by (intro Least_equality) (auto simp: not_less [symmetric])
    with 2 show ?thesis by auto
  qed simp
qed

text \<open>Changing one bit of the 4096.\<close>

lemma offset_byte:
  assumes "j < 4096" "k < 4096"
  shows "(a :: addr_t) + of_nat (j div 8) = a + of_nat (k div 8) \<longleftrightarrow> j div 8 = k div 8"
  using assms by (intro offset_inj) auto

lemma same_byte_bit: "j div 8 = k div 8 \<Longrightarrow> j mod 8 = k mod 8 \<longleftrightarrow> j = (k :: nat)"
  by (metis div_mult_mod_eq)

lemma bit_set_set_bit:
  assumes "j < 4096" "k < 4096"
  shows "bit_set (set_bit_at a k m) a j \<longleftrightarrow> j = k \<or> bit_set m a j"
  using offset_byte [OF assms, of a] same_byte_bit [of j k]
  by (auto simp: bit_set_def set_bit_at_def bit_simps Let_def bit_1_iff split: if_splits)

lemma bit_set_unset_bit:
  assumes "j < 4096" "k < 4096"
  shows "bit_set (unset_bit_at a k m) a j \<longleftrightarrow> j \<noteq> k \<and> bit_set m a j"
  using offset_byte [OF assms, of a] same_byte_bit [of j k]
  by (auto simp: bit_set_def unset_bit_at_def bit_simps Let_def bit_1_iff split: if_splits)

lemma test_bit_set: "test_bit_at a k m = (if bit_set m a k then 1 else 0)"
proof -
  have "(b AND push_bit i 1 \<noteq> 0) \<longleftrightarrow> bit b i" if "i < 8" for b :: u8 and i
    using that by (auto simp: bit_eq_iff [of "b AND 2 ^ i" 0] bit_simps bit_1_iff)
  from this [of "k mod 8" "m (a + of_nat (k div 8))"] show ?thesis by (simp add: test_bit_at_def bit_set_def)
qed

text \<open>The numbers in use according to the map block that the buffer \<open>p\<close> caches.\<close>

definition used_bits :: "'e buf_state \<Rightarrow> addr_t \<Rightarrow> nat set" where
  "used_bits s p = {k. k < 4096 \<and> bit_set (bmem s) (block_data s p) k}"

lemma used_bits_cong: "bmem s' = bmem s \<Longrightarrow> block_data s' p = block_data s p \<Longrightarrow> used_bits s' p = used_bits s p"
  by (simp add: used_bits_def)

lemma least_free:
  "used_bits s p \<noteq> {..<4096} \<Longrightarrow> find_first_zero (bmem s) (block_data s p) SECTOR_SIZE
     = int (LEAST k. k \<notin> used_bits s p) \<and> (LEAST k. k \<notin> used_bits s p) < 4096"
proof -
  assume "used_bits s p \<noteq> {..<4096}"
  then obtain k where k: "k < 4096" "k \<notin> used_bits s p" by (auto simp: used_bits_def)
  then have "(LEAST k. k \<notin> used_bits s p) \<le> k" by (intro Least_le)
  then have l: "(LEAST k. k \<notin> used_bits s p) < 4096" using k by simp
  have "(LEAST k. k < 4096 \<and> \<not> bit_set (bmem s) (block_data s p) k) = (LEAST k. k \<notin> used_bits s p)"
  proof (rule Least_equality)
    show "(LEAST k. k \<notin> used_bits s p) < 4096 \<and> \<not> bit_set (bmem s) (block_data s p) (LEAST k. k \<notin> used_bits s p)"
      using l LeastI [of "\<lambda>k. k \<notin> used_bits s p", OF k(2)] by (simp add: used_bits_def)
  qed (auto intro: Least_le simp: used_bits_def)
  with k l show ?thesis by (auto simp: find_first_zero_spec SECTOR_SIZE_def used_bits_def)
qed

lemma no_free: "used_bits s p = {..<4096} \<Longrightarrow> find_first_zero (bmem s) (block_data s p) SECTOR_SIZE = - 1"
  by (auto simp: find_first_zero_spec SECTOR_SIZE_def used_bits_def)

text \<open>The change of the map's block, with the reading before it and the marking after it.\<close>

definition touched :: "(addr_t \<Rightarrow> mem \<Rightarrow> mem) \<Rightarrow> addr_t \<Rightarrow> 'e buf_state \<Rightarrow> 'e buf_state" where
  "touched f p s = upd_buf p (\<lambda>b. b\<lparr>b_dirty := 1\<rparr>) (upd_bmem (f (block_data s p)) (upd_buf p (\<lambda>b. b\<lparr>b_count := b_count b + 1\<rparr>) s))"

lemma touched_keeps:
  assumes "block_in s dev n p"
  shows "block_in (touched f p s) dev n p" "same_blocks s (touched f p s)" "bmem (touched f p s) = f (block_data s p) (bmem s)"
    "uses (touched f p s) p = uses s p + 1"
proof -
  obtain b where b: "bufs s p = Some b" "blk_ok (blk s)" by (rule block_inE [OF assms])
  let ?s1 = "upd_buf p (\<lambda>b. b\<lparr>b_count := b_count b + 1\<rparr>) s"
  let ?s2 = "upd_bmem (f (block_data s p)) ?s1"
  have "same_blocks s ?s1" by (rule bread_cached(2) [OF assms])
  moreover have "same_blocks ?s1 ?s2" by (rule same_blocks_mem) simp_all
  moreover have "same_blocks ?s2 (touched f p s)" unfolding touched_def
    by (rule same_blocks_upd [where b = "b\<lparr>b_count := b_count b + 1\<rparr>"]) (use b in \<open>simp_all add: upd_buf_def\<close>)
  ultimately show same: "same_blocks s (touched f p s)" using same_blocks_trans by blast
  show "block_in (touched f p s) dev n p" using b(2)
    by (intro block_in_same [OF assms same]) (simp add: touched_def upd_buf_def upd_bmem_def blk_ok_def)
  show "bmem (touched f p s) = f (block_data s p) (bmem s)" by (simp add: touched_def)
  show "uses (touched f p s) p = uses s p + 1" using b by (simp add: touched_def uses_def upd_buf_def)
qed

section \<open>Properties\<close>

lemma bitmap_alloc_eq:
  assumes c: "block_in s dev start p"
  shows "used_bits s p = {..<4096} \<Longrightarrow> \<exists>h. bitmap_alloc io dev start (start + 1) s = Inl h"
    and "used_bits s p \<noteq> {..<4096} \<Longrightarrow> bitmap_alloc io dev start (start + 1) s =
      (let k = (LEAST k. k \<notin> used_bits s p) in
       bindr (brelease io p (touched (\<lambda>a. set_bit_at a k) p s)) (\<lambda>s. Inr (int k, s)))"
proof -
  let ?s1 = "upd_buf p (\<lambda>b. b\<lparr>b_count := b_count b + 1\<rparr>) s"
  obtain b where b: "bufs s p = Some b" by (rule block_inE [OF c])
  then have b1: "buf_at p ?s1 = Inr (b\<lparr>b_count := b_count b + 1\<rparr>)" and d: "b_data b = block_data s p"
    by (simp_all add: buf_at_def upd_buf_def block_data_def)
  note scan = bitmap_scan.simps [of io dev start "start + 1" 0 s]
  {
    assume full: "used_bits s p = {..<4096}"
    then show "\<exists>h. bitmap_alloc io dev start (start + 1) s = Inl h"
      using bread_cached(1) [OF c, of io] b1 d no_free [OF full]
      by (cases "brelease io p ?s1")
        (auto simp: bitmap_alloc_def scan bitmap_scan.simps [of _ _ "start + 1"])
  }
  assume "used_bits s p \<noteq> {..<4096}"
  note least = least_free [OF this]
  have w: "bwrite p (upd_bmem f ?s1) = Inr (upd_buf p (\<lambda>b. b\<lparr>b_dirty := 1\<rparr>) (upd_bmem f ?s1))" for f
    using b by (simp add: bwrite_def buf_at_def upd_buf_def)
  show "bitmap_alloc io dev start (start + 1) s =
      (let k = (LEAST k. k \<notin> used_bits s p) in
       bindr (brelease io p (touched (\<lambda>a. set_bit_at a k) p s)) (\<lambda>s. Inr (int k, s)))"
    using bread_cached(1) [OF c, of io] b1 d least w
    by (simp add: bitmap_alloc_def scan touched_def Let_def SECTOR_BITS_def SECTOR_SIZE_def)
qed

lemma bitmap_alloc_step:
  assumes c: "block_in s dev start p" and run: "bitmap_alloc io dev start (start + 1) s = Inr (n, s')"
    and k: "k = (LEAST k. k \<notin> used_bits s p)"
  shows "n = int k" "k < 4096" "k \<notin> used_bits s p" "used_bits s' p = insert k (used_bits s p)"
    "block_in s' dev start p" "same_blocks s s'"
    "q \<noteq> block_data s p + of_nat (k div 8) \<Longrightarrow> bmem s' q = bmem s q"
    "uses s' p = uses s p"
proof -
  have room: "used_bits s p \<noteq> {..<4096}" using bitmap_alloc_eq(1) [OF c, of io] run by auto
  then show k': "k < 4096" using least_free k by blast
  from room obtain j where "j \<notin> used_bits s p" by (auto simp: used_bits_def)
  then show "k \<notin> used_bits s p" unfolding k by (rule LeastI)
  let ?f = "\<lambda>a. set_bit_at a k"
  from run bitmap_alloc_eq(2) [OF c room] have n: "n = int k" and rel: "brelease io p (touched ?f p s) = Inr s'"
    by (auto simp: Let_def bindr_eq_Inr k)
  show "n = int k" by (rule n)
  note t = touched_keeps [OF c, of ?f]
  note r = brelease_cached [OF t(1) rel]
  show "block_in s' dev start p" by (rule r(1))
  show same: "same_blocks s s'" by (rule same_blocks_trans [OF t(2) r(2)])
  then have d: "block_data s' p = block_data s p" by (simp add: same_blocks_def)
  have m: "bmem s' = set_bit_at (block_data s p) k (bmem s)" by (simp add: r(3) t(3))
  show "used_bits s' p = insert k (used_bits s p)"
    using k' by (auto simp: used_bits_def d m bit_set_set_bit)
  show "q \<noteq> block_data s p + of_nat (k div 8) \<Longrightarrow> bmem s' q = bmem s q"
    by (simp add: m set_bit_at_def Let_def)
  show "uses s' p = uses s p" using r(5) t(4) by simp
qed

lemma bitmap_free_step:
  assumes c: "block_in s dev start p" and run: "bitmap_free io dev start (start + 1) n s = Inr s'"
  shows "0 \<le> n" "n < 4096" "used_bits s' p = used_bits s p - {nat n}" "block_in s' dev start p" "same_blocks s s'"
    "q \<noteq> block_data s p + of_nat (nat n div 8) \<Longrightarrow> bmem s' q = bmem s q"
    "uses s' p = uses s p"
proof -
  from run show n: "0 \<le> n" "n < 4096"
    by (auto simp: bitmap_free_def SECTOR_BITS_def SECTOR_SIZE_def split: if_splits)
  let ?f = "\<lambda>a. unset_bit_at a (nat n)"
  let ?s1 = "upd_buf p (\<lambda>b. b\<lparr>b_count := b_count b + 1\<rparr>) s"
  obtain b where b: "bufs s p = Some b" by (rule block_inE [OF c])
  then have b1: "buf_at p ?s1 = Inr (b\<lparr>b_count := b_count b + 1\<rparr>)" and d: "b_data b = block_data s p"
    and w: "bwrite p (upd_bmem f ?s1) = Inr (upd_buf p (\<lambda>b. b\<lparr>b_dirty := 1\<rparr>) (upd_bmem f ?s1))" for f
    by (simp_all add: buf_at_def upd_buf_def block_data_def bwrite_def)
  have rel: "brelease io p (touched ?f p s) = Inr s'"
    using run n bread_cached(1) [OF c, of io] b1 d w
    by (simp add: bitmap_free_def SECTOR_BITS_def SECTOR_SIZE_def touched_def)
  note t = touched_keeps [OF c, of ?f]
  note r = brelease_cached [OF t(1) rel]
  show "block_in s' dev start p" by (rule r(1))
  show same: "same_blocks s s'" by (rule same_blocks_trans [OF t(2) r(2)])
  then have d: "block_data s' p = block_data s p" by (simp add: same_blocks_def)
  have m: "bmem s' = unset_bit_at (block_data s p) (nat n) (bmem s)" by (simp add: r(3) t(3))
  show "used_bits s' p = used_bits s p - {nat n}"
    using n by (auto simp: used_bits_def d m bit_set_unset_bit)
  show "q \<noteq> block_data s p + of_nat (nat n div 8) \<Longrightarrow> bmem s' q = bmem s q"
    by (simp add: m unset_bit_at_def Let_def)
  show "uses s' p = uses s p" using r(5) t(4) by simp
qed

lemma bitmap_test_step:
  assumes c: "block_in s dev start p" and run: "bitmap_test io dev start (start + 1) n s = Inr (t, s')"
  shows "0 \<le> n" "n < 4096" "t = (if nat n \<in> used_bits s p then 1 else 0)" "used_bits s' p = used_bits s p"
    "block_in s' dev start p" "same_blocks s s'" "bmem s' = bmem s"
    "uses s' p = uses s p"
proof -
  from run show n: "0 \<le> n" "n < 4096"
    by (auto simp: bitmap_test_def SECTOR_BITS_def SECTOR_SIZE_def split: if_splits)
  let ?s1 = "upd_buf p (\<lambda>b. b\<lparr>b_count := b_count b + 1\<rparr>) s"
  obtain b where b: "bufs s p = Some b" by (rule block_inE [OF c])
  then have b1: "buf_at p ?s1 = Inr (b\<lparr>b_count := b_count b + 1\<rparr>)" and d: "b_data b = block_data s p"
    by (simp_all add: buf_at_def upd_buf_def block_data_def)
  have "t = test_bit_at (block_data s p) (nat n) (bmem s)" and rel: "brelease io p ?s1 = Inr s'"
    using run n bread_cached(1) [OF c, of io] b1 d
    by (auto simp: bitmap_test_def SECTOR_BITS_def SECTOR_SIZE_def bindr_eq_Inr)
  then show "t = (if nat n \<in> used_bits s p then 1 else 0)" using n by (simp add: test_bit_set used_bits_def)
  have c1: "block_in ?s1 dev start p"
    by (rule block_in_same [OF c bread_cached(2) [OF c]]) (use c in \<open>simp add: block_in_def upd_buf_def\<close>)
  note r = brelease_cached [OF c1 rel]
  show "block_in s' dev start p" by (rule r(1))
  show same: "same_blocks s s'" by (rule same_blocks_trans [OF bread_cached(2) [OF c] r(2)])
  show m: "bmem s' = bmem s" by (simp add: r(3))
  show "used_bits s' p = used_bits s p"
    by (rule used_bits_cong) (use same m in \<open>simp_all add: same_blocks_def\<close>)
  show "uses s' p = uses s p" using r(5) b by (simp add: uses_def upd_buf_def)
qed

lemma bitmap_ops_return:
  assumes c: "block_in s dev start p" and n: "0 \<le> n" "n < 4096" and u: "0 < uses s p"
  shows "\<exists>s'. bitmap_free io dev start (start + 1) n s = Inr s'"
    "\<exists>t s'. bitmap_test io dev start (start + 1) n s = Inr (t, s')"
proof -
  let ?s1 = "upd_buf p (\<lambda>b. b\<lparr>b_count := b_count b + 1\<rparr>) s"
  obtain b where b: "bufs s p = Some b" by (rule block_inE [OF c])
  then have b1: "buf_at p ?s1 = Inr (b\<lparr>b_count := b_count b + 1\<rparr>)" and d: "b_data b = block_data s p"
    and w: "bwrite p (upd_bmem f ?s1) = Inr (upd_buf p (\<lambda>b. b\<lparr>b_dirty := 1\<rparr>) (upd_bmem f ?s1))" for f
    by (simp_all add: buf_at_def upd_buf_def block_data_def bwrite_def)
  note t = touched_keeps [OF c, of "\<lambda>a. unset_bit_at a (nat n)"]
  have c1: "block_in ?s1 dev start p"
    by (rule block_in_same [OF c bread_cached(2) [OF c]]) (use c in \<open>simp add: block_in_def upd_buf_def\<close>)
  have "uses ?s1 p = uses s p + 1" using b by (simp add: uses_def upd_buf_def)
  with u brelease_returns [OF c1, of io] brelease_returns [OF t(1), of io] t(4)
  obtain s1 s2 where "brelease io p ?s1 = Inr s1" "brelease io p (touched (\<lambda>a. unset_bit_at a (nat n)) p s) = Inr s2"
    by auto
  then show "\<exists>s'. bitmap_free io dev start (start + 1) n s = Inr s'"
    "\<exists>t s'. bitmap_test io dev start (start + 1) n s = Inr (t, s')"
    using n bread_cached(1) [OF c, of io] b1 d w
    by (simp_all add: bitmap_free_def bitmap_test_def SECTOR_BITS_def SECTOR_SIZE_def touched_def)
qed

text \<open>The numbers of a map are a pool of resources, 0 being taken from the start.\<close>

interpretation bm: resource_pool "bitmap_alloc io dev start (start + 1)" "bitmap_free io dev start (start + 1)"
  "\<lambda>s n. 0 \<le> n \<and> nat n \<in> used_bits s p" "\<lambda>s. block_in s dev start p \<and> 0 \<in> used_bits s p"
  for io dev start p
proof unfold_locales
  fix s n s' q
  assume ok: "block_in s dev start p \<and> 0 \<in> used_bits s p" and run: "bitmap_alloc io dev start (start + 1) s = Inr (n, s')"
  from ok have c: "block_in s dev start p" by simp
  note a = bitmap_alloc_step [OF c run refl]
  show "block_in s' dev start p \<and> 0 \<in> used_bits s' p" using a ok by simp
  show "n \<noteq> 0 \<and> \<not> (0 \<le> n \<and> nat n \<in> used_bits s p) \<and> (0 \<le> n \<and> nat n \<in> used_bits s' p)"
    using a(1,3,4) ok by (auto intro: ccontr)
  show "(0 \<le> q \<and> nat q \<in> used_bits s' p) = (0 \<le> q \<and> nat q \<in> used_bits s p)" if "q \<noteq> n"
    using a(1,4) that by auto
next
  fix s n s' q
  assume ok: "block_in s dev start p \<and> 0 \<in> used_bits s p" and own: "0 \<le> n \<and> nat n \<in> used_bits s p"
    and run: "bitmap_free io dev start (start + 1) n s = Inr s'"
  note f = bitmap_free_step [OF _ run]
  show "\<not> (0 \<le> n \<and> nat n \<in> used_bits s' p)" using f(3) ok by auto
  show "(0 \<le> q \<and> nat q \<in> used_bits s' p) = (0 \<le> q \<and> nat q \<in> used_bits s p)" if "q \<noteq> n"
    using f(3) ok own that by auto
qed

text \<open>
  C32: \<^verbatim>\<open>_bitmap_alloc\<close> on a map of one block that is in the cache. On a full map the call never returns;
  otherwise, when it returns, it returns the least number not in use, which is in use from then on;
  no other number changes, no other byte of memory, and every cached block stays in its buffer. While the map
  block has another user, so that nothing is written to the disk, it always returns.
\<close>

theorem bitmap_alloc_least:
  assumes c: "block_in s dev start p"
  shows "(used_bits s p = {..<4096} \<longrightarrow> (\<exists>h. bitmap_alloc io dev start (start + 1) s = Inl h))
    \<and> (used_bits s p \<noteq> {..<4096} \<and> 0 < uses s p \<longrightarrow> (\<exists>r. bitmap_alloc io dev start (start + 1) s = Inr r))
    \<and> (\<forall>n s'. bitmap_alloc io dev start (start + 1) s = Inr (n, s') \<longrightarrow>
         (let k = (LEAST k. k \<notin> used_bits s p) in n = int k \<and> k < 4096 \<and> k \<notin> used_bits s p
           \<and> used_bits s' p = insert k (used_bits s p) \<and> block_in s' dev start p \<and> same_blocks s s'
           \<and> (\<forall>q. q \<noteq> block_data s p + of_nat (k div 8) \<longrightarrow> bmem s' q = bmem s q)))"
proof -
  have "\<exists>r. bitmap_alloc io dev start (start + 1) s = Inr r" if room: "used_bits s p \<noteq> {..<4096}" and u: "0 < uses s p"
  proof -
    note t = touched_keeps [OF c, of "\<lambda>a. set_bit_at a (LEAST k. k \<notin> used_bits s p)"]
    from brelease_returns [OF t(1), of io] u t(4) show ?thesis
      using bitmap_alloc_eq(2) [OF c room] by (auto simp: Let_def)
  qed
  then show ?thesis using bitmap_alloc_eq(1) [OF c] bitmap_alloc_step [OF c _ refl] by (simp add: Let_def)
qed

text \<open>A cache whose one buffer holds an empty map block of the disk, in use elsewhere.\<close>

definition map_buffer :: "unit buf_state" where
  "map_buffer = one_buffer\<lparr>blk := (blk one_buffer)\<lparr>request := replicate NR_REQUEST
     \<lparr>rq_rw = 0, rq_sector = 0, rq_count = 0, rq_buffer = 0, rq_dev = - 1, rq_next = None\<rparr>,
     bd_request := replicate 4 None\<rparr>\<rparr>"

lemma map_buffer_block_in: "block_in map_buffer 3 5 0x20000"
proof -
  have "buf_rep map_buffer [0x20000] []"
    using one_buffer_rep buf_rep_cong [of map_buffer one_buffer] by (simp add: map_buffer_def)
  then show ?thesis unfolding block_in_def
    by (intro conjI exI [of _ "[0x20000]"] exI [of _ "[]"])
      (simp_all add: holds_def map_buffer_def one_buffer_def blk_ok_def)
qed

lemma map_buffer_empty: "used_bits map_buffer 0x20000 = {}" "uses map_buffer 0x20000 = 2"
  by (simp_all add: used_bits_def bit_set_def bmem_def map_buffer_def one_buffer_def uses_def)

theorem bitmap_alloc_least_witness:
  "\<forall>io. \<exists>s'. bitmap_alloc io 3 5 6 map_buffer = Inr (0, s') \<and> used_bits s' 0x20000 = {0}"
proof -
  have "\<exists>s'. bitmap_alloc io 3 5 6 map_buffer = Inr (0, s') \<and> used_bits s' 0x20000 = {0}" for io
  proof -
    have "0 \<in> {..<4096 :: nat}" by simp
    then have ne: "used_bits map_buffer 0x20000 \<noteq> {..<4096}" unfolding map_buffer_empty by blast
    from bitmap_alloc_least [OF map_buffer_block_in, of io] ne
    obtain r where r: "bitmap_alloc io 3 5 (5 + 1) map_buffer = Inr r" by (auto simp: map_buffer_empty)
    obtain n s' where "r = (n, s')" by (cases r)
    with bitmap_alloc_least [OF map_buffer_block_in, of io] r show ?thesis
      by (auto simp: map_buffer_empty Let_def)
  qed
  then show ?thesis by blast
qed

text \<open>
  Freeing and testing. On a map block in the cache, \<^verbatim>\<open>_bitmap_free\<close> and \<^verbatim>\<open>_bitmap_test\<close> return for numbers
  of the map only; freeing takes exactly the number out of use, testing tells whether it is in use and
  changes no memory. So a number that has been allocated tests as in use, and after it is freed the
  same numbers are in use as before.
\<close>

lemma bitmap_free_undoes_alloc:
  assumes c: "block_in s dev start p"
    and alloc: "bitmap_alloc io dev start (start + 1) s = Inr (n, s1)"
    and test: "bitmap_test io dev start (start + 1) n s1 = Inr (t, s2)"
    and free: "bitmap_free io dev start (start + 1) n s2 = Inr s3"
    and other: "bitmap_test io dev start (start + 1) m s3 = Inr (u, s4)"
  shows "t = 1 \<and> used_bits s3 p = used_bits s p \<and> 0 \<le> m \<and> m < 4096
    \<and> u = (if nat m \<in> used_bits s p then 1 else 0) \<and> block_in s4 dev start p \<and> bmem s2 = bmem s1"
proof -
  note a = bitmap_alloc_step [OF c alloc refl]
  note t = bitmap_test_step [OF a(5) test]
  note f = bitmap_free_step [OF t(5) free]
  note o = bitmap_test_step [OF f(4) other]
  have "used_bits s3 p = used_bits s p" using f(3) t(4) a(1,3,4) by auto
  with t(3,7) a(1,4) o show ?thesis by auto
qed

lemma bitmap_free_undoes_alloc_witness:
  "\<forall>io. \<exists>s1 s2 s3 s4 u. bitmap_alloc io 3 5 (5 + 1) map_buffer = Inr (0, s1) \<and> bitmap_test io 3 5 (5 + 1) 0 s1 = Inr (1, s2)
     \<and> bitmap_free io 3 5 (5 + 1) 0 s2 = Inr s3 \<and> bitmap_test io 3 5 (5 + 1) 7 s3 = Inr (u, s4) \<and> u = 0"
proof -
  have "\<exists>s1 s2 s3 s4 u. bitmap_alloc io 3 5 (5 + 1) map_buffer = Inr (0, s1) \<and> bitmap_test io 3 5 (5 + 1) 0 s1 = Inr (1, s2)
     \<and> bitmap_free io 3 5 (5 + 1) 0 s2 = Inr s3 \<and> bitmap_test io 3 5 (5 + 1) 7 s3 = Inr (u, s4) \<and> u = 0" for io
  proof -
    note c = map_buffer_block_in and u = map_buffer_empty
    have "0 \<in> {..<4096 :: nat}" by simp
    then have ne: "used_bits map_buffer 0x20000 \<noteq> {..<4096}" unfolding u by blast
    let ?s = "touched (\<lambda>a. set_bit_at a (LEAST k. k \<notin> used_bits map_buffer 0x20000)) 0x20000 map_buffer"
    obtain s1 where "brelease io 0x20000 ?s = Inr s1"
      using brelease_returns [OF touched_keeps(1) [OF c]] touched_keeps(4) [OF c] u(2) by fastforce
    then have s1: "bitmap_alloc io 3 5 (5 + 1) map_buffer = Inr (0, s1)"
      using bitmap_alloc_eq(2) [OF c ne] by (simp add: Let_def u)
    note a = bitmap_alloc_step [OF c s1 refl]
    from bitmap_ops_return(2) [OF a(5), of 0 io] a(8) u(2) obtain t s2 where
      s2: "bitmap_test io 3 5 (5 + 1) 0 s1 = Inr (t, s2)" by auto
    note t = bitmap_test_step [OF a(5) s2]
    from bitmap_ops_return(1) [OF t(5), of 0 io] t(8) a(8) u(2) obtain s3 where
      s3: "bitmap_free io 3 5 (5 + 1) 0 s2 = Inr s3" by auto
    note f = bitmap_free_step [OF t(5) s3]
    from bitmap_ops_return(2) [OF f(4), of 7 io] f(7) t(8) a(8) u(2) obtain v s4 where
      s4: "bitmap_test io 3 5 (5 + 1) 7 s3 = Inr (v, s4)" by auto
    from bitmap_free_undoes_alloc [OF c s1 s2 s3 s4] have "t = 1" "v = 0" by (simp_all add: u)
    with s1 s2 s3 s4 show ?thesis by blast
  qed
  then show ?thesis by blast
qed

end
