(* ===== verification/Ram.thy ===== *)
theory Ram imports C_String begin

text \<open>
  Double words in the byte-addressed memory of \<open>C_String\<close>, little endian as on the i386, and
  4 KB page frames: the frame of an address, the cells of a frame, and how stores to one table
  entry affect loads of another. The kernel reaches page tables through plain pointers to
  physical memory, so the page directory is the frame at address 0.
\<close>

definition load32 :: "mem \<Rightarrow> addr_t \<Rightarrow> u32" where
  "load32 m a = ucast (m a) OR push_bit 8 (ucast (m (a + 1)))
     OR push_bit 16 (ucast (m (a + 2))) OR push_bit 24 (ucast (m (a + 3)))"

definition store32 :: "addr_t \<Rightarrow> u32 \<Rightarrow> mem \<Rightarrow> mem" where
  "store32 a v m = m(a := ucast v, a + 1 := ucast (drop_bit 8 v),
     a + 2 := ucast (drop_bit 16 v), a + 3 := ucast (drop_bit 24 v))"

definition frame :: "addr_t \<Rightarrow> addr_t" where
  "frame a = a AND 0xfffff000"

lemma frame_mask: "frame a = a AND NOT (mask 12)"
proof -
  have "(0xfffff000 :: u32) = NOT (mask 12)" by (simp add: mask_eq_exp_minus_1)
  then show ?thesis by (simp only: frame_def)
qed

lemma frame_bits: "bit (frame a) n \<longleftrightarrow> bit a n \<and> 12 \<le> n"
  by (auto simp: frame_mask bit_simps dest: bit_imp_le_length)

lemma frame_frame [simp]: "frame (frame a) = frame a"
  by (rule bit_eqI) (simp add: frame_bits)

lemma frame_0 [simp]: "frame 0 = 0"
  by (simp add: frame_def)

lemma frame_shift: "frame a = push_bit 12 (drop_bit 12 a)"
  by (rule bit_eqI) (auto simp: frame_bits bit_simps dest: bit_imp_le_length)

lemma unat_frame: "unat (frame a) = 4096 * (unat a div 4096)"
proof -
  have "unat a div 4096 < 2 ^ 20" using unat_lt_u32 [of a] by (simp add: div_less_iff_less_mult)
  then show ?thesis
    by (simp add: frame_shift push_bit_eq_mult unat_word_ariths drop_bit_eq_div unat_div)
qed

lemma frame_or_flags: "frame t = t \<Longrightarrow> f AND NOT (mask 12) = 0 \<Longrightarrow> frame (t OR f) = t"
  by (simp add: frame_mask bit.conj_disj_distrib2)

text \<open>The \<open>k\<close>-th cell of frame \<open>t\<close>.\<close>

lemma unat_cell: "frame t = t \<Longrightarrow> k < 4096 \<Longrightarrow> unat (t + of_nat k) = unat t + k"
proof -
  assume t: "frame t = t" and k: "k < 4096"
  have "unat t = 4096 * (unat t div 4096)" using unat_frame [of t] t by simp
  then obtain q where "unat t = 4096 * q" by blast
  with unat_lt_u32 [of t] have "unat t + 4096 \<le> 2 ^ 32" by simp
  with k show ?thesis by (subst unat_plus_if') (simp add: unat_of_nat)
qed

lemma frame_cell: "frame t = t \<Longrightarrow> k < 4096 \<Longrightarrow> frame (t + of_nat k) = t"
proof -
  assume t: "frame t = t" and k: "k < 4096"
  have "unat t = 4096 * (unat t div 4096)" using unat_frame [of t] t by simp
  then obtain q where "unat t = 4096 * q" by blast
  with k have "(unat t + k) div 4096 = unat t div 4096" by simp
  then have "unat (frame (t + of_nat k)) = unat t"
    using unat_frame [of "t + of_nat k"] unat_frame [of t] t k by (simp add: unat_cell)
  then show ?thesis by (simp add: word_unat_eq_iff)
qed

lemma cell_eq_iff:
  assumes "frame t = t" "frame t' = t'" "k < 4096" "k' < 4096"
  shows "t + of_nat k = t' + of_nat k' \<longleftrightarrow> t = t' \<and> k = k'"
  using assms by (metis frame_cell unat_cell add_left_cancel)

lemma in_frame: "frame t = t \<Longrightarrow> unat (a - t) < 4096 \<longleftrightarrow> frame a = t"
proof
  assume t: "frame t = t" and "unat (a - t) < 4096"
  then show "frame a = t" using frame_cell [of t "unat (a - t)"] by simp
next
  assume "frame a = t"
  then have "unat t = 4096 * (unat a div 4096)" using unat_frame [of a] by simp
  then have "unat a = unat t + unat a mod 4096" by simp
  moreover have "unat a mod 4096 < 4096" by simp
  ultimately have "t \<le> a" and "unat a - unat t < 4096" unfolding word_le_nat_alt by linarith+
  then show "unat (a - t) < 4096" by (simp add: unat_sub)
qed

section \<open>Tables of double words\<close>

text \<open>The address of entry \<open>i\<close> of a table at \<open>t\<close>: \<^verbatim>\<open>(u32 *)t + i\<close>.\<close>

definition entry_at :: "addr_t \<Rightarrow> nat \<Rightarrow> addr_t" where
  "entry_at t i = t + 4 * of_nat i"

lemma entry_cell: "entry_at t i + of_nat j = t + of_nat (4 * i + j)"
  by (simp add: entry_at_def)

lemma join_bytes:
  "(ucast (ucast v :: u8) :: u32) OR push_bit 8 (ucast (ucast (drop_bit 8 v) :: u8))
     OR push_bit 16 (ucast (ucast (drop_bit 16 v) :: u8))
     OR push_bit 24 (ucast (ucast (drop_bit 24 v) :: u8)) = v"
proof (rule bit_eqI)
  fix n
  assume "possible_bit TYPE(32 word) n"
  then consider "n < 8" | "8 \<le> n" "n < 16" | "16 \<le> n" "n < 24" | "24 \<le> n" "n < 32"
    by (cases "n < 8"; cases "n < 16"; cases "n < 24") simp_all
  then show "bit ((ucast (ucast v :: u8) :: u32) OR push_bit 8 (ucast (ucast (drop_bit 8 v) :: u8))
     OR push_bit 16 (ucast (ucast (drop_bit 16 v) :: u8))
     OR push_bit 24 (ucast (ucast (drop_bit 24 v) :: u8))) n = bit v n"
    by cases (auto simp: bit_simps)
qed

lemma load_store_same: "load32 (store32 a v m) a = v"
proof -
  have "a + 1 \<noteq> a" "a + 2 \<noteq> a" "a + 3 \<noteq> a" "a + 1 \<noteq> a + 2" "a + 1 \<noteq> a + 3" "a + 2 \<noteq> a + 3"
    by simp_all
  then show ?thesis
    by (simp add: load32_def store32_def join_bytes)
qed

lemma load_store_apart:
  assumes "\<And>k l. k < 4 \<Longrightarrow> l < 4 \<Longrightarrow> b + of_nat k \<noteq> a + of_nat l"
  shows "load32 (store32 a v m) b = load32 m b"
proof -
  have "b + of_nat k \<noteq> a" "b + of_nat k \<noteq> a + 1" "b + of_nat k \<noteq> a + 2" "b + of_nat k \<noteq> a + 3"
    if "k < 4" for k
    using assms [OF that, of 0] assms [OF that, of 1] assms [OF that, of 2] assms [OF that, of 3]
    by simp_all
  from this [of 0] this [of 1] this [of 2] this [of 3] show ?thesis
    by (simp add: load32_def store32_def)
qed

lemma load_store_entry:
  assumes "frame t = t" "frame t' = t'" "i < 1024" "j < 1024"
  shows "load32 (store32 (entry_at t i) v m) (entry_at t' j) =
    (if t = t' \<and> i = j then v else load32 m (entry_at t' j))"
proof (cases "t = t' \<and> i = j")
  case True
  then show ?thesis by (simp add: load_store_same)
next
  case False
  have "load32 (store32 (entry_at t i) v m) (entry_at t' j) = load32 m (entry_at t' j)"
  proof (rule load_store_apart)
    fix k l :: nat assume "k < 4" "l < 4"
    with False assms show "entry_at t' j + of_nat k \<noteq> entry_at t i + of_nat l"
      unfolding entry_cell by (subst cell_eq_iff) auto
  qed
  with False show ?thesis by (simp only: if_False)
qed

lemma store_entry_frame:
  assumes "frame t = t" "i < 1024" "frame a \<noteq> t"
  shows "store32 (entry_at t i) v m a = m a"
proof -
  have "a \<noteq> entry_at t i + of_nat k" if "k < 4" for k
    unfolding entry_cell using assms that frame_cell [of t "4 * i + k"] by auto
  from this [of 0] this [of 1] this [of 2] this [of 3] show ?thesis
    by (simp add: store32_def)
qed

lemma load_entry_cong:
  assumes "frame t = t" "i < 1024" "\<And>a. frame a = t \<Longrightarrow> m a = m' a"
  shows "load32 m (entry_at t i) = load32 m' (entry_at t i)"
proof -
  have "m (entry_at t i + of_nat k) = m' (entry_at t i + of_nat k)" if "k < 4" for k
    unfolding entry_cell using assms that by (intro assms(3) frame_cell) auto
  from this [of 0] this [of 1] this [of 2] this [of 3] show ?thesis
    by (simp add: load32_def)
qed

end
