(* ===== verification/Paging.thy ===== *)
theory Paging imports Page_Alloc Ram begin

text \<open>
  Virtual memory (the second half of \<^verbatim>\<open>mm/memory.c\<close>): the page directory at physical address 0,
  page tables taken from the page allocator, the page-fault handlers \<^verbatim>\<open>do_no_page\<close> and
  \<^verbatim>\<open>do_wp_page\<close>, and \<^verbatim>\<open>share_vma\<close>, with which \<^verbatim>\<open>fork\<close> gives a child its parent's first 4 MB.
  The state joins the allocator's table with the machine's memory; the values the handlers
  only print (\<^verbatim>\<open>err_code\<close>) are left out.
\<close>

record kmem =
  pages :: page_state
  ram :: mem

definition PAGE_DEFAULT :: u32 where "PAGE_DEFAULT = 0x7"

text \<open>The macros \<^verbatim>\<open>PDE\<close>, \<^verbatim>\<open>PTE\<close> (addresses of entries) and \<^verbatim>\<open>PAGE_ADDR\<close>.\<close>

definition PDE :: "addr_t \<Rightarrow> addr_t" where
  "PDE vaddr = entry_at 0 (unat (drop_bit 22 vaddr))"

definition PTE :: "mem \<Rightarrow> addr_t \<Rightarrow> addr_t" where
  "PTE m vaddr = entry_at (load32 m (PDE vaddr) AND 0xfffff000) (unat (drop_bit 12 vaddr AND 0x3ff))"

definition PAGE_ADDR :: "mem \<Rightarrow> addr_t \<Rightarrow> addr_t" where
  "PAGE_ADDR m vaddr = load32 m (PTE m vaddr) AND 0xfffff000"

text \<open>\<^verbatim>\<open>alloc_page\<close> and \<^verbatim>\<open>memset\<close> on the joint state.\<close>

definition take_page :: "kmem \<Rightarrow> (addr_t \<times> kmem) res" where
  "take_page s = bindr (alloc_page (pages s)) (\<lambda>(p, ps). Inr (p, s\<lparr>pages := ps\<rparr>))"

definition alloc_zeroed_page :: "kmem \<Rightarrow> (addr_t \<times> kmem) res" where
  "alloc_zeroed_page s =
     bindr (alloc_pages 0 (pages s)) (\<lambda>(addr, ps).
     bindr (memset addr 0 (of_nat PAGE_SIZE) (ram s)) (\<lambda>(_, m).
       Inr (addr, s\<lparr>pages := ps, ram := m\<rparr>)))"

text \<open>
  \<^verbatim>\<open>for (i = 0; i < 1024; ++i) *(to_page++) = (*(from_page++) & 0xfffffffd);\<close>
\<close>

fun copy_ptes :: "nat \<Rightarrow> addr_t \<Rightarrow> addr_t \<Rightarrow> mem \<Rightarrow> mem" where
  "copy_ptes 0 to_page from_page m = m"
| "copy_ptes (Suc n) to_page from_page m =
     copy_ptes n (to_page + 4) (from_page + 4)
       (store32 to_page (load32 m from_page AND 0xfffffffd) m)"

definition share_vma :: "addr_t \<Rightarrow> addr_t \<Rightarrow> addr_t \<Rightarrow> kmem \<Rightarrow> kmem res" where
  "share_vma from_vm to_vm sz s =
     assertr (from_vm AND 0x003fffff = 0 \<and> to_vm AND 0x003fffff = 0)
     (assertr (if from_vm > to_vm then from_vm - to_vm \<ge> sz else to_vm - from_vm \<ge> sz)
     (assertr (load32 (ram s) (PDE to_vm) = 0)
     (bindr (take_page s) (\<lambda>(p, s).
        let m = store32 (PDE to_vm) ((p AND 0xfffff000) OR PAGE_DEFAULT) (ram s);
            from_page = load32 m (PDE from_vm) AND 0xfffff000;
            to_page = load32 m (PDE to_vm) AND 0xfffff000;
            m = copy_ptes 1024 to_page from_page m;
            video = entry_at (load32 m (PDE to_vm) AND 0xfffff000) 144
        in Inr (s\<lparr>ram := store32 video (load32 m video OR 2) m\<rparr>)))))"

text \<open>
  The first half of \<^verbatim>\<open>do_no_page\<close> yields the address of the page table, allocated and zeroed
  when the directory entry is not present.
\<close>

definition table_for :: "addr_t \<Rightarrow> kmem \<Rightarrow> (addr_t \<times> kmem) res" where
  "table_for addr s =
     (if load32 (ram s) (PDE addr) AND 0x1 = 0
      then bindr (take_page s) (\<lambda>(pt_addr, s).
           bindr (memset pt_addr 0 (of_nat PAGE_SIZE) (ram s)) (\<lambda>(_, m).
             Inr (pt_addr, s\<lparr>ram := store32 (PDE addr) ((pt_addr AND 0xfffff000) OR PAGE_DEFAULT) m\<rparr>)))
      else Inr (load32 (ram s) (PDE addr) AND 0xfffff000, s))"

definition do_no_page :: "addr_t \<Rightarrow> kmem \<Rightarrow> kmem res" where
  "do_no_page addr s =
     bindr (table_for addr s) (\<lambda>(pt_addr, s).
     assertr (pt_addr \<noteq> 0)
     (let p_pte = entry_at pt_addr (unat (drop_bit 12 addr AND 0x3ff)) in
      assertr (load32 (ram s) p_pte = 0)
      (bindr (take_page s) (\<lambda>(pg_addr, s).
         Inr (s\<lparr>ram := store32 p_pte ((pg_addr AND 0xfffff000) OR PAGE_DEFAULT) (ram s)\<rparr>)))))"

text \<open>
  A write-protection fault on a page above \<^verbatim>\<open>LOW_MEM\<close> ends in \<^verbatim>\<open>while(1)\<close>; the source's code
  after that loop is never reached.
\<close>

definition do_wp_page :: "addr_t \<Rightarrow> kmem \<Rightarrow> kmem res" where
  "do_wp_page addr s =
     (if PAGE_ADDR (ram s) addr < LOW_MEM
      then let p_pte = PTE (ram s) addr in
        bindr (take_page s) (\<lambda>(pg_addr, s).
        bindr (memcpy pg_addr (load32 (ram s) p_pte AND 0xfffff000) (of_nat PAGE_SIZE) (ram s)) (\<lambda>(_, m).
          Inr (s\<lparr>ram := store32 p_pte ((pg_addr AND 0xfffff000) OR PAGE_DEFAULT) m\<rparr>)))
      else Inl Hang)"

section \<open>What the tables map\<close>

text \<open>Directory and table index of a virtual address.\<close>

definition pdx :: "addr_t \<Rightarrow> nat" where
  "pdx v = unat (drop_bit 22 v)"

definition ptx :: "addr_t \<Rightarrow> nat" where
  "ptx v = unat (drop_bit 12 v AND 0x3ff)"

text \<open>
  Entry \<open>t\<close> of the table of directory entry \<open>d\<close>, when both are present, as the processor's walk
  sees it; \<open>page_entry\<close> is the walk for a virtual address.
\<close>

definition pde :: "mem \<Rightarrow> nat \<Rightarrow> u32" where
  "pde m d = load32 m (entry_at 0 d)"

definition present :: "u32 \<Rightarrow> bool" where
  "present e \<longleftrightarrow> e AND 1 \<noteq> 0"

definition walk :: "mem \<Rightarrow> nat \<Rightarrow> nat \<Rightarrow> u32 option" where
  "walk m d t =
     (if present (pde m d)
      then (let e = load32 m (entry_at (frame (pde m d)) t) in if present e then Some e else None)
      else None)"

definition page_entry :: "mem \<Rightarrow> addr_t \<Rightarrow> u32 option" where
  "page_entry m v = walk m (pdx v) (ptx v)"

text \<open>A frame the allocator will not hand out.\<close>

definition not_free :: "page_state \<Rightarrow> addr_t \<Rightarrow> bool" where
  "not_free ps t \<longleftrightarrow> (\<forall>i < NR_PAGES. t = page_addr i \<longrightarrow> mem_map ps ! i \<noteq> 0)"

text \<open>
  The invariant: every present directory entry names a table of its own, which is neither the
  directory nor a frame the allocator may hand out.
\<close>

definition vm_ok :: "kmem \<Rightarrow> bool" where
  "vm_ok s \<longleftrightarrow> pages_ok (pages s) \<and>
     (\<forall>d < 1024. present (pde (ram s) d) \<longrightarrow>
        frame (pde (ram s) d) \<noteq> 0 \<and> not_free (pages s) (frame (pde (ram s) d))) \<and>
     (\<forall>d < 1024. \<forall>d' < 1024. d \<noteq> d' \<longrightarrow> present (pde (ram s) d) \<longrightarrow> present (pde (ram s) d') \<longrightarrow>
        frame (pde (ram s) d) \<noteq> frame (pde (ram s) d'))"

lemma PDE_eq: "PDE v = entry_at 0 (pdx v)"
  by (simp add: PDE_def pdx_def)

lemma load_PDE: "load32 m (PDE v) = pde m (pdx v)"
  by (simp add: PDE_eq pde_def)

lemma PTE_eq: "PTE m v = entry_at (frame (pde m (pdx v))) (ptx v)"
  by (simp add: PTE_def load_PDE ptx_def frame_def)

lemma pdx_lt [simp]: "pdx v < 1024"
proof -
  have "unat v div 2 ^ 22 < 1024" using unat_lt_u32 [of v] by (simp add: div_less_iff_less_mult)
  then show ?thesis by (simp add: pdx_def drop_bit_eq_div unat_div)
qed

lemma ptx_lt [simp]: "ptx v < 1024"
proof -
  have "drop_bit 12 v AND 0x3ff \<le> (0x3ff :: u32)" by (rule word_and_le1)
  then show ?thesis by (simp add: ptx_def word_le_nat_alt)
qed

lemma drop_12_parts: "unat (drop_bit 12 v) = 1024 * pdx v + ptx v"
proof -
  have "drop_bit 12 v AND 0x3ff = take_bit 10 (drop_bit 12 v)" by (simp add: take_bit_eq_mask mask_eq_exp_minus_1)
  then have "ptx v = unat v div 4096 mod 1024"
    by (simp add: ptx_def take_bit_eq_mod drop_bit_eq_div unat_div unat_mod)
  moreover have "pdx v = unat v div 4096 div 1024"
    by (simp add: pdx_def drop_bit_eq_div unat_div flip: div_mult2_eq)
  ultimately show ?thesis by (simp add: drop_bit_eq_div unat_div)
qed

lemma same_page_iff: "pdx v = pdx w \<and> ptx v = ptx w \<longleftrightarrow> drop_bit 12 v = drop_bit 12 w"
proof
  assume "pdx v = pdx w \<and> ptx v = ptx w"
  then show "drop_bit 12 v = drop_bit 12 w" by (simp add: word_unat_eq_iff drop_12_parts)
next
  assume "drop_bit 12 v = drop_bit 12 w"
  moreover have "pdx u = unat (drop_bit 12 u :: addr_t) div 1024 \<and> ptx u = unat (drop_bit 12 u) mod 1024" for u
    by (simp add: drop_12_parts)
  ultimately show "pdx v = pdx w \<and> ptx v = ptx w" by metis
qed

lemma page_frame:
  assumes "i < NR_PAGES"
  shows "frame (page_addr i) = page_addr i"
proof -
  have "unat (page_addr i) = 4096 * (256 + i)" using assms by (simp add: unat_page_addr)
  then have "unat (frame (page_addr i)) = unat (page_addr i)" by (simp add: unat_frame)
  then show ?thesis by (simp add: word_unat_eq_iff)
qed

lemma frame_default [simp]: "frame (frame p OR PAGE_DEFAULT) = frame p"
  by (rule frame_or_flags) (simp_all add: PAGE_DEFAULT_def mask_eq_exp_minus_1)

lemma frame_default' [simp]: "frame p = p \<Longrightarrow> frame (p OR PAGE_DEFAULT) = p"
  using frame_default [of p] by simp

lemma present_default [simp]: "present (p OR PAGE_DEFAULT)"
proof -
  have "bit ((p OR PAGE_DEFAULT) AND 1) 0" by (simp add: PAGE_DEFAULT_def bit_simps)
  then show ?thesis by (auto simp: present_def)
qed

lemma present_0 [simp]: "\<not> present 0"
  by (simp add: present_def)

section \<open>Fresh frames\<close>

lemma mem_stat_upd:
  assumes "i < length xs" "P (xs ! i)" "\<not> P v"
  shows "Suc (length (filter P (xs[i := v]))) = length (filter P xs)"
proof -
  have "length (filter P xs) = length (filter P (take i xs)) + Suc (length (filter P (drop (Suc i) xs)))"
    using assms by (subst id_take_nth_drop [of i xs]) simp_all
  with assms show ?thesis by (simp add: upd_conv_take_nth_drop)
qed

lemma alloc_page_total:
  assumes "pages_ok s" "0 < mem_stat s"
  shows "\<exists>p s'. alloc_page s = Inr (p, s')"
proof -
  from assms(2) obtain b where "b \<in> set (mem_map s)" "b = 0"
    by (auto simp: mem_stat_def filter_empty_conv simp flip: length_greater_0_conv)
  then obtain i where "i < length (mem_map s)" "mem_map s ! i = 0" by (metis in_set_conv_nth)
  then have "run_at (mem_map s) i 1" by (simp add: run_at_def)
  then have "first_run (mem_map s) 1 \<noteq> None" by (auto simp: first_run_def)
  then show ?thesis using alloc_pages_eq [OF assms(1), of 0] by (auto simp: alloc_page_def)
qed

text \<open>A page taken: it is aligned, above \<^verbatim>\<open>LOW_MEM\<close>, and was free.\<close>

definition fresh_page :: "page_state \<Rightarrow> page_state \<Rightarrow> addr_t \<Rightarrow> bool" where
  "fresh_page ps ps' p \<longleftrightarrow> (\<exists>i < NR_PAGES. p = page_addr i \<and> mem_map ps ! i = 0 \<and>
     ps' = ps\<lparr>mem_map := (mem_map ps)[i := 1]\<rparr>)"

lemma take_page_fresh:
  assumes "pages_ok (pages s)" "0 < mem_stat (pages s)"
  obtains p ps' where "take_page s = Inr (p, s\<lparr>pages := ps'\<rparr>)" "fresh_page (pages s) ps' p"
proof -
  from alloc_page_total [OF assms] obtain p ps' where al: "alloc_page (pages s) = Inr (p, ps')" by blast
  then have "fresh_page (pages s) ps' p"
    using alloc_page_cases [OF assms(1)] by (metis fresh_page_def)
  with al that show thesis by (simp add: take_page_def)
qed

lemma fresh_page_frame: "fresh_page ps ps' p \<Longrightarrow> frame p = p"
  by (auto simp: fresh_page_def page_frame)

lemma fresh_page_nonzero: "fresh_page ps ps' p \<Longrightarrow> p \<noteq> 0"
  by (auto simp: fresh_page_def page_addr_nonzero)

lemma fresh_page_high: "fresh_page ps ps' p \<Longrightarrow> LOW_MEM \<le> p \<and> unat p + 4096 < 2 ^ 32"
  by (auto simp: fresh_page_def page_addr_ge unat_page_addr NR_PAGES_eq)

lemma fresh_page_owned: "pages_ok ps \<Longrightarrow> fresh_page ps ps' p \<Longrightarrow> page_owned ps' p \<and> \<not> page_owned ps p"
  by (auto simp: fresh_page_def page_owned_addr pages_ok_def)

lemma fresh_page_ok: "pages_ok ps \<Longrightarrow> fresh_page ps ps' p \<Longrightarrow> pages_ok ps'"
  by (auto simp: fresh_page_def pages_ok_def nth_list_update split: if_splits)

lemma fresh_page_not_free:
  "pages_ok ps \<Longrightarrow> fresh_page ps ps' p \<Longrightarrow> not_free ps' t \<longleftrightarrow> not_free ps t \<or> t = p"
  by (auto simp: fresh_page_def not_free_def pages_ok_def nth_list_update page_addr_inject split: if_splits)

lemma fresh_page_was_free: "fresh_page ps ps' p \<Longrightarrow> \<not> not_free ps p"
  by (auto simp: fresh_page_def not_free_def)

lemma fresh_page_stat: "pages_ok ps \<Longrightarrow> fresh_page ps ps' p \<Longrightarrow> Suc (mem_stat ps') = mem_stat ps"
  by (auto simp: fresh_page_def mem_stat_def pages_ok_def mem_stat_upd)

lemma frame_const [simp]: "(a AND 0xfffff000 :: addr_t) = frame a"
  by (simp add: frame_def)

section \<open>Updates of the tables\<close>

lemma vm_okD:
  assumes "vm_ok s" "d < 1024" "present (pde (ram s) d)"
  shows "frame (pde (ram s) d) \<noteq> 0" "not_free (pages s) (frame (pde (ram s) d))"
    and "d' < 1024 \<Longrightarrow> present (pde (ram s) d') \<Longrightarrow> frame (pde (ram s) d') = frame (pde (ram s) d) \<longleftrightarrow> d' = d"
  using assms unfolding vm_ok_def by blast+

lemma pde_store:
  "frame t = t \<Longrightarrow> i < 1024 \<Longrightarrow> d < 1024 \<Longrightarrow>
   pde (store32 (entry_at t i) e m) d = (if t = 0 \<and> i = d then e else pde m d)"
  by (simp add: pde_def load_store_entry)

lemma walk_set_entry:
  assumes "vm_ok s" "d < 1024" "i < 1024" "present (pde (ram s) d)" "d' < 1024" "i' < 1024"
  shows "walk (store32 (entry_at (frame (pde (ram s) d)) i) e (ram s)) d' i' =
    (if d' = d \<and> i' = i then (if present e then Some e else None) else walk (ram s) d' i')"
proof -
  let ?t = "frame (pde (ram s) d)"
  have pde: "pde (store32 (entry_at ?t i) e (ram s)) d' = pde (ram s) d'"
    using assms vm_okD(1) [OF assms(1,2,4)] by (simp add: pde_store)
  show ?thesis
  proof (cases "present (pde (ram s) d')")
    case True
    then have "?t = frame (pde (ram s) d') \<longleftrightarrow> d' = d"
      using vm_okD(3) [OF assms(1,2,4,5)] by metis
    with True pde assms(3,6) show ?thesis
      by (auto simp: walk_def load_store_entry Let_def)
  next
    case False
    with assms(4) pde show ?thesis by (auto simp: walk_def)
  qed
qed

lemma vm_ok_set_entry:
  assumes "vm_ok s" "d < 1024" "i < 1024" "present (pde (ram s) d)"
    and "pages_ok ps'" "\<And>t. not_free (pages s) t \<Longrightarrow> not_free ps' t"
  shows "vm_ok (s\<lparr>pages := ps', ram := store32 (entry_at (frame (pde (ram s) d)) i) e (ram s)\<rparr>)"
proof -
  have "pde (store32 (entry_at (frame (pde (ram s) d)) i) e (ram s)) d' = pde (ram s) d'"
    if "d' < 1024" for d'
    using assms vm_okD(1) [OF assms(1,2,4)] that by (simp add: pde_store)
  with assms(1,5,6) show ?thesis by (simp add: vm_ok_def)
qed

text \<open>A new table \<open>p\<close> for directory entry \<open>d\<close>, its frame filled so that nothing else changes.\<close>

lemma new_table:
  assumes ok: "vm_ok s" and d: "d < 1024" and absent: "\<not> present (pde (ram s) d)"
    and fresh: "fresh_page (pages s) ps' p"
    and m': "\<And>a. frame a \<noteq> 0 \<Longrightarrow> frame a \<noteq> p \<Longrightarrow> m' a = ram s a"
    and pdes: "\<And>d'. d' < 1024 \<Longrightarrow> pde m' d' = (if d' = d then frame p OR PAGE_DEFAULT else pde (ram s) d')"
  shows "vm_ok (s\<lparr>pages := ps', ram := m'\<rparr>)"
    and "d' < 1024 \<Longrightarrow> d' \<noteq> d \<Longrightarrow> i < 1024 \<Longrightarrow> walk m' d' i = walk (ram s) d' i"
proof -
  have p: "frame p = p" "p \<noteq> 0" "pages_ok ps'"
    using fresh ok by (auto simp: fresh_page_frame fresh_page_nonzero vm_ok_def intro: fresh_page_ok)
  have nf: "not_free ps' t \<longleftrightarrow> not_free (pages s) t \<or> t = p" for t
    using fresh ok by (intro fresh_page_not_free) (simp_all add: vm_ok_def)
  have other: "frame (pde (ram s) e) \<noteq> p" if "e < 1024" "present (pde (ram s) e)" for e
    using vm_okD(2) [OF ok that] fresh_page_was_free [OF fresh] by auto
  show "vm_ok (s\<lparr>pages := ps', ram := m'\<rparr>)"
    unfolding vm_ok_def
  proof (intro conjI allI impI)
    fix e assume e: "e < 1024" "present (pde (ram (s\<lparr>pages := ps', ram := m'\<rparr>)) e)"
    then show "frame (pde (ram (s\<lparr>pages := ps', ram := m'\<rparr>)) e) \<noteq> 0"
      and "not_free (pages (s\<lparr>pages := ps', ram := m'\<rparr>)) (frame (pde (ram (s\<lparr>pages := ps', ram := m'\<rparr>)) e))"
      using p vm_okD(1,2) [OF ok e(1)] by (auto simp: pdes nf split: if_splits)
  next
    fix e e' assume "e < 1024" "e' < 1024" "e \<noteq> e'"
      "present (pde (ram (s\<lparr>pages := ps', ram := m'\<rparr>)) e)" "present (pde (ram (s\<lparr>pages := ps', ram := m'\<rparr>)) e')"
    then show "frame (pde (ram (s\<lparr>pages := ps', ram := m'\<rparr>)) e) \<noteq> frame (pde (ram (s\<lparr>pages := ps', ram := m'\<rparr>)) e')"
      using p other [of e] other [of e'] vm_okD(3) [OF ok, of e e'] by (auto simp: pdes split: if_splits)
  qed (simp add: p)
  show "walk m' d' i = walk (ram s) d' i" if "d' < 1024" "d' \<noteq> d" "i < 1024"
  proof (cases "present (pde (ram s) d')")
    case True
    have "load32 m' (entry_at (frame (pde (ram s) d')) i) = load32 (ram s) (entry_at (frame (pde (ram s) d')) i)"
      using True that vm_okD(1) [OF ok that(1) True] other [OF that(1) True]
      by (intro load_entry_cong m') auto
    with that show ?thesis by (simp add: walk_def pdes)
  qed (use that in \<open>simp add: walk_def pdes\<close>)
qed

section \<open>The not-present fault\<close>

text \<open>
  What serving a fault means: the tables are in order, the address maps to frame \<open>p\<close>, present,
  writable and open to user code, \<open>p\<close> was free, and the pages of all other addresses map to what
  they mapped to before.
\<close>

definition remapped :: "kmem \<Rightarrow> addr_t \<Rightarrow> addr_t \<Rightarrow> kmem \<Rightarrow> bool" where
  "remapped s addr p s' \<longleftrightarrow> vm_ok s' \<and> page_entry (ram s') addr = Some (p OR 7) \<and>
     frame p = p \<and> \<not> not_free (pages s) p \<and> not_free (pages s') p \<and>
     (\<forall>v. drop_bit 12 v \<noteq> drop_bit 12 addr \<longrightarrow> page_entry (ram s') v = page_entry (ram s) v)"

lemma set_entry_remaps:
  assumes ok: "vm_ok s" "present (pde (ram s) (pdx addr))"
    and fresh: "fresh_page (pages s) ps' p"
  shows "remapped s addr p (s\<lparr>pages := ps',
    ram := store32 (entry_at (frame (pde (ram s) (pdx addr))) (ptx addr)) (p OR PAGE_DEFAULT) (ram s)\<rparr>)"
proof -
  let ?m = "store32 (entry_at (frame (pde (ram s) (pdx addr))) (ptx addr)) (p OR PAGE_DEFAULT) (ram s)"
  have pok: "pages_ok (pages s)" using ok by (simp add: vm_ok_def)
  note set = walk_set_entry [OF ok(1) pdx_lt ptx_lt ok(2)]
  have "vm_ok (s\<lparr>pages := ps', ram := ?m\<rparr>)"
    using fresh_page_not_free [OF pok fresh] fresh_page_ok [OF pok fresh]
    by (intro vm_ok_set_entry ok) simp_all
  moreover have "page_entry ?m addr = Some (p OR 7)"
    by (simp add: page_entry_def set) (simp add: PAGE_DEFAULT_def)
  moreover have "page_entry ?m v = page_entry (ram s) v" if "drop_bit 12 v \<noteq> drop_bit 12 addr" for v
    using that same_page_iff [of v addr] by (auto simp: page_entry_def set)
  ultimately show ?thesis
    using fresh_page_frame [OF fresh] fresh_page_was_free [OF fresh] fresh_page_not_free [OF pok fresh]
    by (simp add: remapped_def)
qed

lemma memset_page:
  assumes "fresh_page ps ps' p"
  shows "memset p 0 (of_nat PAGE_SIZE) m = Inr (p, \<lambda>a. if frame a = p then 0 else m a)"
  using fresh_page_frame [OF assms] fresh_page_nonzero [OF assms]
  by (simp add: memset_spec PAGE_SIZE_def in_frame cong: if_cong)

lemma alloc_zeroed_page_eq:
  assumes "take_page s = Inr (p, s\<lparr>pages := ps'\<rparr>)" "fresh_page (pages s) ps' p"
  shows "alloc_zeroed_page s =
    Inr (p, s\<lparr>pages := ps', ram := \<lambda>a. if frame a = p then 0 else ram s a\<rparr>)"
proof -
  from assms(1) have "alloc_pages 0 (pages s) = Inr (p, ps')"
    by (auto simp: take_page_def alloc_page_def bindr_eq_Inr) (metis kmem.select_convs(1) kmem.surjective kmem.update_convs(1))
  then show ?thesis by (simp add: alloc_zeroed_page_def memset_page [OF assms(2)])
qed

lemma table_for_present:
  "present (pde (ram s) (pdx addr)) \<Longrightarrow> table_for addr s = Inr (frame (pde (ram s) (pdx addr)), s)"
  by (simp add: table_for_def load_PDE present_def)

lemma table_for_absent:
  assumes ok: "vm_ok s" and absent: "\<not> present (pde (ram s) (pdx addr))" and st: "0 < mem_stat (pages s)"
  obtains p s1 where "table_for addr s = Inr (p, s1)" "fresh_page (pages s) (pages s1) p" "vm_ok s1"
    "pde (ram s1) (pdx addr) = p OR PAGE_DEFAULT"
    "\<And>i. i < 1024 \<Longrightarrow> load32 (ram s1) (entry_at p i) = 0"
    "\<And>d i. d < 1024 \<Longrightarrow> i < 1024 \<Longrightarrow> walk (ram s1) d i = walk (ram s) d i"
    "\<And>a. frame a \<noteq> 0 \<Longrightarrow> frame a \<noteq> p \<Longrightarrow> ram s1 a = ram s a"
proof -
  have "pages_ok (pages s)" using ok by (simp add: vm_ok_def)
  from take_page_fresh [OF this st] obtain p ps' where
    take: "take_page s = Inr (p, s\<lparr>pages := ps'\<rparr>)" and fresh: "fresh_page (pages s) ps' p" .
  note p = fresh_page_frame [OF fresh] fresh_page_nonzero [OF fresh]
  let ?z = "\<lambda>a. if frame a = p then 0 else ram s a"
  let ?m = "store32 (entry_at 0 (pdx addr)) (p OR PAGE_DEFAULT) ?z"
  let ?s = "s\<lparr>pages := ps', ram := ?m\<rparr>"
  have run: "table_for addr s = Inr (p, ?s)"
    using absent p
    by (simp add: table_for_def take memset_page [OF fresh] PDE_eq present_def pde_def cong: if_cong)
  have zpde: "pde ?z d = pde (ram s) d" if "d < 1024" for d
    unfolding pde_def using p that by (intro load_entry_cong) auto
  then have pdes: "pde ?m d = (if d = pdx addr then frame p OR PAGE_DEFAULT else pde (ram s) d)"
    if "d < 1024" for d
    using p that by (simp add: pde_store)
  have same: "?m a = ram s a" if "frame a \<noteq> 0" "frame a \<noteq> p" for a
    using that by (simp add: store_entry_frame)
  have zero: "load32 ?m (entry_at p i) = 0" if "i < 1024" for i
  proof -
    have "load32 ?z (entry_at p i) = load32 (\<lambda>_. 0) (entry_at p i)"
      using p that by (intro load_entry_cong) auto
    with p that show ?thesis by (simp add: load_store_entry) (simp add: load32_def)
  qed
  note new = new_table [OF ok pdx_lt absent fresh same pdes]
  have "walk ?m d i = walk (ram s) d i" if "d < 1024" "i < 1024" for d i
  proof (cases "d = pdx addr")
    case True
    with absent that p show ?thesis by (simp add: walk_def pdes zero)
  next
    case False
    with new(2) that show ?thesis by blast
  qed
  with run fresh new(1) pdes [of "pdx addr"] zero same p show thesis
    by (intro that [of p ?s]) simp_all
qed

text \<open>
  C9: a fault on an address that is not mapped, with a null entry and two free pages at hand, is
  always served: the handler returns, the invariant on the tables still holds, the address is
  mapped (present, writable, user) to a frame that was free and is now taken, and every address
  of another page maps to what it mapped to before.
\<close>

theorem do_no_page_maps:
  assumes ok: "vm_ok s" and st: "2 \<le> mem_stat (pages s)"
    and unmapped: "present (pde (ram s) (pdx addr)) \<Longrightarrow> load32 (ram s) (PTE (ram s) addr) = 0"
  shows "\<exists>s' p. do_no_page addr s = Inr s' \<and> remapped s addr p s'"
proof -
  let ?d = "pdx addr" let ?i = "ptx addr"
  have pok: "pages_ok (pages s)" using ok by (simp add: vm_ok_def)
  obtain s1 where tab: "table_for addr s = Inr (frame (pde (ram s1) ?d), s1)" "vm_ok s1"
      "present (pde (ram s1) ?d)"
      and null: "load32 (ram s1) (entry_at (frame (pde (ram s1) ?d)) ?i) = 0"
      and walk: "\<And>d i. d < 1024 \<Longrightarrow> i < 1024 \<Longrightarrow> walk (ram s1) d i = walk (ram s) d i"
      and st1: "0 < mem_stat (pages s1)"
      and nf1: "\<And>t. not_free (pages s) t \<Longrightarrow> not_free (pages s1) t"
  proof (cases "present (pde (ram s) ?d)")
    case True
    with ok st unmapped that [of s] show thesis by (simp add: table_for_present PTE_eq)
  next
    case False
    from st have "0 < mem_stat (pages s)" by simp
    from table_for_absent [OF ok False this] obtain p s1 where
      s1: "table_for addr s = Inr (p, s1)" "fresh_page (pages s) (pages s1) p" "vm_ok s1"
        "pde (ram s1) ?d = p OR PAGE_DEFAULT"
        "\<And>i. i < 1024 \<Longrightarrow> load32 (ram s1) (entry_at p i) = 0"
        "\<And>d i. d < 1024 \<Longrightarrow> i < 1024 \<Longrightarrow> walk (ram s1) d i = walk (ram s) d i"
      by metis
    note f = fresh_page_stat [OF pok s1(2)] fresh_page_not_free [OF pok s1(2)] fresh_page_frame [OF s1(2)]
    have "0 < mem_stat (pages s1)" using f(1) st by simp
    then show thesis using that [of s1] s1 f by simp
  qed
  have pok1: "pages_ok (pages s1)" using tab(2) by (simp add: vm_ok_def)
  from take_page_fresh [OF pok1 st1] obtain p ps' where
    take: "take_page s1 = Inr (p, s1\<lparr>pages := ps'\<rparr>)" and fresh: "fresh_page (pages s1) ps' p" .
  let ?s = "s1\<lparr>pages := ps',
    ram := store32 (entry_at (frame (pde (ram s1) ?d)) ?i) (p OR PAGE_DEFAULT) (ram s1)\<rparr>"
  have "remapped s1 addr p ?s" by (rule set_entry_remaps [OF tab(2,3) fresh])
  then have "remapped s addr p ?s" using nf1 walk by (auto simp: remapped_def page_entry_def)
  moreover have "do_no_page addr s = Inr ?s"
    using vm_okD(1) [OF tab(2) pdx_lt tab(3)] null fresh_page_frame [OF fresh]
    by (simp add: do_no_page_def tab(1) Let_def take flip: ptx_def)
  ultimately show ?thesis by blast
qed

text \<open>A machine after \<^verbatim>\<open>mem_init\<close> whose directory maps nothing.\<close>

definition bare_kmem :: kmem where
  "bare_kmem = \<lparr>pages = \<lparr>HIGH_MEMORY = 0xffffff, mem_map = replicate NR_PAGES 0\<rparr>, ram = \<lambda>_. 0\<rparr>"

lemma load32_zero [simp]: "load32 (\<lambda>_. 0) a = 0"
  by (simp add: load32_def)

lemma bare_kmem_ok: "vm_ok bare_kmem" "2 \<le> mem_stat (pages bare_kmem)"
  by (simp_all add: vm_ok_def bare_kmem_def pde_def pages_ok_high mem_stat_def NR_PAGES_eq)

theorem do_no_page_maps_witness:
  "\<exists>s' p. do_no_page 0x8000000 bare_kmem = Inr s' \<and> page_entry (ram s') 0x8000000 = Some (p OR 7)"
proof -
  have "\<not> present (pde (ram bare_kmem) (pdx 0x8000000))" by (simp add: bare_kmem_def pde_def)
  with do_no_page_maps [OF bare_kmem_ok, of "0x8000000"] show ?thesis
    unfolding remapped_def by blast
qed

section \<open>The write-protection fault\<close>

lemma memcpy_page:
  assumes "fresh_page ps ps' p" "frame q = q" "q < LOW_MEM"
  shows "memcpy p q (of_nat PAGE_SIZE) m =
    (if q = 0 then Inl Assert_failed else Inr (p, \<lambda>a. if frame a = p then m (q + (a - p)) else m a))"
proof (cases "q = 0")
  case True
  with fresh_page_nonzero [OF assms(1)] show ?thesis by (simp add: memcpy_def)
next
  case False
  have size: "unat (of_nat PAGE_SIZE :: u32) = 4096" by (simp add: PAGE_SIZE_def)
  have hi: "LOW_MEM \<le> p" "unat p + 4096 < 2 ^ 32" "frame p = p"
    using fresh_page_high [OF assms(1)] fresh_page_frame [OF assms(1)] by simp_all
  from assms(2) unat_frame [of q] obtain j where j: "unat q = 4096 * j" by metis
  from assms(3) have "unat q < 4096 * 256" by (simp add: LOW_MEM_def word_less_nat_alt)
  with j have "unat q + 4096 \<le> 0x100000" by simp
  moreover have "0x100000 \<le> unat p" using hi(1) by (simp add: LOW_MEM_def word_le_nat_alt)
  ultimately have "unat q + 4096 \<le> unat p" by simp
  with False hi fresh_page_nonzero [OF assms(1)] show ?thesis
    by (simp add: memcpy_spec size moved_def in_frame cong: if_cong)
qed

text \<open>Filling a frame that is no table and not the directory changes no mapping.\<close>

lemma other_frame:
  assumes ok: "vm_ok s" and p: "frame p = p" "p \<noteq> 0" "\<not> not_free (pages s) p"
    and m': "\<And>a. frame a \<noteq> p \<Longrightarrow> m' a = ram s a"
  shows "d < 1024 \<Longrightarrow> pde m' d = pde (ram s) d"
    and "d < 1024 \<Longrightarrow> i < 1024 \<Longrightarrow> walk m' d i = walk (ram s) d i"
    and "vm_ok (s\<lparr>ram := m'\<rparr>)"
proof -
  have pde: "pde m' d = pde (ram s) d" if "d < 1024" for d
    unfolding pde_def using p that by (intro load_entry_cong m') auto
  show "pde m' d = pde (ram s) d" if "d < 1024" using pde that .
  show "vm_ok (s\<lparr>ram := m'\<rparr>)" using ok by (simp add: vm_ok_def pde)
  show "walk m' d i = walk (ram s) d i" if "d < 1024" "i < 1024"
  proof (cases "present (pde (ram s) d)")
    case True
    then have "frame (pde (ram s) d) \<noteq> p" using vm_okD(2) [OF ok that(1)] p(3) by auto
    then have "load32 m' (entry_at (frame (pde (ram s) d)) i) = load32 (ram s) (entry_at (frame (pde (ram s) d)) i)"
      using that by (intro load_entry_cong m') auto
    with that show ?thesis by (simp add: walk_def pde)
  qed (simp add: walk_def pde that)
qed

lemma page_entry_Some:
  assumes "page_entry m v = Some e"
  shows "present (pde m (pdx v))" and "load32 m (entry_at (frame (pde m (pdx v))) (ptx v)) = e"
    and "PAGE_ADDR m v = frame e"
proof -
  show p: "present (pde m (pdx v))" "load32 m (entry_at (frame (pde m (pdx v))) (ptx v)) = e"
    using assms by (auto simp: page_entry_def walk_def Let_def split: if_splits)
  then show "PAGE_ADDR m v = frame e" by (simp add: PAGE_ADDR_def PTE_eq)
qed

text \<open>
  C13: a write-protection fault on a mapped page. A page whose frame lies above \<^verbatim>\<open>LOW_MEM\<close> sends the
  machine into \<^verbatim>\<open>while(1)\<close>, and one mapped to frame 0 fails the assertion in \<^verbatim>\<open>memcpy\<close>. Any other
  page gets a private, writable copy: the frame it is remapped to was free, holds the bytes of
  the old one, no other page is remapped, and no memory but the new frame and the page's table
  changes.
\<close>

theorem do_wp_page_copies:
  assumes ok: "vm_ok s" and st: "0 < mem_stat (pages s)" and e: "page_entry (ram s) addr = Some e"
  shows "if LOW_MEM \<le> frame e then do_wp_page addr s = Inl Hang
    else if frame e = 0 then do_wp_page addr s = Inl Assert_failed
    else \<exists>s' p. do_wp_page addr s = Inr s' \<and> remapped s addr p s' \<and>
      (\<forall>k < 4096. ram s' (p + of_nat k) = ram s (frame e + of_nat k)) \<and>
      (\<forall>a. frame a \<noteq> p \<longrightarrow> frame a \<noteq> frame (pde (ram s) (pdx addr)) \<longrightarrow> ram s' a = ram s a)"
proof (cases "LOW_MEM \<le> frame e")
  case True
  then have "\<not> frame e < LOW_MEM" by simp
  with True show ?thesis by (simp add: do_wp_page_def page_entry_Some(3) [OF e])
next
  case low: False
  let ?t = "frame (pde (ram s) (pdx addr))"
  have pok: "pages_ok (pages s)" using ok by (simp add: vm_ok_def)
  note pres = page_entry_Some(1) [OF e]
  from take_page_fresh [OF pok st] obtain p ps' where
    take: "take_page s = Inr (p, s\<lparr>pages := ps'\<rparr>)" and fresh: "fresh_page (pages s) ps' p" .
  note p = fresh_page_frame [OF fresh] fresh_page_nonzero [OF fresh] fresh_page_was_free [OF fresh]
  let ?c = "\<lambda>a. if frame a = p then ram s (frame e + (a - p)) else ram s a"
  let ?s = "s\<lparr>pages := ps', ram := store32 (entry_at ?t (ptx addr)) (p OR PAGE_DEFAULT) ?c\<rparr>"
  have run: "do_wp_page addr s = (if frame e = 0 then Inl Assert_failed else Inr ?s)"
    using low memcpy_page [OF fresh, of "frame e"] p page_entry_Some(2) [OF e]
    by (simp add: do_wp_page_def page_entry_Some(3) [OF e] Let_def take PTE_eq not_le cong: if_cong)
  note c = other_frame [OF ok p, of ?c, simplified]
  have "remapped (s\<lparr>ram := ?c\<rparr>) addr p ?s"
    using set_entry_remaps [of "s\<lparr>ram := ?c\<rparr>" addr ps' p] c fresh pres by simp
  then have "remapped s addr p ?s" by (simp add: remapped_def page_entry_def c)
  moreover have "?t \<noteq> p" using vm_okD(2) [OF ok pdx_lt pres] p(3) by auto
  then have "ram ?s (p + of_nat k) = ram s (frame e + of_nat k)" if "k < 4096" for k
    using that p by (simp add: store_entry_frame frame_cell)
  moreover have "ram ?s a = ram s a" if "frame a \<noteq> p" "frame a \<noteq> ?t" for a
    using that by (simp add: store_entry_frame)
  ultimately show ?thesis using run low
    by (cases "frame e = 0") (simp, simp only: if_False, blast)
qed

text \<open>A machine that maps page 5 to its own frame, read only, as the kernel's part of a process is.\<close>

definition low_kmem :: kmem where
  "low_kmem = bare_kmem\<lparr>ram :=
     store32 (entry_at 0x1000 5) 0x5005 (store32 (entry_at 0 0) 0x1007 (\<lambda>_. 0))\<rparr>"

lemma frame_1000 [simp]: "frame 0x1000 = 0x1000" "frame 0x1007 = 0x1000" "frame 0x5005 = 0x5000"
  by (simp_all add: frame_def del: frame_const)

lemma low_kmem_pde: "d < 1024 \<Longrightarrow> pde (ram low_kmem) d = (if d = 0 then 0x1007 else 0)"
proof -
  assume d: "d < 1024"
  have "pde (ram low_kmem) d = pde (store32 (entry_at 0 0) 0x1007 (\<lambda>_. 0)) d"
    using d pde_store [of "0x1000" 5 d] by (simp add: low_kmem_def del: load32_zero)
  also have "\<dots> = (if d = 0 then 0x1007 else pde (\<lambda>_. 0) d)"
    using d pde_store [of 0 0 d] by simp
  finally show ?thesis by (simp add: pde_def)
qed

lemma low_kmem_ok: "vm_ok low_kmem" "0 < mem_stat (pages low_kmem)"
proof -
  have nf: "not_free (pages low_kmem) 0x1000"
    unfolding not_free_def
  proof (intro allI impI)
    fix i assume "i < NR_PAGES" "0x1000 = page_addr i"
    then have "LOW_MEM \<le> 0x1000" by (metis page_addr_ge less_imp_le)
    then show "mem_map (pages low_kmem) ! i \<noteq> 0" by (simp add: LOW_MEM_def)
  qed
  have "pages_ok (pages low_kmem)" using bare_kmem_ok(1) by (simp add: vm_ok_def low_kmem_def)
  then show "vm_ok low_kmem" using nf by (auto simp: vm_ok_def low_kmem_pde split: if_splits)
  show "0 < mem_stat (pages low_kmem)" using bare_kmem_ok(2) by (simp add: low_kmem_def)
qed

lemma low_kmem_page: "page_entry (ram low_kmem) 0x5000 = Some 0x5005"
proof -
  have "pdx 0x5000 = 0" "ptx 0x5000 = 5" by (simp_all add: pdx_def ptx_def)
  moreover have "load32 (ram low_kmem) (entry_at 0x1000 5) = 0x5005"
    by (simp add: low_kmem_def load_store_same)
  ultimately show ?thesis
    by (simp add: page_entry_def walk_def low_kmem_pde) (simp add: present_def)
qed

theorem do_wp_page_copies_witness:
  "\<exists>s' p. do_wp_page 0x5000 low_kmem = Inr s' \<and> page_entry (ram s') 0x5000 = Some (p OR 7) \<and>
    ram s' (p + of_nat 42) = ram low_kmem (0x5000 + of_nat 42)"
proof -
  have "\<not> LOW_MEM \<le> frame 0x5005" "frame 0x5005 \<noteq> 0" by (simp_all add: LOW_MEM_def)
  with do_wp_page_copies [OF low_kmem_ok low_kmem_page] obtain s' p where
    "do_wp_page 0x5000 low_kmem = Inr s'" "remapped low_kmem 0x5000 p s'"
    "\<forall>k < 4096. ram s' (p + of_nat k) = ram low_kmem (frame 0x5005 + of_nat k)" by auto
  then show ?thesis unfolding remapped_def
    by (intro exI [of _ s'] exI [of _ p]) (auto dest: spec [of _ 42])
qed

section \<open>Sharing the first 4 MB with a child\<close>

lemma entry_next: "entry_at t i + 4 = entry_at t (Suc i)"
  by (simp add: entry_at_def)

lemma copy_ptes_entries:
  assumes "frame t = t" "frame f = f" "t \<noteq> f" "i + n \<le> 1024" "j < 1024"
  shows "load32 (copy_ptes n (entry_at t i) (entry_at f i) m) (entry_at t j) =
    (if i \<le> j \<and> j < i + n then load32 m (entry_at f j) AND 0xfffffffd else load32 m (entry_at t j))"
  using assms by (induction n arbitrary: i m) (auto simp: entry_next load_store_entry)

lemma copy_ptes_frame:
  "frame t = t \<Longrightarrow> i + n \<le> 1024 \<Longrightarrow> frame a \<noteq> t \<Longrightarrow>
   copy_ptes n (entry_at t i) (entry_at f i) m a = m a"
  by (induction n arbitrary: i m) (auto simp: entry_next store_entry_frame)

text \<open>What the child's table holds in the place of a parent's entry \<open>e\<close> at index \<open>i\<close>.\<close>

definition shared_entry :: "nat \<Rightarrow> u32 \<Rightarrow> u32" where
  "shared_entry i e = (if i = 144 then (e AND 0xfffffffd) OR 2 else e AND 0xfffffffd)"

lemma present_bit: "present e \<longleftrightarrow> bit e 0"
  by (simp add: present_def and_one_eq odd_iff_mod_2_eq_one bit_0)

lemma present_shared [simp]: "present (shared_entry i e) \<longleftrightarrow> present e"
  by (simp add: shared_entry_def present_bit bit_simps)

lemma entry_first: "entry_at t 0 = t"
  by (simp add: entry_at_def)

lemma share_vma_returns:
  assumes take: "take_page s = Inr (p, s\<lparr>pages := ps'\<rparr>)" and p: "frame p = p" "p \<noteq> 0"
    and aligned: "fv AND 0x3fffff = 0" "tv AND 0x3fffff = 0"
    and dist: "if fv > tv then fv - tv \<ge> sz else tv - fv \<ge> sz"
    and pde: "pde (ram s) (pdx tv) = 0" "pdx fv \<noteq> pdx tv"
    and f: "frame (pde (ram s) (pdx fv)) = f" "f \<noteq> p"
  obtains m where "share_vma fv tv sz s = Inr (s\<lparr>pages := ps', ram := m\<rparr>)"
    "\<And>a. frame a \<noteq> 0 \<Longrightarrow> frame a \<noteq> p \<Longrightarrow> m a = ram s a"
    "\<And>d. d < 1024 \<Longrightarrow> pde m d = (if d = pdx tv then frame p OR PAGE_DEFAULT else pde (ram s) d)"
    "\<And>i. i < 1024 \<Longrightarrow> f \<noteq> 0 \<Longrightarrow> load32 m (entry_at p i) = shared_entry i (load32 (ram s) (entry_at f i))"
proof -
  let ?m1 = "store32 (entry_at 0 (pdx tv)) (p OR PAGE_DEFAULT) (ram s)"
  let ?m2 = "copy_ptes 1024 (entry_at p 0) (entry_at f 0) ?m1"
  let ?m = "store32 (entry_at p 144) (load32 ?m2 (entry_at p 144) OR 2) ?m2"
  have ff: "frame f = f" using f(1) by auto
  have pde1: "pde ?m1 d = (if d = pdx tv then p OR PAGE_DEFAULT else pde (ram s) d)" if "d < 1024" for d
    using that by (simp add: pde_store)
  have m2: "?m2 a = ?m1 a" if "frame a \<noteq> p" for a using that p by (intro copy_ptes_frame) simp_all
  have pde2: "pde ?m2 d = pde ?m1 d" if "d < 1024" for d
    unfolding pde_def using that p by (intro load_entry_cong m2) auto
  have "share_vma fv tv sz s = Inr (s\<lparr>pages := ps', ram := ?m\<rparr>)"
    using aligned dist pde p pde1 [of "pdx tv"] pde1 [of "pdx fv"] pde2 [of "pdx tv"] f(1)
    by (simp add: share_vma_def load_PDE take Let_def entry_first) (simp add: PDE_eq)
  moreover have "?m a = ram s a" if "frame a \<noteq> 0" "frame a \<noteq> p" for a
    using that p m2 [of a] by (simp add: store_entry_frame)
  moreover have "pde ?m d = (if d = pdx tv then frame p OR PAGE_DEFAULT else pde (ram s) d)"
    if "d < 1024" for d
    using that p by (simp add: pde_store pde2 pde1)
  moreover have "load32 ?m (entry_at p i) = shared_entry i (load32 (ram s) (entry_at f i))"
    if "i < 1024" "f \<noteq> 0" for i
    using that p ff f(2) by (simp add: load_store_entry copy_ptes_entries shared_entry_def)
  ultimately show thesis by (rule that)
qed

lemma share_vma_effect:
  assumes ok: "vm_ok s" and st: "0 < mem_stat (pages s)"
    and aligned: "fv AND 0x3fffff = 0" "tv AND 0x3fffff = 0"
    and dist: "if fv > tv then fv - tv \<ge> sz else tv - fv \<ge> sz"
    and pdes: "present (pde (ram s) (pdx fv))" "pde (ram s) (pdx tv) = 0"
  shows "\<exists>s'. share_vma fv tv sz s = Inr s' \<and> vm_ok s' \<and>
    (\<forall>i < 1024. walk (ram s') (pdx tv) i = map_option (shared_entry i) (walk (ram s) (pdx fv) i)) \<and>
    (\<forall>v. pdx v \<noteq> pdx tv \<longrightarrow> page_entry (ram s') v = page_entry (ram s) v)"
proof -
  let ?f = "frame (pde (ram s) (pdx fv))"
  have pok: "pages_ok (pages s)" using ok by (simp add: vm_ok_def)
  from take_page_fresh [OF pok st] obtain p ps' where
    take: "take_page s = Inr (p, s\<lparr>pages := ps'\<rparr>)" and fresh: "fresh_page (pages s) ps' p" .
  note p = fresh_page_frame [OF fresh] fresh_page_nonzero [OF fresh]
  have ne: "pdx fv \<noteq> pdx tv" using pdes by auto
  have fp: "?f \<noteq> p" "?f \<noteq> 0"
    using vm_okD(1,2) [OF ok pdx_lt pdes(1)] fresh_page_was_free [OF fresh] by auto
  from share_vma_returns [OF take p aligned dist pdes(2) ne refl fp(1)] obtain m where
    run: "share_vma fv tv sz s = Inr (s\<lparr>pages := ps', ram := m\<rparr>)"
    and m: "\<And>a. frame a \<noteq> 0 \<Longrightarrow> frame a \<noteq> p \<Longrightarrow> m a = ram s a"
    and pde: "\<And>d. d < 1024 \<Longrightarrow> pde m d = (if d = pdx tv then frame p OR PAGE_DEFAULT else pde (ram s) d)"
    and copied: "\<And>i. i < 1024 \<Longrightarrow> load32 m (entry_at p i) = shared_entry i (load32 (ram s) (entry_at ?f i))"
    using fp(2) by metis
  have absent: "\<not> present (pde (ram s) (pdx tv))" by (simp add: pdes(2))
  note new = new_table [OF ok pdx_lt absent fresh m pde]
  have "walk m (pdx tv) i = map_option (shared_entry i) (walk (ram s) (pdx fv) i)" if "i < 1024" for i
    using that pdes(1) p by (simp add: walk_def pde copied Let_def)
  moreover have "page_entry m v = page_entry (ram s) v" if "pdx v \<noteq> pdx tv" for v
    using that new(2) by (simp add: page_entry_def)
  ultimately show ?thesis using run new(1) by (intro exI [of _ "s\<lparr>pages := ps', ram := m\<rparr>"]) simp
qed

text \<open>
  C12: sharing the 4 MB at one address with the region at another, not yet mapped, one returns
  as soon as a page is free, keeps the invariant on the tables, and gives the new region the
  source's entries one for one, each without its write bit (entry 144, the video page, gets the
  bit in any case). Every other region keeps its entries, the source included: its own entries
  stay writable, so its later stores remain visible through the copy.
\<close>

theorem share_vma_copies:
  assumes ok: "vm_ok s" and st: "0 < mem_stat (pages s)"
    and aligned: "fv AND 0x3fffff = 0" "tv AND 0x3fffff = 0"
    and dist: "if fv > tv then fv - tv \<ge> sz else tv - fv \<ge> sz"
    and pdes: "present (pde (ram s) (pdx fv))" "pde (ram s) (pdx tv) = 0"
  shows "\<exists>s'. share_vma fv tv sz s = Inr s' \<and> vm_ok s' \<and>
    (\<forall>i < 1024. walk (ram s') (pdx tv) i = map_option (shared_entry i) (walk (ram s) (pdx fv) i)) \<and>
    (\<forall>v. pdx v \<noteq> pdx tv \<longrightarrow> page_entry (ram s') v = page_entry (ram s) v)"
  by (rule share_vma_effect [OF assms])

theorem share_vma_copies_witness:
  "\<exists>s'. share_vma 0 0x4000000 0x400000 low_kmem = Inr s' \<and>
    walk (ram s') 16 5 = map_option (shared_entry 5) (walk (ram low_kmem) 0 5)"
proof -
  have d: "pdx 0 = 0" "pdx 0x4000000 = 16" by (simp_all add: pdx_def)
  have "present (pde (ram low_kmem) (pdx 0))" "pde (ram low_kmem) (pdx 0x4000000) = 0"
    by (simp_all add: d low_kmem_pde) (simp add: present_def)
  then obtain s' where "share_vma 0 0x4000000 0x400000 low_kmem = Inr s'"
    "\<forall>i < 1024. walk (ram s') (pdx 0x4000000) i = map_option (shared_entry i) (walk (ram low_kmem) (pdx 0) i)"
    using share_vma_copies [OF low_kmem_ok, of 0 "0x4000000" "0x400000"] by auto
  then show ?thesis by (intro exI [of _ s']) (simp add: d)
qed

end
