(* ===== verification/Slab.thy ===== *)
theory Slab imports Paging Linked_List begin

text \<open>
  The slab allocator of \<^verbatim>\<open>mm/slab.c\<close>: caches of equal objects, each slab one page with its
  objects at the front, the \<^verbatim>\<open>struct slab\<close> in its last 24 bytes and the free-list words growing
  down below it. The structs are kept in maps from their addresses, their \<^verbatim>\<open>list_head\<close>s in one
  store of links whose nodes are the addresses of those fields.
\<close>

section \<open>Data\<close>

record kmem_cache =
  objsz :: u32
  objcnt :: u32
  ctor :: "(addr_t \<Rightarrow> mem \<Rightarrow> mem) option"
  cname :: string

text \<open>\<open>bufctl sl i\<close> is \<^verbatim>\<open>slab_bufctl(i, slab)\<close>, the word \<open>i + 1\<close> places below the struct.\<close>

record slab =
  cache :: addr_t
  sdata :: addr_t
  inuse :: u32
  sfree :: u32
  bufctl :: "u32 \<Rightarrow> u32"

text \<open>
  \<open>cache_cache\<close> and \<open>cache_chain\<close> are the addresses the linker gives the two static objects of
  these names; \<open>generic_cachep\<close> is indexed by the classes 4, 8, 16, 32, 64, 128 in this order.
\<close>

record slab_state =
  km :: kmem
  caches :: "addr_t \<Rightarrow> kmem_cache option"
  slabs :: "addr_t \<Rightarrow> slab option"
  lk :: "addr_t links"
  cache_cache :: addr_t
  cache_chain :: addr_t
  generic_cachep :: "addr_t list"

text \<open>The addresses of the embedded \<^verbatim>\<open>list_head\<close>s; the one of a \<^verbatim>\<open>struct slab\<close> is its first field.\<close>

definition slabs_partial :: "addr_t \<Rightarrow> addr_t" where "slabs_partial cachep = cachep"
definition slabs_full :: "addr_t \<Rightarrow> addr_t" where "slabs_full cachep = cachep + 8"
definition slabs_free :: "addr_t \<Rightarrow> addr_t" where "slabs_free cachep = cachep + 16"
definition cache_next :: "addr_t \<Rightarrow> addr_t" where "cache_next cachep = cachep + 40"

definition BUFCTL_END :: u32 where "BUFCTL_END = 0xffffffff"
definition sizeof_slab :: u32 where "sizeof_slab = 24"
definition sizeof_kmem_cache :: u32 where "sizeof_kmem_cache = 48"

definition ADDR_TO_SLAB :: "addr_t \<Rightarrow> addr_t" where
  "ADDR_TO_SLAB addr = (addr AND 0xfffff000) + of_nat PAGE_SIZE - sizeof_slab"

definition align_down :: "u32 \<Rightarrow> nat \<Rightarrow> u32" where
  "align_down addr order = addr AND NOT (push_bit order 1 - 1)"

text \<open>\<^verbatim>\<open>(PAGE_SIZE - sizeof(struct slab)) / (objsz + sizeof(kmem_bufctl_t))\<close>\<close>

definition objs_per_slab :: "u32 \<Rightarrow> u32" where
  "objs_per_slab sz = (of_nat PAGE_SIZE - sizeof_slab) div (sz + 4)"

definition slab_obj :: "u32 \<Rightarrow> slab \<Rightarrow> kmem_cache \<Rightarrow> addr_t" where
  "slab_obj objnr sl c = sdata sl + objnr * objsz c"

text \<open>Reading a struct through a pointer that points to none is a bad access.\<close>

definition cache_at :: "addr_t \<Rightarrow> slab_state \<Rightarrow> kmem_cache res" where
  "cache_at p s = (case caches s p of None \<Rightarrow> Inl Bad_access | Some c \<Rightarrow> Inr c)"

definition slab_at :: "addr_t \<Rightarrow> slab_state \<Rightarrow> slab res" where
  "slab_at p s = (case slabs s p of None \<Rightarrow> Inl Bad_access | Some sl \<Rightarrow> Inr sl)"

definition set_slab :: "addr_t \<Rightarrow> slab \<Rightarrow> slab_state \<Rightarrow> slab_state" where
  "set_slab p sl s = s\<lparr>slabs := (slabs s)(p \<mapsto> sl)\<rparr>"

definition on_links :: "(addr_t links \<Rightarrow> addr_t links) \<Rightarrow> slab_state \<Rightarrow> slab_state" where
  "on_links f s = s\<lparr>lk := f (lk s)\<rparr>"

section \<open>Operations\<close>

definition check_cache :: "addr_t \<Rightarrow> slab_state \<Rightarrow> unit res" where
  "check_cache cachep s =
     assertr (cachep \<noteq> NULL)
     (bindr (if cachep = cache_cache s then Inr True
             else bindr (slab_at (ADDR_TO_SLAB cachep) s) (\<lambda>sl. Inr (cache sl = cache_cache s)))
       (\<lambda>b. assertr b
         (bindr (cache_at cachep s) (\<lambda>c. assertr (objcnt c = objs_per_slab (objsz c)) (Inr ())))))"

text \<open>\<^verbatim>\<open>while (next != BUFCTL_END) { ++freecnt; next = slab_bufctl(next, slab); }\<close>\<close>

partial_function (option) count_free :: "(u32 \<Rightarrow> u32) \<Rightarrow> u32 \<Rightarrow> u32 \<Rightarrow> u32 option" where
  "count_free b next freecnt =
     (if next \<noteq> BUFCTL_END then count_free b (b next) (freecnt + 1) else Some freecnt)"

definition check_slab :: "addr_t \<Rightarrow> slab_state \<Rightarrow> unit res" where
  "check_slab slabp s =
     assertr (slabp \<noteq> NULL)
     (assertr ((slabp + sizeof_slab) AND 0xfff = 0)
     (bindr (slab_at slabp s) (\<lambda>sl.
      assertr (sdata sl \<noteq> NULL \<and> sdata sl AND 0xfff = 0)
     (bindr (check_cache (cache sl) s) (\<lambda>_.
      bindr (of_loop (count_free (bufctl sl) (sfree sl) 0)) (\<lambda>freecnt.
      bindr (cache_at (cache sl) s) (\<lambda>c.
      assertr (freecnt + inuse sl = objcnt c) (Inr ()))))))))"

text \<open>
  The loop that numbers the free-list words, and, in a cache with a constructor, constructs the
  objects on the way.
\<close>

fun init_bufctl :: "nat \<Rightarrow> u32 \<Rightarrow> (u32 \<Rightarrow> u32) \<Rightarrow> u32 \<Rightarrow> u32" where
  "init_bufctl 0 i b = b"
| "init_bufctl (Suc n) i b = init_bufctl n (i + 1) (b(i := i + 1))"

fun construct :: "nat \<Rightarrow> (addr_t \<Rightarrow> mem \<Rightarrow> mem) \<Rightarrow> u32 \<Rightarrow> addr_t \<Rightarrow> mem \<Rightarrow> mem" where
  "construct 0 f sz obj m = m"
| "construct (Suc n) f sz obj m = construct n f sz (obj + sz) (f obj m)"

text \<open>
  \<^verbatim>\<open>*bufctl = BUFCTL_END\<close> after the loop: the word of the last object, or, when no object fits,
  the first word of the struct itself, its \<^verbatim>\<open>list.next\<close>.
\<close>

definition create_slab :: "addr_t \<Rightarrow> slab_state \<Rightarrow> (addr_t \<times> slab_state) res" where
  "create_slab cachep s =
     bindr (check_cache cachep s) (\<lambda>_.
     bindr (alloc_zeroed_page (km s)) (\<lambda>(page, k).
     bindr (cache_at cachep s) (\<lambda>c.
       let slabp = ADDR_TO_SLAB page;
           n = unat (objcnt c);
           m = (case ctor c of None \<Rightarrow> ram k | Some f \<Rightarrow> construct n f (objsz c) page (ram k));
           b = (init_bufctl n 0 (\<lambda>_. 0))(objcnt c - 1 := BUFCTL_END);
           s = s\<lparr>km := k\<lparr>ram := m\<rparr>\<rparr>;
           s = on_links (INIT_LIST_HEAD slabp) s;
           s = (if n = 0 then on_links (set_next slabp BUFCTL_END) s else s);
           s = set_slab slabp \<lparr>cache = cachep, sdata = page, inuse = 0, sfree = 0, bufctl = b\<rparr> s;
           s = on_links (list_add slabp (slabs_free cachep)) s
       in bindr (check_slab slabp s) (\<lambda>_. Inr (slabp, s)))))"

definition destroy_slab :: "addr_t \<Rightarrow> slab_state \<Rightarrow> slab_state res" where
  "destroy_slab slabp s =
     bindr (slab_at slabp s) (\<lambda>sl.
     assertr (inuse sl = 0)
     (bindr (check_slab slabp s) (\<lambda>_.
      let s = on_links (list_del slabp) s
      in bindr (free_page (sdata sl) (pages (km s))) (\<lambda>ps.
           Inr (s\<lparr>km := (km s)\<lparr>pages := ps\<rparr>\<rparr>)))))"

definition slab_alloc :: "addr_t \<Rightarrow> slab_state \<Rightarrow> (addr_t \<times> slab_state) res" where
  "slab_alloc slabp s =
     bindr (slab_at slabp s) (\<lambda>sl.
     assertr (sfree sl \<noteq> BUFCTL_END)
     (bindr (check_slab slabp s) (\<lambda>_.
      let objnr = sfree sl;
          sl = sl\<lparr>sfree := bufctl sl (sfree sl), inuse := inuse sl + 1\<rparr>;
          s = set_slab slabp sl s;
          s = on_links (list_del slabp) s;
          s = (if sfree sl = BUFCTL_END
               then on_links (list_add slabp (slabs_full (cache sl))) s
               else on_links (list_add slabp (slabs_partial (cache sl))) s)
      in bindr (cache_at (cache sl) s) (\<lambda>c. Inr (slab_obj objnr sl c, s)))))"

text \<open>The division by \<^verbatim>\<open>objsz\<close> traps when the cache's object size is 0.\<close>

definition slab_release :: "addr_t \<Rightarrow> slab_state \<Rightarrow> slab_state res" where
  "slab_release objp s =
     (let slabp = ADDR_TO_SLAB objp in
     bindr (check_slab slabp s) (\<lambda>_.
     bindr (slab_at slabp s) (\<lambda>sl.
     bindr (cache_at (cache sl) s) (\<lambda>c.
       if objsz c = 0 then Inl Bad_access
       else
         let objnr = (objp - sdata sl) div objsz c;
             sl = sl\<lparr>bufctl := (bufctl sl)(objnr := sfree sl), sfree := objnr, inuse := inuse sl - 1\<rparr>;
             s = set_slab slabp sl s;
             s = on_links (list_del slabp) s
         in Inr (if inuse sl = 0
                 then on_links (list_add slabp (slabs_free (cache sl))) s
                 else on_links (list_add slabp (slabs_partial (cache sl))) s)))))"

definition kmem_cache_alloc :: "addr_t \<Rightarrow> slab_state \<Rightarrow> (addr_t \<times> slab_state) res" where
  "kmem_cache_alloc cachep s =
     bindr (check_cache cachep s) (\<lambda>_.
     if list_empty (slabs_partial cachep) (lk s)
     then if list_empty (slabs_free cachep) (lk s)
          then bindr (create_slab cachep s) (\<lambda>(slabp, s). slab_alloc slabp s)
          else slab_alloc (lnext (lk s) (slabs_free cachep)) s
     else slab_alloc (lnext (lk s) (slabs_partial cachep)) s)"

definition kmem_cache_free :: "addr_t \<Rightarrow> addr_t \<Rightarrow> slab_state \<Rightarrow> slab_state res" where
  "kmem_cache_free cachep objp s = assertr (cachep \<noteq> NULL \<and> objp \<noteq> NULL) (slab_release objp s)"

definition kmem_cache_createx ::
  "string \<Rightarrow> u32 \<Rightarrow> (addr_t \<Rightarrow> mem \<Rightarrow> mem) option \<Rightarrow> slab_state \<Rightarrow> (addr_t \<times> slab_state) res" where
  "kmem_cache_createx nm objsize f s =
     assertr (objsize > 0)
     (bindr (kmem_cache_alloc (cache_cache s) s) (\<lambda>(cachep, s).
        let s = on_links (INIT_LIST_HEAD (slabs_partial cachep)) s;
            s = on_links (INIT_LIST_HEAD (slabs_full cachep)) s;
            s = on_links (INIT_LIST_HEAD (slabs_free cachep)) s;
            sz = align_down objsize 2
        in if sz + 4 = 0 then Inl Bad_access
           else
             let c = \<lparr>objsz = sz, objcnt = objs_per_slab sz, ctor = f, cname = nm\<rparr>;
                 s = s\<lparr>caches := (caches s)(cachep \<mapsto> c)\<rparr>
             in Inr (cachep, on_links (list_add (cache_next cachep) (cache_chain s)) s)))"

definition kmem_cache_create :: "string \<Rightarrow> u32 \<Rightarrow> slab_state \<Rightarrow> (addr_t \<times> slab_state) res" where
  "kmem_cache_create nm objsize s = kmem_cache_createx nm objsize None s"

text \<open>\<^verbatim>\<open>while (!list_empty(&cachep->slabs_free)) _destroy_slab(...);\<close>\<close>

partial_function (option) destroy_slabs :: "addr_t \<Rightarrow> slab_state \<Rightarrow> slab_state res option" where
  "destroy_slabs cachep s =
     (if list_empty (slabs_free cachep) (lk s) then Some (Inr s)
      else case destroy_slab (lnext (lk s) (slabs_free cachep)) s of
             Inl e \<Rightarrow> Some (Inl e)
           | Inr s \<Rightarrow> destroy_slabs cachep s)"

definition kmem_cache_destroy :: "addr_t \<Rightarrow> slab_state \<Rightarrow> (int \<times> slab_state) res" where
  "kmem_cache_destroy cachep s =
     assertr (cachep \<noteq> NULL)
     (if \<not> list_empty (slabs_partial cachep) (lk s) \<or> \<not> list_empty (slabs_full cachep) (lk s)
      then Inl (Panic ''cache in use'')
      else bindr (bindr (of_loop (destroy_slabs cachep s)) (\<lambda>r. r)) (\<lambda>s.
             Inr (0, on_links (list_del (cache_next cachep)) s)))"

text \<open>The size class \<^verbatim>\<open>kmalloc\<close>'s nested tests choose, as an index of \<^verbatim>\<open>generic_cachep\<close>.\<close>

definition size_class :: "u32 \<Rightarrow> nat" where
  "size_class sz =
     (if sz \<le> 32
      then if sz \<le> 8 then (if sz \<le> 4 then 0 else 1) else (if sz \<le> 16 then 2 else 3)
      else if sz \<le> 64 then 4 else 5)"

text \<open>\<^verbatim>\<open>kmalloc\<close> and \<^verbatim>\<open>kfree\<close> read the cache once more, to print its object size.\<close>

definition kmalloc :: "u32 \<Rightarrow> slab_state \<Rightarrow> (addr_t \<times> slab_state) res" where
  "kmalloc sz s =
     assertr (sz > 0 \<and> sz \<le> 128)
     (let cachep = generic_cachep s ! size_class sz in
      bindr (kmem_cache_alloc cachep s) (\<lambda>(objp, s).
      bindr (cache_at cachep s) (\<lambda>_. Inr (objp, s))))"

definition kfree :: "addr_t \<Rightarrow> slab_state \<Rightarrow> slab_state res" where
  "kfree ptr s =
     assertr (ptr \<noteq> NULL)
     (bindr (check_slab (ADDR_TO_SLAB ptr) s) (\<lambda>_.
      bindr (slab_at (ADDR_TO_SLAB ptr) s) (\<lambda>sl.
      bindr (kmem_cache_free (cache sl) ptr s) (\<lambda>s.
      bindr (cache_at (cache sl) s) (\<lambda>_. Inr s)))))"

fun create_generic :: "(string \<times> u32) list \<Rightarrow> nat \<Rightarrow> slab_state \<Rightarrow> slab_state res" where
  "create_generic [] i s = Inr s"
| "create_generic ((nm, sz) # rest) i s =
     bindr (kmem_cache_create nm sz s) (\<lambda>(cachep, s).
       create_generic rest (Suc i) (s\<lparr>generic_cachep := (generic_cachep s)[i := cachep]\<rparr>))"

definition cache_init :: "slab_state \<Rightarrow> slab_state res" where
  "cache_init s =
     create_generic [(''4 Byte'', 4), (''8 Byte'', 8), (''16 Byte'', 16), (''32 Byte'', 32),
         (''64 Byte'', 64), (''128 Byte'', 128)] 0
       (on_links (list_add (cache_next (cache_cache s)) (cache_chain s)) s)"

text \<open>What the static initialisers set up before \<^verbatim>\<open>cache_init\<close> runs.\<close>

definition static_caches :: "addr_t \<Rightarrow> addr_t \<Rightarrow> kmem \<Rightarrow> slab_state" where
  "static_caches cc chain k =
     \<lparr>km = k,
      caches = [cc \<mapsto> \<lparr>objsz = sizeof_kmem_cache, objcnt = objs_per_slab sizeof_kmem_cache,
                       ctor = None, cname = ''kmem_cache''\<rparr>],
      slabs = (\<lambda>_. None),
      lk = foldr INIT_LIST_HEAD [chain, slabs_partial cc, slabs_full cc, slabs_free cc, cache_next cc]
             \<lparr>lnext = (\<lambda>_. 0), lprev = (\<lambda>_. 0)\<rparr>,
      cache_cache = cc, cache_chain = chain, generic_cachep = replicate 6 NULL\<rparr>"

section \<open>Free lists\<close>

text \<open>\<open>chain b f xs\<close>: from \<open>f\<close> the free-list words run through the object numbers \<open>xs\<close>.\<close>

fun chain :: "(u32 \<Rightarrow> u32) \<Rightarrow> u32 \<Rightarrow> u32 list \<Rightarrow> bool" where
  "chain b f [] \<longleftrightarrow> f = BUFCTL_END"
| "chain b f (x # xs) \<longleftrightarrow> f = x \<and> x \<noteq> BUFCTL_END \<and> chain b (b x) xs"

lemma count_free_chain: "chain b f xs \<Longrightarrow> count_free b f n = Some (n + of_nat (length xs))"
  by (induction xs arbitrary: f n) (simp_all add: count_free.simps algebra_simps)

lemma chain_unique: "chain b f xs \<Longrightarrow> chain b f ys \<Longrightarrow> xs = ys"
proof (induction xs arbitrary: f ys)
  case Nil
  then show ?case by (cases ys) auto
next
  case (Cons x xs)
  then show ?case by (cases ys) auto
qed

lemma chain_upd: "x \<notin> set xs \<Longrightarrow> chain (b(x := v)) f xs = chain b f xs"
  by (induction xs arbitrary: f) auto

text \<open>What the numbering loop of \<^verbatim>\<open>_create_slab\<close> leaves: the chain 0, 1, ..., \<open>n - 1\<close>.\<close>

lemma init_bufctl_eq:
  "i + n < 2 ^ 32 \<Longrightarrow> init_bufctl n (of_nat i) b x =
    (if i \<le> unat x \<and> unat x < i + n then x + 1 else b x)"
proof (induction n arbitrary: i b)
  case (Suc n)
  have "init_bufctl (Suc n) (of_nat i) b x = init_bufctl n (of_nat (Suc i)) (b(of_nat i := of_nat i + 1)) x"
    by (simp add: add.commute)
  also have "\<dots> = (if Suc i \<le> unat x \<and> unat x < Suc i + n then x + 1 else (b(of_nat i := of_nat i + 1)) x)"
    by (rule Suc.IH) (use Suc.prems in simp)
  moreover have "x = of_nat i \<longleftrightarrow> unat x = i"
    using Suc.prems by (auto simp: unat_of_nat)
  ultimately show ?case by auto
qed auto

lemma of_nat_inj_u32: "i < 2 ^ 32 \<Longrightarrow> j < 2 ^ 32 \<Longrightarrow> (of_nat i :: u32) = of_nat j \<longleftrightarrow> i = j"
  by (metis unat_of_nat_addr)

lemma init_chain:
  assumes "i < n" "n < 2 ^ 32"
  shows "chain ((init_bufctl n 0 b)(of_nat n - 1 := BUFCTL_END)) (of_nat i) (map of_nat [i..<n])"
  using assms
proof (induction "n - i" arbitrary: i)
  case (Suc k)
  let ?b = "(init_bufctl n 0 b)(of_nat n - 1 := BUFCTL_END)"
  have last: "(of_nat n - 1 :: u32) = of_nat (n - 1)" using Suc.prems by (simp add: of_nat_diff)
  have not_end: "(of_nat i :: u32) \<noteq> BUFCTL_END"
  proof -
    have "unat (of_nat i :: u32) = i" using Suc.prems by (intro unat_of_nat_addr) simp
    then show ?thesis using Suc.prems by (auto simp: BUFCTL_END_def)
  qed
  have upt: "[i..<n] = i # [Suc i..<n]" using Suc.prems by (simp add: upt_conv_Cons)
  show ?case
  proof (cases "Suc i = n")
    case True
    then have i: "i = n - 1" by simp
    have "?b (of_nat i) = BUFCTL_END" by (simp only: last i fun_upd_same)
    moreover have "[Suc i..<n] = []" using True by simp
    ultimately show ?thesis unfolding upt using not_end by (simp only: list.map chain.simps) simp
  next
    case False
    have "?b (of_nat i) = of_nat (Suc i)"
    proof -
      have "(of_nat i :: u32) \<noteq> of_nat (n - 1)" using False Suc.prems by (subst of_nat_inj_u32) linarith+
      moreover have "init_bufctl n 0 b (of_nat i) = of_nat i + 1"
        using init_bufctl_eq [of 0 n b "of_nat i"] Suc.prems by (simp add: unat_of_nat)
      ultimately show ?thesis by (simp add: last add.commute del: of_nat_diff)
    qed
    moreover have "chain ?b (of_nat (Suc i)) (map of_nat [Suc i..<n])"
      using False Suc by (intro Suc.hyps) simp_all
    ultimately show ?thesis using upt not_end by (simp del: of_nat_Suc)
  qed
qed simp

section \<open>The state a cache represents\<close>

definition heads :: "addr_t \<Rightarrow> addr_t set" where
  "heads cp = {slabs_partial cp, slabs_full cp, slabs_free cp}"

text \<open>The list on which a slab with \<open>n\<close> free objects belongs.\<close>

definition home :: "addr_t \<Rightarrow> kmem_cache \<Rightarrow> nat \<Rightarrow> addr_t" where
  "home cp c n = (if n = 0 then slabs_full cp else if n = unat (objcnt c) then slabs_free cp
     else slabs_partial cp)"

text \<open>
  The cache's own struct: what \<^verbatim>\<open>__check_cache\<close> tests, and that its page is in use. Nothing checks
  the object size a cache was made for: it is only known that \<open>objsz + 4\<close>, by which the number of
  objects of a slab was divided, did not wrap round.
\<close>

definition cache_hdr :: "slab_state \<Rightarrow> addr_t \<Rightarrow> kmem_cache \<Rightarrow> bool" where
  "cache_hdr s cp c \<longleftrightarrow> caches s cp = Some c \<and> cp \<noteq> NULL \<and> objsz c < objsz c + 4 \<and>
     objcnt c = objs_per_slab (objsz c) \<and> pages_ok (pages (km s)) \<and>
     (\<forall>h \<in> heads cp. not_free (pages (km s)) (frame h)) \<and>
     (cp = cache_cache s \<or> (\<exists>sl. slabs s (ADDR_TO_SLAB cp) = Some sl \<and> cache sl = cache_cache s \<and>
        not_free (pages (km s)) (frame cp)))"

text \<open>The object sizes for which a slab holds at least one object and no two objects coincide.\<close>

definition usable :: "kmem_cache \<Rightarrow> bool" where
  "usable c \<longleftrightarrow> 0 < objsz c \<and> objsz c \<le> 4068"

text \<open>A slab of cache \<open>cp\<close> whose free objects are \<open>xs\<close>, in the order they will be handed out.\<close>

definition slab_rep :: "slab_state \<Rightarrow> addr_t \<Rightarrow> kmem_cache \<Rightarrow> addr_t \<Rightarrow> u32 list \<Rightarrow> bool" where
  "slab_rep s cp c sp xs \<longleftrightarrow> (\<exists>sl. slabs s sp = Some sl \<and> cache sl = cp \<and>
     sdata sl = frame sp \<and> sdata sl \<noteq> NULL \<and> sp = ADDR_TO_SLAB (frame sp) \<and>
     not_free (pages (km s)) (frame sp) \<and>
     chain (bufctl sl) (sfree sl) xs \<and> distinct xs \<and> (\<forall>x \<in> set xs. x < objcnt c) \<and>
     inuse sl + of_nat (length xs) = objcnt c)"

text \<open>\<open>L h\<close> lists the slabs on the cache's list \<open>h\<close>, \<open>F sp\<close> the free objects of slab \<open>sp\<close>.\<close>

definition cache_rep ::
  "slab_state \<Rightarrow> addr_t \<Rightarrow> kmem_cache \<Rightarrow> (addr_t \<Rightarrow> addr_t list) \<Rightarrow> (addr_t \<Rightarrow> u32 list) \<Rightarrow> bool" where
  "cache_rep s cp c L F \<longleftrightarrow> cache_hdr s cp c \<and> family dlist (lk s) (heads cp) L \<and>
     (\<forall>h \<in> heads cp. \<forall>sp \<in> set (L h). slab_rep s cp c sp (F sp) \<and> home cp c (length (F sp)) = h)"

definition all_slabs :: "addr_t \<Rightarrow> (addr_t \<Rightarrow> addr_t list) \<Rightarrow> addr_t set" where
  "all_slabs cp L = (\<Union>h \<in> heads cp. set (L h))"

definition obj_addr :: "kmem_cache \<Rightarrow> addr_t \<Rightarrow> u32 \<Rightarrow> addr_t" where
  "obj_addr c sp i = frame sp + i * objsz c"

definition live_idx :: "addr_t \<Rightarrow> kmem_cache \<Rightarrow> (addr_t \<Rightarrow> addr_t list) \<Rightarrow> (addr_t \<Rightarrow> u32 list) \<Rightarrow> (addr_t \<times> u32) set" where
  "live_idx cp c L F = {(sp, i). sp \<in> all_slabs cp L \<and> i < objcnt c \<and> i \<notin> set (F sp)}"

definition live_objs :: "addr_t \<Rightarrow> kmem_cache \<Rightarrow> (addr_t \<Rightarrow> addr_t list) \<Rightarrow> (addr_t \<Rightarrow> u32 list) \<Rightarrow> addr_t set" where
  "live_objs cp c L F = (\<lambda>(sp, i). obj_addr c sp i) ` live_idx cp c L F"

lemma live_objs_iff:
  "p \<in> live_objs cp c L F \<longleftrightarrow>
    (\<exists>sp i. p = obj_addr c sp i \<and> sp \<in> all_slabs cp L \<and> i < objcnt c \<and> i \<notin> set (F sp))"
  by (auto simp: live_objs_def live_idx_def)

lemma heads_distinct [simp]:
  "slabs_partial cp \<noteq> slabs_full cp" "slabs_partial cp \<noteq> slabs_free cp" "slabs_full cp \<noteq> slabs_free cp"
  "slabs_full cp \<noteq> slabs_partial cp" "slabs_free cp \<noteq> slabs_partial cp" "slabs_free cp \<noteq> slabs_full cp"
  by (simp_all add: slabs_partial_def slabs_full_def slabs_free_def)

lemma heads_in [simp]: "slabs_partial cp \<in> heads cp" "slabs_full cp \<in> heads cp" "slabs_free cp \<in> heads cp"
  "home cp c n \<in> heads cp"
  by (simp_all add: heads_def home_def)

section \<open>Where the objects lie\<close>

lemma unat_objs_per_slab_gen:
  assumes "sz < sz + 4"
  shows "unat (objs_per_slab sz) = 4072 div (unat sz + 4)"
proof -
  have "unat sz < unat (sz + 4)" using assms by (simp add: word_less_nat_alt)
  then have "unat (sz + 4) = unat sz + 4" by (auto simp: unat_plus_if' split: if_splits)
  then show ?thesis by (simp add: objs_per_slab_def sizeof_slab_def PAGE_SIZE_def unat_div)
qed

lemma small_no_wrap: "sz \<le> 4068 \<Longrightarrow> sz < sz + (4 :: u32)"
proof -
  assume "sz \<le> 4068"
  then have "unat sz \<le> 4068" by (simp add: word_le_nat_alt)
  then have "unat (sz + 4) = unat sz + 4" by (subst unat_plus_if') simp
  then show ?thesis by (simp add: word_less_nat_alt)
qed

lemma unat_objs_per_slab: "sz \<le> 4068 \<Longrightarrow> unat (objs_per_slab sz) = 4072 div (unat sz + 4)"
  by (intro unat_objs_per_slab_gen small_no_wrap)

lemma objs_fit:
  assumes "cache_hdr s cp c"
  shows "unat (objcnt c) * (unat (objsz c) + 4) \<le> 4072" and "unat (objcnt c) \<le> 4072"
  using assms by (simp_all add: cache_hdr_def unat_objs_per_slab_gen div_le_dividend)

lemma objcnt_zero_iff: "cache_hdr s cp c \<Longrightarrow> objcnt c = 0 \<longleftrightarrow> 4068 < objsz c"
proof -
  assume "cache_hdr s cp c"
  then have "unat (objcnt c) = 4072 div (unat (objsz c) + 4)"
    by (simp add: cache_hdr_def unat_objs_per_slab_gen)
  then have "objcnt c = 0 \<longleftrightarrow> 4072 div (unat (objsz c) + 4) = 0" by (metis unat_eq_0)
  then show ?thesis by (simp add: div_eq_0_iff word_less_nat_alt)
qed

lemma usable_iff: "cache_hdr s cp c \<Longrightarrow> usable c \<longleftrightarrow> objcnt c \<noteq> 0 \<and> objsz c \<noteq> 0"
  using objcnt_zero_iff by (auto simp: usable_def word_gt_0 not_less)

lemma obj_offset:
  assumes "cache_hdr s cp c" "i < objcnt c"
  shows "unat (i * objsz c) = unat i * unat (objsz c)"
    and "unat i * unat (objsz c) + unat (objsz c) + 4 * unat (objcnt c) \<le> 4072"
proof -
  have "Suc (unat i) \<le> unat (objcnt c)" using assms(2) by (simp add: word_less_nat_alt)
  then have "Suc (unat i) * unat (objsz c) \<le> unat (objcnt c) * unat (objsz c)" by (rule mult_le_mono1)
  then show le: "unat i * unat (objsz c) + unat (objsz c) + 4 * unat (objcnt c) \<le> 4072"
    using objs_fit(1) [OF assms(1)] by (simp add: algebra_simps)
  then show "unat (i * objsz c) = unat i * unat (objsz c)" by (simp add: unat_mult_lem [THEN iffD1])
qed

lemma obj_cell:
  assumes "cache_hdr s cp c" "i < objcnt c"
  shows "obj_addr c sp i = frame sp + of_nat (unat i * unat (objsz c))"
    and "unat i * unat (objsz c) < 4096"
proof -
  have "of_nat (unat i * unat (objsz c)) = i * objsz c" by simp
  then show "obj_addr c sp i = frame sp + of_nat (unat i * unat (objsz c))" by (simp add: obj_addr_def)
  show "unat i * unat (objsz c) < 4096" using obj_offset(2) [OF assms] by linarith
qed

lemma obj_addr_frame:
  "cache_hdr s cp c \<Longrightarrow> i < objcnt c \<Longrightarrow> frame (obj_addr c sp i) = frame sp"
  by (simp only: obj_cell) (rule frame_cell [OF frame_frame obj_cell(2)])

lemma obj_addr_eq_iff:
  assumes "cache_hdr s cp c" "usable c" "i < objcnt c" "j < objcnt c"
  shows "obj_addr c sp i = obj_addr c sp' j \<longleftrightarrow> frame sp = frame sp' \<and> i = j"
proof -
  have "obj_addr c sp i = obj_addr c sp' j \<longleftrightarrow>
      frame sp = frame sp' \<and> unat i * unat (objsz c) = unat j * unat (objsz c)"
    using assms by (simp only: obj_cell) (rule cell_eq_iff; simp add: obj_cell(2))
  then show ?thesis using assms(2) by (auto simp: usable_def word_unat_eq_iff word_gt_0)
qed

lemma obj_number:
  assumes "cache_hdr s cp c" "i < objcnt c" "objsz c \<noteq> 0"
  shows "(obj_addr c sp i - frame sp) div objsz c = i"
proof -
  have "unat ((i * objsz c) div objsz c) = unat i"
    using obj_offset(1) [OF assms(1,2)] assms(3) by (simp add: unat_div unat_gt_0)
  then show ?thesis by (simp add: obj_addr_def word_unat_eq_iff)
qed

lemma ADDR_TO_SLAB_frame: "ADDR_TO_SLAB a = frame a + 4072"
  by (simp add: ADDR_TO_SLAB_def PAGE_SIZE_def sizeof_slab_def)

lemma ADDR_TO_SLAB_cong: "frame a = frame b \<Longrightarrow> ADDR_TO_SLAB a = ADDR_TO_SLAB b"
  by (simp add: ADDR_TO_SLAB_frame)

lemma frame_slab: "frame (ADDR_TO_SLAB a) = frame a"
  using frame_cell [of "frame a" 4072] by (simp add: ADDR_TO_SLAB_frame)

lemma slab_rep_addr: "slab_rep s cp c sp xs \<Longrightarrow> sp = ADDR_TO_SLAB sp"
  by (auto simp: slab_rep_def) (metis ADDR_TO_SLAB_cong frame_frame)

section \<open>The consistency checks pass\<close>

lemma check_cache_ok: "cache_hdr s cp c \<Longrightarrow> check_cache cp s = Inr ()"
  by (auto simp: check_cache_def cache_hdr_def slab_at_def cache_at_def)

lemma page_low_bits: "frame a = a \<Longrightarrow> a AND 0xfff = 0"
proof -
  assume "frame a = a"
  then have "a AND mask 12 = (a AND NOT (mask 12)) AND mask 12" by (simp add: frame_mask)
  also have "\<dots> = 0" by (simp add: and.assoc)
  finally show ?thesis by (simp add: mask_eq_exp_minus_1)
qed

lemma check_slab_ok:
  assumes hdr: "cache_hdr s cp c" and rep: "slab_rep s cp c sp xs"
  shows "check_slab sp s = Inr ()"
proof -
  from rep obtain sl where sl: "slabs s sp = Some sl" "cache sl = cp" "sdata sl = frame sp" "sdata sl \<noteq> NULL"
    "chain (bufctl sl) (sfree sl) xs" "inuse sl + of_nat (length xs) = objcnt c"
    by (auto simp: slab_rep_def)
  have sp: "sp = frame sp + 4072" using slab_rep_addr [OF rep] by (simp add: ADDR_TO_SLAB_frame)
  have "sp \<noteq> NULL"
  proof
    assume "sp = NULL"
    with sl(3,4) show False by simp
  qed
  moreover have "(sp + sizeof_slab) AND 0xfff = 0"
  proof (rule page_low_bits)
    have "t + 4072 + sizeof_slab = t + push_bit 12 1" for t :: addr_t by (simp add: sizeof_slab_def)
    from this [of "frame sp"] have "sp + sizeof_slab = push_bit 12 (drop_bit 12 sp) + push_bit 12 1"
      by (simp only: sp [symmetric]) (simp only: frame_shift)
    also have "\<dots> = push_bit 12 (drop_bit 12 sp + 1)" by (simp only: push_bit_add)
    finally show "frame (sp + sizeof_slab) = sp + sizeof_slab" by (auto simp: frame_mask bit_eq_iff bit_simps)
  qed
  moreover have "frame sp AND 0xfff = 0" by (simp add: page_low_bits)
  moreover have "cache_at cp s = Inr c" using hdr by (simp add: cache_hdr_def cache_at_def)
  ultimately show ?thesis
    using sl check_cache_ok [OF hdr] count_free_chain [OF sl(5), of 0]
    by (simp add: check_slab_def slab_at_def add.commute)
qed

section \<open>Handing out and taking back an object\<close>

lemma cache_hdr_links [simp]: "cache_hdr (on_links f s) cp c = cache_hdr s cp c"
  by (simp add: cache_hdr_def on_links_def)

lemma slab_rep_links [simp]: "slab_rep (on_links f s) cp c sp xs = slab_rep s cp c sp xs"
  by (simp add: slab_rep_def on_links_def)

lemma cache_hdr_set_slab:
  "cache_hdr s cp c \<Longrightarrow> slabs s sp = Some sl \<Longrightarrow> cache sl' = cache sl \<Longrightarrow> cache_hdr (set_slab sp sl' s) cp c"
  by (auto simp: cache_hdr_def set_slab_def)

text \<open>
  What an operation on one cache leaves alone: all links and slabs but those of its own lists
  \<open>N\<close>, every other part of the state but pages that were free, and of every slab its cache.
\<close>

definition touches :: "addr_t set \<Rightarrow> slab_state \<Rightarrow> slab_state \<Rightarrow> bool" where
  "touches N s s' \<longleftrightarrow> caches s' = caches s \<and> cache_cache s' = cache_cache s \<and> cache_chain s' = cache_chain s \<and>
     generic_cachep s' = generic_cachep s \<and>
     (\<forall>a. a \<notin> N \<longrightarrow> lnext (lk s') a = lnext (lk s) a \<and> lprev (lk s') a = lprev (lk s) a \<and> slabs s' a = slabs s a) \<and>
     (\<forall>a sl. slabs s a = Some sl \<longrightarrow> not_free (pages (km s)) (frame a) \<longrightarrow>
       (\<exists>sl'. slabs s' a = Some sl' \<and> cache sl' = cache sl)) \<and>
     (\<forall>a. slabs s a = None \<longrightarrow> not_free (pages (km s)) (frame a) \<longrightarrow> slabs s' a = None) \<and>
     pages_ok (pages (km s')) \<and> (\<forall>t. not_free (pages (km s)) t \<longrightarrow> not_free (pages (km s')) t)"

lemma touches_trans: "touches N s s' \<Longrightarrow> touches N s' s'' \<Longrightarrow> touches N s s''"
  unfolding touches_def by (auto; metis)

lemma touches_mono: "touches N s s' \<Longrightarrow> N \<subseteq> N' \<Longrightarrow> touches N' s s'"
  unfolding touches_def by blast

lemma all_slabs_in: "h \<in> heads cp \<Longrightarrow> sp \<in> set (L h) \<Longrightarrow> sp \<in> all_slabs cp L"
  by (auto simp: all_slabs_def)

lemma cache_rep_slab:
  assumes "cache_rep s cp c L F" "sp \<in> all_slabs cp L"
  shows "slab_rep s cp c sp (F sp)"
  using assms by (auto simp: cache_rep_def all_slabs_def)

lemma free_count:
  assumes "slab_rep s cp c sp xs"
  shows "length xs \<le> unat (objcnt c)"
proof -
  from assms have xs: "distinct xs" "\<forall>x \<in> set xs. x < objcnt c" by (auto simp: slab_rep_def)
  have "distinct (map unat xs)" using xs(1) by (simp add: distinct_map inj_on_def word_unat_eq_iff)
  moreover have "set (map unat xs) \<subseteq> {..<unat (objcnt c)}" using xs(2) by (auto simp: word_less_nat_alt)
  ultimately have "card (set (map unat xs)) \<le> unat (objcnt c)" by (metis card_lessThan card_mono finite_lessThan)
  with \<open>distinct (map unat xs)\<close> show ?thesis by (metis distinct_card length_map)
qed

lemma update_slab:
  assumes rep: "cache_rep s cp c L F" and sp: "sp \<in> all_slabs cp L"
    and new: "slab_rep (set_slab sp sl' s) cp c sp xs'"
  obtains L' where "cache_rep (on_links (list_add sp (home cp c (length xs')))
      (on_links (list_del sp) (set_slab sp sl' s))) cp c L' (F(sp := xs'))"
    "all_slabs cp L' = all_slabs cp L"
    "touches (heads cp \<union> all_slabs cp L) s (on_links (list_add sp (home cp c (length xs')))
      (on_links (list_del sp) (set_slab sp sl' s)))"
proof -
  from sp obtain h ys zs where h: "h \<in> heads cp" "L h = ys @ sp # zs"
    by (auto simp: all_slabs_def dest: split_list)
  let ?h' = "home cp c (length xs')" let ?M = "L(h := ys @ zs)"
  let ?L = "?M(?h' := sp # ?M ?h')"
  let ?s = "on_links (list_add sp ?h') (on_links (list_del sp) (set_slab sp sl' s))"
  have fam: "family dlist (lk s) (heads cp) L" using rep by (simp add: cache_rep_def)
  have "family dlist (lk ?s) (heads cp) ?L"
    using dl.family_move [OF fam h(1) _ h(2) refl, of ?h'] by (simp add: on_links_def set_slab_def)
  moreover have "cache_hdr ?s cp c"
    using rep cache_rep_slab [OF rep sp] new
    by (auto simp: cache_rep_def slab_rep_def set_slab_def [of sp sl' s] intro: cache_hdr_set_slab)
      (metis cache_hdr_set_slab set_slab_def)
  moreover have "slab_rep ?s cp c sp' ((F(sp := xs')) sp') \<and> home cp c (length ((F(sp := xs')) sp')) = h''"
    if h'': "h'' \<in> heads cp" and sp': "sp' \<in> set (?L h'')" for h'' sp'
  proof (cases "sp' = sp")
    case True
    have "sp \<notin> set (?M k)" if k: "k \<in> heads cp" for k
    proof (cases "k = h")
      case True
      then show ?thesis using dl.family_head [OF fam h(1)] h(2) by (simp add: dlist_def)
    next
      case False
      then show ?thesis using dl.family_one_list [OF fam k h(1), of sp] h(2) by auto
    qed
    from this [OF h''] True sp' new show ?thesis by (auto split: if_splits)
  next
    case False
    then have "sp' \<in> set (L h'')" using sp' h(2) by (auto split: if_splits)
    with h'' rep False show ?thesis by (auto simp: cache_rep_def slab_rep_def set_slab_def on_links_def)
  qed
  ultimately have "cache_rep ?s cp c ?L (F(sp := xs'))" by (simp add: cache_rep_def)
  moreover have "all_slabs cp ?L = all_slabs cp L"
  proof -
    have "x \<in> set (L k) \<longleftrightarrow> x \<in> set (?M k) \<or> k = h \<and> x = sp" for x k using h(2) by auto
    then have "all_slabs cp ?M \<union> {sp} = all_slabs cp L" using h(1) unfolding all_slabs_def by blast
    moreover have "x \<in> set (?L k) \<longleftrightarrow> x \<in> set (?M k) \<or> k = ?h' \<and> x = sp" for x k by auto
    then have "all_slabs cp ?L = insert sp (all_slabs cp ?M)"
      using heads_in(4) [of cp c "length xs'"] unfolding all_slabs_def by blast
    ultimately show ?thesis by simp
  qed
  moreover have "touches (heads cp \<union> all_slabs cp L) s ?s"
  proof -
    let ?N = "heads cp \<union> all_slabs cp L"
    obtain sl where sl: "slabs s sp = Some sl" "cache sl = cp"
      using cache_rep_slab [OF rep sp] by (auto simp: slab_rep_def)
    have "cache sl' = cp" using new by (auto simp: slab_rep_def set_slab_def)
    moreover have "pages_ok (pages (km s))" using rep by (simp add: cache_rep_def cache_hdr_def)
    moreover have "lnext (lk ?s) a = lnext (lk s) a \<and> lprev (lk ?s) a = lprev (lk s) a" if a: "a \<notin> ?N" for a
    proof -
      let ?lk = "list_del sp (lk s)"
      have "dlist (lk s) h (L h)" using dl.family_head [OF fam h(1)] .
      moreover have sub: "set (k # L k) \<subseteq> ?N" if "k \<in> heads cp" for k
        using that unfolding all_slabs_def by auto
      moreover have "sp \<in> set (h # L h)" using h(2) by simp
      ultimately have "lnext (lk s) sp \<in> ?N" "lprev (lk s) sp \<in> ?N"
        using h(1) dlist_neighbours [of "lk s" h "L h" sp] by blast+
      then have del: "lnext ?lk a = lnext (lk s) a \<and> lprev ?lk a = lprev (lk s) a"
        using a by (intro list_del_only) auto
      have "dlist ?lk ?h' (?M ?h')"
        using dl.family_head [OF dl.family_del [OF fam h], of ?h'] by simp
      then have "lnext ?lk ?h' \<in> set (?h' # ?M ?h')" by (rule dlist_neighbours(1)) simp
      moreover have "set (?h' # ?M ?h') \<subseteq> set (?h' # L ?h')" using h(2) by auto
      ultimately have "lnext ?lk ?h' \<in> ?N" using sub [of ?h'] by auto
      then have "lnext (list_add sp ?h' ?lk) a = lnext ?lk a \<and> lprev (list_add sp ?h' ?lk) a = lprev ?lk a"
        using a sp heads_in(4) [of cp c "length xs'"] by (intro list_add_only) auto
      with del show ?thesis by (simp add: on_links_def set_slab_def)
    qed
    ultimately show ?thesis
      using sl sp by (auto simp: touches_def on_links_def set_slab_def)
  qed
  ultimately show thesis by (rule that)
qed

lemma slab_alloc_step:
  assumes rep: "cache_rep s cp c L F" and sp: "sp \<in> all_slabs cp L" and F: "F sp = x # xs"
  obtains s' L' where "slab_alloc sp s = Inr (obj_addr c sp x, s')" "cache_rep s' cp c L' (F(sp := xs))"
    "all_slabs cp L' = all_slabs cp L" "km s' = km s" "touches (heads cp \<union> all_slabs cp L) s s'"
proof -
  have hdr: "cache_hdr s cp c" using rep by (simp add: cache_rep_def)
  note srep = cache_rep_slab [OF rep sp]
  then obtain sl where sl: "slabs s sp = Some sl" "cache sl = cp" "sdata sl = frame sp"
    "chain (bufctl sl) (sfree sl) (x # xs)" "distinct (x # xs)" "inuse sl + of_nat (length (x # xs)) = objcnt c"
    unfolding slab_rep_def F by auto
  let ?sl = "sl\<lparr>sfree := bufctl sl (sfree sl), inuse := inuse sl + 1\<rparr>"
  let ?s = "on_links (list_add sp (home cp c (length xs))) (on_links (list_del sp) (set_slab sp ?sl s))"
  have "slab_rep (set_slab sp ?sl s) cp c sp xs"
    using srep sl F by (auto simp: slab_rep_def set_slab_def add.assoc)
  from update_slab [OF rep sp this] obtain L' where
    L': "cache_rep ?s cp c L' (F(sp := xs))" "all_slabs cp L' = all_slabs cp L"
      "touches (heads cp \<union> all_slabs cp L) s ?s" .
  have full: "bufctl sl x = BUFCTL_END \<longleftrightarrow> xs = []" using sl(4) by (cases xs) auto
  have "length xs < unat (objcnt c)" using free_count [OF srep] F by simp
  then have home: "home cp c (length xs) = (if xs = [] then slabs_full cp else slabs_partial cp)"
    by (simp add: home_def)
  have "cache_at cp s' = Inr c" if "caches s' = caches s" for s'
    using hdr that by (simp add: cache_hdr_def cache_at_def)
  then have run: "slab_alloc sp s = Inr (obj_addr c sp x, ?s)"
    using sl full home check_slab_ok [OF hdr srep]
    by (auto simp: slab_alloc_def slab_at_def Let_def slab_obj_def obj_addr_def on_links_def set_slab_def)
  have "km ?s = km s" by (simp add: on_links_def set_slab_def)
  then show thesis by (rule that [OF run L'(1,2) _ L'(3)])
qed

lemma slab_release_step:
  assumes rep: "cache_rep s cp c L F" and sp: "sp \<in> all_slabs cp L"
    and i: "i < objcnt c" "i \<notin> set (F sp)" and nz: "objsz c \<noteq> 0"
  obtains s' L' where "slab_release (obj_addr c sp i) s = Inr s'" "cache_rep s' cp c L' (F(sp := i # F sp))"
    "all_slabs cp L' = all_slabs cp L" "km s' = km s" "touches (heads cp \<union> all_slabs cp L) s s'"
proof -
  have hdr: "cache_hdr s cp c" using rep by (simp add: cache_rep_def)
  note srep = cache_rep_slab [OF rep sp]
  then obtain sl where sl: "slabs s sp = Some sl" "cache sl = cp" "sdata sl = frame sp"
    "chain (bufctl sl) (sfree sl) (F sp)" "inuse sl + of_nat (length (F sp)) = objcnt c"
    unfolding slab_rep_def by auto
  let ?sl = "sl\<lparr>bufctl := (bufctl sl)(i := sfree sl), sfree := i, inuse := inuse sl - 1\<rparr>"
  let ?s = "on_links (list_add sp (home cp c (length (i # F sp)))) (on_links (list_del sp) (set_slab sp ?sl s))"
  have nend: "i \<noteq> BUFCTL_END" using i(1) objs_fit(2) [OF hdr]
    by (auto simp: BUFCTL_END_def word_less_nat_alt)
  have srep': "slab_rep (set_slab sp ?sl s) cp c sp (i # F sp)"
    using srep sl i nend by (auto simp: slab_rep_def set_slab_def chain_upd algebra_simps)
  from update_slab [OF rep sp this] obtain L' where
    L': "cache_rep ?s cp c L' (F(sp := i # F sp))" "all_slabs cp L' = all_slabs cp L"
      "touches (heads cp \<union> all_slabs cp L) s ?s" .
  have le: "length (i # F sp) \<le> unat (objcnt c)" using free_count [OF srep'] .
  have "inuse sl - 1 + of_nat (length (i # F sp)) = objcnt c" using sl(5) by (simp add: algebra_simps)
  then have "inuse sl - 1 = 0 \<longleftrightarrow> of_nat (length (i # F sp)) = objcnt c" by (metis add.commute add.right_neutral add_left_cancel)
  also have "\<dots> \<longleftrightarrow> length (i # F sp) = unat (objcnt c)"
    using le unat_lt_u32 [of "objcnt c"] by (simp only: word_unat_eq_iff unat_of_nat_addr)
  finally have home: "home cp c (length (i # F sp)) = (if inuse sl - 1 = 0 then slabs_free cp else slabs_partial cp)"
    by (auto simp: home_def)
  have "ADDR_TO_SLAB (obj_addr c sp i) = sp"
    using slab_rep_addr [OF srep] ADDR_TO_SLAB_cong obj_addr_frame [OF hdr i(1)] by metis
  moreover have "cache_at cp s' = Inr c" if "caches s' = caches s" for s'
    using hdr that by (simp add: cache_hdr_def cache_at_def)
  ultimately have run: "slab_release (obj_addr c sp i) s = Inr ?s"
    using sl home check_slab_ok [OF hdr srep] obj_number [OF hdr i(1) nz] nz
    by (auto simp: slab_release_def slab_at_def Let_def)
  have "km ?s = km s" by (simp add: on_links_def set_slab_def)
  then show thesis by (rule that [OF run L'(1,2) _ L'(3)])
qed

text \<open>In a cache of objects of no bytes the division by \<^verbatim>\<open>objsz\<close> traps.\<close>

lemma slab_release_traps:
  assumes rep: "cache_rep s cp c L F" and sp: "sp \<in> all_slabs cp L" and i: "i < objcnt c" and nz: "objsz c = 0"
  shows "slab_release (obj_addr c sp i) s = Inl Bad_access"
proof -
  have hdr: "cache_hdr s cp c" using rep by (simp add: cache_rep_def)
  note srep = cache_rep_slab [OF rep sp]
  have "ADDR_TO_SLAB (obj_addr c sp i) = sp"
    using slab_rep_addr [OF srep] ADDR_TO_SLAB_cong obj_addr_frame [OF hdr i] by metis
  with srep hdr check_slab_ok [OF hdr srep] nz show ?thesis
    by (auto simp: slab_release_def slab_at_def cache_at_def slab_rep_def cache_hdr_def Let_def)
qed

section \<open>A new slab\<close>

lemma cache_hdr_page:
  assumes hdr: "cache_hdr s cp c" and fresh: "fresh_page (pages (km s)) (pages k) p"
    and s': "caches s' = caches s" "cache_cache s' = cache_cache s" "km s' = k"
      "slabs s' = (slabs s)(ADDR_TO_SLAB p := x)"
  shows "cache_hdr s' cp c"
proof -
  have pok: "pages_ok (pages (km s))" using hdr by (simp add: cache_hdr_def)
  note nf = fresh_page_not_free [OF pok fresh]
  have "ADDR_TO_SLAB cp \<noteq> ADDR_TO_SLAB p" if "not_free (pages (km s)) (frame cp)"
  proof
    assume "ADDR_TO_SLAB cp = ADDR_TO_SLAB p"
    then have "frame cp = p" by (metis frame_slab fresh_page_frame [OF fresh])
    with that fresh_page_was_free [OF fresh] show False by simp
  qed
  with hdr nf fresh_page_ok [OF pok fresh] s' show ?thesis by (auto simp: cache_hdr_def)
qed

lemma slab_rep_page:
  assumes "slab_rep s cp c sp xs" "pages_ok (pages (km s))" "fresh_page (pages (km s)) (pages k) p"
    and s': "km s' = k" "slabs s' = (slabs s)(ADDR_TO_SLAB p := x)"
  shows "slab_rep s' cp c sp xs"
proof -
  have "sp \<noteq> ADDR_TO_SLAB p"
    using assms(1) fresh_page_was_free [OF assms(3)] fresh_page_frame [OF assms(3)] frame_slab [of p]
    by (auto simp: slab_rep_def)
  with assms(1) s' fresh_page_not_free [OF assms(2,3)] show ?thesis by (auto simp: slab_rep_def)
qed

lemma create_slab_step:
  assumes rep: "cache_rep s cp c L F" and st: "0 < mem_stat (pages (km s))" and some: "objcnt c \<noteq> 0"
  obtains sp s' where "create_slab cp s = Inr (sp, s')" "sp \<notin> all_slabs cp L"
    "cache_rep s' cp c (L(slabs_free cp := sp # L (slabs_free cp)))
       (F(sp := map of_nat [0..<unat (objcnt c)]))"
    "touches (heads cp \<union> insert sp (all_slabs cp L)) s s'" "\<not> not_free (pages (km s)) (frame sp)"
    "Suc (mem_stat (pages (km s'))) = mem_stat (pages (km s))"
proof -
  have hdr: "cache_hdr s cp c" and fam: "family dlist (lk s) (heads cp) L"
    and reps: "\<And>h sp. h \<in> heads cp \<Longrightarrow> sp \<in> set (L h) \<Longrightarrow> slab_rep s cp c sp (F sp) \<and> home cp c (length (F sp)) = h"
    using rep by (auto simp: cache_rep_def)
  have pok: "pages_ok (pages (km s))" using hdr by (simp add: cache_hdr_def)
  from take_page_fresh [OF pok st] obtain p ps' where
    take: "take_page (km s) = Inr (p, (km s)\<lparr>pages := ps'\<rparr>)" and fresh: "fresh_page (pages (km s)) ps' p" .
  let ?sp = "ADDR_TO_SLAB p" let ?n = "unat (objcnt c)" let ?xs = "map of_nat [0..<unat (objcnt c)] :: u32 list"
  have n: "0 < ?n" "?n < 2 ^ 32" using objs_fit(2) [OF hdr] some by (simp_all add: unat_gt_0)
  let ?m = "\<lambda>a. if frame a = p then 0 else ram (km s) a"
  let ?k = "(km s)\<lparr>pages := ps', ram := case ctor c of None \<Rightarrow> ?m | Some f \<Rightarrow> construct ?n f (objsz c) p ?m\<rparr>"
  let ?sl = "\<lparr>cache = cp, sdata = p, inuse = 0, sfree = 0,
    bufctl = (init_bufctl ?n 0 (\<lambda>_. 0))(objcnt c - 1 := BUFCTL_END)\<rparr>"
  let ?lk = "list_add ?sp (slabs_free cp) (INIT_LIST_HEAD ?sp (lk s))"
  let ?s = "s\<lparr>km := ?k, slabs := (slabs s)(?sp \<mapsto> ?sl), lk := ?lk\<rparr>"
  have hdr': "cache_hdr ?s cp c" using fresh by (intro cache_hdr_page [OF hdr]) simp_all
  have p: "frame ?sp = p" "p \<noteq> NULL" using frame_slab [of p] fresh
    by (simp_all add: fresh_page_frame fresh_page_nonzero)
  have new: "slab_rep ?s cp c ?sp ?xs"
  proof -
    have "chain (bufctl ?sl) 0 ?xs" using init_chain [of 0 ?n] n by simp
    moreover have "distinct ?xs" using n(2) by (auto simp: distinct_map inj_on_def of_nat_inj_u32)
    moreover have "\<forall>x \<in> set ?xs. x < objcnt c" using n(2) by (auto simp: word_less_nat_alt unat_of_nat)
    moreover have "not_free (pages (km ?s)) p" using fresh_page_not_free [OF pok fresh] by simp
    ultimately show ?thesis using p by (auto simp: slab_rep_def)
  qed
  have old: "slab_rep ?s cp c sp xs" if "slab_rep s cp c sp xs" for sp xs
    using fresh by (intro slab_rep_page [OF that pok]) simp_all
  have nodes: "?sp \<notin> set (h # L h)" if h: "h \<in> heads cp" for h
  proof
    assume "?sp \<in> set (h # L h)"
    then have "not_free (pages (km s)) (frame ?sp)"
      using hdr h reps [OF h] by (auto simp: cache_hdr_def slab_rep_def)
    with p fresh_page_was_free [OF fresh] show False by simp
  qed
  have "family dlist (INIT_LIST_HEAD ?sp (lk s)) (heads cp) L"
    using fam nodes INIT_frame [of ?sp _ _ "lk s"] unfolding family_def by blast
  then have "family dlist ?lk (heads cp) (L(slabs_free cp := ?sp # L (slabs_free cp)))"
    by (rule dl.family_add) (use nodes in auto)
  moreover have notin: "?sp \<notin> all_slabs cp L" using nodes by (auto simp: all_slabs_def)
  moreover have "slab_rep ?s cp c sp ((F(?sp := ?xs)) sp) \<and> home cp c (length ((F(?sp := ?xs)) sp)) = h"
    if "h \<in> heads cp" "sp \<in> set ((L(slabs_free cp := ?sp # L (slabs_free cp))) h)" for h sp
    using that nodes [OF that(1)] reps [OF that(1), of sp] old new n(1)
    by (auto simp: home_def split: if_splits)
  ultimately have rep': "cache_rep ?s cp c (L(slabs_free cp := ?sp # L (slabs_free cp))) (F(?sp := ?xs))"
    using hdr' by (simp add: cache_rep_def)
  have touch: "touches (heads cp \<union> insert ?sp (all_slabs cp L)) s ?s"
  proof -
    let ?N = "heads cp \<union> insert ?sp (all_slabs cp L)" and ?i = "INIT_LIST_HEAD ?sp (lk s)"
    have "dlist ?i (slabs_free cp) (L (slabs_free cp))"
      using dl.family_head [OF fam heads_in(3)] nodes [OF heads_in(3)] by (simp add: INIT_frame)
    then have "lnext ?i (slabs_free cp) \<in> set (slabs_free cp # L (slabs_free cp))"
      by (rule dlist_neighbours(1)) simp
    then have nxt: "lnext ?i (slabs_free cp) \<in> ?N" using heads_in(3) [of cp] unfolding all_slabs_def by auto
    have "lnext ?lk a = lnext (lk s) a \<and> lprev ?lk a = lprev (lk s) a" if "a \<notin> ?N" for a
    proof -
      from that have "lnext ?lk a = lnext ?i a \<and> lprev ?lk a = lprev ?i a"
        using nxt by (intro list_add_only) auto
      then show ?thesis using that by (simp add: links_defs)
    qed
    then show ?thesis
      using fresh_page_ok [OF pok fresh] fresh_page_not_free [OF pok fresh] fresh_page_was_free [OF fresh] p(1)
      by (auto simp: touches_def)
  qed
  have "create_slab cp s = Inr (?sp, ?s)"
    using hdr n check_slab_ok [OF hdr' new] check_cache_ok [OF hdr]
    by (simp add: create_slab_def alloc_zeroed_page_eq [OF take fresh] Let_def cache_at_def cache_hdr_def
        on_links_def set_slab_def split: option.splits)
  moreover have "\<not> not_free (pages (km s)) (frame ?sp)" using fresh_page_was_free [OF fresh] p(1) by simp
  moreover have "Suc (mem_stat (pages (km ?s))) = mem_stat (pages (km s))" using fresh_page_stat [OF pok fresh] by simp
  ultimately show thesis using notin rep' touch by (intro that)
qed

text \<open>
  A slab of no objects: the first free-list word is 0 and its own successor, so the count of
  \<^verbatim>\<open>__check_slab\<close> never ends.
\<close>

lemma count_free_loops: "b 0 = 0 \<Longrightarrow> count_free b 0 n = None"
proof -
  define P where "P b f \<longleftrightarrow> \<not> (f = 0 \<and> b 0 = 0)" for b :: "u32 \<Rightarrow> u32" and f :: u32
  have "P b 0" if run: "count_free b 0 n = Some y" for y
  proof (rule count_free.raw_induct [OF _ run, of "\<lambda>b f _ _. P b f"])
    fix count b f n y
    assume ih: "\<And>b f n y. count b f n = Some y \<Longrightarrow> P b f"
      and body: "(if f \<noteq> BUFCTL_END then count b (b f) (n + 1) else Some n) = Some (y :: u32)"
    have "\<not> P b f \<Longrightarrow> count b 0 (n + 1) = Some y"
      using body by (auto simp: P_def BUFCTL_END_def split: if_splits)
    with ih show "P b f" by (auto simp: P_def)
  qed
  then show "b 0 = 0 \<Longrightarrow> count_free b 0 n = None" by (cases "count_free b 0 n") (auto simp: P_def)
qed

lemma create_slab_empty:
  assumes hdr: "cache_hdr s cp c" and none: "objcnt c = 0"
  shows "create_slab cp s \<noteq> Inr r"
proof
  assume "create_slab cp s = Inr r"
  moreover have "cache_at cp s = Inr c" using hdr by (simp add: cache_hdr_def cache_at_def)
  ultimately obtain sp t sd where chk: "check_slab sp t = Inr ()"
    and t: "slabs t sp = Some \<lparr>cache = cp, sdata = sd, inuse = 0, sfree = 0, bufctl = (\<lambda>_. 0)(- 1 := BUFCTL_END)\<rparr>"
    by (auto simp: create_slab_def res_Inr Let_def none set_slab_def on_links_def)
  from chk t show False
    using count_free_loops [of "(\<lambda>_. 0)(- 1 := BUFCTL_END)" 0]
    by (auto simp: check_slab_def res_Inr slab_at_def of_loop_def)
qed

end
