(* ===== verification/Slab_Pool.thy ===== *)
theory Slab_Pool imports Slab begin

text \<open>
  What a cache of the slab allocator promises its clients: a pool of live objects to which
  \<^verbatim>\<open>kmem_cache_alloc\<close> adds a new one and from which \<^verbatim>\<open>kmem_cache_free\<close> takes one away, with no two
  live objects overlapping, and the sizes of the generic caches behind \<^verbatim>\<open>kmalloc\<close>.
\<close>

section \<open>A cache as a pool of objects\<close>

text \<open>
  A cache is in order when its lists and free chains are; when it is also of a usable object size,
  its objects are a pool.
\<close>

definition cache_ok :: "addr_t \<Rightarrow> slab_state \<Rightarrow> bool" where
  "cache_ok cp s \<longleftrightarrow> (\<exists>c L F. cache_rep s cp c L F)"

definition pool_ok :: "addr_t \<Rightarrow> slab_state \<Rightarrow> bool" where
  "pool_ok cp s \<longleftrightarrow> (\<exists>c L F. cache_rep s cp c L F \<and> usable c)"

lemma cache_rep_caches: "cache_rep s cp c L F \<Longrightarrow> caches s cp = Some c"
  by (simp add: cache_rep_def cache_hdr_def)

lemma pool_ok_iff: "pool_ok cp s \<longleftrightarrow> cache_ok cp s \<and> (\<exists>c. caches s cp = Some c \<and> usable c)"
proof -
  have "c' = c" if "cache_rep s cp c L F" "caches s cp = Some c'" for c c' L F
    using cache_rep_caches [OF that(1)] that(2) by simp
  then show ?thesis unfolding pool_ok_def cache_ok_def using cache_rep_caches by blast
qed

definition live :: "addr_t \<Rightarrow> slab_state \<Rightarrow> addr_t \<Rightarrow> bool" where
  "live cp s p \<longleftrightarrow> (\<exists>c L F. cache_rep s cp c L F \<and> p \<in> live_objs cp c L F)"

lemma cache_rep_unique:
  assumes "cache_rep s cp c L F" "cache_rep s cp c' L' F'"
  shows "c' = c" "all_slabs cp L' = all_slabs cp L" "sp \<in> all_slabs cp L \<Longrightarrow> F' sp = F sp"
proof -
  show "c' = c" using assms by (simp add: cache_rep_def cache_hdr_def)
  have "L' h = L h" if "h \<in> heads cp" for h
    using assms dl.family_unique that unfolding cache_rep_def by metis
  then show eq: "all_slabs cp L' = all_slabs cp L" by (simp add: all_slabs_def)
  show "F' sp = F sp" if "sp \<in> all_slabs cp L"
    using cache_rep_slab [OF assms(1) that] cache_rep_slab [OF assms(2), unfolded eq, OF that]
    by (auto simp: slab_rep_def intro: chain_unique)
qed

lemma live_iff: "cache_rep s cp c L F \<Longrightarrow> live cp s p \<longleftrightarrow> p \<in> live_objs cp c L F"
proof
  assume rep: "cache_rep s cp c L F" and "live cp s p"
  then obtain c' L' F' where rep': "cache_rep s cp c' L' F'" and p: "p \<in> live_objs cp c' L' F'"
    by (auto simp: live_def)
  note u = cache_rep_unique [OF rep rep']
  from p obtain sp i where "p = obj_addr c' sp i" "sp \<in> all_slabs cp L'" "i < objcnt c'" "i \<notin> set (F' sp)"
    by (auto simp: live_objs_iff)
  with u show "p \<in> live_objs cp c L F" by (auto simp: live_objs_iff)
qed (auto simp: live_def)

text \<open>The nodes of a cache: its list heads and its slabs. What an operation on a cache changes.\<close>

definition footprint :: "addr_t \<Rightarrow> slab_state \<Rightarrow> addr_t set" where
  "footprint cp s = {a. \<exists>c L F. cache_rep s cp c L F \<and> a \<in> heads cp \<union> all_slabs cp L}"

lemma footprint_eq: "cache_rep s cp c L F \<Longrightarrow> footprint cp s = heads cp \<union> all_slabs cp L"
  using cache_rep_unique(2) unfolding footprint_def by blast

definition cache_step :: "addr_t \<Rightarrow> slab_state \<Rightarrow> slab_state \<Rightarrow> bool" where
  "cache_step cp s s' \<longleftrightarrow> touches (footprint cp s') s s' \<and>
     (\<forall>a \<in> footprint cp s'. a \<in> footprint cp s \<or> \<not> not_free (pages (km s)) (frame a))"

lemma live_objs_take:
  assumes sp: "sp \<in> all_slabs cp L" and L': "all_slabs cp L' = all_slabs cp L"
    and i: "i < objcnt c" "i \<notin> set xs" and F: "F sp = i # xs"
  shows "live_objs cp c L' (F(sp := xs)) = insert (obj_addr c sp i) (live_objs cp c L F)"
proof -
  have "live_idx cp c L' (F(sp := xs)) = insert (sp, i) (live_idx cp c L F)"
    using sp i F unfolding live_idx_def L' by (auto split: if_splits)
  then show ?thesis by (simp add: live_objs_def)
qed

lemma live_objs_give:
  assumes rep: "cache_rep s cp c L F" and us: "usable c"
    and sp: "sp \<in> all_slabs cp L" and L': "all_slabs cp L' = all_slabs cp L"
    and i: "i < objcnt c" "i \<notin> set (F sp)"
  shows "live_objs cp c L' (F(sp := i # F sp)) = live_objs cp c L F - {obj_addr c sp i}"
proof -
  have hdr: "cache_hdr s cp c" using rep by (simp add: cache_rep_def)
  have inj: "inj_on (\<lambda>(sp, i). obj_addr c sp i) (all_slabs cp L \<times> {i. i < objcnt c})"
  proof (rule inj_onI, clarify)
    fix sp i sp' j assume "obj_addr c sp i = obj_addr c sp' j" "i < objcnt c" "j < objcnt c"
      "sp \<in> all_slabs cp L" "sp' \<in> all_slabs cp L"
    then show "sp = sp' \<and> i = j"
      using obj_addr_eq_iff [OF hdr us] slab_rep_addr [OF cache_rep_slab [OF rep]] ADDR_TO_SLAB_cong by metis
  qed
  have "live_idx cp c L' (F(sp := i # F sp)) = live_idx cp c L F - {(sp, i)}"
    using sp i unfolding live_idx_def L' by (auto split: if_splits)
  moreover have "(\<lambda>(sp, i). obj_addr c sp i) ` (live_idx cp c L F - {(sp, i)}) =
      (\<lambda>(sp, i). obj_addr c sp i) ` live_idx cp c L F - (\<lambda>(sp, i). obj_addr c sp i) ` {(sp, i)}"
    by (rule inj_on_image_set_diff [OF inj]) (use sp i in \<open>auto simp: live_idx_def\<close>)
  ultimately show ?thesis by (simp add: live_objs_def)
qed

lemma set_of_nats: "set (map of_nat [0..<unat n]) = {i. i < (n :: u32)}"
proof (intro equalityI subsetI)
  fix i assume "i \<in> {i. i < n}"
  then have "unat i \<in> set [0..<unat n]" by (simp add: word_less_nat_alt)
  then show "i \<in> set (map of_nat [0..<unat n])" by force
next
  fix i assume "i \<in> set (map of_nat [0..<unat n] :: u32 list)"
  then obtain k where "k < unat n" "i = of_nat k" by auto
  with unat_lt_u32 [of n] show "i \<in> {i. i < n}" by (simp add: word_less_nat_alt unat_of_nat)
qed

lemma all_slabs_cons: "all_slabs cp (L(slabs_free cp := sp # L (slabs_free cp))) = insert sp (all_slabs cp L)"
proof -
  have "x \<in> set ((L(slabs_free cp := sp # L (slabs_free cp))) k) \<longleftrightarrow> x \<in> set (L k) \<or> k = slabs_free cp \<and> x = sp"
    for x k by auto
  then show ?thesis using heads_in(3) [of cp] unfolding all_slabs_def by blast
qed

lemma live_objs_new:
  assumes "sp \<notin> all_slabs cp L" "set xs = {i. i < objcnt c}"
  shows "live_objs cp c (L(slabs_free cp := sp # L (slabs_free cp))) (F(sp := xs)) = live_objs cp c L F"
proof -
  note all = all_slabs_cons [of cp L sp]
  have "(sp', j) \<in> live_idx cp c (L(slabs_free cp := sp # L (slabs_free cp))) (F(sp := xs)) \<longleftrightarrow>
      (sp', j) \<in> live_idx cp c L F" for sp' j
    using assms unfolding live_idx_def all by (cases "sp' = sp") simp_all
  then show ?thesis unfolding live_objs_def by (intro arg_cong [where f = "image _"]) auto
qed

lemma live_not_free:
  assumes rep: "cache_rep s cp c L F" and us: "usable c" and sp: "sp \<in> all_slabs cp L" and i: "i \<in> set (F sp)"
  shows "obj_addr c sp i \<notin> live_objs cp c L F"
proof
  assume "obj_addr c sp i \<in> live_objs cp c L F"
  then obtain sp' j where j: "obj_addr c sp i = obj_addr c sp' j" "sp' \<in> all_slabs cp L" "j < objcnt c" "j \<notin> set (F sp')"
    by (auto simp: live_objs_iff)
  have hdr: "cache_hdr s cp c" using rep by (simp add: cache_rep_def)
  have "i < objcnt c" using cache_rep_slab [OF rep sp] i by (auto simp: slab_rep_def)
  with j have "frame sp = frame sp'" "i = j" using obj_addr_eq_iff [OF hdr us] by auto
  then have "sp = sp'" using slab_rep_addr [OF cache_rep_slab [OF rep sp]]
    slab_rep_addr [OF cache_rep_slab [OF rep j(2)]] ADDR_TO_SLAB_cong by metis
  with i j \<open>i = j\<close> show False by simp
qed

text \<open>One slab allocation and one release, on the pool.\<close>

lemma slab_alloc_pool:
  assumes rep: "cache_rep s cp c L F" and sp: "sp \<in> all_slabs cp L" and F: "F sp \<noteq> []"
  obtains p s' where "slab_alloc sp s = Inr (p, s')" "cache_ok cp s'" "usable c \<Longrightarrow> \<not> live cp s p"
    "\<And>q. live cp s' q \<longleftrightarrow> live cp s q \<or> q = p" "km s' = km s" "cache_step cp s s'" "footprint cp s' = footprint cp s"
proof -
  from F obtain x xs where F: "F sp = x # xs" by (cases "F sp") auto
  from slab_alloc_step [OF rep sp F] obtain s' L' where
    run: "slab_alloc sp s = Inr (obj_addr c sp x, s')" and rep': "cache_rep s' cp c L' (F(sp := xs))"
    and L': "all_slabs cp L' = all_slabs cp L" and km: "km s' = km s"
    and t: "touches (heads cp \<union> all_slabs cp L) s s'" by metis
  have x: "x < objcnt c" "x \<notin> set xs" using cache_rep_slab [OF rep sp] F by (auto simp: slab_rep_def)
  have "\<not> live cp s (obj_addr c sp x)" if "usable c"
    using live_not_free [OF rep that sp, of x] F by (simp add: live_iff [OF rep])
  moreover have "live cp s' q \<longleftrightarrow> live cp s q \<or> q = obj_addr c sp x" for q
    using live_objs_take [where F = F, OF sp L' x F] by (auto simp: live_iff [OF rep] live_iff [OF rep'])
  moreover have "cache_ok cp s'" using rep' by (auto simp: cache_ok_def)
  moreover have fp: "footprint cp s' = footprint cp s" using L' by (simp add: footprint_eq [OF rep] footprint_eq [OF rep'])
  moreover have "cache_step cp s s'" using t by (simp add: cache_step_def fp) (simp add: footprint_eq [OF rep])
  ultimately show thesis using run km that by blast
qed

lemma home_nonempty: "n = 0 \<Longrightarrow> home cp c n = slabs_full cp"
  by (simp add: home_def)

lemma front_slab:
  assumes rep: "cache_rep s cp c L F" and h: "h \<in> heads cp" "h \<noteq> slabs_full cp" "\<not> list_empty h (lk s)"
  shows "lnext (lk s) h \<in> all_slabs cp L" and "F (lnext (lk s) h) \<noteq> []"
proof -
  have "dlist (lk s) h (L h)" using rep h(1) dl.family_head unfolding cache_rep_def by metis
  moreover from this h(3) obtain sp rest where L: "L h = sp # rest" by (cases "L h") (auto simp: dlist_empty_iff)
  ultimately have sp: "lnext (lk s) h = sp" by (simp add: dlist_first)
  show "lnext (lk s) h \<in> all_slabs cp L" using L h(1) by (intro all_slabs_in [OF h(1)]) (simp add: sp)
  have "home cp c (length (F sp)) = h" using rep L h(1) by (simp add: cache_rep_def)
  with h(2) show "F (lnext (lk s) h) \<noteq> []" by (auto simp: sp home_def)
qed

lemma alloc_page_none: "pages_ok s \<Longrightarrow> mem_stat s = 0 \<Longrightarrow> alloc_pages 0 s = Inl (Panic ''out of memory'')"
proof -
  assume ok: "pages_ok s" and "mem_stat s = 0"
  then have "0 \<notin> set (mem_map s)" by (auto simp: mem_stat_def filter_empty_conv)
  then have "first_run (mem_map s) 1 = None" by (auto simp: first_run_def run_at_def in_set_conv_nth)
  then show ?thesis using alloc_pages_eq [OF ok, of 0] by simp
qed

text \<open>
  Allocation from a cache: an object, or a panic when every slab and every page is taken, or, when
  no object fits into a slab, no return at all.
\<close>

lemma cache_alloc_cases:
  assumes ok: "cache_ok cp s"
  obtains (object) p s' where "kmem_cache_alloc cp s = Inr (p, s')" "cache_ok cp s'" "pool_ok cp s \<Longrightarrow> \<not> live cp s p"
      "\<And>q. live cp s' q \<longleftrightarrow> live cp s q \<or> q = p" "cache_step cp s s'"
      "mem_stat (pages (km s)) \<le> Suc (mem_stat (pages (km s')))"
    | (none) "kmem_cache_alloc cp s = Inl (Panic ''out of memory'')" "mem_stat (pages (km s)) = 0"
      "list_empty (slabs_partial cp) (lk s)" "list_empty (slabs_free cp) (lk s)"
    | (never) "\<not> pool_ok cp s" "\<And>r. kmem_cache_alloc cp s \<noteq> Inr r"
proof -
  from ok obtain c L F where rep: "cache_rep s cp c L F" by (auto simp: cache_ok_def)
  have hdr: "cache_hdr s cp c" using rep by (simp add: cache_rep_def)
  have us: "pool_ok cp s \<longleftrightarrow> usable c" using ok by (simp add: pool_ok_iff cache_rep_caches [OF rep])
  note chk = check_cache_ok [OF hdr]
  show thesis
  proof (cases "list_empty (slabs_partial cp) (lk s) \<and> list_empty (slabs_free cp) (lk s)")
    case False
    then obtain h where h: "h \<in> heads cp" "h \<noteq> slabs_full cp" "\<not> list_empty h (lk s)"
      and run: "kmem_cache_alloc cp s = slab_alloc (lnext (lk s) h) s"
      using that [of "slabs_free cp"] that [of "slabs_partial cp"] chk
      by (cases "list_empty (slabs_partial cp) (lk s)") (auto simp: kmem_cache_alloc_def)
    from slab_alloc_pool [OF rep front_slab [OF rep h]] obtain p s' where
      "slab_alloc (lnext (lk s) h) s = Inr (p, s')" "cache_ok cp s'" "usable c \<Longrightarrow> \<not> live cp s p"
      "\<And>q. live cp s' q \<longleftrightarrow> live cp s q \<or> q = p" "km s' = km s" "cache_step cp s s'" by metis
    then show thesis by (intro object [of p s']) (simp_all add: run us)
  next
    case True
    then have run: "kmem_cache_alloc cp s = bindr (create_slab cp s) (\<lambda>(sp, s). slab_alloc sp s)"
      using chk by (simp add: kmem_cache_alloc_def)
    consider "mem_stat (pages (km s)) = 0" | "objcnt c = 0" | "0 < mem_stat (pages (km s))" "objcnt c \<noteq> 0" by blast
    then show thesis
    proof cases
      case 1
      then have "alloc_pages 0 (pages (km s)) = Inl (Panic ''out of memory'')"
        using hdr by (intro alloc_page_none) (simp_all add: cache_hdr_def)
      with 1 True show thesis
        by (intro none) (simp_all add: run create_slab_def chk alloc_zeroed_page_def)
    next
      case 2
      then show thesis
        using create_slab_empty [OF hdr] usable_iff [OF hdr] us by (intro never) (auto simp: run res_Inr)
    next
      case st: 3
      let ?xs = "map of_nat [0..<unat (objcnt c)] :: u32 list"
      from create_slab_step [OF rep st] obtain sp s1 where
        cr: "create_slab cp s = Inr (sp, s1)" "sp \<notin> all_slabs cp L"
        and rep1: "cache_rep s1 cp c (L(slabs_free cp := sp # L (slabs_free cp))) (F(sp := ?xs))"
        and t1: "touches (heads cp \<union> insert sp (all_slabs cp L)) s s1" "\<not> not_free (pages (km s)) (frame sp)"
          "Suc (mem_stat (pages (km s1))) = mem_stat (pages (km s))" by metis
      have "set ?xs = {i. i < objcnt c}" by (rule set_of_nats)
      then have same: "live cp s1 q = live cp s q" for q
        using live_objs_new [OF cr(2)] by (simp add: live_iff [OF rep] live_iff [OF rep1])
      have "sp \<in> all_slabs cp (L(slabs_free cp := sp # L (slabs_free cp)))"
        by (rule all_slabs_in [OF heads_in(3)]) simp
      moreover have "?xs \<noteq> []" using st(2) by (simp add: unat_eq_0)
      ultimately obtain p s' where "slab_alloc sp s1 = Inr (p, s')" "cache_ok cp s'" "usable c \<Longrightarrow> \<not> live cp s1 p"
        "\<And>q. live cp s' q \<longleftrightarrow> live cp s1 q \<or> q = p" and km: "km s' = km s1"
        and step: "cache_step cp s1 s'" "footprint cp s' = footprint cp s1"
        using slab_alloc_pool [OF rep1, of sp] by auto
      moreover have "footprint cp s1 = heads cp \<union> insert sp (all_slabs cp L)"
        by (simp add: footprint_eq [OF rep1] all_slabs_cons)
      then have "cache_step cp s s'"
        using step t1(1,2) footprint_eq [OF rep] unfolding cache_step_def by (auto intro: touches_trans)
      ultimately show thesis using t1(3) by (intro object [of p s']) (simp_all add: run cr same us)
    qed
  qed
qed

lemma step_keeps_pool: "cache_step cp s s' \<Longrightarrow> cache_ok cp s' \<Longrightarrow> pool_ok cp s \<Longrightarrow> pool_ok cp s'"
  by (simp add: pool_ok_iff cache_step_def touches_def)

lemma pool_ok_cache: "pool_ok cp s \<Longrightarrow> cache_ok cp s"
  by (simp add: pool_ok_iff)

lemma kmem_cache_alloc_cases:
  assumes ok: "pool_ok cp s"
  obtains (object) p s' where "kmem_cache_alloc cp s = Inr (p, s')" "pool_ok cp s'" "\<not> live cp s p"
      "\<And>q. live cp s' q \<longleftrightarrow> live cp s q \<or> q = p" "cache_step cp s s'"
      "mem_stat (pages (km s)) \<le> Suc (mem_stat (pages (km s')))"
    | (none) "kmem_cache_alloc cp s = Inl (Panic ''out of memory'')" "mem_stat (pages (km s)) = 0"
      "list_empty (slabs_partial cp) (lk s)" "list_empty (slabs_free cp) (lk s)"
  using pool_ok_cache [OF ok]
proof (cases rule: cache_alloc_cases)
  case (object p s')
  with ok show thesis using step_keeps_pool by (intro that(1) [of p s']) auto
next
  case none
  then show thesis by (rule that(2))
next
  case never
  with ok show thesis by simp
qed

lemma kmem_cache_free_pool:
  assumes ok: "pool_ok cp s" and p: "live cp s p"
  obtains s' where "kmem_cache_free cp p s = Inr s'" "pool_ok cp s'" "km s' = km s"
    "\<And>q. live cp s' q \<longleftrightarrow> live cp s q \<and> q \<noteq> p" "cache_step cp s s'"
proof -
  from ok obtain c L F where rep: "cache_rep s cp c L F" and us: "usable c" by (auto simp: pool_ok_def)
  have hdr: "cache_hdr s cp c" using rep by (simp add: cache_rep_def)
  from p obtain sp i where p: "p = obj_addr c sp i" and sp: "sp \<in> all_slabs cp L"
    and i: "i < objcnt c" "i \<notin> set (F sp)" by (auto simp: live_iff [OF rep] live_objs_iff)
  have "objsz c \<noteq> 0" using us by (auto simp: usable_def)
  from slab_release_step [OF rep sp i this] obtain s' L' where run: "slab_release p s = Inr s'"
    and rep': "cache_rep s' cp c L' (F(sp := i # F sp))" and L': "all_slabs cp L' = all_slabs cp L"
    and km: "km s' = km s" and t: "touches (heads cp \<union> all_slabs cp L) s s'" unfolding p by metis
  have "p \<noteq> NULL"
    using obj_addr_frame [OF hdr i(1), of sp] cache_rep_slab [OF rep sp] by (auto simp: p slab_rep_def)
  then have "kmem_cache_free cp p s = Inr s'" using hdr run by (simp add: kmem_cache_free_def cache_hdr_def)
  moreover have "live cp s' q \<longleftrightarrow> live cp s q \<and> q \<noteq> p" for q
    using live_objs_give [OF rep us sp L' i] by (simp add: live_iff [OF rep] live_iff [OF rep'] p)
  moreover have "pool_ok cp s'" using rep' us by (auto simp: pool_ok_def)
  moreover have "cache_step cp s s'"
    using t L' by (simp add: cache_step_def footprint_eq [OF rep] footprint_eq [OF rep'])
  ultimately show thesis using km that by blast
qed

text \<open>What becomes of the other sizes: objects of no bytes, and objects that fit into no slab.\<close>

lemma flat_cache:
  assumes ok: "cache_ok cp s" and c: "caches s cp = Some c" "objsz c = 0" and p: "live cp s p"
  shows "frame p = p" and "kmem_cache_free cp p s = Inl Bad_access"
proof -
  from ok obtain L F where rep: "cache_rep s cp c L F" using c(1)
    by (metis cache_ok_def cache_rep_caches option.inject)
  have hdr: "cache_hdr s cp c" using rep by (simp add: cache_rep_def)
  from p obtain sp i where p: "p = obj_addr c sp i" and sp: "sp \<in> all_slabs cp L"
    and i: "i < objcnt c" by (auto simp: live_iff [OF rep] live_objs_iff)
  show "frame p = p" using c(2) by (simp add: p obj_addr_def)
  have "p \<noteq> NULL"
    using obj_addr_frame [OF hdr i, of sp] cache_rep_slab [OF rep sp] by (auto simp: p slab_rep_def)
  with slab_release_traps [OF rep sp i c(2)] hdr show "kmem_cache_free cp p s = Inl Bad_access"
    by (simp add: kmem_cache_free_def cache_hdr_def p)
qed

lemma slabless_cache:
  assumes ok: "cache_ok cp s" and c: "caches s cp = Some c" "objcnt c = 0"
  shows "\<not> live cp s p" and "kmem_cache_alloc cp s \<noteq> Inr r"
proof -
  have none: "\<not> live cp t q" if t: "caches t cp = Some c" for t q
  proof
    assume "live cp t q"
    then obtain c' L F i where "cache_rep t cp c' L F" "i < objcnt c'" by (auto simp: live_def live_objs_iff)
    with cache_rep_caches [of t cp c' L F] t c(2) show False by simp
  qed
  show "\<not> live cp s p" by (rule none [OF c(1)])
  have "caches t cp = Some c" if "cache_step cp s t" for t using that c(1) by (simp add: cache_step_def touches_def)
  then show "kmem_cache_alloc cp s \<noteq> Inr r" using none by (cases rule: cache_alloc_cases [OF ok]) (blast, simp_all)
qed

lemma live_nonnull: "live cp s p \<Longrightarrow> p \<noteq> NULL"
proof -
  assume "live cp s p"
  then obtain c L F sp i where rep: "cache_rep s cp c L F" and p: "p = obj_addr c sp i"
    and sp: "sp \<in> all_slabs cp L" "i < objcnt c" by (auto simp: live_def live_objs_iff)
  then have "frame p = frame sp" by (auto simp: cache_rep_def intro: obj_addr_frame)
  then show "p \<noteq> NULL" using cache_rep_slab [OF rep sp(1)] by (auto simp: slab_rep_def)
qed

text \<open>A cache is a source of objects under the contract the page allocator satisfies for pages.\<close>

interpretation objs: resource_pool "kmem_cache_alloc cp" "kmem_cache_free cp" "live cp" "pool_ok cp"
proof unfold_locales
  fix s p s' q
  assume ok: "pool_ok cp s" and run: "kmem_cache_alloc cp s = Inr (p, s')"
  from ok obtain "pool_ok cp s'" "\<not> live cp s p" and l: "\<And>q. live cp s' q \<longleftrightarrow> live cp s q \<or> q = p"
    using run by (cases rule: kmem_cache_alloc_cases [of cp s]) auto
  then show "pool_ok cp s'" "p \<noteq> 0 \<and> \<not> live cp s p \<and> live cp s' p" using live_nonnull [of cp s' p] by auto
  show "q \<noteq> p \<Longrightarrow> live cp s' q = live cp s q" using l by simp
next
  fix s p s' q
  assume "pool_ok cp s" "live cp s p" and run: "kmem_cache_free cp p s = Inr s'"
  then have l: "live cp s' q \<longleftrightarrow> live cp s q \<and> q \<noteq> p" for q
    using kmem_cache_free_pool [of cp s p] by (metis sum.inject(2))
  then show "\<not> live cp s' p" "q \<noteq> p \<Longrightarrow> live cp s' q = live cp s q" by simp_all
qed

section \<open>Properties of a cache\<close>

text \<open>The state the static initialisers leave, on a machine with free memory.\<close>

definition boot_caches :: slab_state where
  "boot_caches = static_caches 0x5000 0x5100 bare_kmem"

lemma low_not_free: "p < LOW_MEM \<Longrightarrow> not_free ps p"
proof -
  assume "p < LOW_MEM"
  then have "p \<noteq> page_addr i" if "i < NR_PAGES" for i
    using page_addr_ge [of i] that by auto
  then show ?thesis by (auto simp: not_free_def)
qed

lemma boot_caches_rep:
  "cache_rep boot_caches 0x5000 \<lparr>objsz = 48, objcnt = objs_per_slab 48, ctor = None, cname = ''kmem_cache''\<rparr>
     (\<lambda>_. []) (\<lambda>_. [])"
proof -
  have "frame h < LOW_MEM" if "h \<in> heads 0x5000" for h
    using that by (auto simp: heads_def slabs_partial_def slabs_full_def slabs_free_def frame_def LOW_MEM_def
      simp del: frame_const)
  then have nf: "not_free ps (frame h)" if "h \<in> heads 0x5000" for h ps
    using that low_not_free by blast
  have "pages_ok (pages (km boot_caches))"
    using bare_kmem_ok(1) by (simp add: boot_caches_def static_caches_def vm_ok_def)
  with nf have "cache_hdr boot_caches 0x5000
      \<lparr>objsz = 48, objcnt = objs_per_slab 48, ctor = None, cname = ''kmem_cache''\<rparr>"
    by (simp add: cache_hdr_def boot_caches_def static_caches_def sizeof_kmem_cache_def)
  moreover have "family dlist (lk boot_caches) (heads 0x5000) (\<lambda>_. [])"
    by (simp add: family_def heads_def dlist_def boot_caches_def static_caches_def links_defs
        slabs_partial_def slabs_full_def slabs_free_def cache_next_def)
  ultimately show ?thesis by (simp add: cache_rep_def)
qed

lemma usable_48: "usable \<lparr>objsz = 48, objcnt = n, ctor = f, cname = nm\<rparr>"
  by (simp add: usable_def)

lemma boot_pool: "pool_ok 0x5000 boot_caches" "0 < mem_stat (pages (km boot_caches))"
  "cache_cache boot_caches = 0x5000"
proof -
  show "pool_ok 0x5000 boot_caches" using boot_caches_rep usable_48 unfolding pool_ok_def by blast
qed (use bare_kmem_ok(2) in \<open>simp_all add: boot_caches_def static_caches_def\<close>)

text \<open>
  C7: on a cache of objects of 4 to 4068 bytes whose lists and free chains are in order,
  \<^verbatim>\<open>kmem_cache_alloc\<close> either hands out an
  object that was not live, after which exactly this object has joined the live ones and the
  cache is in order again, or panics for lack of memory, and that only when no slab has a free
  object and the page allocator has no page left.
\<close>

theorem kmem_cache_alloc_refines:
  assumes "pool_ok cp s"
  shows "(\<exists>p s'. kmem_cache_alloc cp s = Inr (p, s') \<and> pool_ok cp s' \<and> \<not> live cp s p \<and>
      {q. live cp s' q} = insert p {q. live cp s q}) \<or>
    (kmem_cache_alloc cp s = Inl (Panic ''out of memory'') \<and> mem_stat (pages (km s)) = 0 \<and>
      list_empty (slabs_partial cp) (lk s) \<and> list_empty (slabs_free cp) (lk s))"
  using assms by (cases rule: kmem_cache_alloc_cases) auto

theorem kmem_cache_alloc_refines_witness:
  "\<exists>p s'. kmem_cache_alloc 0x5000 boot_caches = Inr (p, s') \<and> pool_ok 0x5000 s'"
  using kmem_cache_alloc_refines [OF boot_pool(1)] boot_pool(2) by auto

text \<open>
  C10: releasing a live object of such a cache always succeeds, leaves the cache in order and takes exactly this
  object out of the live ones; no page goes back to the page allocator.
\<close>

theorem kmem_cache_free_refines:
  assumes "pool_ok cp s" and "live cp s p"
  shows "\<exists>s'. kmem_cache_free cp p s = Inr s' \<and> pool_ok cp s' \<and> km s' = km s \<and>
    {q. live cp s' q} = {q. live cp s q} - {p}"
proof -
  from kmem_cache_free_pool [OF assms] obtain s' where "kmem_cache_free cp p s = Inr s'" "pool_ok cp s'"
    "km s' = km s" "\<And>q. live cp s' q \<longleftrightarrow> live cp s q \<and> q \<noteq> p" by metis
  then show ?thesis by auto
qed

theorem kmem_cache_free_refines_witness:
  "\<exists>s p s'. live 0x5000 s p \<and> kmem_cache_free 0x5000 p s = Inr s' \<and> \<not> live 0x5000 s' p"
proof (rule kmem_cache_alloc_cases [OF boot_pool(1)])
  fix p s' assume "pool_ok 0x5000 s'" "\<And>q. live 0x5000 s' q \<longleftrightarrow> live 0x5000 boot_caches q \<or> q = p"
  then have "pool_ok 0x5000 s'" "live 0x5000 s' p" by simp_all
  with kmem_cache_free_refines [OF this] show ?thesis by blast
next
  assume "mem_stat (pages (km boot_caches)) = 0"
  with boot_pool(2) show ?thesis by simp
qed

lemma live_slab:
  assumes "live cp s p"
  obtains sl where "slabs s (ADDR_TO_SLAB p) = Some sl" "cache sl = cp" "check_slab (ADDR_TO_SLAB p) s = Inr ()"
proof -
  from assms obtain c L F sp i where rep: "cache_rep s cp c L F" and p: "p = obj_addr c sp i"
    and sp: "sp \<in> all_slabs cp L" and i: "i < objcnt c" by (auto simp: live_def live_objs_iff)
  then have hdr: "cache_hdr s cp c" by (simp add: cache_rep_def)
  note srep = cache_rep_slab [OF rep sp]
  have "ADDR_TO_SLAB p = sp" unfolding p
    using slab_rep_addr [OF srep] ADDR_TO_SLAB_cong obj_addr_frame [OF hdr i] by metis
  with srep check_slab_ok [OF hdr srep] that show thesis by (auto simp: slab_rep_def)
qed

lemma live_in_page:
  assumes "live cp s p"
  obtains c sp i where "caches s cp = Some c" "cache_hdr s cp c" "p = obj_addr c sp i" "i < objcnt c"
    "unat p = unat (frame sp) + unat i * unat (objsz c)"
    "unat i * unat (objsz c) + unat (objsz c) + 4 * unat (objcnt c) \<le> 4072"
proof -
  from assms obtain c L F sp i where rep: "cache_rep s cp c L F" and p: "p = obj_addr c sp i"
    and i: "i < objcnt c" by (auto simp: live_def live_objs_iff)
  from rep have hdr: "cache_hdr s cp c" by (simp add: cache_rep_def)
  have "unat p = unat (frame sp) + unat i * unat (objsz c)"
    unfolding p obj_cell(1) [OF hdr i] using obj_cell(2) [OF hdr i] by (intro unat_cell) simp_all
  with hdr p i obj_offset(2) [OF hdr i] show thesis by (intro that) (auto simp: cache_hdr_def)
qed

text \<open>
  C34: live objects do not overlap one another, whether they belong to one cache or to two, nor the
  free-list words and the \<^verbatim>\<open>struct slab\<close> at the end of their page.
\<close>

theorem live_objects_disjoint:
  assumes "live cp s p" and "live cq s q" and "cp \<noteq> cq \<or> p \<noteq> q"
  shows "\<exists>c d. caches s cp = Some c \<and> caches s cq = Some d \<and>
    (unat p + unat (objsz c) \<le> unat q \<or> unat q + unat (objsz d) \<le> unat p) \<and>
    unat (p - frame p) + unat (objsz c) \<le> 4096 - 24 - 4 * unat (objcnt c)"
proof -
  from live_in_page [OF assms(1)] obtain c sp i where c: "caches s cp = Some c" "cache_hdr s cp c"
    and p: "p = obj_addr c sp i" "i < objcnt c" "unat p = unat (frame sp) + unat i * unat (objsz c)"
      "unat i * unat (objsz c) + unat (objsz c) + 4 * unat (objcnt c) \<le> 4072" .
  from live_in_page [OF assms(2)] obtain d sq j where d: "caches s cq = Some d" "cache_hdr s cq d"
    and q: "q = obj_addr d sq j" "j < objcnt d" "unat q = unat (frame sq) + unat j * unat (objsz d)"
      "unat j * unat (objsz d) + unat (objsz d) + 4 * unat (objcnt d) \<le> 4072" .
  have "unat p + unat (objsz c) \<le> unat q \<or> unat q + unat (objsz d) \<le> unat p"
  proof (cases "frame sp = frame sq")
    case True
    then have "ADDR_TO_SLAB p = ADDR_TO_SLAB q"
      using obj_addr_frame [OF c(2) p(2)] obj_addr_frame [OF d(2) q(2)] p(1) q(1) by (intro ADDR_TO_SLAB_cong) simp
    then have "cp = cq" using live_slab [OF assms(1)] live_slab [OF assms(2)] by (metis option.inject)
    then have cd: "d = c" using c(1) d(1) by simp
    with True assms(3) \<open>cp = cq\<close> p(1) q(1) have "i \<noteq> j" by (auto simp: obj_addr_def)
    then have "unat i \<noteq> unat j" by (metis word_unat_eq_iff)
    then have "Suc (unat i) \<le> unat j \<or> Suc (unat j) \<le> unat i" by linarith
    then have "Suc (unat i) * unat (objsz c) \<le> unat j * unat (objsz c) \<or>
        Suc (unat j) * unat (objsz c) \<le> unat i * unat (objsz c)" 
      using mult_le_mono1 [of "Suc (unat i)" "unat j"] mult_le_mono1 [of "Suc (unat j)" "unat i"] by blast
    with True p(3) q(3) cd show ?thesis by auto
  next
    case False
    then have "unat (frame sp) div 4096 \<noteq> unat (frame sq) div 4096"
      by (auto simp: unat_frame word_unat_eq_iff)
    then have "unat (frame sp) + 4096 \<le> unat (frame sq) \<or> unat (frame sq) + 4096 \<le> unat (frame sp)"
      unfolding unat_frame by auto
    with p(3,4) q(3,4) show ?thesis by linarith
  qed
  moreover have "unat (p - frame p) = unat i * unat (objsz c)"
    using obj_addr_frame [OF c(2) p(2)] obj_offset(1) [OF c(2) p(2)] by (simp add: p(1)) (simp add: obj_addr_def)
  ultimately show ?thesis using c(1) d(1) p(4) by auto
qed

theorem live_objects_disjoint_witness:
  "\<exists>s p q. live 0x5000 s p \<and> live 0x5000 s q \<and> p \<noteq> q \<and>
    (unat p + 48 \<le> unat q \<or> unat q + 48 \<le> unat p)"
proof -
  let ?c = "\<lparr>objsz = 48, objcnt = objs_per_slab 48, ctor = None, cname = ''kmem_cache''\<rparr>"
  note rep = boot_caches_rep
  have cnt: "unat (objcnt ?c) = 78" by (simp add: unat_objs_per_slab)
  obtain F L sp s1 rest where rep1: "cache_rep s1 0x5000 ?c L F" and sp: "sp \<in> all_slabs 0x5000 L"
    and F: "F sp = 0 # 1 # rest"
  proof -
    have "objcnt ?c \<noteq> 0" using cnt by (metis unat_0 zero_neq_numeral)
    from create_slab_step [OF rep boot_pool(2) this] obtain sp s1 where
      rep1: "cache_rep s1 0x5000 ?c ((\<lambda>_. [])(slabs_free 0x5000 := [sp])) ((\<lambda>_. [])(sp := map of_nat [0..<78]))"
      unfolding cnt by metis
    have "sp \<in> all_slabs 0x5000 ((\<lambda>_. [])(slabs_free 0x5000 := [sp]))"
      by (rule all_slabs_in [OF heads_in(3)]) simp
    moreover have "map of_nat [0..<78] = (0::u32) # 1 # map of_nat [2..<78]" by (simp add: upt_conv_Cons)
    ultimately show thesis using that [OF rep1] by simp
  qed
  from slab_alloc_step [OF rep1 sp F] obtain s2 L2 where
    rep2: "cache_rep s2 0x5000 ?c L2 (F(sp := 1 # rest))" "all_slabs 0x5000 L2 = all_slabs 0x5000 L" by metis
  from rep2(2) sp have sp2: "sp \<in> all_slabs 0x5000 L2" by simp
  have "(F(sp := 1 # rest)) sp = 1 # rest" by simp
  from slab_alloc_step [OF rep2(1) sp2 this] obtain s3 L3 where
    rep3: "cache_rep s3 0x5000 ?c L3 (F(sp := rest))" "all_slabs 0x5000 L3 = all_slabs 0x5000 L2"
    by (metis fun_upd_upd)
  have hdr: "cache_hdr s3 0x5000 ?c" using rep3(1) by (simp add: cache_rep_def)
  have i: "0 < objcnt ?c" "1 < objcnt ?c" using cnt by (simp_all add: word_less_nat_alt)
  have free: "0 \<notin> set rest" "1 \<notin> set rest"
    using cache_rep_slab [OF rep1 sp] F by (auto simp: slab_rep_def)
  have live: "live 0x5000 s3 (obj_addr ?c sp i)" if "i \<notin> set rest" "i < objcnt ?c" for i
    using that sp2 unfolding live_iff [OF rep3(1)] live_objs_iff rep3(2)
    by (intro exI [of _ sp] exI [of _ i]) simp
  have "obj_addr ?c sp 0 \<noteq> obj_addr ?c sp 1" using obj_addr_eq_iff [OF hdr _ i(1,2)] by (simp add: usable_def)
  from live_objects_disjoint [OF live live disjI2 [OF this]] free i obtain c d where
    "caches s3 0x5000 = Some c" "caches s3 0x5000 = Some d"
    "unat (obj_addr ?c sp 0) + unat (objsz c) \<le> unat (obj_addr ?c sp 1) \<or>
     unat (obj_addr ?c sp 1) + unat (objsz d) \<le> unat (obj_addr ?c sp 0)" by blast
  moreover from this(1,2) hdr have "c = ?c" "d = ?c" by (simp_all add: cache_hdr_def)
  ultimately show ?thesis
    using live [OF free(1) i(1)] live [OF free(2) i(2)] \<open>obj_addr ?c sp 0 \<noteq> obj_addr ?c sp 1\<close>
    by (intro exI [of _ s3] exI [of _ "obj_addr ?c sp 0"] exI [of _ "obj_addr ?c sp 1"]) simp
qed

section \<open>The generic caches\<close>

lemma unat_align_down: "unat (align_down sz 2) = 4 * (unat sz div 4)"
proof -
  have m: "align_down sz 2 = sz AND NOT (mask 2)" by (simp add: align_down_def mask_eq_exp_minus_1)
  have [simp]: "Suc (Suc (n - 2)) = n" if "2 \<le> n" for n using that by simp
  note m
  also have "sz AND NOT (mask 2) = push_bit 2 (drop_bit 2 sz)"
    by (rule bit_eqI) (auto simp: bit_simps dest: bit_imp_le_length)
  finally have *: "align_down sz 2 = push_bit 2 (drop_bit 2 sz)" .
  have "unat sz div 4 < 2 ^ 30" using unat_lt_u32 [of sz] by (simp add: div_less_iff_less_mult)
  then show ?thesis
    by (simp add: * push_bit_eq_mult unat_word_ariths drop_bit_eq_div unat_div)
qed

text \<open>
  A cache created for objects of \<open>sz\<close> bytes hands out objects of \<open>sz\<close> rounded \<^emph>\<open>down\<close> to a
  multiple of 4: the objects of a cache whose size is not such a multiple are smaller than what
  its client asked for.
\<close>

lemma kmem_cache_createx_size:
  assumes "kmem_cache_createx nm sz f s = Inr (cachep, s')"
  shows "\<exists>c. caches s' cachep = Some c \<and> cname c = nm \<and> ctor c = f \<and>
    objcnt c = objs_per_slab (objsz c) \<and> unat (objsz c) = 4 * (unat sz div 4) \<and>
    (unat sz mod 4 \<noteq> 0 \<longrightarrow> objsz c < sz)"
proof -
  let ?c = "\<lparr>objsz = align_down sz 2, objcnt = objs_per_slab (align_down sz 2), ctor = f, cname = nm\<rparr>"
  from assms have "caches s' cachep = Some ?c"
    by (auto simp: kmem_cache_createx_def res_Inr Let_def on_links_def split: if_splits)
  then obtain c where c: "caches s' cachep = Some c" "cname c = nm" "ctor c = f"
    "objcnt c = objs_per_slab (objsz c)" "objsz c = align_down sz 2" by (rule that) simp_all
  have "4 * (unat sz div 4) < unat sz" if "unat sz mod 4 \<noteq> 0"
    using that by (metis minus_mod_eq_mult_div diff_less mod_less_eq_dividend neq0_conv le_zero_eq)
  with c show ?thesis by (simp add: unat_align_down word_less_nat_alt)
qed

lemma kmem_cache_createx_size_witness:
  "\<exists>cachep s' c. kmem_cache_createx ''five'' 5 None boot_caches = Inr (cachep, s') \<and>
    caches s' cachep = Some c \<and> objsz c < 5"
proof (rule kmem_cache_alloc_cases [OF boot_pool(1)])
  fix p s' assume "kmem_cache_alloc 0x5000 boot_caches = Inr (p, s')"
  moreover have "unat (align_down 5 2) = 4" by (simp add: unat_align_down)
  then have "align_down 5 2 = 4" by (simp add: word_unat_eq_iff)
  ultimately obtain s2 where cr: "kmem_cache_createx ''five'' 5 None boot_caches = Inr (p, s2)"
    by (simp add: kmem_cache_createx_def boot_pool(3) Let_def)
  from kmem_cache_createx_size [OF this] obtain c where "caches s2 p = Some c" "objsz c < 5" by auto
  with cr show ?thesis by blast
next
  assume "mem_stat (pages (km boot_caches)) = 0"
  with boot_pool(2) show ?thesis by simp
qed

lemma size_class_fits:
  assumes "0 < sz" "sz \<le> 128"
  shows "size_class sz < 6" "unat sz \<le> 4 * 2 ^ size_class sz"
    "size_class sz = 0 \<or> 2 * 2 ^ size_class sz < unat sz"
  using assms by (auto simp: size_class_def word_le_nat_alt)

lemma pool_cache_at: "cache_ok cp s \<Longrightarrow> \<exists>c. cache_at cp s = Inr c"
  by (auto simp: cache_ok_def cache_rep_def cache_hdr_def cache_at_def)

end
