(* ===== verification/Slab_System.thy ===== *)
theory Slab_System imports Slab_Pool begin

text \<open>
  All caches of \<^verbatim>\<open>mm/slab.c\<close> together: \<^verbatim>\<open>cache_cache\<close>, whose objects are the structs of the other
  caches, the caches in use, of whatever object size, and the list \<^verbatim>\<open>cache_chain\<close> that links them. An
  operation on one cache leaves every other cache as it was, so the whole system stays in order from
  \<^verbatim>\<open>cache_init\<close> on.
\<close>

section \<open>The invariant of all caches\<close>

definition cache_fields :: "addr_t \<Rightarrow> addr_t set" where
  "cache_fields cp = insert (cache_next cp) (heads cp)"

text \<open>The list heads the linker places: their pages hold no slab.\<close>

definition statics :: "slab_state \<Rightarrow> addr_t set" where
  "statics s = insert (cache_chain s) (cache_fields (cache_cache s))"

definition statics_ok :: "slab_state \<Rightarrow> bool" where
  "statics_ok s \<longleftrightarrow> cache_chain s \<notin> cache_fields (cache_cache s) \<and>
     (\<forall>a \<in> statics s. not_free (pages (km s)) (frame a) \<and> slabs s (ADDR_TO_SLAB a) = None) \<and>
     (\<exists>c. caches s (cache_cache s) = Some c \<and> objsz c = sizeof_kmem_cache)"

text \<open>\<open>C\<close> are the caches in use.\<close>

definition caches_ok :: "addr_t set \<Rightarrow> slab_state \<Rightarrow> bool" where
  "caches_ok C s \<longleftrightarrow> statics_ok s \<and> cache_cache s \<in> C \<and> (\<forall>cp \<in> C. cache_ok cp s) \<and>
     (\<forall>cp \<in> C. cp \<noteq> cache_cache s \<longrightarrow> live (cache_cache s) s cp) \<and>
     (\<exists>cs. dlist (lk s) (cache_chain s) cs \<and> set cs = cache_next ` C)"

section \<open>Where the list nodes lie\<close>

text \<open>A cache struct is \<^verbatim>\<open>cache_cache\<close> itself or one of its objects.\<close>

definition struct_at :: "slab_state \<Rightarrow> addr_t \<Rightarrow> bool" where
  "struct_at s cp \<longleftrightarrow> cp = cache_cache s \<or> live (cache_cache s) s cp"

lemma field_cases:
  assumes "a \<in> cache_fields cp"
  obtains d where "d \<in> {0, 8, 16, 40 :: nat}" "a = cp + of_nat d"
  using assms that [of 0] that [of 8] that [of 16] that [of 40]
  by (auto simp: cache_fields_def heads_def slabs_partial_def slabs_full_def slabs_free_def cache_next_def)

lemma field_place:
  assumes st: "statics_ok s" and cp: "live (cache_cache s) s cp" and a: "a \<in> cache_fields cp"
  obtains t i d where "frame t = t" "slabs s (ADDR_TO_SLAB t) \<noteq> None" "not_free (pages (km s)) t"
    "d \<in> {0, 8, 16, 40}" "48 * i + d < 4072" "cp = t + of_nat (48 * i)" "a = t + of_nat (48 * i + d)"
proof -
  from cp obtain c L F sp i where rep: "cache_rep s (cache_cache s) c L F" and p: "cp = obj_addr c sp i"
    and sp: "sp \<in> all_slabs (cache_cache s) L" and i: "i < objcnt c" by (auto simp: live_def live_objs_iff)
  have hdr: "cache_hdr s (cache_cache s) c" using rep by (simp add: cache_rep_def)
  with st have "objsz c = 48" by (auto simp: statics_ok_def cache_hdr_def sizeof_kmem_cache_def)
  then have sz: "unat (objsz c) = 48" by simp
  note srep = cache_rep_slab [OF rep sp]
  obtain d where d: "d \<in> {0, 8, 16, 40 :: nat}" "a = cp + of_nat d" using a by (rule field_cases)
  have "cp = frame sp + of_nat (48 * unat i)" using obj_cell(1) [OF hdr i, of sp] sz by (simp add: p mult.commute)
  moreover from this d(2) have "a = frame sp + of_nat (48 * unat i + d)" by simp
  moreover have "48 * unat i + d < 4072"
    using obj_offset(2) [OF hdr i] d(1) sz i by (auto simp: word_less_nat_alt)
  moreover have "ADDR_TO_SLAB (frame sp) = sp" using srep by (auto simp: slab_rep_def)
  then have "slabs s (ADDR_TO_SLAB (frame sp)) \<noteq> None" "not_free (pages (km s)) (frame sp)"
    using srep by (auto simp: slab_rep_def)
  ultimately show thesis using d(1) by (intro that [of "frame sp" d "unat i"]) simp_all
qed

lemma static_field:
  "statics_ok s \<Longrightarrow> a \<in> statics s \<Longrightarrow> slabs s (ADDR_TO_SLAB a) = None \<and> not_free (pages (km s)) (frame a)"
  by (auto simp: statics_ok_def)

lemma field_not_free:
  assumes "statics_ok s" "struct_at s cp" "a \<in> cache_fields cp"
  shows "not_free (pages (km s)) (frame a)"
proof (cases "cp = cache_cache s")
  case True
  then show ?thesis using static_field [OF assms(1), of a] assms(3) by (simp add: statics_def)
next
  case False
  then have "live (cache_cache s) s cp" using assms(2) by (simp add: struct_at_def)
  from field_place [OF assms(1) this assms(3)] obtain t i d where
    "frame t = t" "not_free (pages (km s)) t" "48 * i + d < 4072" "a = t + of_nat (48 * i + d)" by metis
  then show ?thesis using frame_cell [of t "48 * i + d"] by simp
qed

text \<open>The fields of two structs, a field and a static head, a field and a slab are different nodes.\<close>

lemma static_not_place:
  assumes "statics_ok s" "live (cache_cache s) s cp" "a \<in> cache_fields cp"
  shows "a \<notin> statics s"
proof
  assume "a \<in> statics s"
  then have none: "slabs s (ADDR_TO_SLAB a) = None" using static_field [OF assms(1)] by blast
  from field_place [OF assms] obtain t i d where
    t: "frame t = t" "slabs s (ADDR_TO_SLAB t) \<noteq> None" "48 * i + d < 4072" "a = t + of_nat (48 * i + d)" by metis
  then have "frame a = frame t" using frame_cell [of t "48 * i + d"] by simp
  then show False using none t(2) by (simp add: ADDR_TO_SLAB_cong [of a t])
qed

lemma fields_apart:
  assumes st: "statics_ok s" and cp: "struct_at s cp" "struct_at s cp'" "cp \<noteq> cp'"
  shows "cache_fields cp \<inter> cache_fields cp' = {}"
proof -
  have one: "cache_fields (cache_cache s) \<inter> cache_fields q = {}" if "live (cache_cache s) s q" for q
    using static_not_place [OF st that] by (auto simp: statics_def)
  have two: "False" if l: "live (cache_cache s) s cp" "live (cache_cache s) s cp'" and a: "a \<in> cache_fields cp" "a \<in> cache_fields cp'" for a
  proof -
    from field_place [OF st l(1) a(1)] obtain t i d where
      t: "frame t = t" "d \<in> {0, 8, 16, 40}" "48 * i + d < 4072" "cp = t + of_nat (48 * i)" "a = t + of_nat (48 * i + d)"
      by metis
    from field_place [OF st l(2) a(2)] obtain u j e where
      u: "frame u = u" "e \<in> {0, 8, 16, 40}" "48 * j + e < 4072" "cp' = u + of_nat (48 * j)" "a = u + of_nat (48 * j + e)"
      by metis
    have tu: "t = u" and n: "48 * i + d = 48 * j + e"
      using cell_eq_iff [OF t(1) u(1), of "48 * i + d" "48 * j + e"] t(3,5) u(3,5) by simp_all
    have "d < 48" "e < 48" using t(2) u(2) by auto
    then have "i = j" using n by linarith
    with tu t(4) u(4) cp(3) show False by simp
  qed
  show ?thesis using one two cp by (auto simp: struct_at_def)
qed

lemma field_not_slab:
  assumes st: "statics_ok s" and cp: "struct_at s cp" and a: "a \<in> cache_fields cp \<or> a = cache_chain s"
    and sp: "slabs s a \<noteq> None"
  shows "a \<noteq> ADDR_TO_SLAB a"
proof
  assume eq: "a = ADDR_TO_SLAB a"
  then have some: "slabs s (ADDR_TO_SLAB a) \<noteq> None" using sp by metis
  then have "a \<notin> statics s" using static_field [OF st] by auto
  then have "live (cache_cache s) s cp" "a \<in> cache_fields cp" using a cp by (auto simp: statics_def struct_at_def)
  from field_place [OF st this] obtain t i d where
    t: "frame t = t" "48 * i + d < 4072" "a = t + of_nat (48 * i + d)" by metis
  then have "frame a = t" using frame_cell [of t "48 * i + d"] by simp
  then have "a = t + of_nat 4072" using eq by (simp add: ADDR_TO_SLAB_frame)
  then show False using cell_eq_iff [OF t(1,1), of "48 * i + d" 4072] t(2,3) by simp
qed

section \<open>An operation on one cache\<close>

lemma footprint_cases:
  assumes "cache_ok cp s" "a \<in> footprint cp s"
  obtains "a \<in> heads cp"
    | sl where "slabs s a = Some sl" "cache sl = cp" "a = ADDR_TO_SLAB a" "not_free (pages (km s)) (frame a)"
proof -
  from assms obtain c L F where rep: "cache_rep s cp c L F" by (auto simp: cache_ok_def)
  with assms(2) consider "a \<in> heads cp" | "a \<in> all_slabs cp L" by (auto simp: footprint_eq)
  then show thesis
  proof cases
    case 2
    note srep = cache_rep_slab [OF rep this]
    then show ?thesis using that(2) slab_rep_addr [OF srep] by (auto simp: slab_rep_def)
  qed (rule that(1))
qed

definition nodes :: "addr_t \<Rightarrow> slab_state \<Rightarrow> addr_t set" where
  "nodes cp s = insert (cache_next cp) (footprint cp s)"

lemma nodes_cases:
  assumes "cache_ok cp s" "a \<in> nodes cp s"
  obtains "a \<in> cache_fields cp"
    | sl where "slabs s a = Some sl" "cache sl = cp" "a = ADDR_TO_SLAB a" "not_free (pages (km s)) (frame a)"
  using assms(2) by (auto simp: nodes_def cache_fields_def elim: footprint_cases [OF assms(1)])

lemma nodes_apart:
  assumes st: "statics_ok s" and "struct_at s cp" "cache_ok cp s" "struct_at s cp'" "cache_ok cp' s" "cp \<noteq> cp'"
  shows "nodes cp s \<inter> nodes cp' s = {}"
proof -
  have "False" if "a \<in> nodes cp s" "a \<in> nodes cp' s" for a
    using that(1)
  proof (rule nodes_cases [OF assms(3)])
    assume a: "a \<in> cache_fields cp"
    from that(2) show False
    proof (rule nodes_cases [OF assms(5)])
      assume "a \<in> cache_fields cp'"
      with a show False using fields_apart [OF st assms(2,4,6)] by blast
    qed (use a field_not_slab [OF st assms(2), of a] in auto)
  next
    fix sl
    assume a: "slabs s a = Some sl" "cache sl = cp" "a = ADDR_TO_SLAB a"
    from that(2) show False
    proof (rule nodes_cases [OF assms(5)])
      assume "a \<in> cache_fields cp'"
      with a show False using field_not_slab [OF st assms(4), of a] by auto
    qed (use a assms(6) in auto)
  qed
  then show ?thesis by blast
qed

lemma chain_apart:
  assumes "statics_ok s" "struct_at s cp" "cache_ok cp s"
  shows "cache_chain s \<notin> nodes cp s" "cache_next cp \<notin> footprint cp s"
proof -
  have st: "cache_chain s \<notin> cache_fields (cache_cache s)" using assms(1) by (simp add: statics_ok_def)
  show "cache_chain s \<notin> nodes cp s"
  proof
    assume "cache_chain s \<in> nodes cp s"
    then show False
    proof (rule nodes_cases [OF assms(3)])
      assume "cache_chain s \<in> cache_fields cp"
      with st have "live (cache_cache s) s cp" using assms(2) by (auto simp: struct_at_def)
      from static_not_place [OF assms(1) this] show False using \<open>cache_chain s \<in> cache_fields cp\<close> by (auto simp: statics_def)
    qed (use field_not_slab [OF assms(1,2), of "cache_chain s"] in auto)
  qed
  show "cache_next cp \<notin> footprint cp s"
  proof
    assume "cache_next cp \<in> footprint cp s"
    then show False
    proof (rule footprint_cases [OF assms(3)])
      assume "cache_next cp \<in> heads cp"
      then show False by (auto simp: heads_def cache_next_def slabs_partial_def slabs_full_def slabs_free_def)
    qed (use field_not_slab [OF assms(1,2), of "cache_next cp"] in \<open>auto simp: cache_fields_def\<close>)
  qed
qed

lemma cache_rep_cong:
  assumes rep: "cache_rep s cp c L F"
    and same: "caches s' cp = caches s cp" "cache_cache s' = cache_cache s"
      "pages_ok (pages (km s'))" "\<And>t. not_free (pages (km s)) t \<Longrightarrow> not_free (pages (km s')) t"
      "\<And>a. a \<in> footprint cp s \<Longrightarrow> lnext (lk s') a = lnext (lk s) a \<and> lprev (lk s') a = lprev (lk s) a \<and> slabs s' a = slabs s a"
      "\<And>sl. slabs s (ADDR_TO_SLAB cp) = Some sl \<Longrightarrow> not_free (pages (km s)) (frame cp) \<Longrightarrow>
        \<exists>sl'. slabs s' (ADDR_TO_SLAB cp) = Some sl' \<and> cache sl' = cache sl"
  shows "cache_rep s' cp c L F"
proof -
  note fp = footprint_eq [OF rep]
  have "cache_hdr s cp c" using rep by (simp add: cache_rep_def)
  then have "cache_hdr s' cp c" using same(1-4,6) by (auto simp: cache_hdr_def)
  moreover have "family dlist (lk s') (heads cp) L"
  proof (rule familyI)
    fix h
    assume h: "h \<in> heads cp"
    have "set (h # L h) \<subseteq> footprint cp s" using h unfolding fp all_slabs_def by auto
    then have "dlist (lk s') h (L h) = dlist (lk s) h (L h)" using same(5) by (intro dlist_cong) blast
    with rep h show "dlist (lk s') h (L h)" by (simp add: cache_rep_def family_def)
  next
    fix h h'
    assume "h \<in> heads cp" "h' \<in> heads cp" "h \<noteq> h'"
    then show "set (h # L h) \<inter> set (h' # L h') = {}"
      using rep by (intro family_apart [where H = "heads cp" and rep = dlist]) (auto simp: cache_rep_def)
  qed
  moreover have "slab_rep s' cp c sp (F sp) \<and> home cp c (length (F sp)) = h" if "h \<in> heads cp" "sp \<in> set (L h)" for h sp
  proof -
    have "sp \<in> footprint cp s" using all_slabs_in [of h cp sp L] that unfolding fp by simp
    moreover have "slab_rep s cp c sp (F sp)" "home cp c (length (F sp)) = h" using rep that by (auto simp: cache_rep_def)
    ultimately show ?thesis using same(4,5) by (auto simp: slab_rep_def)
  qed
  ultimately show ?thesis by (simp add: cache_rep_def)
qed

lemma cache_rep_live:
  "cache_rep s cp c L F \<Longrightarrow> cache_rep s' cp c L F \<Longrightarrow>
   cache_ok cp s' \<and> (\<forall>q. live cp s' q = live cp s q) \<and> footprint cp s' = footprint cp s"
  by (auto simp: live_iff footprint_eq cache_ok_def)

lemma caches_structs: "caches_ok C s \<Longrightarrow> cp \<in> C \<Longrightarrow> struct_at s cp \<and> cache_ok cp s \<and> statics_ok s"
  by (auto simp: caches_ok_def struct_at_def)

text \<open>\<open>cache_cache\<close> itself hands out the structs, of 48 bytes.\<close>

lemma structs_pool: "caches_ok C s \<Longrightarrow> pool_ok (cache_cache s) s"
  by (auto simp: caches_ok_def statics_ok_def pool_ok_iff usable_def sizeof_kmem_cache_def)

lemma nodes_not_free:
  assumes "statics_ok s" "struct_at s cp" "cache_ok cp s" "a \<in> nodes cp s"
  shows "not_free (pages (km s)) (frame a)"
  using assms(3,4) by (rule nodes_cases) (auto intro: field_not_free [OF assms(1,2)])

lemma other_cache:
  assumes ok: "caches_ok C s" and cp: "cp \<in> C" and q: "q \<in> C" "q \<noteq> cp" and step: "cache_step cp s s'"
  shows "cache_ok q s' \<and> (\<forall>p. live q s' p = live q s p)"
proof -
  note c = caches_structs [OF ok cp] and d = caches_structs [OF ok q(1)]
  have t: "touches (footprint cp s') s s'" using step by (simp add: cache_step_def)
  obtain c' L F where rep: "cache_rep s q c' L F" using d by (auto simp: cache_ok_def)
  have out: "a \<notin> footprint cp s'" if "a \<in> footprint q s" for a
  proof
    assume "a \<in> footprint cp s'"
    then have "a \<in> footprint cp s \<or> \<not> not_free (pages (km s)) (frame a)" using step by (auto simp: cache_step_def)
    moreover have "not_free (pages (km s)) (frame a)" using nodes_not_free [of s q a] d that by (simp add: nodes_def)
    ultimately show False using nodes_apart [of s cp q] c d q(2) that by (auto simp: nodes_def)
  qed
  have "cache_rep s' q c' L F"
  proof (rule cache_rep_cong [OF rep])
    show "\<exists>sl'. slabs s' (ADDR_TO_SLAB q) = Some sl' \<and> cache sl' = cache sl"
      if "slabs s (ADDR_TO_SLAB q) = Some sl" "not_free (pages (km s)) (frame q)" for sl
      using t that by (auto simp: touches_def frame_slab)
  qed (use t out in \<open>auto simp: touches_def\<close>)
  from cache_rep_live [OF rep this] show ?thesis by simp
qed

text \<open>The whole system after an operation on one cache.\<close>

lemma caches_step:
  assumes ok: "caches_ok C s" and cp: "cp \<in> C" and step: "cache_step cp s s'" and new: "cache_ok cp s'"
    and structs: "\<And>q. cp = cache_cache s \<Longrightarrow> q \<in> C \<Longrightarrow> q \<noteq> cp \<Longrightarrow> live cp s' q"
  shows "caches_ok C s'" and "\<And>q p. q \<in> C \<Longrightarrow> q \<noteq> cp \<Longrightarrow> live q s' p = live q s p"
proof -
  note c = caches_structs [OF ok cp]
  have t: "touches (footprint cp s') s s'" using step by (simp add: cache_step_def)
  note other = other_cache [OF ok cp _ _ step]
  then show "live q s' p = live q s p" if "q \<in> C" "q \<noteq> cp" for q p using that by blast
  have cc: "cache_cache s' = cache_cache s" "cache_chain s' = cache_chain s" using t by (simp_all add: touches_def)
  have st: "statics_ok s'"
  proof -
    have "slabs s' (ADDR_TO_SLAB a) = None \<and> not_free (pages (km s')) (frame a)" if "a \<in> statics s" for a
      using static_field [of s a] c that t by (auto simp: touches_def frame_slab)
    moreover have "caches s' = caches s" using t by (simp add: touches_def)
    ultimately show ?thesis using c cc by (simp add: statics_ok_def statics_def)
  qed
  have pools: "cache_ok q s'" if "q \<in> C" for q using new other [of q] that by (cases "q = cp") auto
  have lives: "live (cache_cache s) s' q" if "q \<in> C" "q \<noteq> cache_cache s" for q
  proof (cases "cp = cache_cache s")
    case False
    then show ?thesis using other [of "cache_cache s"] ok that by (auto simp: caches_ok_def)
  qed (use structs that in auto)
  from ok obtain cs where cs: "dlist (lk s) (cache_chain s) cs" "set cs = cache_next ` C" by (auto simp: caches_ok_def)
  have out: "a \<notin> footprint cp s'" if a: "a \<in> set (cache_chain s # cs)" for a
  proof
    assume "a \<in> footprint cp s'"
    then have "a \<in> footprint cp s \<or> \<not> not_free (pages (km s)) (frame a)" using step by (auto simp: cache_step_def)
    moreover have "not_free (pages (km s)) (frame a) \<and> a \<notin> footprint cp s"
    proof (cases "a = cache_chain s")
      case True
      then show ?thesis using static_field [of s a] chain_apart(1) [of s cp] c by (simp add: statics_def nodes_def)
    next
      case False
      with a cs obtain q where q: "q \<in> C" "a = cache_next q" by auto
      note d = caches_structs [OF ok q(1)]
      have "a \<in> nodes q s" using q by (simp add: nodes_def)
      then have "not_free (pages (km s)) (frame a)" using nodes_not_free d by blast
      moreover have "a \<notin> footprint cp s"
      proof (cases "q = cp")
        case True
        then show ?thesis using chain_apart(2) [of s cp] c q(2) by simp
      next
        case False
        then show ?thesis using nodes_apart [of s cp q] c d \<open>a \<in> nodes q s\<close> by (auto simp: nodes_def)
      qed
      ultimately show ?thesis by simp
    qed
    ultimately show False by blast
  qed
  have "dlist (lk s') (cache_chain s) cs = dlist (lk s) (cache_chain s) cs"
    using t out by (intro dlist_cong) (auto simp: touches_def)
  with cs(1) have "dlist (lk s') (cache_chain s') cs" using cc by simp
  with st pools lives ok cc cs(2) show "caches_ok C s'" by (auto simp: caches_ok_def)
qed

lemma caches_alloc:
  assumes ok: "caches_ok C s" and cp: "cp \<in> C" and run: "kmem_cache_alloc cp s = Inr (p, s')"
  shows "caches_ok C s' \<and> (pool_ok cp s \<longrightarrow> \<not> live cp s p) \<and> (\<forall>q \<in> C. \<forall>x. live q s' x \<longleftrightarrow> live q s x \<or> q = cp \<and> x = p) \<and>
    caches s' = caches s \<and> generic_cachep s' = generic_cachep s \<and> cache_cache s' = cache_cache s \<and>
    cache_chain s' = cache_chain s \<and> mem_stat (pages (km s)) \<le> Suc (mem_stat (pages (km s')))"
proof -
  have "cache_ok cp s" using caches_structs [OF ok cp] by simp
  then obtain step: "cache_step cp s s'" and new: "cache_ok cp s'" "pool_ok cp s \<Longrightarrow> \<not> live cp s p"
      and l: "\<And>q. live cp s' q \<longleftrightarrow> live cp s q \<or> q = p" and m: "mem_stat (pages (km s)) \<le> Suc (mem_stat (pages (km s')))"
    using run by (cases rule: cache_alloc_cases [of cp s]) auto
  have "live cp s' q" if "cp = cache_cache s" "q \<in> C" "q \<noteq> cp" for q
    using ok that l by (simp add: caches_ok_def)
  note st = caches_step [OF ok cp step new(1) this]
  have "touches (footprint cp s') s s'" using step by (simp add: cache_step_def)
  then show ?thesis using st l new(2) m by (auto simp: touches_def)
qed

lemma caches_free:
  assumes ok: "caches_ok C s" and cp: "cp \<in> C" "pool_ok cp s" and p: "live cp s p" "cp = cache_cache s \<Longrightarrow> p \<notin> C"
  obtains s' where "kmem_cache_free cp p s = Inr s'" "caches_ok C s'"
    "\<And>q x. q \<in> C \<Longrightarrow> live q s' x \<longleftrightarrow> live q s x \<and> \<not> (q = cp \<and> x = p)"
    "caches s' = caches s" "generic_cachep s' = generic_cachep s" "cache_cache s' = cache_cache s"
    "cache_chain s' = cache_chain s" "km s' = km s"
proof -
  from kmem_cache_free_pool [OF cp(2) p(1)] obtain s' where run: "kmem_cache_free cp p s = Inr s'"
    and new: "pool_ok cp s'" and km: "km s' = km s" and l: "\<And>q. live cp s' q \<longleftrightarrow> live cp s q \<and> q \<noteq> p"
    and step: "cache_step cp s s'" by metis
  have "live cp s' q" if "cp = cache_cache s" "q \<in> C" "q \<noteq> cp" for q
    using ok that l p(2) by (auto simp: caches_ok_def)
  note st = caches_step [OF ok cp(1) step pool_ok_cache [OF new] this]
  have "touches (footprint cp s') s s'" using step by (simp add: cache_step_def)
  then show thesis using st l km by (intro that [OF run]) (auto simp: touches_def)
qed

section \<open>A new cache\<close>

lemma struct_not_static:
  assumes "statics_ok s" "live (cache_cache s) s cp"
  shows "cp \<noteq> cache_cache s"
proof
  assume "cp = cache_cache s"
  moreover have "slabs_partial cp \<in> cache_fields cp" by (simp add: cache_fields_def)
  ultimately show False using static_not_place [OF assms, of "slabs_partial cp"] by (simp add: statics_def)
qed

text \<open>The fields of a struct that is not yet a cache are no nodes of any cache nor of the chain.\<close>

lemma new_fields:
  assumes ok: "caches_ok C s" and cp: "live (cache_cache s) s cp" "cp \<notin> C" and a: "a \<in> cache_fields cp"
  shows "\<forall>q \<in> C. a \<notin> nodes q s" and "a \<notin> insert (cache_chain s) (cache_next ` C)"
proof -
  have st: "statics_ok s" using ok by (simp add: caches_ok_def)
  have cp': "struct_at s cp" using cp by (simp add: struct_at_def)
  show n: "\<forall>q \<in> C. a \<notin> nodes q s"
  proof (intro ballI notI)
    fix q
    assume q: "q \<in> C" "a \<in> nodes q s"
    note d = caches_structs [OF ok q(1)]
    from q(2) show False
    proof (rule nodes_cases [rotated])
      assume "a \<in> cache_fields q"
      then show False using fields_apart [OF st cp', of q] d a q(1) cp(2) by auto
    qed (use d field_not_slab [OF st cp', of a] a in auto)
  qed
  have "a \<noteq> cache_chain s" using static_not_place [OF st cp(1) a] by (auto simp: statics_def)
  then show "a \<notin> insert (cache_chain s) (cache_next ` C)" using n by (auto simp: nodes_def)
qed

lemma empty_cache:
  assumes "cache_hdr s cp c" "\<And>h. h \<in> heads cp \<Longrightarrow> lnext (lk s) h = h \<and> lprev (lk s) h = h"
  shows "cache_ok cp s" "\<not> live cp s x"
proof -
  have "cache_rep s cp c (\<lambda>_. []) (\<lambda>_. [])"
    using assms by (auto simp: cache_rep_def family_def dlist_def)
  then show "cache_ok cp s" "\<not> live cp s x" by (auto simp: cache_ok_def live_iff live_objs_iff all_slabs_def)
qed

text \<open>The stores of \<^verbatim>\<open>kmem_cache_createx\<close> behind its allocation.\<close>

definition link_cache :: "addr_t \<Rightarrow> kmem_cache \<Rightarrow> slab_state \<Rightarrow> slab_state" where
  "link_cache cp c s = s\<lparr>caches := (caches s)(cp \<mapsto> c),
     lk := list_add (cache_next cp) (cache_chain s) (INIT_LIST_HEAD (slabs_free cp)
       (INIT_LIST_HEAD (slabs_full cp) (INIT_LIST_HEAD (slabs_partial cp) (lk s))))\<rparr>"

lemma link_cache_simps [simp]:
  "caches (link_cache cp c s) = (caches s)(cp \<mapsto> c)" "slabs (link_cache cp c s) = slabs s"
  "km (link_cache cp c s) = km s" "cache_cache (link_cache cp c s) = cache_cache s"
  "cache_chain (link_cache cp c s) = cache_chain s" "generic_cachep (link_cache cp c s) = generic_cachep s"
  by (simp_all add: link_cache_def)

lemma link_cache_ok:
  assumes ok: "caches_ok C s" and cp: "live (cache_cache s) s cp" "cp \<notin> C"
    and c: "objsz c < objsz c + 4" "objcnt c = objs_per_slab (objsz c)"
  shows "caches_ok (insert cp C) (link_cache cp c s)"
    and "\<forall>q \<in> C. \<forall>x. live q (link_cache cp c s) x = live q s x" and "\<not> live cp (link_cache cp c s) x"
proof -
  let ?s = "link_cache cp c s" and ?new = "cache_next cp" and ?ch = "cache_chain s"
  let ?i = "INIT_LIST_HEAD (slabs_free cp) (INIT_LIST_HEAD (slabs_full cp) (INIT_LIST_HEAD (slabs_partial cp) (lk s)))"
  have st: "statics_ok s" using ok by (simp add: caches_ok_def)
  note new = new_fields [OF ok cp]
  have f: "slabs_free cp \<in> cache_fields cp" "slabs_full cp \<in> cache_fields cp" "slabs_partial cp \<in> cache_fields cp" "?new \<in> cache_fields cp"
    by (simp_all add: cache_fields_def)
  from ok obtain cs where cs: "dlist (lk s) ?ch cs" "set cs = cache_next ` C" by (auto simp: caches_ok_def)
  have chi: "dlist ?i ?ch cs" using cs new(2) f by (simp add: INIT_frame)
  then have nxt: "lnext ?i ?ch \<in> insert ?ch (cache_next ` C)"
    using dlist_neighbours(1) [of ?i ?ch cs ?ch] cs(2) by simp
  have same: "lnext (lk ?s) a = lnext ?i a \<and> lprev (lk ?s) a = lprev ?i a"
    if "a \<noteq> ?new" "a \<notin> insert ?ch (cache_next ` C)" for a
    using that nxt by (simp add: link_cache_def) (intro list_add_only, auto)
  have out: "lnext (lk ?s) a = lnext (lk s) a \<and> lprev (lk ?s) a = lprev (lk s) a"
    if "a \<notin> cache_fields cp" "a \<notin> insert ?ch (cache_next ` C)" for a
    using same [of a] that by (auto simp: cache_fields_def heads_def links_defs)
  have pages: "pages_ok (pages (km s))"
    using ok by (auto simp: caches_ok_def cache_ok_def cache_rep_def cache_hdr_def)
  have old: "cache_ok q ?s \<and> (\<forall>x. live q ?s x = live q s x)" if q: "q \<in> C" for q
  proof -
    note d = caches_structs [OF ok q]
    obtain c' L F where rep: "cache_rep s q c' L F" using d by (auto simp: cache_ok_def)
    have "a \<notin> cache_fields cp \<and> a \<notin> insert ?ch (cache_next ` C)" if a: "a \<in> footprint q s" for a
    proof -
      have "a \<notin> cache_fields cp" using new(1) q a by (auto simp: nodes_def)
      moreover have "a \<noteq> ?ch" using chain_apart(1) [of s q] d a by (auto simp: nodes_def)
      moreover have "a \<noteq> cache_next r" if r: "r \<in> C" for r
      proof (cases "r = q")
        case True
        then show ?thesis using chain_apart(2) [of s q] d a by auto
      next
        case False
        then show ?thesis using nodes_apart [of s q r] d caches_structs [OF ok r] a by (auto simp: nodes_def)
      qed
      ultimately show ?thesis by auto
    qed
    then have "cache_rep ?s q c' L F"
      using out pages q cp(2) by (intro cache_rep_cong [OF rep]) auto
    from cache_rep_live [OF rep this] show ?thesis by simp
  qed
  then show live: "\<forall>q \<in> C. \<forall>x. live q ?s x = live q s x" by blast
  have hdr: "cache_hdr ?s cp c"
  proof -
    obtain sl where sl: "slabs s (ADDR_TO_SLAB cp) = Some sl" "cache sl = cache_cache s" using live_slab [OF cp(1)] .
    have nf: "not_free (pages (km s)) (frame a)" if "a \<in> cache_fields cp" for a
      using field_not_free [OF st _ that] cp(1) by (simp add: struct_at_def)
    have "cp \<in> cache_fields cp" by (simp add: cache_fields_def heads_def slabs_partial_def)
    with nf sl pages c live_nonnull [OF cp(1)] show ?thesis by (simp add: cache_hdr_def cache_fields_def)
  qed
  have heads: "lnext (lk ?s) h = h \<and> lprev (lk ?s) h = h" if h: "h \<in> heads cp" for h
  proof -
    have "h \<in> cache_fields cp" using h by (simp add: cache_fields_def)
    moreover have "h \<noteq> ?new"
      using h by (auto simp: heads_def cache_next_def slabs_partial_def slabs_full_def slabs_free_def)
    ultimately show ?thesis using same [of h] new(2) h by (auto simp: heads_def links_defs)
  qed
  show "\<not> live cp ?s x" by (rule empty_cache(2) [OF hdr heads])
  have "dlist (lk ?s) ?ch (?new # cs)"
    using chi new(2) [OF f(4)] cs(2) by (simp add: link_cache_def dlist_add)
  moreover have "statics_ok ?s"
    using st struct_not_static [OF st cp(1)] by (auto simp: statics_ok_def statics_def)
  moreover have "live (cache_cache s) ?s q" if "q \<in> insert cp C" "q \<noteq> cache_cache s" for q
    using that ok live cp(1) by (auto simp: caches_ok_def)
  ultimately show "caches_ok (insert cp C) ?s"
    using old empty_cache(1) [OF hdr heads] ok cs(2) by (auto simp: caches_ok_def)
qed

text \<open>The object size is a multiple of 4, so \<open>objsz + 4\<close> wraps round only to 0.\<close>

lemma align_down_no_wrap: "align_down sz 2 + 4 \<noteq> 0 \<Longrightarrow> align_down sz 2 < align_down sz 2 + 4"
proof -
  assume nz: "align_down sz 2 + 4 \<noteq> 0"
  have u: "unat (align_down sz 2) = 4 * (unat sz div 4)" by (rule unat_align_down)
  moreover have "unat (align_down sz 2) < 4294967296" using unat_lt_u32 [of "align_down sz 2"] by simp
  ultimately have "unat sz div 4 < 1073741824" by linarith
  with u have "unat (align_down sz 2) + 4 \<le> 4294967296" by linarith
  moreover have "unat (align_down sz 2) + 4 \<noteq> 4294967296"
  proof
    assume "unat (align_down sz 2) + 4 = 4294967296"
    then have "unat (align_down sz 2 + 4) = 0" by (simp add: unat_plus_if')
    with nz show False by (simp add: unat_eq_0)
  qed
  ultimately show ?thesis by (simp add: word_less_nat_alt unat_plus_if')
qed

lemma createx_eq:
  "kmem_cache_createx nm sz f s =
    assertr (sz > 0) (bindr (kmem_cache_alloc (cache_cache s) s) (\<lambda>(cp, s).
      if align_down sz 2 + 4 = 0 then Inl Bad_access
      else Inr (cp, link_cache cp \<lparr>objsz = align_down sz 2, objcnt = objs_per_slab (align_down sz 2), ctor = f, cname = nm\<rparr> s)))"
proof (cases "kmem_cache_alloc (cache_cache s) s")
  case (Inr r)
  obtain cp t where "r = (cp, t)" by (cases r)
  with Inr show ?thesis
    by (cases t) (simp add: kmem_cache_createx_def link_cache_def on_links_def Let_def assertr_def)
qed (simp add: kmem_cache_createx_def)

lemma caches_create:
  assumes ok: "caches_ok C s" and run: "kmem_cache_createx nm sz f s = Inr (cp, s')"
  shows "cp \<notin> C \<and> caches_ok (insert cp C) s' \<and> cache_cache s' = cache_cache s \<and>
    (\<forall>q \<in> C. \<forall>x. live q s' x \<longleftrightarrow> live q s x \<or> q = cache_cache s \<and> x = cp) \<and> (\<forall>x. \<not> live cp s' x) \<and>
    caches s' = (caches s)(cp \<mapsto> \<lparr>objsz = align_down sz 2, objcnt = objs_per_slab (align_down sz 2), ctor = f, cname = nm\<rparr>) \<and>
    generic_cachep s' = generic_cachep s \<and> mem_stat (pages (km s)) \<le> Suc (mem_stat (pages (km s')))"
proof -
  let ?c = "\<lparr>objsz = align_down sz 2, objcnt = objs_per_slab (align_down sz 2), ctor = f, cname = nm\<rparr>"
  from run obtain s1 where al: "kmem_cache_alloc (cache_cache s) s = Inr (cp, s1)" and s': "s' = link_cache cp ?c s1"
    by (auto simp: createx_eq res_Inr split: if_splits)
  have cc: "cache_cache s \<in> C" using ok by (simp add: caches_ok_def)
  note a = caches_alloc [OF ok cc al] structs_pool [OF ok]
  then have ok1: "caches_ok C s1" and cp: "live (cache_cache s1) s1 cp" using cc by auto
  have "cp \<noteq> cache_cache s1" using struct_not_static [OF _ cp] ok1 by (simp add: caches_ok_def)
  moreover have "live (cache_cache s) s q" if "q \<in> C" "q \<noteq> cache_cache s" for q using ok that by (simp add: caches_ok_def)
  ultimately have new: "cp \<notin> C" using a by auto
  have "align_down sz 2 + 4 \<noteq> 0" using run by (auto simp: createx_eq res_Inr split: if_splits)
  then have "objsz ?c < objsz ?c + 4" "objcnt ?c = objs_per_slab (objsz ?c)" by (simp_all add: align_down_no_wrap)
  note l = link_cache_ok [OF ok1 cp new this]
  show ?thesis unfolding s' using a l new by auto
qed


section \<open>The generic caches\<close>

definition class_size :: "nat \<Rightarrow> u32" where
  "class_size i = of_nat (4 * 2 ^ i)"

definition generics_in :: "addr_t set \<Rightarrow> slab_state \<Rightarrow> bool" where
  "generics_in C s \<longleftrightarrow> length (generic_cachep s) = 6 \<and> distinct (generic_cachep s) \<and>
     (\<forall>i < 6. generic_cachep s ! i \<in> C - {cache_cache s} \<and>
       (\<exists>c. caches s (generic_cachep s ! i) = Some c \<and> objsz c = class_size i))"

lemma generic_cong:
  "cache_rep (s\<lparr>generic_cachep := g\<rparr>) cp c L F = cache_rep s cp c L F"
  by (simp add: cache_rep_def cache_hdr_def slab_rep_def)

lemma generic_simps [simp]:
  "cache_ok cp (s\<lparr>generic_cachep := g\<rparr>) = cache_ok cp s" "live cp (s\<lparr>generic_cachep := g\<rparr>) p = live cp s p"
  "caches_ok C (s\<lparr>generic_cachep := g\<rparr>) = caches_ok C s"
  by (simp_all add: cache_ok_def live_def generic_cong caches_ok_def statics_ok_def statics_def)

lemma alloc_with_memory:
  assumes "pool_ok cp s" "0 < mem_stat (pages (km s))"
  obtains p s' where "kmem_cache_alloc cp s = Inr (p, s')"
  using assms that by (cases rule: kmem_cache_alloc_cases [of cp s]) auto

lemma ordinary_size:
  assumes "4 \<le> sz" "sz < 4072"
  shows "0 < sz" "align_down sz 2 + 4 \<noteq> 0"
proof -
  have "unat (align_down sz 2) = 4 * (unat sz div 4)" by (rule unat_align_down)
  moreover have "4 \<le> unat sz" "unat sz < 4072" using assms by (simp_all add: word_le_nat_alt word_less_nat_alt)
  ultimately have "unat (align_down sz 2 + 4) \<noteq> 0" by (subst unat_plus_if') simp
  then show "align_down sz 2 + 4 \<noteq> 0" by (metis unat_0)
  show "0 < sz" using \<open>4 \<le> unat sz\<close> by (simp add: word_less_nat_alt)
qed

lemma create_with_memory:
  assumes ok: "caches_ok C s" and sz: "0 < sz" "align_down sz 2 + 4 \<noteq> 0" and m: "0 < mem_stat (pages (km s))"
  obtains cp s' where "kmem_cache_createx nm sz f s = Inr (cp, s')"
proof -
  from alloc_with_memory [OF structs_pool [OF ok] m] obtain p s1 where al: "kmem_cache_alloc (cache_cache s) s = Inr (p, s1)" .
  show thesis using al sz by (intro that) (simp add: createx_eq)
qed

text \<open>The loop of \<^verbatim>\<open>cache_init\<close>.\<close>

lemma create_generic_ok:
  "caches_ok C s \<Longrightarrow> create_generic xs i s = Inr s' \<Longrightarrow> \<forall>(nm, sz) \<in> set xs. 4 \<le> sz \<and> sz < 4072 \<Longrightarrow>
   i + length xs \<le> length (generic_cachep s) \<Longrightarrow>
   \<exists>cps. length cps = length xs \<and> distinct cps \<and> set cps \<inter> C = {} \<and>
     caches_ok (C \<union> set cps) s' \<and> cache_cache s' = cache_cache s \<and>
     generic_cachep s' = take i (generic_cachep s) @ cps @ drop (i + length xs) (generic_cachep s) \<and>
     (\<forall>q \<in> C. caches s' q = caches s q) \<and>
     (\<forall>j < length xs. \<exists>c. caches s' (cps ! j) = Some c \<and> objsz c = align_down (snd (xs ! j)) 2)"
proof (induction xs arbitrary: C s i)
  case Nil
  then show ?case by (intro exI [of _ "[]"]) simp
next
  case (Cons x xs)
  obtain nm sz where x: "x = (nm, sz)" by (cases x)
  with Cons.prems(3) have sz: "4 \<le> sz" "sz < 4072" by auto
  from Cons.prems(2) obtain cp s1 where run: "kmem_cache_createx nm sz None s = Inr (cp, s1)"
    and rest: "create_generic xs (Suc i) (s1\<lparr>generic_cachep := (generic_cachep s1)[i := cp]\<rparr>) = Inr s'"
    by (auto simp: x kmem_cache_create_def res_Inr)
  note c = caches_create [OF Cons.prems(1) run]
  let ?s = "s1\<lparr>generic_cachep := (generic_cachep s1)[i := cp]\<rparr>"
  have ok: "caches_ok (insert cp C) ?s" using c by simp
  have "Suc i + length xs \<le> length (generic_cachep ?s)" using c Cons.prems(4) by simp
  then obtain cps where s': "length cps = length xs" "distinct cps"
    "set cps \<inter> insert cp C = {}" "caches_ok (insert cp C \<union> set cps) s'" "cache_cache s' = cache_cache ?s"
    "generic_cachep s' = take (Suc i) (generic_cachep ?s) @ cps @ drop (Suc i + length xs) (generic_cachep ?s)"
    "\<forall>q \<in> insert cp C. caches s' q = caches ?s q"
    "\<forall>j < length xs. \<exists>c. caches s' (cps ! j) = Some c \<and> objsz c = align_down (snd (xs ! j)) 2"
    using Cons.IH [OF ok rest] Cons.prems(3) by auto
  have g: "take (Suc i) ((generic_cachep s)[i := cp]) = take i (generic_cachep s) @ [cp]"
    using Cons.prems(4) by (simp add: take_Suc_conv_app_nth)
  show ?case
  proof (intro exI [of _ "cp # cps"] conjI allI impI ballI)
    show "generic_cachep s' = take i (generic_cachep s) @ (cp # cps) @ drop (i + length (x # xs)) (generic_cachep s)"
      using s'(6) c g by simp
    show "\<exists>c. caches s' ((cp # cps) ! j) = Some c \<and> objsz c = align_down (snd ((x # xs) ! j)) 2" if "j < length (x # xs)" for j
      using s'(7,8) c that by (cases j) (simp_all add: x)
    show "caches s' q = caches s q" if "q \<in> C" for q using s'(7) c that by auto
  qed (use s' c in auto)
qed

lemma create_generic_total:
  "caches_ok C s \<Longrightarrow> length xs \<le> mem_stat (pages (km s)) \<Longrightarrow> \<forall>(nm, sz) \<in> set xs. 4 \<le> sz \<and> sz < 4072 \<Longrightarrow>
   \<exists>s'. create_generic xs i s = Inr s' \<and> mem_stat (pages (km s)) \<le> mem_stat (pages (km s')) + length xs"
proof (induction xs arbitrary: C s i)
  case (Cons x xs)
  obtain nm sz where x: "x = (nm, sz)" by (cases x)
  with Cons.prems(2,3) have sz: "4 \<le> sz" "sz < 4072" and m: "0 < mem_stat (pages (km s))" by auto
  from create_with_memory [OF Cons.prems(1) ordinary_size [OF sz] m] obtain cp s1 where
    run: "kmem_cache_createx nm sz None s = Inr (cp, s1)" .
  note c = caches_create [OF Cons.prems(1) run]
  let ?s = "s1\<lparr>generic_cachep := (generic_cachep s1)[i := cp]\<rparr>"
  have "caches_ok (insert cp C) ?s" "length xs \<le> mem_stat (pages (km ?s))" using c Cons.prems(2) by simp_all
  from Cons.IH [OF this, of "Suc i"] Cons.prems(3) obtain s' where "create_generic xs (Suc i) ?s = Inr s'"
    "mem_stat (pages (km ?s)) \<le> mem_stat (pages (km s')) + length xs" by auto
  then show ?case using c by (intro exI [of _ s']) (simp add: x run kmem_cache_create_def)
qed simp

text \<open>What must hold of the static objects and the pages before \<^verbatim>\<open>cache_init\<close> runs.\<close>

definition boot_ok :: "addr_t \<Rightarrow> addr_t \<Rightarrow> kmem \<Rightarrow> bool" where
  "boot_ok cc ch k \<longleftrightarrow> pages_ok (pages k) \<and> cc \<noteq> NULL \<and> ch \<notin> cache_fields cc \<and>
     (\<forall>a \<in> insert ch (cache_fields cc). not_free (pages k) (frame a))"

lemma static_rep:
  assumes "boot_ok cc ch k"
  defines "s \<equiv> on_links (list_add (cache_next cc) ch) (static_caches cc ch k)"
  shows "caches_ok {cc} s" "\<not> live cc s p"
proof -
  have f: "x \<in> cache_fields cc \<Longrightarrow> x \<noteq> ch" for x using assms(1) by (auto simp: boot_ok_def)
  have ne: "slabs_partial cc \<noteq> ch" "slabs_full cc \<noteq> ch" "slabs_free cc \<noteq> ch" "cache_next cc \<noteq> ch"
    by (rule f; simp add: cache_fields_def)+
  have nx: "cache_next cc \<notin> heads cc"
    by (auto simp: heads_def cache_next_def slabs_partial_def slabs_full_def slabs_free_def)
  have lks: "dlist (lk s) ch [cache_next cc] \<and> (\<forall>h \<in> heads cc. lnext (lk s) h = h \<and> lprev (lk s) h = h)"
    using ne ne [symmetric] nx
    by (auto simp: s_def static_caches_def on_links_def dlist_def links_defs heads_def)
  have hdr: "cache_hdr s cc \<lparr>objsz = 48, objcnt = objs_per_slab 48, ctor = None, cname = ''kmem_cache''\<rparr>"
    using assms(1)
    by (simp add: s_def cache_hdr_def boot_ok_def static_caches_def on_links_def sizeof_kmem_cache_def cache_fields_def)
  show "\<not> live cc s p" using lks by (intro empty_cache(2) [OF hdr]) blast
  have "cache_ok cc s" using lks by (intro empty_cache(1) [OF hdr]) blast
  moreover have "statics_ok s"
    using assms(1) f by (auto simp: s_def statics_ok_def statics_def boot_ok_def static_caches_def on_links_def)
  moreover have "cache_cache s = cc" "cache_chain s = ch" by (simp_all add: s_def static_caches_def on_links_def)
  ultimately show "caches_ok {cc} s" using lks by (auto simp: caches_ok_def)
qed

definition generic_sizes :: "(string \<times> u32) list" where
  "generic_sizes = [(''4 Byte'', 4), (''8 Byte'', 8), (''16 Byte'', 16), (''32 Byte'', 32), (''64 Byte'', 64),
     (''128 Byte'', 128)]"

lemma generic_sizes: "length generic_sizes = 6" "\<forall>(nm, sz) \<in> set generic_sizes. 4 \<le> sz \<and> sz < 4072"
  "i < 6 \<Longrightarrow> align_down (snd (generic_sizes ! i)) 2 = class_size i"
proof -
  assume "i < 6"
  then have "i = 0 \<or> i = 1 \<or> i = 2 \<or> i = 3 \<or> i = 4 \<or> i = 5" by linarith
  then have "unat (align_down (snd (generic_sizes ! i)) 2) = unat (class_size i)"
    unfolding unat_align_down by (elim disjE) (simp_all add: class_size_def generic_sizes_def)
  then show "align_down (snd (generic_sizes ! i)) 2 = class_size i" by (simp add: word_unat_eq_iff)
qed (simp_all add: generic_sizes_def)

lemma cache_init_eq:
  "cache_init (static_caches cc ch k) =
    create_generic generic_sizes 0 (on_links (list_add (cache_next cc) ch) (static_caches cc ch k))"
  by (simp add: cache_init_def generic_sizes_def) (simp add: static_caches_def)

lemma cache_init_ok:
  assumes "boot_ok cc ch k" "cache_init (static_caches cc ch k) = Inr s"
  shows "cache_cache s = cc" "caches_ok (insert cc (set (generic_cachep s))) s"
    "generics_in (insert cc (set (generic_cachep s))) s"
proof -
  let ?s = "on_links (list_add (cache_next cc) ch) (static_caches cc ch k)"
  have t: "cache_cache ?s = cc" "generic_cachep ?s = replicate 6 NULL"
    by (simp_all add: static_caches_def on_links_def)
  obtain cps where s: "length cps = 6" "distinct cps" "set cps \<inter> {cc} = {}"
    "caches_ok ({cc} \<union> set cps) s" "cache_cache s = cc" "generic_cachep s = cps"
    and c: "\<forall>j < 6. \<exists>c. caches s (cps ! j) = Some c \<and> objsz c = align_down (snd (generic_sizes ! j)) 2"
    using create_generic_ok [OF static_rep(1) [OF assms(1)] assms(2) [unfolded cache_init_eq] generic_sizes(2)]
    unfolding t generic_sizes(1) by auto
  show "cache_cache s = cc" "caches_ok (insert cc (set (generic_cachep s))) s" using s by simp_all
  show "generics_in (insert cc (set (generic_cachep s))) s"
    unfolding generics_in_def
  proof (intro conjI allI impI)
    fix i :: nat
    assume i: "i < 6"
    then have "cps ! i \<in> set cps" using s(1) by simp
    then show "generic_cachep s ! i \<in> insert cc (set (generic_cachep s)) - {cache_cache s}" using s by auto
    show "\<exists>c. caches s (generic_cachep s ! i) = Some c \<and> objsz c = class_size i"
      using c i generic_sizes(3) [OF i] s(6) by auto
  qed (use s in simp_all)
qed

lemma cache_init_total:
  assumes "boot_ok cc ch k" "6 \<le> mem_stat (pages k)"
  obtains s where "cache_init (static_caches cc ch k) = Inr s" "mem_stat (pages k) \<le> mem_stat (pages (km s)) + 6"
proof -
  have "km (on_links (list_add (cache_next cc) ch) (static_caches cc ch k)) = k"
    by (simp add: on_links_def static_caches_def)
  then show thesis
    using create_generic_total [OF static_rep(1) [OF assms(1)] _ generic_sizes(2), of 0] assms(2) that
    by (auto simp: cache_init_eq generic_sizes(1))
qed

section \<open>\<open>kmalloc\<close> and \<open>kfree\<close>\<close>

lemma generics_keep:
  "generics_in C s \<Longrightarrow> caches s' = caches s \<Longrightarrow> generic_cachep s' = generic_cachep s \<Longrightarrow>
   cache_cache s' = cache_cache s \<Longrightarrow> generics_in C s'"
  by (simp add: generics_in_def)

lemma generics_class:
  assumes "generics_in C s" "0 < sz" "sz \<le> 128"
  shows "generic_cachep s ! size_class sz \<in> C" "generic_cachep s ! size_class sz \<noteq> cache_cache s"
  using assms size_class_fits(1) [OF assms(2,3)] by (auto simp: generics_in_def)

lemma generics_member:
  "generics_in C s \<Longrightarrow> i < 6 \<Longrightarrow> generic_cachep s ! i \<in> C \<and> generic_cachep s ! i \<noteq> cache_cache s"
  by (auto simp: generics_in_def)

lemma generics_pool:
  assumes ok: "caches_ok C s" and gen: "generics_in C s" and i: "i < 6"
  shows "pool_ok (generic_cachep s ! i) s"
proof -
  have "generic_cachep s ! i \<in> C" and c: "\<exists>c. caches s (generic_cachep s ! i) = Some c \<and> objsz c = class_size i"
    using gen i by (auto simp: generics_in_def)
  then have "cache_ok (generic_cachep s ! i) s" using caches_structs [OF ok] by blast
  moreover have "i = 0 \<or> i = 1 \<or> i = 2 \<or> i = 3 \<or> i = 4 \<or> i = 5" using i by linarith
  then have "0 < class_size i \<and> class_size i \<le> 4068" by (elim disjE) (simp_all add: class_size_def)
  ultimately show ?thesis using c by (auto simp: pool_ok_iff usable_def)
qed

lemma kmalloc_alloc:
  assumes "caches_ok C s" "generics_in C s" "0 < sz" "sz \<le> 128"
  shows "kmalloc sz s = kmem_cache_alloc (generic_cachep s ! size_class sz) s"
proof (cases "kmem_cache_alloc (generic_cachep s ! size_class sz) s")
  case (Inr r)
  obtain p s1 where r: "r = (p, s1)" by (cases r)
  have "caches_ok C s1" using caches_alloc [OF assms(1) generics_class(1) [OF assms(2-4)]] Inr r by blast
  then have "cache_ok (generic_cachep s ! size_class sz) s1"
    using generics_class(1) [OF assms(2-4)] caches_structs by blast
  from pool_cache_at [OF this] show ?thesis using Inr r assms(3,4) by (auto simp: kmalloc_def)
qed (use assms(3,4) in \<open>simp add: kmalloc_def\<close>)

lemma kfree_free:
  assumes "caches_ok C s" "cp \<in> C" "pool_ok cp s" "cp \<noteq> cache_cache s" "live cp s p"
  shows "kfree p s = kmem_cache_free cp p s"
proof -
  obtain sl where sl: "slabs s (ADDR_TO_SLAB p) = Some sl" "cache sl = cp" "check_slab (ADDR_TO_SLAB p) s = Inr ()"
    using live_slab [OF assms(5)] .
  obtain s' where run: "kmem_cache_free cp p s = Inr s'" and ok: "caches_ok C s'"
    using caches_free [OF assms(1,2,3,5)] assms(4) by metis
  have "\<exists>c. cache_at cp s' = Inr c" using pool_cache_at caches_structs [OF ok assms(2)] by blast
  then show ?thesis using sl run live_nonnull [OF assms(5)] by (auto simp: kfree_def slab_at_def)
qed

lemma caches_kfree:
  assumes ok: "caches_ok C s" "generics_in C s" and cp: "cp \<in> C" "pool_ok cp s" "cp \<noteq> cache_cache s" and p: "live cp s p"
  obtains s' where "kfree p s = Inr s'" "caches_ok C s'" "generics_in C s'"
    "\<And>q x. q \<in> C \<Longrightarrow> live q s' x \<longleftrightarrow> live q s x \<and> \<not> (q = cp \<and> x = p)"
    "generic_cachep s' = generic_cachep s" "cache_cache s' = cache_cache s" "caches s' = caches s" "km s' = km s"
proof -
  from caches_free [OF ok(1) cp(1,2) p] cp(3) obtain s' where s': "kmem_cache_free cp p s = Inr s'" "caches_ok C s'"
    "\<And>q x. q \<in> C \<Longrightarrow> live q s' x \<longleftrightarrow> live q s x \<and> \<not> (q = cp \<and> x = p)"
    "caches s' = caches s" "generic_cachep s' = generic_cachep s" "cache_cache s' = cache_cache s" "km s' = km s" by metis
  then show thesis using kfree_free [OF ok(1) cp p] generics_keep [OF ok(2), of s'] by (intro that [of s']) simp_all
qed

section \<open>The allocator at work\<close>

text \<open>
  What the kernel can do with the allocator from \<^verbatim>\<open>cache_init\<close> on: make caches of any size for
  which \<^verbatim>\<open>kmem_cache_create\<close> returns, take objects and give live ones back, but not the struct of a
  cache in use. (Nothing calls \<^verbatim>\<open>kmem_cache_destroy\<close>.)
\<close>

inductive slab_run :: "addr_t \<Rightarrow> addr_t \<Rightarrow> kmem \<Rightarrow> addr_t set \<Rightarrow> slab_state \<Rightarrow> bool"
  for cc :: addr_t and ch :: addr_t and k :: kmem where
  boot: "cache_init (static_caches cc ch k) = Inr s \<Longrightarrow> slab_run cc ch k (insert cc (set (generic_cachep s))) s"
| create: "slab_run cc ch k C s \<Longrightarrow> kmem_cache_createx nm sz f s = Inr (cp, s') \<Longrightarrow>
    slab_run cc ch k (insert cp C) s'"
| alloc: "slab_run cc ch k C s \<Longrightarrow> cp \<in> C \<Longrightarrow> kmem_cache_alloc cp s = Inr (p, s') \<Longrightarrow> slab_run cc ch k C s'"
| free: "slab_run cc ch k C s \<Longrightarrow> cp \<in> C \<Longrightarrow> live cp s p \<Longrightarrow> p \<notin> C \<Longrightarrow> kmem_cache_free cp p s = Inr s' \<Longrightarrow>
    slab_run cc ch k C s'"
| malloc: "slab_run cc ch k C s \<Longrightarrow> kmalloc sz s = Inr (p, s') \<Longrightarrow> slab_run cc ch k C s'"
| mfree: "slab_run cc ch k C s \<Longrightarrow> i < 6 \<Longrightarrow> live (generic_cachep s ! i) s p \<Longrightarrow> kfree p s = Inr s' \<Longrightarrow>
    slab_run cc ch k C s'"

lemma run_invariant:
  assumes "slab_run cc ch k C s" "boot_ok cc ch k"
  shows "caches_ok C s \<and> generics_in C s"
  using assms(1)
proof induction
  case (boot s)
  then show ?case using cache_init_ok [OF assms(2)] by blast
next
  case (create C s sz nm f cp s')
  then have c: "cp \<notin> C" "caches_ok (insert cp C) s'" "cache_cache s' = cache_cache s" "generic_cachep s' = generic_cachep s"
    "\<And>q. q \<in> C \<Longrightarrow> caches s' q = caches s q" using caches_create by auto
  then show ?case using create.IH by (auto simp: generics_in_def)
next
  case (alloc C s cp p s')
  then show ?case using caches_alloc [of C s cp p s'] by (auto intro: generics_keep)
next
  case (free C s cp p s')
  have "cache_ok cp s" using free caches_structs by blast
  then obtain c L F where rep: "cache_rep s cp c L F" by (auto simp: cache_ok_def)
  then have hdr: "cache_hdr s cp c" by (simp add: cache_rep_def)
  have "objcnt c \<noteq> 0" using free.hyps(3) by (auto simp: live_iff [OF rep] live_objs_iff)
  moreover have "objsz c \<noteq> 0"
    using flat_cache(2) [OF \<open>cache_ok cp s\<close> cache_rep_caches [OF rep] _ free.hyps(3)] free.hyps(5) by auto
  ultimately have pool: "pool_ok cp s" using rep usable_iff [OF hdr] by (auto simp: pool_ok_def)
  from free.IH free.hyps obtain t where "kmem_cache_free cp p s = Inr t" "caches_ok C t"
    "caches t = caches s" "generic_cachep t = generic_cachep s" "cache_cache t = cache_cache s"
    using caches_free [of C s cp p] pool by metis
  then show ?case using generics_keep [of C s t] free by simp
next
  case (malloc C s sz p s')
  from malloc.hyps(2) have sz: "0 < sz" "sz \<le> 128" by (auto simp: kmalloc_def assertr_eq_Inr)
  then have "kmem_cache_alloc (generic_cachep s ! size_class sz) s = Inr (p, s')"
    using kmalloc_alloc [of C s sz] malloc.IH malloc.hyps(2) by simp
  from caches_alloc [OF _ generics_class(1) this] malloc.IH sz show ?case by (auto intro: generics_keep)
next
  case (mfree C s i p s')
  then have "generic_cachep s ! i \<in> C" "generic_cachep s ! i \<noteq> cache_cache s" by (auto simp: generics_in_def)
  from caches_kfree [OF _ _ this(1) generics_pool this(2) mfree.hyps(3)] mfree show ?case
    by (metis sum.inject(2))
qed

text \<open>What a cache in order is for its clients, by the size of its objects.\<close>

lemma cache_by_size:
  assumes "cache_ok cp s"
  shows "\<exists>c. caches s cp = Some c \<and>
      (if objsz c = 0 then \<forall>p. live cp s p \<longrightarrow> frame p = p \<and> kmem_cache_free cp p s = Inl Bad_access
       else if 4068 < objsz c then (\<forall>p. \<not> live cp s p) \<and> (\<forall>r. kmem_cache_alloc cp s \<noteq> Inr r)
       else pool_ok cp s)"
proof -
  from assms obtain c L F where rep: "cache_rep s cp c L F" by (auto simp: cache_ok_def)
  then have hdr: "cache_hdr s cp c" by (simp add: cache_rep_def)
  note c = cache_rep_caches [OF rep]
  have "pool_ok cp s" if "objsz c \<noteq> 0" "\<not> 4068 < objsz c"
    using rep that by (auto simp: pool_ok_def usable_def word_gt_0 not_less)
  with flat_cache [OF assms c] slabless_cache [OF assms c] objcnt_zero_iff [OF hdr] c show ?thesis by auto
qed

section \<open>Properties\<close>

text \<open>
  C8: After any sequence of operations from \<^verbatim>\<open>cache_init\<close> on, with caches made for objects of any
  size, the lists and free chains of every cache are in order, its struct is a live object of
  \<^verbatim>\<open>cache_cache\<close>, the chain links exactly these caches, and the six generic caches are among them
  with the sizes 4 to 128. A cache whose objects have 4 to 4068 bytes (after the rounding down to
  a multiple of 4) is a pool of objects. The two kinds of caches outside this range, which
  \<^verbatim>\<open>kmem_cache_create\<close> makes all the same, do no harm to the others: in one for 1 to 3 bytes all
  objects of a slab are the start of its page, and giving one back stops at the division by the
  object size; from one for more than 4071 bytes no allocation ever returns.
\<close>

theorem slab_system_consistent:
  assumes "boot_ok cc ch k" and "slab_run cc ch k C s"
  shows "(\<forall>cp \<in> C. cache_ok cp s \<and> (\<exists>c. caches s cp = Some c \<and>
      (if objsz c = 0 then \<forall>p. live cp s p \<longrightarrow> frame p = p \<and> kmem_cache_free cp p s = Inl Bad_access
       else if 4068 < objsz c then (\<forall>p. \<not> live cp s p) \<and> (\<forall>r. kmem_cache_alloc cp s \<noteq> Inr r)
       else pool_ok cp s))) \<and>
    (\<forall>cp \<in> C. cp \<noteq> cache_cache s \<longrightarrow> live (cache_cache s) s cp) \<and>
    (\<exists>cs. list_for_each (lk s) (cache_chain s) = Some cs \<and> distinct cs \<and> set cs = cache_next ` C) \<and>
    length (generic_cachep s) = 6 \<and> (\<forall>i < 6. generic_cachep s ! i \<in> C \<and> pool_ok (generic_cachep s ! i) s \<and>
      (\<exists>c. caches s (generic_cachep s ! i) = Some c \<and> objsz c = of_nat (4 * 2 ^ i)))"
proof -
  have ok: "caches_ok C s" "generics_in C s" using run_invariant [OF assms(2,1)] by simp_all
  from ok(1) obtain cs where cs: "dlist (lk s) (cache_chain s) cs" "set cs = cache_next ` C" by (auto simp: caches_ok_def)
  have "list_for_each (lk s) (cache_chain s) = Some cs" "distinct cs"
    using list_for_each_dlist [OF cs(1)] cs(1) by (simp_all add: dlist_def)
  with cs(2) ok cache_by_size generics_pool [OF ok] show ?thesis
    by (auto simp: caches_ok_def generics_in_def class_size_def)
qed

lemma boot_5000: "boot_ok 0x5000 0x5100 bare_kmem"
proof -
  have "frame a < LOW_MEM" if "a \<in> insert 0x5100 (cache_fields 0x5000)" for a
    using that by (auto simp: cache_fields_def cache_next_def heads_def slabs_partial_def slabs_full_def slabs_free_def
      frame_def LOW_MEM_def simp del: frame_const)
  then have "\<forall>a \<in> insert 0x5100 (cache_fields 0x5000). not_free (pages bare_kmem) (frame a)" using low_not_free by blast
  moreover have "0x5100 \<notin> cache_fields 0x5000"
    by (simp add: cache_fields_def cache_next_def heads_def slabs_partial_def slabs_full_def slabs_free_def)
  ultimately show ?thesis using bare_kmem_ok(1) by (simp add: boot_ok_def vm_ok_def)
qed

lemma bare_memory: "mem_stat (pages bare_kmem) = 3840"
  by (simp add: bare_kmem_def mem_stat_def NR_PAGES_eq)

lemma boot_run:
  obtains s where "cache_init (static_caches 0x5000 0x5100 bare_kmem) = Inr s" "2 \<le> mem_stat (pages (km s))"
    "caches_ok (insert 0x5000 (set (generic_cachep s))) s" "generics_in (insert 0x5000 (set (generic_cachep s))) s"
proof (rule cache_init_total [OF boot_5000])
  show "6 \<le> mem_stat (pages bare_kmem)" by (simp add: bare_memory)
  fix s
  assume "cache_init (static_caches 0x5000 0x5100 bare_kmem) = Inr s"
    and "mem_stat (pages bare_kmem) \<le> mem_stat (pages (km s)) + 6"
  with cache_init_ok [OF boot_5000 this(1)] show thesis by (intro that) (simp_all add: bare_memory)
qed

text \<open>A cache for 2 bytes and one for 5000 bytes, made behind the generic ones.\<close>

theorem slab_system_consistent_witness:
  "\<exists>C s cp cq c d. slab_run 0x5000 0x5100 bare_kmem C s \<and> cp \<in> C \<and> cq \<in> C \<and>
    pool_ok (generic_cachep s ! 5) s \<and>
    caches s cp = Some c \<and> objsz c = 0 \<and> cache_ok cp s \<and>
    caches s cq = Some d \<and> objcnt d = 0 \<and> (\<nexists>r. kmem_cache_alloc cq s = Inr r)"
proof (rule boot_run)
  fix s
  assume run: "cache_init (static_caches 0x5000 0x5100 bare_kmem) = Inr s" and m: "2 \<le> mem_stat (pages (km s))"
    and ok: "caches_ok (insert 0x5000 (set (generic_cachep s))) s"
  let ?C = "insert 0x5000 (set (generic_cachep s))"
  have a: "align_down 2 2 = 0" "align_down 5000 2 = 5000" by (simp_all add: align_down_def)
  obtain cp s1 where s1: "kmem_cache_createx ''two'' 2 None s = Inr (cp, s1)"
    using create_with_memory [OF ok, of 2 "''two''" None] m a by auto
  note one = caches_create [OF ok s1]
  obtain cq s2 where s2: "kmem_cache_createx ''large'' 5000 None s1 = Inr (cq, s2)"
    using create_with_memory [of "insert cp ?C" s1 5000 "''large''" None] one m a by auto
  note two = caches_create [OF _ s2, of "insert cp ?C"]
  let ?D = "insert cq (insert cp ?C)"
  have r: "slab_run 0x5000 0x5100 bare_kmem ?D s2"
    by (rule slab_run.create [OF slab_run.create [OF slab_run.boot [OF run] s1] s2])
  note all = slab_system_consistent [OF boot_5000 r]
  have "cq \<noteq> cp" using two one by auto
  then obtain c d where c: "caches s2 cp = Some c" "objsz c = 0" and d: "caches s2 cq = Some d" "objsz d = 5000"
    "objcnt d = objs_per_slab 5000" using one two a by simp
  have "objcnt d = 0" using d(3) by (simp add: objs_per_slab_def PAGE_SIZE_def sizeof_slab_def)
  moreover have "cache_ok cp s2" using all [THEN conjunct1] by blast
  moreover have "\<forall>r. kmem_cache_alloc cq s2 \<noteq> Inr r"
    using all [THEN conjunct1, THEN bspec, of cq] d by simp
  moreover have "pool_ok (generic_cachep s2 ! 5) s2" using all by simp
  ultimately show ?thesis using r c d(1) by blast
qed

text \<open>
  C35: \<^verbatim>\<open>kmalloc\<close> stops the machine for 0 and for more than 128 bytes. Any other request is served from
  the smallest generic cache whose objects hold it, or ends in the out-of-memory panic; what it
  returns was not live and is the only object that becomes live in any cache, and \<^verbatim>\<open>kfree\<close> gives it
  back to the cache it came from, with the same objects live everywhere as before.
\<close>

theorem kmalloc_kfree:
  assumes "caches_ok C s" and "generics_in C s"
  shows "(sz = 0 \<or> 128 < sz \<longrightarrow> kmalloc sz s = Inl Assert_failed) \<and>
    (0 < sz \<and> sz \<le> 128 \<longrightarrow>
      (\<exists>i < 6. unat sz \<le> 4 * 2 ^ i \<and> (i = 0 \<or> 2 * 2 ^ i < unat sz) \<and>
        (kmalloc sz s = Inl (Panic ''out of memory'') \<and> mem_stat (pages (km s)) = 0 \<or>
         (\<exists>p s1 s2. kmalloc sz s = Inr (p, s1) \<and> \<not> live (generic_cachep s ! i) s p \<and>
            (\<forall>q \<in> C. {x. live q s1 x} = {x. live q s x \<or> q = generic_cachep s ! i \<and> x = p}) \<and>
            kfree p s1 = Inr s2 \<and> (\<forall>q \<in> C. {x. live q s2 x} = {x. live q s x}) \<and> caches_ok C s2 \<and>
            caches s2 = caches s))))"
proof (intro conjI impI)
  show "kmalloc sz s = Inl Assert_failed" if "sz = 0 \<or> 128 < sz"
    using that by (auto simp: kmalloc_def assertr_def)
  assume sz: "0 < sz \<and> sz \<le> 128"
  let ?cp = "generic_cachep s ! size_class sz"
  note cp = generics_class [OF assms(2) sz [THEN conjunct1] sz [THEN conjunct2]]
  have size: "size_class sz < 6" using size_class_fits(1) sz by simp
  note pool = generics_pool [OF assms size]
  have eq: "kmalloc sz s = kmem_cache_alloc ?cp s" using kmalloc_alloc [OF assms] sz by simp
  have "kmalloc sz s = Inl (Panic ''out of memory'') \<and> mem_stat (pages (km s)) = 0 \<or>
    (\<exists>p s1 s2. kmalloc sz s = Inr (p, s1) \<and> \<not> live ?cp s p \<and>
       (\<forall>q \<in> C. {x. live q s1 x} = {x. live q s x \<or> q = ?cp \<and> x = p}) \<and>
       kfree p s1 = Inr s2 \<and> (\<forall>q \<in> C. {x. live q s2 x} = {x. live q s x}) \<and> caches_ok C s2 \<and> caches s2 = caches s)"
  proof (cases "kmem_cache_alloc ?cp s")
    case (Inl e)
    from pool show ?thesis using eq Inl by (cases rule: kmem_cache_alloc_cases [of ?cp s]) auto
  next
    case (Inr r)
    obtain p s1 where r: "r = (p, s1)" by (cases r)
    note a = caches_alloc [OF assms(1) cp(1) Inr [unfolded r]]
    have g1: "generics_in C s1" using a generics_keep [OF assms(2)] by blast
    then have p1: "pool_ok ?cp s1" using a generics_pool [OF _ _ size] by metis
    have "live ?cp s1 p" using a cp(1) by simp
    with a cp g1 p1 obtain s2 where "kfree p s1 = Inr s2" "caches_ok C s2" "caches s2 = caches s1"
      "\<And>q x. q \<in> C \<Longrightarrow> live q s2 x \<longleftrightarrow> live q s1 x \<and> \<not> (q = ?cp \<and> x = p)"
      using caches_kfree [of C s1 ?cp p] by metis
    then show ?thesis using a pool eq Inr r
      by (intro disjI2 exI [of _ p] exI [of _ s1] exI [of _ s2]) auto
  qed
  with size_class_fits [of sz] sz show "\<exists>i < 6. unat sz \<le> 4 * 2 ^ i \<and> (i = 0 \<or> 2 * 2 ^ i < unat sz) \<and>
        (kmalloc sz s = Inl (Panic ''out of memory'') \<and> mem_stat (pages (km s)) = 0 \<or>
         (\<exists>p s1 s2. kmalloc sz s = Inr (p, s1) \<and> \<not> live (generic_cachep s ! i) s p \<and>
            (\<forall>q \<in> C. {x. live q s1 x} = {x. live q s x \<or> q = generic_cachep s ! i \<and> x = p}) \<and>
            kfree p s1 = Inr s2 \<and> (\<forall>q \<in> C. {x. live q s2 x} = {x. live q s x}) \<and> caches_ok C s2 \<and>
            caches s2 = caches s))"
    by blast
qed

theorem kmalloc_kfree_witness:
  "\<exists>s p s1 s2. cache_init (static_caches 0x5000 0x5100 bare_kmem) = Inr s \<and> kmalloc 129 s = Inl Assert_failed \<and>
    kmalloc 5 s = Inr (p, s1) \<and> kfree p s1 = Inr s2"
proof (rule boot_run)
  fix s
  assume run: "cache_init (static_caches 0x5000 0x5100 bare_kmem) = Inr s" and m: "2 \<le> mem_stat (pages (km s))"
    and ok: "caches_ok (insert 0x5000 (set (generic_cachep s))) s" "generics_in (insert 0x5000 (set (generic_cachep s))) s"
  have m': "mem_stat (pages (km s)) \<noteq> 0" using m by simp
  have "(0 :: u32) < 5 \<and> 5 \<le> (128 :: u32)" by simp
  from kmalloc_kfree [OF ok, of 5, THEN conjunct2, THEN mp, OF this] m'
  obtain p s1 s2 where "kmalloc 5 s = Inr (p, s1)" "kfree p s1 = Inr s2" by blast
  moreover have "kmalloc 129 s = Inl Assert_failed" using kmalloc_kfree [OF ok, of 129, THEN conjunct1] by simp
  ultimately show ?thesis using run by blast
qed

end
