(* ===== verification/Fs_State.thy ===== *)
theory Fs_State imports Bitmap Slab begin

text \<open>
  The state of the file system (\<^verbatim>\<open>include/fs.h\<close>, the statics of \<^verbatim>\<open>fs/fs.c\<close>) and how its structs
  lie on the disk. Objects the slab allocator hands out are kept in maps from their addresses;
  an object that was never written is all zeros, since slab pages are zeroed, and a released one keeps
  what it held. C strings are lists of the bytes before the terminator: what the routines of
  \<^verbatim>\<open>string.c\<close> compute on them is shown in \<open>C_String\<close>.
\<close>

section \<open>Structs\<close>

record super_block =
  s_magic :: u32
  s_imap_start :: int
  s_imap_count :: int
  s_zmap_start :: int
  s_zmap_count :: int
  s_itable_start :: int
  s_itable_count :: int
  s_data_start :: int
  s_dev :: u16

record inode =
  i_inum :: u32
  i_size :: int
  i_mode :: u16
  i_nlink :: int
  i_zone :: "int list"
  i_super :: addr_t
  i_refcnt :: int

definition MAX_DENTRY_LENGTH :: nat where "MAX_DENTRY_LENGTH = 24"
definition DIR_REC_LEN :: int where "DIR_REC_LEN = 32"
definition FT_REG_FILE :: u8 where "FT_REG_FILE = 1"

record dir_entry =
  de_inode :: u32
  de_rec_len :: u16
  de_name_len :: u8
  de_file_type :: u8
  de_name :: "u8 list"

text \<open>A \<^verbatim>\<open>struct qstr\<close>: a length and the string that starts at the pointer.\<close>

record qstr =
  q_len :: nat
  q_name :: "u8 list"

text \<open>The name of a dentry is an object of its own; \<open>d_name\<close> is the pointer to it.\<close>

record dentry =
  d_parent :: addr_t
  d_len :: nat
  d_name :: addr_t
  d_inode :: addr_t
  d_refcnt :: int

record file_t =
  f_flags :: int
  f_mode :: int
  f_pos :: int
  f_refcnt :: int
  f_dentry :: addr_t

definition zero_inode :: inode where
  "zero_inode = \<lparr>i_inum = 0, i_size = 0, i_mode = 0, i_nlink = 0, i_zone = replicate 9 0, i_super = 0, i_refcnt = 0\<rparr>"

definition zero_dentry :: dentry where
  "zero_dentry = \<lparr>d_parent = 0, d_len = 0, d_name = 0, d_inode = 0, d_refcnt = 0\<rparr>"

definition zero_file :: file_t where
  "zero_file = \<lparr>f_flags = 0, f_mode = 0, f_pos = 0, f_refcnt = 0, f_dentry = 0\<rparr>"

text \<open>
  The static objects have the addresses the linker gives them. \<open>ilk\<close> holds the list links inside
  inodes and dentries; \<open>filp\<close> is the file table of the current task and \<open>umem\<close> its data segment.
\<close>

record 'e fs =
  bc :: "'e buf_state"
  sl :: slab_state
  super :: super_block
  super_at :: addr_t
  inodes :: "addr_t \<Rightarrow> inode"
  dentries :: "addr_t \<Rightarrow> dentry"
  dnames :: "addr_t \<Rightarrow> u8 list"
  files :: "addr_t \<Rightarrow> file_t"
  ilk :: "addr_t links"
  root_inode :: addr_t
  root_dentry :: addr_t
  inode_list :: addr_t
  dentry_list :: addr_t
  inode_cache :: addr_t
  dname_cache :: addr_t
  dentry_cache :: addr_t
  file_cache :: addr_t
  filps :: "addr_t list"
  umem :: mem

definition upd_inode :: "addr_t \<Rightarrow> (inode \<Rightarrow> inode) \<Rightarrow> 'e fs \<Rightarrow> 'e fs" where
  "upd_inode p f s = s\<lparr>inodes := (inodes s)(p := f (inodes s p))\<rparr>"

definition upd_dentry :: "addr_t \<Rightarrow> (dentry \<Rightarrow> dentry) \<Rightarrow> 'e fs \<Rightarrow> 'e fs" where
  "upd_dentry p f s = s\<lparr>dentries := (dentries s)(p := f (dentries s p))\<rparr>"

definition upd_file :: "addr_t \<Rightarrow> (file_t \<Rightarrow> file_t) \<Rightarrow> 'e fs \<Rightarrow> 'e fs" where
  "upd_file p f s = s\<lparr>files := (files s)(p := f (files s p))\<rparr>"

text \<open>Following a pointer: a null pointer is a bad access.\<close>

definition at :: "addr_t \<Rightarrow> (addr_t \<Rightarrow> 'a) \<Rightarrow> 'a res" where
  "at p m = (if p = 0 then Inl Bad_access else Inr (m p))"

definition sb_at :: "addr_t \<Rightarrow> 'e fs \<Rightarrow> super_block res" where
  "sb_at sb s = (if sb = super_at s then Inr (super s) else Inl Bad_access)"

text \<open>The list fields inside the structs, by their offsets.\<close>

definition i_list :: "addr_t \<Rightarrow> addr_t" where "i_list p = p + 52"
definition i_dentry :: "addr_t \<Rightarrow> addr_t" where "i_dentry p = p + 60"
definition d_alias :: "addr_t \<Rightarrow> addr_t" where "d_alias p = p + 16"
definition d_list :: "addr_t \<Rightarrow> addr_t" where "d_list p = p + 24"

text \<open>
  \<^verbatim>\<open>list_add\<close> and \<^verbatim>\<open>list_del\<close> store through the neighbours' pointers, which are null in a list head
  that was never initialised.
\<close>

definition link_add :: "addr_t \<Rightarrow> addr_t \<Rightarrow> 'e fs \<Rightarrow> 'e fs res" where
  "link_add new head s =
     (if lnext (ilk s) head = 0 then Inl Bad_access else Inr (s\<lparr>ilk := list_add new head (ilk s)\<rparr>))"

definition link_del :: "addr_t \<Rightarrow> 'e fs \<Rightarrow> 'e fs res" where
  "link_del entry s =
     (if lnext (ilk s) entry = 0 \<or> lprev (ilk s) entry = 0 then Inl Bad_access
      else Inr (s\<lparr>ilk := list_del entry (ilk s)\<rparr>))"

text \<open>An operation of the slab allocator or the page allocator, on the same memory.\<close>

definition slab_op :: "(slab_state \<Rightarrow> ('a \<times> slab_state) res) \<Rightarrow> 'e fs \<Rightarrow> ('a \<times> 'e fs) res" where
  "slab_op f s =
     bindr (f ((sl s)\<lparr>km := (km (sl s))\<lparr>ram := bmem (bc s)\<rparr>\<rparr>)) (\<lambda>(a, t).
     Inr (a, s\<lparr>sl := t, bc := upd_bmem (\<lambda>_. ram (km t)) (bc s)\<rparr>))"

definition fs_alloc :: "addr_t \<Rightarrow> 'e fs \<Rightarrow> (addr_t \<times> 'e fs) res" where
  "fs_alloc cachep = slab_op (kmem_cache_alloc cachep)"

definition fs_free :: "addr_t \<Rightarrow> addr_t \<Rightarrow> 'e fs \<Rightarrow> 'e fs res" where
  "fs_free cachep p s = bindr (slab_op (\<lambda>t. bindr (kmem_cache_free cachep p t) (\<lambda>t. Inr ((), t))) s) (\<lambda>(_, s). Inr s)"

definition fs_alloc_page :: "'e fs \<Rightarrow> (addr_t \<times> 'e fs) res" where
  "fs_alloc_page = slab_op (\<lambda>t. bindr (take_page (km t)) (\<lambda>(p, k). Inr (p, t\<lparr>km := k\<rparr>)))"

definition fs_free_page :: "addr_t \<Rightarrow> 'e fs \<Rightarrow> 'e fs res" where
  "fs_free_page p s =
     bindr (slab_op (\<lambda>t. bindr (free_page p (pages (km t))) (\<lambda>g. Inr ((), t\<lparr>km := (km t)\<lparr>pages := g\<rparr>\<rparr>))) s)
       (\<lambda>(_, s). Inr s)"

text \<open>The buffer operations, lifted.\<close>

definition fs_bread :: "'e ports \<Rightarrow> u16 \<Rightarrow> int \<Rightarrow> 'e fs \<Rightarrow> ((addr_t \<times> addr_t) \<times> 'e fs) res" where
  "fs_bread io dev n s =
     bindr (bread io dev n (bc s)) (\<lambda>(bh, b). bindr (buf_at bh b) (\<lambda>h. Inr ((bh, b_data h), s\<lparr>bc := b\<rparr>)))"

definition fs_brelease :: "'e ports \<Rightarrow> addr_t \<Rightarrow> 'e fs \<Rightarrow> 'e fs res" where
  "fs_brelease io bh s = bindr (brelease io bh (bc s)) (\<lambda>b. Inr (s\<lparr>bc := b\<rparr>))"

definition fs_bwrite :: "addr_t \<Rightarrow> 'e fs \<Rightarrow> 'e fs res" where
  "fs_bwrite bh s = bindr (bwrite bh (bc s)) (\<lambda>b. Inr (s\<lparr>bc := b\<rparr>))"

definition upd_mem :: "(mem \<Rightarrow> mem) \<Rightarrow> 'e fs \<Rightarrow> 'e fs" where
  "upd_mem f s = s\<lparr>bc := upd_bmem f (bc s)\<rparr>"

section \<open>Bytes\<close>

definition enc16 :: "u16 \<Rightarrow> u8 list" where
  "enc16 w = [ucast w, ucast (drop_bit 8 w)]"

definition enc32 :: "u32 \<Rightarrow> u8 list" where
  "enc32 w = [ucast w, ucast (drop_bit 8 w), ucast (drop_bit 16 w), ucast (drop_bit 24 w)]"

text \<open>The half word and the word at an offset of a block of bytes.\<close>

definition get16 :: "nat \<Rightarrow> u8 list \<Rightarrow> u16" where
  "get16 i bs = ucast (bs ! i) OR push_bit 8 (ucast (bs ! (i + 1)))"

definition get32 :: "nat \<Rightarrow> u8 list \<Rightarrow> u32" where
  "get32 i bs = ucast (bs ! i) OR push_bit 8 (ucast (bs ! (i + 1)))
     OR push_bit 16 (ucast (bs ! (i + 2))) OR push_bit 24 (ucast (bs ! (i + 3)))"

text \<open>\<^verbatim>\<open>sizeof(struct inode)\<close> is 72, of which the first 48 bytes are read back.\<close>

definition sizeof_inode :: nat where "sizeof_inode = 72"

definition inode_bytes :: "addr_t \<Rightarrow> 'e fs \<Rightarrow> u8 list" where
  "inode_bytes p s =
     (let i = inodes s p in
      enc32 (i_inum i) @ enc32 (of_int (i_size i)) @ enc16 (i_mode i) @ enc16 (of_int (i_nlink i)) @
      concat (map (enc32 \<circ> of_int) (i_zone i)) @ enc32 (i_super i) @
      enc32 (lnext (ilk s) (i_list p)) @ enc32 (lprev (ilk s) (i_list p)) @
      enc32 (lnext (ilk s) (i_dentry p)) @ enc32 (lprev (ilk s) (i_dentry p)) @
      enc32 (of_int (i_refcnt i)))"

text \<open>What \<^verbatim>\<open>read_inode\<close> takes from these bytes.\<close>

definition disk_inode :: "u8 list \<Rightarrow> inode \<Rightarrow> inode" where
  "disk_inode bs i = i\<lparr>i_size := sint (get32 4 bs), i_mode := get16 8 bs, i_nlink := sint (get16 10 bs),
     i_zone := map (\<lambda>k. sint (get32 (12 + 4 * k) bs)) [0..<9]\<rparr>"

definition dir_entry_bytes :: "dir_entry \<Rightarrow> u8 list" where
  "dir_entry_bytes de = enc32 (de_inode de) @ enc16 (de_rec_len de) @ [de_name_len de, de_file_type de] @ de_name de"

definition bytes_dir_entry :: "u8 list \<Rightarrow> dir_entry" where
  "bytes_dir_entry bs = \<lparr>de_inode = get32 0 bs, de_rec_len = get16 4 bs, de_name_len = bs ! 6,
     de_file_type = bs ! 7, de_name = take MAX_DENTRY_LENGTH (drop 8 bs)\<rparr>"

definition super_bytes :: "super_block \<Rightarrow> u8 list" where
  "super_bytes sb = enc32 (s_magic sb) @ enc32 (of_int (s_imap_start sb)) @ enc32 (of_int (s_imap_count sb)) @
     enc32 (of_int (s_zmap_start sb)) @ enc32 (of_int (s_zmap_count sb)) @ enc32 (of_int (s_itable_start sb)) @
     enc32 (of_int (s_itable_count sb)) @ enc32 (of_int (s_data_start sb)) @ enc16 (s_dev sb)"

definition bytes_super :: "u8 list \<Rightarrow> super_block" where
  "bytes_super bs = \<lparr>s_magic = get32 0 bs, s_imap_start = sint (get32 4 bs), s_imap_count = sint (get32 8 bs),
     s_zmap_start = sint (get32 12 bs), s_zmap_count = sint (get32 16 bs), s_itable_start = sint (get32 20 bs),
     s_itable_count = sint (get32 24 bs), s_data_start = sint (get32 28 bs), s_dev = get16 32 bs\<rparr>"

end
