(* ===== verification/Fs_Inode.thy ===== *)
theory Fs_Inode imports Fs_State "HOL-Library.Signed_Division" begin

text \<open>
  Blocks, inodes and zones (\<^verbatim>\<open>fs/fs.c\<close> from \<^verbatim>\<open>_get_blk\<close> to \<^verbatim>\<open>_write\<close>, and the super block). An inode lives in a
  table of 72 byte records on the disk; a file's data are in up to seven blocks its zone array names.
  Messages are not printed.
\<close>

section \<open>One block\<close>

definition bytes_at :: "mem \<Rightarrow> addr_t \<Rightarrow> nat \<Rightarrow> u8 list" where
  "bytes_at m p n = map (\<lambda>i. m (p + of_nat i)) [0..<n]"

text \<open>The two sequences around \<^verbatim>\<open>memcpy\<close> that the file system repeats: read a part of a block, and change it.\<close>

definition load_block :: "'e ports \<Rightarrow> u16 \<Rightarrow> int \<Rightarrow> nat \<Rightarrow> nat \<Rightarrow> 'e fs \<Rightarrow> (u8 list \<times> 'e fs) res" where
  "load_block io dev n off len s =
     bindr (fs_bread io dev n s) (\<lambda>((bh, data), s).
     let bs = bytes_at (bmem (bc s)) (data + of_nat off) len in
     bindr (fs_brelease io bh s) (\<lambda>s. Inr (bs, s)))"

definition save_block :: "'e ports \<Rightarrow> u16 \<Rightarrow> int \<Rightarrow> nat \<Rightarrow> u8 list \<Rightarrow> 'e fs \<Rightarrow> 'e fs res" where
  "save_block io dev n off bs s =
     bindr (fs_bread io dev n s) (\<lambda>((bh, data), s).
     bindr (fs_bwrite bh (upd_mem (stored (data + of_nat off) bs) s)) (\<lambda>s. fs_brelease io bh s))"

text \<open>An operation of the buffer cache.\<close>

definition on_buf :: "('e buf_state \<Rightarrow> ('a \<times> 'e buf_state) res) \<Rightarrow> 'e fs \<Rightarrow> ('a \<times> 'e fs) res" where
  "on_buf f s = bindr (f (bc s)) (\<lambda>(a, b). Inr (a, s\<lparr>bc := b\<rparr>))"

section \<open>Block and inode numbers\<close>

definition alloc_block_nr :: "'e ports \<Rightarrow> addr_t \<Rightarrow> 'e fs \<Rightarrow> (int \<times> 'e fs) res" where
  "alloc_block_nr io sb s =
     bindr (sb_at sb s) (\<lambda>d. on_buf (bitmap_alloc io (s_dev d) (s_zmap_start d) (s_zmap_start d + s_zmap_count d)) s)"

definition free_block_nr :: "'e ports \<Rightarrow> addr_t \<Rightarrow> int \<Rightarrow> 'e fs \<Rightarrow> 'e fs res" where
  "free_block_nr io sb n s =
     bindr (sb_at sb s) (\<lambda>d.
     bindr (bitmap_free io (s_dev d) (s_zmap_start d) (s_zmap_start d + s_zmap_count d) n (bc s)) (\<lambda>b. Inr (s\<lparr>bc := b\<rparr>)))"

definition alloc_inode_nr :: "'e ports \<Rightarrow> addr_t \<Rightarrow> 'e fs \<Rightarrow> (int \<times> 'e fs) res" where
  "alloc_inode_nr io sb s =
     bindr (sb_at sb s) (\<lambda>d. on_buf (bitmap_alloc io (s_dev d) (s_imap_start d) (s_imap_start d + s_imap_count d)) s)"

definition free_inode_nr :: "'e ports \<Rightarrow> addr_t \<Rightarrow> int \<Rightarrow> 'e fs \<Rightarrow> 'e fs res" where
  "free_inode_nr io sb n s =
     bindr (sb_at sb s) (\<lambda>d.
     bindr (bitmap_free io (s_dev d) (s_imap_start d) (s_imap_start d + s_imap_count d) n (bc s)) (\<lambda>b. Inr (s\<lparr>bc := b\<rparr>)))"

definition test_inode_nr :: "'e ports \<Rightarrow> addr_t \<Rightarrow> int \<Rightarrow> 'e fs \<Rightarrow> (int \<times> 'e fs) res" where
  "test_inode_nr io sb n s =
     bindr (sb_at sb s) (\<lambda>d. on_buf (bitmap_test io (s_dev d) (s_imap_start d) (s_imap_start d + s_imap_count d) n) s)"

definition get_blk :: "'e ports \<Rightarrow> addr_t \<Rightarrow> 'e fs \<Rightarrow> (int \<times> 'e fs) res" where
  "get_blk io sb s =
     assertr (sb = super_at s)
     (bindr (alloc_block_nr io sb s) (\<lambda>(blk_nr, s).
      if blk_nr \<noteq> 0
      then bindr (save_block io (s_dev (super s)) blk_nr 0 (replicate BLOCK_SIZE 0) s) (\<lambda>s. Inr (blk_nr, s))
      else Inr (blk_nr, s)))"

definition put_blk :: "'e ports \<Rightarrow> addr_t \<Rightarrow> int \<Rightarrow> 'e fs \<Rightarrow> 'e fs res" where
  "put_blk io sb blk_nr s = free_block_nr io sb blk_nr s"

section \<open>Inodes on the disk\<close>

definition inode_per_blk :: nat where "inode_per_blk = BLOCK_SIZE div sizeof_inode"

definition inode_blknr :: "super_block \<Rightarrow> u32 \<Rightarrow> int" where
  "inode_blknr d inum = int (unat inum div inode_per_blk) + s_itable_start d"

definition inode_blkoff :: "u32 \<Rightarrow> nat" where
  "inode_blkoff inum = (unat inum mod inode_per_blk) * sizeof_inode"

definition read_inode :: "'e ports \<Rightarrow> addr_t \<Rightarrow> u32 \<Rightarrow> addr_t \<Rightarrow> 'e fs \<Rightarrow> 'e fs res" where
  "read_inode io p inum sb s =
     assertr (inum \<noteq> 0 \<and> sb = super_at s)
     (bindr (test_inode_nr io sb (sint inum) s) (\<lambda>(t, s).
      if t = 0 then Inl (Panic ''read non-exist inode'')
      else bindr (load_block io (s_dev (super s)) (inode_blknr (super s) inum) (inode_blkoff inum) sizeof_inode s) (\<lambda>(bs, s).
        let s = upd_inode p (\<lambda>i. i\<lparr>i_inum := inum, i_super := sb\<rparr>) s in
        assertr (inum = get32 0 bs) (Inr (upd_inode p (disk_inode bs) s)))))"

definition write_inode :: "'e ports \<Rightarrow> addr_t \<Rightarrow> 'e fs \<Rightarrow> 'e fs res" where
  "write_inode io p s =
     (let inum = i_inum (inodes s p); sb = i_super (inodes s p) in
      assertr (p \<noteq> 0 \<and> inum \<noteq> 0 \<and> sb = super_at s)
      (bindr (test_inode_nr io sb (sint inum) s) (\<lambda>(t, s).
       if t = 0 then Inl (Panic ''write non-exist inode'')
       else save_block io (s_dev (super s)) (inode_blknr (super s) inum) (inode_blkoff inum) (inode_bytes p s) s)))"

section \<open>Zones\<close>

definition MAX_ZONE :: int where "MAX_ZONE = 7 + 256 + 256 * 256"

definition set_zone_blk :: "addr_t \<Rightarrow> int \<Rightarrow> int \<Rightarrow> 'e fs \<Rightarrow> 'e fs res" where
  "set_zone_blk p zone_nr blk_nr s =
     assertr (zone_nr \<ge> 0 \<and> zone_nr < MAX_ZONE)
     (if zone_nr > 6 then Inl (Panic ''Indirect inode zone is not support now'')
      else Inr (upd_inode p (\<lambda>i. i\<lparr>i_zone := (i_zone i)[nat zone_nr := blk_nr]\<rparr>) s))"

text \<open>The number of zones a file of this size has; the division is C's, towards zero.\<close>

definition zones_of :: "int \<Rightarrow> int" where
  "zones_of sz = (sz + int BLOCK_SIZE - 1) sdiv int BLOCK_SIZE"

definition get_zone_blk :: "addr_t \<Rightarrow> int \<Rightarrow> 'e fs \<Rightarrow> int res" where
  "get_zone_blk p zone_nr s =
     assertr (zone_nr \<ge> 0 \<and> zone_nr < MAX_ZONE)
     (if zone_nr > zones_of (i_size (inodes s p)) then Inl (Panic ''_get_zone_blk(): invalid zone number, too big.'')
      else if zone_nr > 6 then Inl (Panic ''Indirect inode zone is not support now'')
      else Inr (i_zone (inodes s p) ! nat zone_nr))"

text \<open>The two loops of \<^verbatim>\<open>_reserve_zone\<close>.\<close>

function grow_zones :: "'e ports \<Rightarrow> addr_t \<Rightarrow> int \<Rightarrow> int \<Rightarrow> 'e fs \<Rightarrow> 'e fs res" where
  "grow_zones io p cur_nzone nzone s =
     (if cur_nzone < nzone
      then bindr (get_blk io (i_super (inodes s p)) s) (\<lambda>(blk, s).
           bindr (set_zone_blk p cur_nzone blk s) (\<lambda>s.
           grow_zones io p (cur_nzone + 1) nzone s))
      else Inr s)"
  by pat_completeness auto
termination by (relation "measure (\<lambda>(io, p, c, n, s). nat (n - c))") auto

declare grow_zones.simps [simp del]

function shrink_zones :: "'e ports \<Rightarrow> addr_t \<Rightarrow> int \<Rightarrow> int \<Rightarrow> 'e fs \<Rightarrow> 'e fs res" where
  "shrink_zones io p cur_nzone nzone s =
     (if cur_nzone > nzone
      then bindr (get_zone_blk p (cur_nzone - 1) s) (\<lambda>blk.
           bindr (set_zone_blk p (cur_nzone - 1) 0 s) (\<lambda>s.
           bindr (put_blk io (i_super (inodes s p)) blk s) (\<lambda>s.
           shrink_zones io p (cur_nzone - 1) nzone s)))
      else Inr s)"
  by pat_completeness auto
termination by (relation "measure (\<lambda>(io, p, c, n, s). nat (c - n))") auto

declare shrink_zones.simps [simp del]

definition reserve_zone :: "'e ports \<Rightarrow> addr_t \<Rightarrow> int \<Rightarrow> bool \<Rightarrow> 'e fs \<Rightarrow> (int \<times> 'e fs) res" where
  "reserve_zone io p nzone trunc s =
     assertr (p \<noteq> 0 \<and> i_inum (inodes s p) \<ge> 1)
     (let cur_nzone = zones_of (i_size (inodes s p)) in
      if cur_nzone < nzone then bindr (grow_zones io p cur_nzone nzone s) (\<lambda>s. Inr (0, s))
      else if cur_nzone > nzone \<and> trunc then bindr (shrink_zones io p cur_nzone nzone s) (\<lambda>s. Inr (0, s))
      else Inr (0, s))"

section \<open>The life of an inode\<close>

text \<open>0 stands for \<^verbatim>\<open>NULL\<close>.\<close>

definition create_inode :: "'e ports \<Rightarrow> addr_t \<Rightarrow> u16 \<Rightarrow> 'e fs \<Rightarrow> (addr_t \<times> 'e fs) res" where
  "create_inode io sb mode s =
     assertr (sb = super_at s)
     (bindr (alloc_inode_nr io sb s) (\<lambda>(inum, s).
      if inum = - 1 then Inr (0, s)
      else bindr (fs_alloc (inode_cache s) s) (\<lambda>(p, s).
        if p = 0 then Inr (0, s)
        else
          let s = upd_inode p (\<lambda>i. \<lparr>i_inum = of_int inum, i_size = 0, i_mode = mode, i_nlink = 0,
                    i_zone = replicate 9 0, i_super = sb, i_refcnt = i_refcnt i\<rparr>) s;
              s = s\<lparr>ilk := INIT_LIST_HEAD (i_dentry p) (ilk s)\<rparr>;
              s = upd_inode p (\<lambda>i. i\<lparr>i_refcnt := 1\<rparr>) s
          in bindr (link_add (i_list p) (inode_list s) s) (\<lambda>s.
             bindr (write_inode io p s) (\<lambda>s. Inr (p, s))))))"

text \<open>\<^verbatim>\<open>list_for_each_entry\<close> of \<^verbatim>\<open>get_inode\<close>, from the node \<open>pos\<close> on.\<close>

partial_function (option) find_inode :: "u32 \<Rightarrow> addr_t \<Rightarrow> 'e fs \<Rightarrow> addr_t option res option" where
  "find_inode inum pos s =
     (if pos = inode_list s then Some (Inr None)
      else if pos = 0 then Some (Inl Bad_access)
      else let p = pos - 52 in
        if i_inum (inodes s p) = inum \<and> i_refcnt (inodes s p) \<noteq> 0 then Some (Inr (Some p))
        else find_inode inum (lnext (ilk s) pos) s)"

definition get_inode :: "'e ports \<Rightarrow> addr_t \<Rightarrow> u32 \<Rightarrow> 'e fs \<Rightarrow> (addr_t \<times> 'e fs) res" where
  "get_inode io sb inum s =
     bindr (of_loop (find_inode inum (lnext (ilk s) (inode_list s)) s)) (\<lambda>r. bindr r (\<lambda>hit.
       case hit of
         Some p \<Rightarrow> Inr (p, upd_inode p (\<lambda>i. i\<lparr>i_refcnt := i_refcnt i + 1\<rparr>) s)
       | None \<Rightarrow>
           bindr (fs_alloc (inode_cache s) s) (\<lambda>(p, s).
           if p = 0 then Inr (0, s)
           else bindr (read_inode io p inum sb s) (\<lambda>s.
                bindr (link_add (i_list p) (inode_list s) s) (\<lambda>s.
                Inr (p, upd_inode p (\<lambda>i. i\<lparr>i_refcnt := i_refcnt i + 1\<rparr>) s))))))"

definition put_inode :: "'e ports \<Rightarrow> addr_t \<Rightarrow> 'e fs \<Rightarrow> 'e fs res" where
  "put_inode io p s =
     assertr (p \<noteq> 0 \<and> i_refcnt (inodes s p) > 0)
     (let sb = i_super (inodes s p) in
      assertr (sb = super_at s)
      (let s = upd_inode p (\<lambda>i. i\<lparr>i_refcnt := i_refcnt i - 1\<rparr>) s in
       if i_refcnt (inodes s p) = 0
       then bindr
              (if i_nlink (inodes s p) = 0
               then assertr (list_empty (i_dentry p) (ilk s) \<and> p \<noteq> root_inode s)
                    (bindr (reserve_zone io p 0 True s) (\<lambda>(_, s).
                     free_inode_nr io sb (sint (i_inum (inodes s p))) s))
               else write_inode io p s) (\<lambda>s.
            bindr (link_del (i_list p) s) (\<lambda>s.
            fs_free (inode_cache s) p s))
       else Inr s))"

section \<open>File contents\<close>

text \<open>
  The loop of \<^verbatim>\<open>_read\<close> over the zones after the first. A rest of more than one block is read by its
  remainder, as the source has it; the loop ends since no zone beyond 6 is read.
\<close>

definition chunk :: "nat \<Rightarrow> nat" where
  "chunk left = (if left > BLOCK_SIZE then left mod BLOCK_SIZE else left)"

definition zone_dev :: "addr_t \<Rightarrow> 'e fs \<Rightarrow> u16 res" where
  "zone_dev p s = bindr (sb_at (i_super (inodes s p)) s) (\<lambda>d. Inr (s_dev d))"

function read_zones :: "'e ports \<Rightarrow> addr_t \<Rightarrow> int \<Rightarrow> nat \<Rightarrow> 'e fs \<Rightarrow> (u8 list \<times> 'e fs) res" where
  "read_zones io p zone left s =
     (if left > 0
      then bindr (zone_dev p s) (\<lambda>dev.
           bindr (get_zone_blk p zone s) (\<lambda>blk.
           bindr (load_block io dev blk 0 (chunk left) s) (\<lambda>(bs, s).
           bindr (read_zones io p (zone + 1) (left - chunk left) s) (\<lambda>(rest, s).
           Inr (bs @ rest, s)))))
      else Inr ([], s))"
  by pat_completeness auto
termination by (relation "measure (\<lambda>(io, p, z, l, s). nat (7 - z))") (auto simp: get_zone_blk_def assertr_def split: if_splits)

declare read_zones.simps [simp del]

text \<open>\<^verbatim>\<open>_read\<close>: the return value and the bytes put into the buffer.\<close>

definition read_file :: "'e ports \<Rightarrow> addr_t \<Rightarrow> int \<Rightarrow> int \<Rightarrow> 'e fs \<Rightarrow> ((int \<times> u8 list) \<times> 'e fs) res" where
  "read_file io p pos count s =
     assertr (pos \<ge> 0 \<and> count \<ge> 0)
     (bindr (at p (inodes s)) (\<lambda>i.
      if pos + count > i_size i then Inr ((- 1, []), s)
      else
        let left = nat count; off = nat pos mod BLOCK_SIZE; bytes = min left (BLOCK_SIZE - off); zone = pos div int BLOCK_SIZE in
        bindr (zone_dev p s) (\<lambda>dev.
        bindr (get_zone_blk p zone s) (\<lambda>blk.
        bindr (load_block io dev blk off bytes s) (\<lambda>(bs, s).
        bindr (read_zones io p (zone + 1) (left - bytes) s) (\<lambda>(rest, s).
        Inr ((count, bs @ rest), s)))))))"

function write_zones :: "'e ports \<Rightarrow> addr_t \<Rightarrow> int \<Rightarrow> u8 list \<Rightarrow> 'e fs \<Rightarrow> 'e fs res" where
  "write_zones io p zone bs s =
     (if bs \<noteq> []
      then bindr (zone_dev p s) (\<lambda>dev.
           bindr (get_zone_blk p zone s) (\<lambda>blk.
           bindr (save_block io dev blk 0 (take (chunk (length bs)) bs) s) (\<lambda>s.
           write_zones io p (zone + 1) (drop (chunk (length bs)) bs) s)))
      else Inr s)"
  by pat_completeness auto
termination by (relation "measure (\<lambda>(io, p, z, b, s). nat (7 - z))") (auto simp: get_zone_blk_def assertr_def split: if_splits)

declare write_zones.simps [simp del]

text \<open>
  \<^verbatim>\<open>_write\<close> of the bytes \<open>bs\<close>. The size is compared with an unsigned expression, so a negative one
  counts as large.
\<close>

definition write_file :: "'e ports \<Rightarrow> addr_t \<Rightarrow> int \<Rightarrow> u8 list \<Rightarrow> 'e fs \<Rightarrow> (int \<times> 'e fs) res" where
  "write_file io p pos bs s =
     (let count = int (length bs) in
      assertr (pos \<ge> 0 \<and> count > 0)
      (bindr (reserve_zone io p ((pos + count + int BLOCK_SIZE - 1) div int BLOCK_SIZE) False s) (\<lambda>(r, s).
       if r \<noteq> 0 then Inr (- 1, s)
       else
         let off = nat pos mod BLOCK_SIZE; bytes = min (length bs) (BLOCK_SIZE - off); zone = pos div int BLOCK_SIZE in
         bindr (zone_dev p s) (\<lambda>dev.
         bindr (get_zone_blk p zone s) (\<lambda>blk.
         bindr (save_block io dev blk off (take bytes bs) s) (\<lambda>s.
         bindr (write_zones io p (zone + 1) (drop bytes bs) s) (\<lambda>s.
         let s = (if (of_int (i_size (inodes s p)) :: u32) < of_int (pos + count)
                  then upd_inode p (\<lambda>i. i\<lparr>i_size := pos + count\<rparr>) s else s) in
         bindr (write_inode io p s) (\<lambda>s. Inr (count, s)))))))))"

section \<open>The super block\<close>

text \<open>The two bytes of padding at the end of the struct are left out.\<close>

definition SUPER_MAGIC :: u32 where "SUPER_MAGIC = 0x12345678"

definition read_super :: "'e ports \<Rightarrow> u16 \<Rightarrow> 'e fs \<Rightarrow> (addr_t \<times> 'e fs) res" where
  "read_super io dev s =
     bindr (load_block io dev 1 0 34 s) (\<lambda>(bs, s).
     Inr (super_at s, s\<lparr>super := (bytes_super bs)\<lparr>s_dev := dev\<rparr>\<rparr>))"

definition write_super :: "'e ports \<Rightarrow> addr_t \<Rightarrow> 'e fs \<Rightarrow> 'e fs res" where
  "write_super io sb s =
     bindr (sb_at sb s) (\<lambda>d. save_block io (s_dev d) 1 0 (super_bytes d) s)"

end
