(* ===== verification/Fs_Dentry.thy ===== *)
theory Fs_Dentry imports Fs_Inode begin

text \<open>
  Directories and the dentry cache (\<^verbatim>\<open>fs/fs.c\<close> from \<^verbatim>\<open>_find_dir_entry\<close> to \<^verbatim>\<open>_opendir\<close>). Messages are
  not printed.
\<close>

section \<open>Names\<close>

text \<open>What \<^verbatim>\<open>strncmp\<close> computes on two strings: it looks at one byte more than it is asked to.\<close>

definition str_ncmp :: "u8 list \<Rightarrow> u8 list \<Rightarrow> nat \<Rightarrow> int" where
  "str_ncmp a b n = str_cmp (if n = 0 then 0 else n + 1) a b"

text \<open>The string in a \<^verbatim>\<open>char\<close> array.\<close>

definition c_str :: "u8 list \<Rightarrow> u8 list" where
  "c_str bs = takeWhile (\<lambda>b. b \<noteq> 0) bs"

text \<open>\<^verbatim>\<open>strncpy\<close> into an array of \<open>n\<close> bytes: copying a longer string overwrites all memory.\<close>

definition str_ncpy :: "nat \<Rightarrow> u8 list \<Rightarrow> u8 list res" where
  "str_ncpy n a = (if length a > n then Inl Bad_access else Inr (a @ replicate (n - length a) 0))"

definition slash :: u8 where "slash = 47"

text \<open>\<^verbatim>\<open>strcspn(s, "/")\<close>\<close>

definition upto_slash :: "u8 list \<Rightarrow> nat" where
  "upto_slash nm = length (takeWhile (\<lambda>b. b \<noteq> slash) nm)"

definition qstrcmp :: "qstr \<Rightarrow> qstr \<Rightarrow> int" where
  "qstrcmp name1 name2 =
     (if q_len name1 = q_len name2 then str_ncmp (q_name name1) (q_name name2) (q_len name1)
      else if q_len name1 > q_len name2 then 1 else - 1)"

section \<open>Directory entries\<close>

lemma read_file_in_zones:
  "read_file io p pos count s = Inr ((r, bs), t) \<Longrightarrow> 0 \<le> r \<Longrightarrow> 0 \<le> pos \<and> pos < 7 * int BLOCK_SIZE"
  by (auto simp: read_file_def get_zone_blk_def assertr_def bindr_def BLOCK_SIZE_def Let_def split: if_splits sum.splits)

text \<open>
  The loop of \<^verbatim>\<open>_find_dir_entry\<close>: the position it stops at, and the entry it copies into \<^verbatim>\<open>target\<close>.
\<close>

function scan_entries ::
  "'e ports \<Rightarrow> addr_t \<Rightarrow> u8 list \<Rightarrow> nat \<Rightarrow> int \<Rightarrow> 'e fs \<Rightarrow> ((int \<times> dir_entry option) \<times> 'e fs) res" where
  "scan_entries io dir nm len pos s =
     bindr (read_file io dir pos DIR_REC_LEN s) (\<lambda>((r, bs), s).
     if r = DIR_REC_LEN
     then let de = bytes_dir_entry bs in
          if str_ncmp (c_str nm) (c_str (de_name de)) len = 0 then Inr ((pos, Some de), s)
          else scan_entries io dir nm len (pos + DIR_REC_LEN) s
     else Inr ((pos, None), s))"
  by pat_completeness auto
termination
  by (relation "measure (\<lambda>(io, d, n, l, pos, s). nat (7 * int BLOCK_SIZE - pos))")
    (auto simp: DIR_REC_LEN_def dest!: read_file_in_zones)

declare scan_entries.simps [simp del]

definition find_dir_entry ::
  "'e ports \<Rightarrow> addr_t \<Rightarrow> u8 list \<Rightarrow> nat \<Rightarrow> 'e fs \<Rightarrow> ((int \<times> dir_entry option) \<times> 'e fs) res" where
  "find_dir_entry io dir nm len s =
     bindr (scan_entries io dir nm len 0 s) (\<lambda>((pos, de), s).
     Inr ((if pos < i_size (inodes s dir) then pos else - 1, de), s))"

function free_entry :: "'e ports \<Rightarrow> addr_t \<Rightarrow> int \<Rightarrow> 'e fs \<Rightarrow> (int \<times> 'e fs) res" where
  "free_entry io dir pos s =
     bindr (read_file io dir pos DIR_REC_LEN s) (\<lambda>((r, bs), s).
     if r = DIR_REC_LEN
     then if de_inode (bytes_dir_entry bs) = 0 then Inr (pos, s) else free_entry io dir (pos + DIR_REC_LEN) s
     else Inr (pos, s))"
  by pat_completeness auto
termination
  by (relation "measure (\<lambda>(io, d, pos, s). nat (7 * int BLOCK_SIZE - pos))")
    (auto simp: DIR_REC_LEN_def dest!: read_file_in_zones)

declare free_entry.simps [simp del]

definition add_dir_entry :: "'e ports \<Rightarrow> addr_t \<Rightarrow> dir_entry \<Rightarrow> 'e fs \<Rightarrow> (int \<times> 'e fs) res" where
  "add_dir_entry io dir target s =
     bindr (find_dir_entry io dir (de_name target) (unat (de_name_len target)) s) (\<lambda>((pos, _), s).
     if pos \<ge> 0 then Inr (- 1, s)
     else bindr (free_entry io dir 0 s) (\<lambda>(pos, s).
          bindr (write_file io dir pos (dir_entry_bytes target) s) (\<lambda>(_, s).
          let s = upd_inode dir (\<lambda>i. i\<lparr>i_nlink := i_nlink i + 1\<rparr>) s in
          bindr (write_inode io dir s) (\<lambda>s. Inr (0, s)))))"

section \<open>Links between dentries and inodes\<close>

definition dlink_inode :: "addr_t \<Rightarrow> addr_t \<Rightarrow> 'e fs \<Rightarrow> 'e fs res" where
  "dlink_inode p inode s =
     (let s = upd_dentry p (\<lambda>d. d\<lparr>d_inode := inode, d_refcnt := d_refcnt d + 1\<rparr>) s in
      bindr (at inode (inodes s)) (\<lambda>_.
      bindr (link_add (d_alias p) (i_dentry inode) s) (\<lambda>s.
      Inr (upd_inode inode (\<lambda>i. i\<lparr>i_refcnt := i_refcnt i + 1\<rparr>) s))))"

definition dunlink_inode :: "addr_t \<Rightarrow> 'e fs \<Rightarrow> 'e fs res" where
  "dunlink_inode p s =
     bindr (link_del (d_alias p) s) (\<lambda>s.
     let inode = d_inode (dentries s p) in
     bindr (at inode (inodes s)) (\<lambda>_.
     let s = upd_inode inode (\<lambda>i. i\<lparr>i_refcnt := i_refcnt i - 1\<rparr>) s in
     Inr (upd_dentry p (\<lambda>d. d\<lparr>d_inode := 0, d_refcnt := d_refcnt d - 1\<rparr>) s)))"

definition dlink_parent :: "addr_t \<Rightarrow> addr_t \<Rightarrow> 'e fs \<Rightarrow> 'e fs" where
  "dlink_parent p parent s =
     (let s = upd_dentry p (\<lambda>d. d\<lparr>d_parent := parent, d_refcnt := d_refcnt d + 1\<rparr>) s in
      upd_dentry parent (\<lambda>d. d\<lparr>d_refcnt := d_refcnt d + 1\<rparr>) s)"

definition dunlink_parent :: "addr_t \<Rightarrow> 'e fs \<Rightarrow> 'e fs res" where
  "dunlink_parent p s =
     (let parent = d_parent (dentries s p) in
      bindr (at parent (dentries s)) (\<lambda>_.
      let s = upd_dentry parent (\<lambda>d. d\<lparr>d_refcnt := d_refcnt d - 1\<rparr>) s in
      Inr (upd_dentry p (\<lambda>d. d\<lparr>d_parent := 0, d_refcnt := d_refcnt d - 1\<rparr>) s)))"

section \<open>The life of a dentry\<close>

text \<open>The loop over the dentry cache, from the node \<open>pos\<close> on.\<close>

partial_function (option) find_dentry :: "addr_t \<Rightarrow> qstr \<Rightarrow> addr_t \<Rightarrow> 'e fs \<Rightarrow> addr_t option res option" where
  "find_dentry parent dname pos s =
     (if pos = dentry_list s then Some (Inr None)
      else if pos = 0 then Some (Inl Bad_access)
      else let p = pos - 24; d = dentries s p in
        if qstrcmp \<lparr>q_len = d_len d, q_name = dnames s (d_name d)\<rparr> dname = 0 \<and> d_refcnt d \<noteq> 0 \<and> d_parent d = parent
        then Some (Inr (Some p))
        else find_dentry parent dname (lnext (ilk s) pos) s)"

text \<open>
  The end of \<^verbatim>\<open>get_dentry\<close> and \<^verbatim>\<open>create_dentry\<close>: an allocated dentry gets its name and its links. The name has an
  object of 24 bytes, of which \<^verbatim>\<open>len\<close> are copied.
\<close>

definition fill_dentry :: "addr_t \<Rightarrow> addr_t \<Rightarrow> qstr \<Rightarrow> addr_t \<Rightarrow> 'e fs \<Rightarrow> 'e fs res" where
  "fill_dentry p parent dname inode s =
     (let s = upd_dentry p (\<lambda>d. d\<lparr>d_len := q_len dname\<rparr>) s in
      bindr (fs_alloc (dname_cache s) s) (\<lambda>(nm, s).
      let s = upd_dentry p (\<lambda>d. d\<lparr>d_name := nm\<rparr>) s in
      assertr (nm \<noteq> 0)
      (bindr (str_ncpy (q_len dname) (q_name dname)) (\<lambda>bs.
       let s = s\<lparr>dnames := (dnames s)(nm := c_str bs)\<rparr>;
           s = upd_dentry p (\<lambda>d. d\<lparr>d_refcnt := 0\<rparr>) s in
       bindr (link_add (d_list p) (dentry_list s) s) (\<lambda>s.
       dlink_inode p inode (dlink_parent p parent s))))))"

definition get_dentry :: "'e ports \<Rightarrow> addr_t \<Rightarrow> qstr \<Rightarrow> 'e fs \<Rightarrow> (addr_t \<times> 'e fs) res" where
  "get_dentry io parent dname s =
     bindr (at parent (dentries s)) (\<lambda>d.
     let dir = d_inode d in
     bindr (at dir (inodes s)) (\<lambda>i.
     let sb = i_super i in
     bindr (of_loop (find_dentry parent dname (lnext (ilk s) (dentry_list s)) s)) (\<lambda>r. bindr r (\<lambda>hit.
       case hit of
         Some p \<Rightarrow> Inr (p, upd_dentry p (\<lambda>d. d\<lparr>d_refcnt := d_refcnt d + 1\<rparr>) s)
       | None \<Rightarrow>
           assertr (q_len dname < MAX_DENTRY_LENGTH)
           (bindr (str_ncpy MAX_DENTRY_LENGTH (q_name dname)) (\<lambda>nm.
            bindr (find_dir_entry io dir nm (q_len dname) s) (\<lambda>((pos, de), s).
            if pos < 0 then Inr (0, s)
            else
              (case de of
                 None \<Rightarrow> Inl Bad_access
               | Some de \<Rightarrow>
                   bindr (get_inode io sb (de_inode de) s) (\<lambda>(inode, s).
                   if inode = 0 then Inl (Panic ''get_dentry(): dentry has no inode'')
                   else bindr (fs_alloc (dentry_cache s) s) (\<lambda>(p, s).
                     if p = 0 then bindr (put_inode io inode s) (\<lambda>s. Inr (0, s))
                     else bindr (fill_dentry p parent dname inode s) (\<lambda>s. Inr (p, s))))))))))))"

definition create_dentry :: "'e ports \<Rightarrow> addr_t \<Rightarrow> qstr \<Rightarrow> addr_t \<Rightarrow> 'e fs \<Rightarrow> (addr_t \<times> 'e fs) res" where
  "create_dentry io parent dname inode s =
     bindr (at parent (dentries s)) (\<lambda>d.
     let dir = d_inode d in
     bindr (get_dentry io parent dname s) (\<lambda>(old, s).
     if old \<noteq> 0 then Inr (0, s)
     else
       bindr (at inode (inodes s)) (\<lambda>i.
       assertr (q_len dname < MAX_DENTRY_LENGTH)
       (bindr (str_ncpy MAX_DENTRY_LENGTH (q_name dname)) (\<lambda>nm.
        let de = \<lparr>de_inode = i_inum i, de_rec_len = of_int DIR_REC_LEN, de_name_len = of_nat (q_len dname),
                  de_file_type = FT_REG_FILE, de_name = nm\<rparr> in
        bindr (add_dir_entry io dir de s) (\<lambda>(_, s).
        bindr (fs_alloc (dentry_cache s) s) (\<lambda>(p, s).
        assertr (p \<noteq> 0)
        (bindr (fill_dentry p parent dname inode s) (\<lambda>s.
         let s = upd_inode inode (\<lambda>i. i\<lparr>i_nlink := i_nlink i + 1\<rparr>) s in
         bindr (write_inode io inode s) (\<lambda>s. Inr (p, s)))))))))))"

definition put_dentry :: "'e ports \<Rightarrow> addr_t \<Rightarrow> 'e fs \<Rightarrow> 'e fs res" where
  "put_dentry io p s =
     assertr (p \<noteq> 0 \<and> d_refcnt (dentries s p) > 0)
     (let inode = d_inode (dentries s p) in
      bindr (dunlink_parent p s) (\<lambda>s.
      bindr (dunlink_inode p s) (\<lambda>s.
      if d_refcnt (dentries s p) = 0
      then bindr (put_inode io inode s) (\<lambda>s.
           bindr (link_del (d_list p) s) (\<lambda>s.
           bindr (fs_free (dname_cache s) (d_name (dentries s p)) s) (\<lambda>s.
           fs_free (dentry_cache s) p s)))
      else Inr s)))"

section \<open>Paths\<close>

text \<open>The \<^verbatim>\<open>while\<close> of \<^verbatim>\<open>_close\<close>, up to the root.\<close>

partial_function (option) close_up :: "'e ports \<Rightarrow> addr_t \<Rightarrow> 'e fs \<Rightarrow> 'e fs res option" where
  "close_up io p s =
     (if p = root_dentry s then Some (Inr s)
      else (case at p (dentries s) of
              Inl h \<Rightarrow> Some (Inl h)
            | Inr d \<Rightarrow>
                (case put_dentry io p s of
                   Inl h \<Rightarrow> Some (Inl h)
                 | Inr s \<Rightarrow> close_up io (d_parent d) s)))"

definition close_dentry :: "'e ports \<Rightarrow> addr_t \<Rightarrow> 'e fs \<Rightarrow> 'e fs res" where
  "close_dentry io p s =
     bindr (at p (dentries s)) (\<lambda>d.
     bindr (put_dentry io p s) (\<lambda>s.
     if d_refcnt (dentries s p) = 0 then bindr (of_loop (close_up io (d_parent d) s)) id else Inr s))"

text \<open>
  The headers of the two \<^verbatim>\<open>for\<close> loops over a path: the components they go through. The loop over the
  directories stops before the last one. The byte after the end of a path is read, in the padding of its page.
\<close>

definition next_name :: "qstr \<Rightarrow> u8 list" where
  "next_name q = (let nm = drop (q_len q) (q_name q) in if nm \<noteq> [] \<and> nm ! 0 = slash then tl nm else nm)"

definition more_names :: "bool \<Rightarrow> qstr \<Rightarrow> bool" where
  "more_names dirs q = (if dirs then q_len q < length (q_name q) else q_name q \<noteq> [])"

function rest_names :: "bool \<Rightarrow> u8 list \<Rightarrow> qstr list" where
  "rest_names dirs nm =
     (let q = \<lparr>q_len = upto_slash nm, q_name = nm\<rparr> in
      if more_names dirs q then q # rest_names dirs (next_name q) else [])"
  by pat_completeness auto
termination
proof (relation "measure (\<lambda>(d, nm). length nm)", simp, clarify)
  fix dirs nm
  assume "more_names dirs \<lparr>q_len = upto_slash nm, q_name = nm\<rparr>"
  then show "((dirs, next_name \<lparr>q_len = upto_slash nm, q_name = nm\<rparr>), dirs, nm) \<in> measure (\<lambda>(d, nm). length nm)"
    by (cases nm) (auto simp: more_names_def next_name_def upto_slash_def Let_def split: if_splits)
qed

declare rest_names.simps [simp del]

definition path_names :: "bool \<Rightarrow> u8 list \<Rightarrow> qstr list" where
  "path_names dirs path =
     (let q = \<lparr>q_len = (if upto_slash path \<noteq> 0 then upto_slash path else 1), q_name = path\<rparr> in
      if more_names dirs q then q # rest_names dirs (next_name q) else [])"

fun walk_names :: "'e ports \<Rightarrow> addr_t \<Rightarrow> qstr list \<Rightarrow> 'e fs \<Rightarrow> (addr_t \<times> 'e fs) res" where
  "walk_names io p [] s = Inr (p, s)"
| "walk_names io p (q # qs) s =
     bindr (get_dentry io p q s) (\<lambda>(child, s).
     if child = 0 then bindr (close_dentry io p s) (\<lambda>s. Inr (0, s)) else walk_names io child qs s)"

definition open_from_root :: "'e ports \<Rightarrow> bool \<Rightarrow> u8 list \<Rightarrow> 'e fs \<Rightarrow> (addr_t \<times> 'e fs) res" where
  "open_from_root io dirs path s =
     assertr (path \<noteq> [] \<and> path ! 0 = slash)
     (walk_names io (root_dentry s) (path_names dirs (tl path))
        (upd_dentry (root_dentry s) (\<lambda>d. d\<lparr>d_refcnt := d_refcnt d + 1\<rparr>) s))"

definition open_path :: "'e ports \<Rightarrow> u8 list \<Rightarrow> 'e fs \<Rightarrow> (addr_t \<times> 'e fs) res" where
  "open_path io = open_from_root io False"

definition open_dir :: "'e ports \<Rightarrow> u8 list \<Rightarrow> 'e fs \<Rightarrow> (addr_t \<times> 'e fs) res" where
  "open_dir io = open_from_root io True"

end
