(* ===== verification/Fs_Syscall.thy ===== *)
theory Fs_Syscall imports Fs_Dentry begin

text \<open>
  The system calls on files, the making of a file system and its start at boot (the rest of
  \<^verbatim>\<open>fs/fs.c\<close>). User memory is the segment behind \<^verbatim>\<open>fs\<close>. Messages are not printed. Two of them are not
  harmless: \<^verbatim>\<open>sys_read\<close> and \<^verbatim>\<open>sys_write\<close> print their page buffer with \<^verbatim>\<open>%s\<close> in each round, so contents
  without a zero byte among the first 2000 or so overflow the print buffer of \<^verbatim>\<open>vfprintf\<close> (2048 bytes, on the
  stack) and stop the machine at its assertion, if not before, where \<open>sys_read\<close> and \<open>sys_write\<close> here go on.
\<close>

unbundle bit_operations_syntax

section \<open>User memory\<close>

text \<open>The bytes before the terminator, at most \<open>n\<close>.\<close>

fun user_string :: "mem \<Rightarrow> addr_t \<Rightarrow> nat \<Rightarrow> u8 list" where
  "user_string m u 0 = []"
| "user_string m u (Suc n) = (if m u = 0 then [] else m u # user_string m (u + 1) n)"

text \<open>The copy is padded with zeros; one that fills its page has no terminator, and its reader runs out of the page.\<close>

definition KERNEL_STRING :: "addr_t \<Rightarrow> 'e fs \<Rightarrow> (u8 list \<times> 'e fs) res" where
  "KERNEL_STRING usrstr s =
     bindr (fs_alloc_page s) (\<lambda>(page, s).
     let str = user_string (umem s) usrstr PAGE_SIZE in
     if length str = PAGE_SIZE then Inl Bad_access
     else Inr (str, upd_mem (stored page (str @ replicate (PAGE_SIZE - length str) 0)) s))"

section \<open>Open files\<close>

definition NR_MAX_OPEN :: nat where "NR_MAX_OPEN = 10"
definition O_CREAT :: int where "O_CREAT = 1"
definition SEEK_SET :: int where "SEEK_SET = 1"
definition SEEK_CUR :: int where "SEEK_CUR = 2"
definition SEEK_END :: int where "SEEK_END = 3"

definition filp :: "int \<Rightarrow> 'e fs \<Rightarrow> addr_t res" where
  "filp fd s = (if 0 \<le> fd \<and> fd < int NR_MAX_OPEN then Inr (filps s ! nat fd) else Inl Bad_access)"

definition free_filp :: "'e fs \<Rightarrow> nat" where
  "free_filp s = length (takeWhile (\<lambda>f. f \<noteq> 0) (take NR_MAX_OPEN (filps s)))"

text \<open>What follows the last slash of a path.\<close>

definition last_name :: "u8 list \<Rightarrow> u8 list" where
  "last_name path = rev (takeWhile (\<lambda>b. b \<noteq> slash) (rev path))"

definition file_name :: "u8 list \<Rightarrow> qstr" where
  "file_name path = \<lparr>q_len = length (last_name path), q_name = last_name path\<rparr>"

definition sys_open :: "'e ports \<Rightarrow> addr_t \<Rightarrow> int \<Rightarrow> int \<Rightarrow> 'e fs \<Rightarrow> (int \<times> 'e fs) res" where
  "sys_open io upath flags mode s =
     bindr (KERNEL_STRING upath s) (\<lambda>(pathname, s).
     let fd = free_filp s in
     if fd = NR_MAX_OPEN then Inr (- 1, s)
     else
       bindr (fs_alloc (file_cache s) s) (\<lambda>(fp, s).
       let s = s\<lparr>filps := (filps s)[fd := fp]\<rparr> in
       if fp = 0 then Inr (- 1, s)
       else
         let s = upd_file fp (\<lambda>f. f\<lparr>f_flags := flags, f_mode := 0, f_pos := 0\<rparr>) s in
         bindr (open_dir io pathname s) (\<lambda>(parent, s).
         if parent = 0 then bindr (fs_free (file_cache s) fp s) (\<lambda>s. Inr (- 1, s))
         else
           let dir = d_inode (dentries s parent) in
           assertr (parent = root_dentry s)
           (assertr (dir = root_inode s)
           (assertr (i_super (inodes s dir) = super_at s)
           (bindr (get_dentry io parent (file_name pathname) s) (\<lambda>(dentry, s).
            bindr
              (if dentry = 0
               then if flags AND O_CREAT \<noteq> 0
                    then bindr (create_inode io (i_super (inodes s (d_inode (dentries s parent)))) 123 s) (\<lambda>(inode, s).
                         bindr (create_dentry io parent (file_name pathname) inode s) (\<lambda>(d, s).
                         bindr (at d (dentries s)) (\<lambda>_. Inr (Some d, s))))
                    else Inr (None, s)
               else Inr (Some dentry, s)) (\<lambda>(found, s).
            case found of
              None \<Rightarrow> bindr (fs_free (file_cache s) fp s) (\<lambda>s. Inr (- 1, s))
            | Some d \<Rightarrow> Inr (int fd, upd_file fp (\<lambda>f. f\<lparr>f_dentry := d, f_refcnt := 1\<rparr>) s)))))))))"

definition sys_close :: "'e ports \<Rightarrow> int \<Rightarrow> 'e fs \<Rightarrow> (int \<times> 'e fs) res" where
  "sys_close io fd s =
     bindr (filp fd s) (\<lambda>fp.
     bindr (at fp (files s)) (\<lambda>f.
     bindr (close_dentry io (f_dentry f) s) (\<lambda>s.
     bindr (fs_free (file_cache s) fp s) (\<lambda>s. Inr (0, s)))))"

text \<open>The inode of an open file.\<close>

definition filp_inode :: "addr_t \<Rightarrow> 'e fs \<Rightarrow> addr_t res" where
  "filp_inode fp s =
     bindr (at fp (files s)) (\<lambda>f.
     bindr (at (f_dentry f) (dentries s)) (\<lambda>d. Inr (d_inode d)))"

text \<open>
  The loop of \<^verbatim>\<open>sys_read\<close>: what is left to read and the count are unsigned. Where a read fails, both are
  cut to the end of the file.
\<close>

partial_function (option) read_loop ::
  "'e ports \<Rightarrow> addr_t \<Rightarrow> addr_t \<Rightarrow> addr_t \<Rightarrow> addr_t \<Rightarrow> u32 \<Rightarrow> u32 \<Rightarrow> 'e fs \<Rightarrow> (u32 \<times> 'e fs) res option" where
  "read_loop io fp inode buffer usrbuf left count s =
     (if left > 0
      then (case read_file io inode (f_pos (files s fp)) (min (uint left) (int PAGE_SIZE)) s of
              Inl h \<Rightarrow> Some (Inl h)
            | Inr ((bytes, bs), s) \<Rightarrow>
                if bytes > 0
                then let s = upd_mem (stored buffer bs) s;
                         s = s\<lparr>umem := stored usrbuf bs (umem s)\<rparr>;
                         s = upd_file fp (\<lambda>f. f\<lparr>f_pos := f_pos f + bytes\<rparr>) s
                     in read_loop io fp inode buffer (usrbuf + of_int bytes) (left - of_int bytes) count s
                else let rest = of_int (i_size (inodes s inode) - f_pos (files s fp))
                     in read_loop io fp inode buffer usrbuf rest (count - (left - rest)) s)
      else Some (Inr (count - left, s)))"

definition sys_read :: "'e ports \<Rightarrow> int \<Rightarrow> addr_t \<Rightarrow> u32 \<Rightarrow> 'e fs \<Rightarrow> (int \<times> 'e fs) res" where
  "sys_read io fd usrbuf count s =
     bindr (filp fd s) (\<lambda>fp.
     bindr (filp_inode fp s) (\<lambda>inode.
     bindr (fs_alloc_page s) (\<lambda>(buffer, s).
     bindr (of_loop (read_loop io fp inode buffer usrbuf count count s)) (\<lambda>r.
     bindr r (\<lambda>(n, s).
     bindr (fs_free_page buffer s) (\<lambda>s. Inr (sint n, s)))))))"

partial_function (option) write_loop ::
  "'e ports \<Rightarrow> addr_t \<Rightarrow> addr_t \<Rightarrow> addr_t \<Rightarrow> addr_t \<Rightarrow> u32 \<Rightarrow> u32 \<Rightarrow> 'e fs \<Rightarrow> (u32 \<times> 'e fs) res option" where
  "write_loop io fp inode buffer usrbuf left count s =
     (if left > 0
      then let bs = bytes_at (umem s) usrbuf (min (unat left) PAGE_SIZE);
               s = upd_mem (stored buffer bs) s
           in (case write_file io inode (f_pos (files s fp)) bs s of
                 Inl h \<Rightarrow> Some (Inl h)
               | Inr (bytes, s) \<Rightarrow>
                   if bytes > 0
                   then let s = upd_file fp (\<lambda>f. f\<lparr>f_pos := f_pos f + bytes\<rparr>) s
                        in write_loop io fp inode buffer (usrbuf + of_int bytes) (left - of_int bytes) count s
                   else Some (Inr (count - left, s)))
      else Some (Inr (count - left, s)))"

definition sys_write :: "'e ports \<Rightarrow> int \<Rightarrow> addr_t \<Rightarrow> u32 \<Rightarrow> 'e fs \<Rightarrow> (int \<times> 'e fs) res" where
  "sys_write io fd usrbuf count s =
     bindr (filp fd s) (\<lambda>fp.
     bindr (filp_inode fp s) (\<lambda>inode.
     bindr (fs_alloc_page s) (\<lambda>(buffer, s).
     bindr (of_loop (write_loop io fp inode buffer usrbuf count count s)) (\<lambda>r.
     bindr r (\<lambda>(n, s).
     bindr (fs_free_page buffer s) (\<lambda>s. Inr (sint n, s)))))))"

definition sys_lseek :: "int \<Rightarrow> int \<Rightarrow> int \<Rightarrow> 'e fs \<Rightarrow> (int \<times> 'e fs) res" where
  "sys_lseek fd offset whence s =
     bindr (filp fd s) (\<lambda>fp.
     let seek = (\<lambda>pos. bindr (at fp (files s)) (\<lambda>_. Inr (pos, upd_file fp (\<lambda>f. f\<lparr>f_pos := pos\<rparr>) s))) in
     if whence = SEEK_SET then seek offset
     else if whence = SEEK_CUR then seek (f_pos (files s fp) + offset)
     else if whence = SEEK_END
     then bindr (filp_inode fp s) (\<lambda>inode. bindr (at inode (inodes s)) (\<lambda>i. seek (i_size i + offset)))
     else Inr (- 1, s))"

definition sys_truncate :: "'e ports \<Rightarrow> addr_t \<Rightarrow> int \<Rightarrow> 'e fs \<Rightarrow> (int \<times> 'e fs) res" where
  "sys_truncate io upath len s =
     bindr (KERNEL_STRING upath s) (\<lambda>(pathname, s).
     bindr (open_path io pathname s) (\<lambda>(dentry, s).
     if dentry \<noteq> 0
     then let inode = d_inode (dentries s dentry) in
          bindr (at inode (inodes s)) (\<lambda>i.
          if len < i_size i
          then bindr (reserve_zone io inode (zones_of len) True s) (\<lambda>(_, s).
               Inr (0, upd_inode inode (\<lambda>i. i\<lparr>i_size := len\<rparr>) s))
          else Inr (0, s))
     else Inr (- 1, s)))"

definition sys_link :: "'e ports \<Rightarrow> addr_t \<Rightarrow> addr_t \<Rightarrow> 'e fs \<Rightarrow> (int \<times> 'e fs) res" where
  "sys_link io uold unew s =
     bindr (KERNEL_STRING uold s) (\<lambda>(oldpath, s).
     bindr (KERNEL_STRING unew s) (\<lambda>(newpath, s).
     bindr (open_path io oldpath s) (\<lambda>(old_dentry, s).
     if old_dentry = 0 then Inr (- 1, s)
     else
       bindr (open_dir io newpath s) (\<lambda>(new_dir, s).
       if new_dir = 0 then Inr (- 1, s)
       else
         bindr (get_dentry io new_dir (file_name newpath) s) (\<lambda>(new_dentry, s).
         if new_dentry \<noteq> 0 then Inr (- 1, s)
         else Inr (if new_dentry = 0 then - 1 else 0, s))))))"

section \<open>Making and starting the file system\<close>

definition clear_map :: "'e ports \<Rightarrow> u16 \<Rightarrow> int \<Rightarrow> nat \<Rightarrow> 'e fs \<Rightarrow> 'e fs res" where
  "clear_map io dev n count s =
     bindr (fs_bread io dev n s) (\<lambda>((bh, data), s).
     let s = upd_mem (stored data (replicate BLOCK_SIZE 0)) s;
         s = upd_mem (set_n_bit data count) s
     in bindr (fs_bwrite bh s) (\<lambda>s. fs_brelease io bh s))"

definition mkfs :: "'e ports \<Rightarrow> 'e fs \<Rightarrow> 'e fs res" where
  "mkfs io s =
     (let s = s\<lparr>super := \<lparr>s_magic = SUPER_MAGIC, s_imap_start = 2, s_imap_count = 1, s_zmap_start = 3,
               s_zmap_count = 1, s_itable_start = 4, s_itable_count = 6, s_data_start = 10, s_dev = 3\<rparr>\<rparr>
      in bindr (write_super io (super_at s) s) (\<lambda>s.
         bindr (clear_map io (s_dev (super s)) (s_imap_start (super s)) 2 s) (\<lambda>s.
         bindr (clear_map io (s_dev (super s)) (s_zmap_start (super s)) (nat (s_data_start (super s))) s) (\<lambda>s.
         let root = root_inode s;
             s = upd_inode root (\<lambda>i. i\<lparr>i_inum := 1, i_size := 0, i_nlink := 2, i_zone := replicate 9 0,
                   i_super := super_at s\<rparr>) s;
             s = s\<lparr>ilk := INIT_LIST_HEAD (i_dentry root) (ilk s)\<rparr>;
             s = upd_inode root (\<lambda>i. i\<lparr>i_refcnt := 1\<rparr>) s
         in write_inode io root s))))"

text \<open>The blocks \<^verbatim>\<open>dump_inode\<close> reads to print their first bytes.\<close>

fun dump_zones :: "'e ports \<Rightarrow> addr_t \<Rightarrow> int list \<Rightarrow> 'e fs \<Rightarrow> 'e fs res" where
  "dump_zones io p [] s = Inr s"
| "dump_zones io p (z # zs) s =
     (if z \<noteq> 0
      then bindr (zone_dev p s) (\<lambda>dev.
           bindr (load_block io dev z 0 32 s) (\<lambda>(_, s). dump_zones io p zs s))
      else Inr s)"

definition dump_inode :: "'e ports \<Rightarrow> addr_t \<Rightarrow> 'e fs \<Rightarrow> 'e fs res" where
  "dump_inode io p s = dump_zones io p (take 3 (i_zone (inodes s p))) s"

text \<open>\<open>root_name\<close> is the address of the literal that names the root.\<close>

definition fs_init :: "'e ports \<Rightarrow> addr_t \<Rightarrow> 'e fs \<Rightarrow> 'e fs res" where
  "fs_init io root_name s =
     bindr (read_super io 3 (s\<lparr>super := (super s)\<lparr>s_magic := 0\<rparr>\<rparr>)) (\<lambda>(_, s).
     bindr (if s_magic (super s) = SUPER_MAGIC then Inr s else mkfs io s) (\<lambda>s.
     bindr (read_super io 3 s) (\<lambda>(sb, s).
     assertr (sb = super_at s)
     (let ri = root_inode s; rd = root_dentry s in
      bindr (read_inode io ri 1 sb s) (\<lambda>s.
      let s = s\<lparr>ilk := INIT_LIST_HEAD (i_list ri) (ilk s)\<rparr>;
          s = s\<lparr>ilk := INIT_LIST_HEAD (i_dentry ri) (ilk s)\<rparr>;
          s = upd_inode ri (\<lambda>i. i\<lparr>i_refcnt := 0\<rparr>) s;
          s = s\<lparr>dnames := (dnames s)(root_name := [slash])\<rparr>;
          s = upd_dentry rd (\<lambda>d. d\<lparr>d_parent := rd, d_name := root_name, d_len := 1\<rparr>) s;
          s = s\<lparr>ilk := INIT_LIST_HEAD (d_alias rd) (ilk s)\<rparr>;
          s = s\<lparr>ilk := INIT_LIST_HEAD (d_list rd) (ilk s)\<rparr>;
          s = upd_dentry rd (\<lambda>d. d\<lparr>d_refcnt := 0\<rparr>) s
      in bindr (dlink_inode rd ri s) (\<lambda>s.
         bindr (dump_inode io ri s) (\<lambda>s.
         bindr (link_add (i_list ri) (inode_list s) s) (\<lambda>s.
         bindr (link_add (d_list rd) (dentry_list s) s) (\<lambda>s.
         assertr (d_inode (dentries s rd) = ri)
         (assertr (i_super (inodes s ri) = super_at s)
         (bindr (slab_op (kmem_cache_create ''inode'' 72) s) (\<lambda>(c, s).
          let s = s\<lparr>inode_cache := c\<rparr> in
          bindr (slab_op (kmem_cache_create ''dentry'' 36) s) (\<lambda>(c, s).
          let s = s\<lparr>dentry_cache := c\<rparr> in
          bindr (slab_op (kmem_cache_create ''file'' 20) s) (\<lambda>(c, s).
          let s = s\<lparr>file_cache := c\<rparr> in
          bindr (slab_op (kmem_cache_create ''dname'' (of_nat MAX_DENTRY_LENGTH)) s) (\<lambda>(c, s).
          Inr (s\<lparr>dname_cache := c\<rparr>))))))))))))))))"

end
