(* ===== verification/Ring_Queue.thy ===== *)
theory Ring_Queue imports Prelude begin

text \<open>
  The bounded queues of \<^verbatim>\<open>include/io.h\<close>: a buffer of 16 \<^verbatim>\<open>int\<close>s, two pointers into it, kept as
  offsets, and a count. Enqueuing wraps the tail before it stores, dequeuing wraps the head
  after it has read, so the tail may rest one past the end and the head may not.
\<close>

definition QUEUE_BUF_SZ :: nat where "QUEUE_BUF_SZ = 16"

record tty_queue =
  qhead :: nat
  qtail :: nat
  qcount :: int
  qbuffer :: "int list"

definition QUEUE_FULL :: "tty_queue \<Rightarrow> bool" where
  "QUEUE_FULL q \<longleftrightarrow> qcount q = int QUEUE_BUF_SZ"

definition QUEUE_EMPTY :: "tty_queue \<Rightarrow> bool" where
  "QUEUE_EMPTY q \<longleftrightarrow> qcount q = 0"

definition QUEUE_INIT :: "tty_queue \<Rightarrow> tty_queue" where
  "QUEUE_INIT q = q\<lparr>qhead := 0, qtail := 0, qcount := 0\<rparr>"

definition QUEUE_ENQ :: "int \<Rightarrow> tty_queue \<Rightarrow> tty_queue res" where
  "QUEUE_ENQ v q =
     assertr (qcount q < int QUEUE_BUF_SZ)
     (let q = (if qtail q \<ge> QUEUE_BUF_SZ then q\<lparr>qtail := qtail q - QUEUE_BUF_SZ\<rparr> else q) in
      if qtail q < length (qbuffer q)
      then Inr (q\<lparr>qbuffer := (qbuffer q)[qtail q := v], qtail := Suc (qtail q), qcount := qcount q + 1\<rparr>)
      else Inl Bad_access)"

definition QUEUE_DEQ :: "tty_queue \<Rightarrow> (int \<times> tty_queue) res" where
  "QUEUE_DEQ q =
     assertr (qcount q > 0)
     (if qhead q < length (qbuffer q)
      then let v = qbuffer q ! qhead q;
               q = q\<lparr>qhead := Suc (qhead q)\<rparr>;
               q = (if qhead q \<ge> QUEUE_BUF_SZ then q\<lparr>qhead := qhead q - QUEUE_BUF_SZ\<rparr> else q)
           in Inr (v, q\<lparr>qcount := qcount q - 1\<rparr>)
      else Inl Bad_access)"

section \<open>The contract of a bounded queue\<close>

text \<open>
  \<open>rep q xs\<close>: \<open>q\<close> holds \<open>xs\<close>, oldest first. The terminal code relies on nothing else.
\<close>

locale bounded_fifo =
  fixes rep :: "'q \<Rightarrow> 'v list \<Rightarrow> bool"
    and enq :: "'v \<Rightarrow> 'q \<Rightarrow> 'q res"
    and deq :: "'q \<Rightarrow> ('v \<times> 'q) res"
    and full :: "'q \<Rightarrow> bool" and empty :: "'q \<Rightarrow> bool"
    and cap :: nat
  assumes rep_enq: "rep q xs \<Longrightarrow> length xs < cap \<Longrightarrow> \<exists>q'. enq v q = Inr q' \<and> rep q' (xs @ [v])"
    and enq_full: "rep q xs \<Longrightarrow> length xs = cap \<Longrightarrow> enq v q = Inl Assert_failed"
    and rep_deq: "rep q (x # xs) \<Longrightarrow> \<exists>q'. deq q = Inr (x, q') \<and> rep q' xs"
    and deq_empty: "rep q [] \<Longrightarrow> deq q = Inl Assert_failed"
    and rep_full: "rep q xs \<Longrightarrow> full q = (length xs = cap)"
    and rep_empty: "rep q xs \<Longrightarrow> empty q = (xs = [])"
    and rep_cap: "rep q xs \<Longrightarrow> length xs \<le> cap"
begin

fun enq_all :: "'v list \<Rightarrow> 'q \<Rightarrow> 'q res" where
  "enq_all [] q = Inr q"
| "enq_all (v # vs) q = bindr (enq v q) (enq_all vs)"

fun deq_many :: "nat \<Rightarrow> 'q \<Rightarrow> ('v list \<times> 'q) res" where
  "deq_many 0 q = Inr ([], q)"
| "deq_many (Suc n) q = bindr (deq q) (\<lambda>(v, q). bindr (deq_many n q) (\<lambda>(vs, q). Inr (v # vs, q)))"

lemma enq_all_rep:
  "rep q xs \<Longrightarrow> length xs + length vs \<le> cap \<Longrightarrow> \<exists>q'. enq_all vs q = Inr q' \<and> rep q' (xs @ vs)"
proof (induction vs arbitrary: q xs)
  case (Cons v vs)
  then obtain q1 where "enq v q = Inr q1" "rep q1 (xs @ [v])" using rep_enq [of q xs v] by auto
  with Cons.IH [of q1 "xs @ [v]"] Cons.prems show ?case by auto
qed auto

lemma deq_many_rep:
  "rep q (xs @ ys) \<Longrightarrow> \<exists>q'. deq_many (length xs) q = Inr (xs, q') \<and> rep q' ys"
proof (induction xs arbitrary: q)
  case (Cons x xs)
  then obtain q1 where "deq q = Inr (x, q1)" "rep q1 (xs @ ys)" using rep_deq [of q x "xs @ ys"] by auto
  with Cons.IH [of q1] show ?case by auto
qed auto

text \<open>What goes in comes out, in order.\<close>

lemma fifo_order:
  assumes "rep q []" "length vs \<le> cap"
  shows "\<exists>q1 q2. enq_all vs q = Inr q1 \<and> deq_many (length vs) q1 = Inr (vs, q2) \<and> rep q2 []"
  using enq_all_rep [OF assms(1), of vs] deq_many_rep [of _ vs "[]"] assms(2) by auto

end

section \<open>The queue is one\<close>

definition queue_rep :: "tty_queue \<Rightarrow> int list \<Rightarrow> bool" where
  "queue_rep q xs \<longleftrightarrow> length (qbuffer q) = 16 \<and> qhead q < 16 \<and> qtail q \<le> 16 \<and>
     qcount q = int (length xs) \<and> length xs \<le> 16 \<and> qtail q mod 16 = (qhead q + length xs) mod 16 \<and>
     (\<forall>i < length xs. qbuffer q ! ((qhead q + i) mod 16) = xs ! i)"

lemma queue_rep_init: "length (qbuffer q) = 16 \<Longrightarrow> queue_rep (QUEUE_INIT q) []"
  by (simp add: queue_rep_def QUEUE_INIT_def)

lemma queue_rep_enq:
  assumes rep: "queue_rep q xs" and "length xs < 16"
  shows "\<exists>q'. QUEUE_ENQ v q = Inr q' \<and> queue_rep q' (xs @ [v])"
proof -
  define t where "t = (if qtail q \<ge> 16 then qtail q - 16 else qtail q)"
  from rep have t: "t < 16" "t = (qhead q + length xs) mod 16" by (auto simp: queue_rep_def t_def)
  let ?q = "q\<lparr>qbuffer := (qbuffer q)[t := v], qtail := Suc t, qcount := qcount q + 1\<rparr>"
  have run: "QUEUE_ENQ v q = Inr ?q"
    using rep assms(2) t(1) by (auto simp: QUEUE_ENQ_def QUEUE_BUF_SZ_def queue_rep_def Let_def t_def)
  have "(qhead q + i) mod 16 \<noteq> t" if "i < length xs" for i
  proof
    assume "(qhead q + i) mod 16 = t"
    with t(2) have "(qhead q + length xs) mod 16 = (qhead q + i) mod 16" by simp
    then have "16 dvd (qhead q + length xs) - (qhead q + i)" using that by (subst (asm) mod_eq_dvd_iff_nat) simp_all
    then have "16 dvd length xs - i" by simp
    with that assms(2) show False by (simp add: nat_dvd_not_less)
  qed
  note apart = this
  have "(qbuffer q)[t := v] ! ((qhead q + i) mod 16) = (xs @ [v]) ! i" if "i < Suc (length xs)" for i
  proof (cases "i = length xs")
    case True
    then show ?thesis using rep t by (simp add: queue_rep_def nth_append)
  next
    case False
    with that have i: "i < length xs" by simp
    then have "(qbuffer q)[t := v] ! ((qhead q + i) mod 16) = qbuffer q ! ((qhead q + i) mod 16)"
      using apart [OF i] by (intro nth_list_update_neq) metis
    with rep i show ?thesis by (simp add: queue_rep_def nth_append)
  qed
  moreover have "Suc t mod 16 = (qhead q + Suc (length xs)) mod 16" unfolding t(2) by (simp add: mod_Suc_eq)
  ultimately have "queue_rep ?q (xs @ [v])" using rep assms(2) t(1) by (simp add: queue_rep_def)
  with run show ?thesis by blast
qed

lemma queue_rep_deq:
  assumes rep: "queue_rep q (x # xs)"
  shows "\<exists>q'. QUEUE_DEQ q = Inr (x, q') \<and> queue_rep q' xs \<and> qbuffer q' = qbuffer q \<and> qtail q' = qtail q"
proof -
  let ?h = "if Suc (qhead q) \<ge> 16 then Suc (qhead q) - 16 else Suc (qhead q)"
  let ?q = "q\<lparr>qhead := ?h, qcount := qcount q - 1\<rparr>"
  have "qhead q < 16" using rep by (simp add: queue_rep_def)
  then have h: "?h = Suc (qhead q) mod 16" by (cases "qhead q = 15") simp_all
  have "qbuffer q ! qhead q = x" using rep by (force simp: queue_rep_def dest: spec [of _ 0])
  then have "QUEUE_DEQ q = Inr (x, ?q)"
    using rep by (auto simp: QUEUE_DEQ_def QUEUE_BUF_SZ_def queue_rep_def Let_def)
  moreover have "queue_rep ?q xs"
  proof -
    have "(?h + i) mod 16 = (qhead q + Suc i) mod 16" for i unfolding h by (simp add: mod_simps)
    then show ?thesis using rep unfolding queue_rep_def by (auto simp: h)
  qed
  ultimately show ?thesis by simp
qed

interpretation ring: bounded_fifo queue_rep QUEUE_ENQ QUEUE_DEQ QUEUE_FULL QUEUE_EMPTY QUEUE_BUF_SZ
proof unfold_locales
  fix q xs and v x :: int
  show "queue_rep q xs \<Longrightarrow> length xs < QUEUE_BUF_SZ \<Longrightarrow> \<exists>q'. QUEUE_ENQ v q = Inr q' \<and> queue_rep q' (xs @ [v])"
    by (simp add: queue_rep_enq QUEUE_BUF_SZ_def)
  show "queue_rep q (x # xs) \<Longrightarrow> \<exists>q'. QUEUE_DEQ q = Inr (x, q') \<and> queue_rep q' xs"
    using queue_rep_deq by blast
qed (auto simp: queue_rep_def QUEUE_ENQ_def QUEUE_DEQ_def QUEUE_FULL_def QUEUE_EMPTY_def QUEUE_BUF_SZ_def)

text \<open>
  The queues are bounded first-in first-out buffers. Enqueuing fails its assertion exactly on a
  queue of 16 elements and otherwise appends; dequeuing fails exactly on an empty one and
  otherwise returns the oldest element; the two tests tell these states; and after
  initialisation up to 16 values go in and come out in the same order.
\<close>

lemma ring_queue_is_fifo:
  assumes "queue_rep q xs" and "length (qbuffer q0) = 16" and "length vs \<le> QUEUE_BUF_SZ"
  shows "(if length xs = QUEUE_BUF_SZ then QUEUE_FULL q \<and> QUEUE_ENQ v q = Inl Assert_failed
      else \<not> QUEUE_FULL q \<and> (\<exists>q'. QUEUE_ENQ v q = Inr q' \<and> queue_rep q' (xs @ [v]))) \<and>
    (case xs of [] \<Rightarrow> QUEUE_EMPTY q \<and> QUEUE_DEQ q = Inl Assert_failed
      | y # ys \<Rightarrow> \<not> QUEUE_EMPTY q \<and> (\<exists>q'. QUEUE_DEQ q = Inr (y, q') \<and> queue_rep q' ys)) \<and>
    (\<exists>q1 q2. ring.enq_all vs (QUEUE_INIT q0) = Inr q1 \<and> ring.deq_many (length vs) q1 = Inr (vs, q2) \<and>
      queue_rep q2 [])"
proof (intro conjI)
  note r = assms(1)
  show "if length xs = QUEUE_BUF_SZ then QUEUE_FULL q \<and> QUEUE_ENQ v q = Inl Assert_failed
      else \<not> QUEUE_FULL q \<and> (\<exists>q'. QUEUE_ENQ v q = Inr q' \<and> queue_rep q' (xs @ [v]))"
    using ring.rep_enq [OF r, of v] ring.enq_full [OF r, of v] ring.rep_full [OF r] ring.rep_cap [OF r] by auto
  show "case xs of [] \<Rightarrow> QUEUE_EMPTY q \<and> QUEUE_DEQ q = Inl Assert_failed
      | y # ys \<Rightarrow> \<not> QUEUE_EMPTY q \<and> (\<exists>q'. QUEUE_DEQ q = Inr (y, q') \<and> queue_rep q' ys)"
    using r ring.deq_empty [of q] ring.rep_deq [of q] ring.rep_empty [of q] by (cases xs) auto
  show "\<exists>q1 q2. ring.enq_all vs (QUEUE_INIT q0) = Inr q1 \<and> ring.deq_many (length vs) q1 = Inr (vs, q2) \<and>
      queue_rep q2 []"
    using ring.fifo_order [OF queue_rep_init [OF assms(2)] assms(3)] .
qed

lemma ring_queue_is_fifo_witness:
  "\<exists>q'. QUEUE_ENQ 7 \<lparr>qhead = 15, qtail = 16, qcount = 1, qbuffer = replicate 16 5\<rparr> = Inr q' \<and> queue_rep q' [5, 7]"
proof -
  let ?q = "\<lparr>qhead = 15, qtail = 16, qcount = 1, qbuffer = replicate 16 5\<rparr>"
  have "queue_rep ?q [5]" by (simp add: queue_rep_def)
  from ring_queue_is_fifo [OF this, of ?q "[]" 7] show ?thesis by (simp add: QUEUE_BUF_SZ_def)
qed

end
