(* ===== verification/Keyboard.thy ===== *)
theory Keyboard imports Prelude begin

text \<open>
  The scan-code tables of \<^verbatim>\<open>kernel/keyboard.c\<close> with the key codes of \<^verbatim>\<open>include/keyboard.h\<close>
  written as their values; the rows the source leaves out are zero. \<^verbatim>\<open>int\<close>s are integers here: the
  values are bytes and flags, far from the type's bounds.
\<close>

definition NR_KEYS :: nat where "NR_KEYS = 128"

definition KEY_CTRL_L :: int where "KEY_CTRL_L = 0x1d"
definition KEY_SHIFT_L :: int where "KEY_SHIFT_L = 0x2a"
definition KEY_ALT_L :: int where "KEY_ALT_L = 0x38"

definition KB_F_CTRL :: int where "KB_F_CTRL = 0x0001"
definition KB_F_ALT :: int where "KB_F_ALT = 0x0002"
definition KB_F_SHIFT :: int where "KB_F_SHIFT = 0x0004"

definition keycode :: "int list" where
  "keycode =
  [0x00, 0x01, 0x02, 0x03, 0x04, 0x05, 0x06, 0x07, 0x08, 0x09, 0x0a, 0x0b, 0x0c, 0x0d, 0x2b, 0x0f,
   0x10, 0x11, 0x12, 0x13, 0x14, 0x15, 0x16, 0x17, 0x18, 0x19, 0x1a, 0x1b, 0x1c, 0x1d, 0x1e, 0x1f,
   0x20, 0x21, 0x22, 0x23, 0x24, 0x25, 0x26, 0x27, 0x28, 0x29, 0x2a, 0x2b, 0x2c, 0x2d, 0x2e, 0x2f,
   0x30, 0x31, 0x32, 0x33, 0x34, 0x35, 0x00, 0x00, 0x38, 0x39, 0x3a, 0x3b, 0x3c, 0x3d, 0x3e, 0x3f,
   0x40, 0x41, 0x42, 0x43, 0x44, 0x45, 0x00, 0x00, 0x00, 0x00, 0x00, 0x00, 0x00, 0x00, 0x00, 0x00,
   0x00, 0x00, 0x00, 0x00, 0x00, 0x00, 0x00, 0x57, 0x58] @ replicate 39 0"

definition kb_keycode :: "int \<Rightarrow> int res" where
  "kb_keycode scan_code =
     (let scan_code = scan_code AND NOT 0x80 in
      assertr (scan_code \<ge> 0 \<and> scan_code < int NR_KEYS)
        (Inr (keycode ! nat scan_code)))"

text \<open>Two columns per key, plain and shifted.\<close>

definition ascii :: "u8 list" where
  "ascii =
  [0x00, 0x00, 0x27, 0x27, 0x31, 0x21, 0x32, 0x40, 0x33, 0x23, 0x34, 0x24, 0x35, 0x25, 0x36, 0x5e,
   0x37, 0x26, 0x38, 0x2a, 0x39, 0x28, 0x30, 0x29, 0x2d, 0x5f, 0x3d, 0x2b, 0x08, 0x08, 0x09, 0x09,
   0x71, 0x51, 0x77, 0x57, 0x65, 0x45, 0x72, 0x52, 0x74, 0x54, 0x79, 0x59, 0x75, 0x55, 0x69, 0x49,
   0x6f, 0x4f, 0x70, 0x50, 0x5b, 0x7b, 0x5d, 0x7d, 0x00, 0x00, 0x00, 0x00, 0x61, 0x41, 0x73, 0x53,
   0x64, 0x44, 0x66, 0x46, 0x67, 0x47, 0x68, 0x48, 0x6a, 0x4a, 0x6b, 0x4b, 0x6c, 0x4c, 0x3b, 0x3a,
   0x27, 0x22, 0x60, 0x7e, 0x00, 0x00, 0x5c, 0x7c, 0x7a, 0x5a, 0x78, 0x58, 0x63, 0x43, 0x76, 0x56,
   0x62, 0x42, 0x6e, 0x4e, 0x6d, 0x4d, 0x2c, 0x3c, 0x2e, 0x3e, 0x2f, 0x3f, 0x00, 0x00, 0x2a, 0x2a,
   0x00, 0x00, 0x20, 0x20, 0x00, 0x00, 0x00, 0x00, 0x00, 0x00, 0x00, 0x00, 0x00, 0x00, 0x00, 0x00,
   0x00, 0x00, 0x00, 0x00, 0x00, 0x00, 0x00, 0x00, 0x00, 0x00, 0x00, 0x00, 0x00, 0x00, 0x00, 0x00,
   0x00, 0x00, 0x00, 0x00, 0x00, 0x00, 0x00, 0x00, 0x00, 0x00, 0x00, 0x00, 0x00, 0x00, 0x00, 0x00,
   0x00, 0x00, 0x00, 0x00, 0x00, 0x00, 0x00, 0x00, 0x00, 0x00, 0x00, 0x00, 0x00, 0x00, 0x00, 0x00,
   0x00, 0x00] @ replicate 78 0"

text \<open>
  The bound asserted is the size of the table, twice the number of keys; an index beyond the table
  is a bad access.
\<close>

definition kb_ascii :: "int \<Rightarrow> int \<Rightarrow> u8 res" where
  "kb_ascii scan_code kb_flag =
     assertr (scan_code \<ge> 0 \<and> scan_code < int (NR_KEYS * 2))
     (let i = nat (scan_code * 2 + (if kb_flag AND KB_F_SHIFT \<noteq> 0 then 1 else 0)) in
      if i < length ascii then Inr (ascii ! i) else Inl Bad_access)"

lemma length_tables [simp]: "length keycode = 128" "length ascii = 256"
  by (simp_all add: keycode_def ascii_def)

lemma release_bit:
  assumes "0 \<le> b" "b < 256"
  shows "b AND NOT 0x80 = b mod 128" and "b AND 0x80 = 0 \<longleftrightarrow> b < (128 :: int)"
proof -
  have b: "take_bit 8 b = b" using assms by (simp add: take_bit_int_eq_self_iff)
  have lt: "bit b n \<Longrightarrow> n < 8" for n using b by (metis bit_take_bit_iff)
  have b7: "bit (0x80 :: int) n \<longleftrightarrow> n = 7" for n
    using bit_exp_iff [of 7 n, where ?'a = int] by simp
  show "b AND NOT 0x80 = b mod 128"
  proof -
    have "bit (b AND NOT 0x80) n = bit (take_bit 7 b) n" for n
    proof (cases "bit b n")
      case True
      with lt have "n < 8" by blast
      then have "n \<noteq> 7 \<longleftrightarrow> n < 7" by linarith
      with True show ?thesis by (simp only: bit_and_iff bit_not_iff b7 bit_take_bit_iff) simp
    qed (simp add: bit_and_iff bit_take_bit_iff)
    then have "b AND NOT 0x80 = take_bit 7 b" by (intro bit_eqI)
    then show ?thesis by (simp add: take_bit_eq_mod)
  qed
  have "b AND 0x80 = 0 \<longleftrightarrow> \<not> bit b 7"
  proof
    assume "b AND 0x80 = 0"
    then have "\<not> bit (b AND 0x80) 7" by simp
    then show "\<not> bit b 7" by (simp add: bit_and_iff b7)
  next
    assume "\<not> bit b 7"
    then show "b AND 0x80 = 0" by (intro bit_eqI) (auto simp: bit_and_iff b7)
  qed
  also have "\<dots> \<longleftrightarrow> b < 128" using assms by (auto simp: bit_iff_odd) presburger+
  finally show "b AND 0x80 = 0 \<longleftrightarrow> b < 128" .
qed

lemma kb_keycode_byte:
  "0 \<le> b \<Longrightarrow> b < 256 \<Longrightarrow> kb_keycode b = Inr (keycode ! nat (b mod 128))"
  using release_bit(1) [of b] by (simp add: kb_keycode_def NR_KEYS_def Let_def)

lemma kb_ascii_byte:
  "0 \<le> b \<Longrightarrow> b < 128 \<Longrightarrow>
   kb_ascii b f = Inr (ascii ! nat (b * 2 + (if f AND KB_F_SHIFT \<noteq> 0 then 1 else 0)))"
  by (auto simp: kb_ascii_def NR_KEYS_def Let_def)

section \<open>What the tables hold\<close>

lemma keycode_rows:
  "list_all (\<lambda>i. keycode ! i = int i \<or> keycode ! i = 0 \<or> i = 0x0e \<and> keycode ! i = 0x2b) [0..<128]"
  by code_simp

lemma ascii_rows:
  "list_all (\<lambda>i. ascii ! (2 * i) < 0x7f \<and> ascii ! (2 * i + 1) < 0x7f \<and>
     (0x61 \<le> ascii ! (2 * i) \<and> ascii ! (2 * i) \<le> 0x7a \<longrightarrow> ascii ! (2 * i + 1) = ascii ! (2 * i) - 0x20)) [0..<128]"
  by code_simp

text \<open>
  Both tables are read within their bounds for every byte the keyboard can deliver. A key's code
  is its scan code or 0, with press and release alike, except for backspace, which gets the code of
  the backslash; its characters are ASCII, a letter's shifted one being the capital; and the
  escape key yields an apostrophe, the table's \<^verbatim>\<open>0x27\<close> where escape is \<^verbatim>\<open>0x1b\<close>.
\<close>

lemma key_tables:
  assumes "0 \<le> b" and "b < 128"
  shows "\<exists>k c d. kb_keycode b = Inr k \<and> kb_keycode (b + 128) = Inr k \<and>
    (k = b \<or> k = 0 \<or> b = 0x0e \<and> k = 0x2b) \<and>
    kb_ascii b 0 = Inr c \<and> kb_ascii b KB_F_SHIFT = Inr d \<and> c < 0x7f \<and> d < 0x7f \<and>
    (0x61 \<le> c \<and> c \<le> 0x7a \<longrightarrow> d = c - 0x20) \<and>
    kb_ascii 0x01 0 = kb_ascii 0x28 0"
proof -
  from assms obtain i where i: "b = int i" "i < 128" by (auto dest: zero_le_imp_eq_int)
  have idx: "nat (int i * 2) = 2 * i" "nat (int i * 2 + 1) = 2 * i + 1" by linarith+
  have key: "kb_keycode b = Inr (keycode ! i)" "kb_keycode (b + 128) = Inr (keycode ! i)"
    using i by (simp_all add: kb_keycode_byte)
  have asc: "kb_ascii b 0 = Inr (ascii ! (2 * i))" "kb_ascii b KB_F_SHIFT = Inr (ascii ! (2 * i + 1))"
    using i kb_ascii_byte [OF assms, of 0] kb_ascii_byte [OF assms, of KB_F_SHIFT]
    by (simp_all add: idx) (simp_all add: KB_F_SHIFT_def idx)
  have "kb_ascii 0x01 0 = kb_ascii 0x28 0"
    by (simp add: kb_ascii_byte) (simp add: ascii_def)
  with i key asc keycode_rows ascii_rows show ?thesis unfolding list_all_iff by auto
qed

lemma key_tables_witness: "\<exists>k. kb_keycode 0x0e = Inr k \<and> (k = 0x0e \<or> k = 0 \<or> k = 0x2b)"
  using key_tables [of "0x0e"] by auto

section \<open>The names of the keys\<close>

text \<open>
  The codes \<^verbatim>\<open>include/keyboard.h\<close> defines: for the letters \<^verbatim>\<open>KEY_A\<close> to \<^verbatim>\<open>KEY_Z\<close>, the digits \<^verbatim>\<open>KEY_0\<close> to \<^verbatim>\<open>KEY_9\<close> and the
  punctuation, with the character of the name, and for the function keys and the others without one.
\<close>

definition letter_keys :: "(char \<times> int) list" where
  "letter_keys = zip ''abcdefghijklmnopqrstuvwxyz''
     [0x1E, 0x30, 0x2E, 0x20, 0x12, 0x21, 0x22, 0x23, 0x17, 0x24, 0x25, 0x26, 0x32,
      0x31, 0x18, 0x19, 0x10, 0x13, 0x1F, 0x14, 0x16, 0x2F, 0x11, 0x2D, 0x15, 0x2C]"

definition digit_keys :: "(char \<times> int) list" where
  "digit_keys = zip ''0123456789'' [0x0B, 0x02, 0x03, 0x04, 0x05, 0x06, 0x07, 0x08, 0x09, 0x0A]"

definition punctuation_keys :: "(char \<times> int) list" where
  "punctuation_keys = zip (map char_of [0x60, 0x2d, 0x3d, 0x5b, 0x5d, 0x5c, 0x3b, 0x27, 0x2c, 0x2e, 0x2f :: nat])
     [0x29, 0x0C, 0x0D, 0x1A, 0x1B, 0x2B, 0x27, 0x28, 0x33, 0x34, 0x35]"

definition function_keys :: "int list" where
  "function_keys = [0x3B, 0x3C, 0x3D, 0x3E, 0x3F, 0x40, 0x41, 0x42, 0x43, 0x44, 0x57, 0x58]"

definition KEY_ESC :: int where "KEY_ESC = 0x01"
definition KEY_ENTER :: int where "KEY_ENTER = 0x1C"
definition KEY_TAB :: int where "KEY_TAB = 0x0F"
definition KEY_SPACE :: int where "KEY_SPACE = 0x39"
definition KEY_CAPS_LOCK :: int where "KEY_CAPS_LOCK = 0x3A"
definition KEY_NUM_LOCK :: int where "KEY_NUM_LOCK = 0x45"

definition named_keys :: "int list" where
  "named_keys = map snd (letter_keys @ digit_keys @ punctuation_keys) @ function_keys @
     [KEY_ESC, KEY_ENTER, KEY_TAB, KEY_SPACE, KEY_CAPS_LOCK, KEY_NUM_LOCK, KEY_CTRL_L, KEY_SHIFT_L, KEY_ALT_L]"

lemma named_rows:
  "list_all (\<lambda>k. 0 \<le> k \<and> k < 128 \<and> keycode ! nat k = k) named_keys \<and> distinct named_keys"
  by code_simp

lemma character_rows:
  "list_all (\<lambda>(c, k). 0 \<le> k \<and> k < 128 \<and> ascii ! nat (2 * k) = of_char c) (letter_keys @ digit_keys @ punctuation_keys)"
  by code_simp

text \<open>
  No two names share a code, every named key reports its own code, and the keys named after a character yield it.
\<close>

lemma named_keys_agree:
  "distinct named_keys" "k \<in> set named_keys \<Longrightarrow> kb_keycode k = Inr k"
  "(c, k) \<in> set (letter_keys @ digit_keys @ punctuation_keys) \<Longrightarrow> kb_ascii k 0 = Inr (of_char c)"
  using named_rows character_rows by (auto simp: list_all_iff kb_keycode_byte kb_ascii_byte mult.commute simp del: set_append)

end
