(* ===== verification/Tty.thy ===== *)
theory Tty imports Ring_Queue Keyboard Descriptor begin

text \<open>
  The terminal's input path (\<^verbatim>\<open>kernel/io.c\<close>): the keyboard interrupt puts a scan code on the read
  queue, \<^verbatim>\<open>tty_cook\<close> turns complete sequences of scan codes into characters on the secondary
  queue, putting an incomplete one back, and the interrupt handler consumes the characters.
\<close>

record tty_struct =
  kb_flag :: int
  read_q :: tty_queue
  secondary :: tty_queue

datatype cook_state = CS_ERROR | CS_NORMAL | CS_E0 | CS_DONE

definition tty_init :: "tty_struct \<Rightarrow> tty_struct" where
  "tty_init tty = tty\<lparr>read_q := QUEUE_INIT (read_q tty), secondary := QUEUE_INIT (secondary tty)\<rparr>"

text \<open>\<^verbatim>\<open>char\<close> is signed.\<close>

definition isprint :: "u8 \<Rightarrow> bool" where
  "isprint c \<longleftrightarrow> sint c \<ge> 0x20 \<and> sint c \<le> 0x7e"

definition set_flag :: "int \<Rightarrow> int \<Rightarrow> int \<Rightarrow> int" where
  "set_flag scan_code f flags = (if scan_code AND 0x80 \<noteq> 0 then flags AND NOT f else flags OR f)"

text \<open>
  One scan code: the next state, the flags, and the characters put out; \<open>filter\<close> is what \<^verbatim>\<open>*count\<close>
  counts on entry.
\<close>

definition cook :: "int \<Rightarrow> cook_state \<Rightarrow> int \<Rightarrow> u8 list \<Rightarrow> (cook_state \<times> int \<times> u8 list) res" where
  "cook scan_code cstate flags out =
     assertr (scan_code AND NOT 0xff = 0 \<and> out = [])
     (case cstate of
        CS_NORMAL \<Rightarrow>
          if scan_code = 0xe0 then Inr (CS_E0, flags, out)
          else bindr (kb_keycode scan_code) (\<lambda>k.
            if k = KEY_CTRL_L then Inr (CS_DONE, set_flag scan_code KB_F_CTRL flags, out)
            else if k = KEY_SHIFT_L then Inr (CS_DONE, set_flag scan_code KB_F_SHIFT flags, out)
            else if k = KEY_ALT_L then Inr (CS_DONE, set_flag scan_code KB_F_ALT flags, out)
            else if scan_code AND 0x80 = 0
            then bindr (kb_ascii scan_code flags) (\<lambda>c.
              if isprint c then Inr (CS_DONE, flags, [c]) else Inr (CS_DONE, flags, out))
            else Inr (CS_DONE, flags, out))
      | CS_E0 \<Rightarrow> Inr (CS_DONE, flags, out)
      | CS_DONE \<Rightarrow> Inl (Panic ''keyboard: bad scan code sequence'')
      | CS_ERROR \<Rightarrow> Inl (Panic ''keyboard: unknown cook state''))"

text \<open>
  The inner loop of \<^verbatim>\<open>tty_cook\<close>: the characters of a complete sequence, or \<open>None\<close> when the read
  queue runs dry in the middle of one.
\<close>

partial_function (option) cook_loop ::
  "int \<Rightarrow> cook_state \<Rightarrow> tty_struct \<Rightarrow> (u8 list option \<times> tty_struct) res option" where
  "cook_loop scan_code state tty =
     (case cook scan_code state (kb_flag tty) [] of
        Inl e \<Rightarrow> Some (Inl e)
      | Inr r \<Rightarrow>
          (if fst r = CS_DONE then Some (Inr (Some (snd (snd r)), tty\<lparr>kb_flag := fst (snd r)\<rparr>))
           else if QUEUE_EMPTY (read_q tty) then Some (Inr (None, tty\<lparr>kb_flag := fst (snd r)\<rparr>))
           else case QUEUE_DEQ (read_q tty) of
                  Inl e \<Rightarrow> Some (Inl e)
                | Inr d \<Rightarrow> cook_loop (fst d) (fst r) (tty\<lparr>kb_flag := fst (snd r), read_q := snd d\<rparr>)))"

text \<open>\<^verbatim>\<open>while (--filter_cnt >= 0) QUEUE_ENQ(tty->secondary, *(p++));\<close>\<close>

fun put_chars :: "u8 list \<Rightarrow> tty_queue \<Rightarrow> tty_queue res" where
  "put_chars [] q = Inr q"
| "put_chars (c # cs) q = bindr (QUEUE_ENQ (sint c) q) (put_chars cs)"

partial_function (option) tty_cook :: "tty_struct \<Rightarrow> tty_struct res option" where
  "tty_cook tty =
     (if QUEUE_FULL (secondary tty) \<or> QUEUE_EMPTY (read_q tty) then Some (Inr tty)
      else case QUEUE_DEQ (read_q tty) of
             Inl e \<Rightarrow> Some (Inl e)
           | Inr d \<Rightarrow>
               Option.bind (cook_loop (fst d) CS_NORMAL (tty\<lparr>read_q := snd d\<rparr>)) (\<lambda>r.
                 case r of
                   Inl e \<Rightarrow> Some (Inl e)
                 | Inr ot \<Rightarrow>
                     (let restored = (snd ot)\<lparr>read_q := (read_q (snd ot))
                            \<lparr>qhead := qhead (read_q tty), qcount := qcount (read_q tty)\<rparr>\<rparr>
                      in case fst ot of
                           None \<Rightarrow> Some (Inr restored)
                         | Some out \<Rightarrow>
                             if int QUEUE_BUF_SZ - qcount (secondary (snd ot)) < int (length out)
                             then Some (Inr restored)
                             else case put_chars out (secondary (snd ot)) of
                                    Inl e \<Rightarrow> Some (Inl e)
                                  | Inr q \<Rightarrow> tty_cook ((snd ot)\<lparr>secondary := q\<rparr>))))"

text \<open>
  The handler's echo loop: every character leaves the secondary queue; \<^verbatim>\<open>j\<close> and \<^verbatim>\<open>k\<close> scroll the
  screen, by the routine of \<^verbatim>\<open>printk.asm\<close>, here the list of its arguments. Reading an \<^verbatim>\<open>int\<close>
  into the \<^verbatim>\<open>unsigned char\<close> truncates it.
\<close>

definition scroll_of :: "int \<Rightarrow> int list" where
  "scroll_of v =
     (let c = (of_int v :: u8) in
      if c = 0x6a \<or> c = 0x4a then [3] else if c = 0x6b \<or> c = 0x4b then [- 3] else [])"

partial_function (option) echo_loop :: "tty_struct \<Rightarrow> int list \<Rightarrow> (tty_struct \<times> int list) res option" where
  "echo_loop tty scrolls =
     (if QUEUE_EMPTY (secondary tty) then Some (Inr (tty, scrolls))
      else case QUEUE_DEQ (secondary tty) of
             Inl e \<Rightarrow> Some (Inl e)
           | Inr d \<Rightarrow> echo_loop (tty\<lparr>secondary := snd d\<rparr>) (scrolls @ scroll_of (fst d)))"

definition on_keyboard_interrupt ::
  "'e ports \<Rightarrow> int \<Rightarrow> tty_struct \<times> 'e \<Rightarrow> (tty_struct \<times> 'e \<times> int list) res option" where
  "on_keyboard_interrupt io int_nr te =
     (let (tty, e) = te; (scan_code, e) = inb io 0x60 e in
      if QUEUE_FULL (read_q tty) then Some (Inl (Panic ''keyboard buffer is full''))
      else case QUEUE_ENQ (uint scan_code) (read_q tty) of
             Inl h \<Rightarrow> Some (Inl h)
           | Inr q \<Rightarrow>
               Option.bind (tty_cook (tty\<lparr>read_q := q\<rparr>)) (\<lambda>r.
                 case r of
                   Inl h \<Rightarrow> Some (Inl h)
                 | Inr tty \<Rightarrow>
                     Option.bind (echo_loop tty []) (\<lambda>r.
                       case r of Inl h \<Rightarrow> Some (Inl h) | Inr (tty, scrolls) \<Rightarrow> Some (Inr (tty, e, scrolls)))))"

text \<open>\<^verbatim>\<open>tty_read\<close> and \<^verbatim>\<open>tty_write\<close> are stubs in the source.\<close>

definition tty_read :: "tty_struct \<Rightarrow> u8 list \<Rightarrow> int \<Rightarrow> int" where "tty_read tty buf n = 0"
definition tty_write :: "tty_struct \<Rightarrow> u8 list \<Rightarrow> int \<Rightarrow> int" where "tty_write tty buf n = 0"

definition io_init :: "'e ports \<Rightarrow> 'h \<Rightarrow> tty_struct \<times> 'h list \<times> 'e \<Rightarrow> (tty_struct \<times> 'h list \<times> 'e) res" where
  "io_init io on_keyboard = (\<lambda>(tty, table, e).
     let tty = tty_init tty in
     bindr (set_irq_handler 1 on_keyboard table) (\<lambda>table.
     bindr (enable_irq io 1 e) (\<lambda>e. Inr (tty, table, e))))"

section \<open>The decoder behind it\<close>

text \<open>
  What the input path computes, as a machine that reads one byte at a time: whether a prefix
  \<^verbatim>\<open>0xe0\<close> is pending, the modifier flags, and the characters a byte yields.
\<close>

definition plain_key :: "int \<Rightarrow> int \<Rightarrow> int \<times> u8 list" where
  "plain_key b f =
     (let k = keycode ! nat (b mod 128); down = (b < 128) in
      if k = KEY_CTRL_L then (if down then f OR KB_F_CTRL else f AND NOT KB_F_CTRL, [])
      else if k = KEY_SHIFT_L then (if down then f OR KB_F_SHIFT else f AND NOT KB_F_SHIFT, [])
      else if k = KEY_ALT_L then (if down then f OR KB_F_ALT else f AND NOT KB_F_ALT, [])
      else let c = ascii ! nat (b * 2 + (if f AND KB_F_SHIFT \<noteq> 0 then 1 else 0))
           in (f, if down \<and> isprint c then [c] else []))"

definition decode :: "int \<Rightarrow> bool \<times> int \<Rightarrow> (bool \<times> int) \<times> u8 list" where
  "decode b = (\<lambda>(pending, f).
     if pending then ((False, f), [])
     else if b = 0xe0 then ((True, f), [])
     else let (f, cs) = plain_key b f in ((False, f), cs))"

lemma cook_normal:
  assumes "0 \<le> b" "b < 256" "b \<noteq> 0xe0"
  shows "cook b CS_NORMAL f [] = (let (f', cs) = plain_key b f in Inr (CS_DONE, f', cs))"
proof -
  have byte: "b AND NOT 0xff = 0"
  proof -
    have "take_bit 8 b = b" using assms by (simp add: take_bit_int_eq_self_iff)
    moreover have "(0xff :: int) = mask 8" by (simp add: mask_eq_exp_minus_1)
    ultimately show ?thesis by (metis and.assoc and_zero_eq bit.conj_cancel_right take_bit_eq_mask)
  qed
  show ?thesis
    using kb_keycode_byte [OF assms(1,2)] kb_ascii_byte [OF assms(1)] release_bit(2) [OF assms(1,2)] assms(3) byte
    by (auto simp: cook_def plain_key_def set_flag_def Let_def)
qed

section \<open>The input path computes the decoder\<close>

definition sim :: "tty_struct \<Rightarrow> bool \<times> int \<Rightarrow> bool" where
  "sim tty st \<longleftrightarrow> kb_flag tty = snd st \<and> queue_rep (read_q tty) (if fst st then [0xe0] else []) \<and>
     queue_rep (secondary tty) []"

lemma low_byte: "0 \<le> b \<Longrightarrow> b < 256 \<Longrightarrow> b AND NOT 0xff = (0 :: int)"
proof -
  assume "0 \<le> b" "b < 256"
  then have "take_bit 8 b = b" by (simp add: take_bit_int_eq_self_iff)
  moreover have "(0xff :: int) = mask 8" by (simp add: mask_eq_exp_minus_1)
  ultimately show ?thesis by (metis and.assoc and_zero_eq bit.conj_cancel_right take_bit_eq_mask)
qed

lemma deq_ring:
  assumes "queue_rep q (x # xs)"
  obtains q' where "QUEUE_DEQ q = Inr (x, q')" "queue_rep q' xs" "q'\<lparr>qhead := qhead q, qcount := qcount q\<rparr> = q"
proof -
  from queue_rep_deq [OF assms] obtain q' where q': "QUEUE_DEQ q = Inr (x, q')" "queue_rep q' xs"
    "qbuffer q' = qbuffer q" "qtail q' = qtail q" by blast
  then have "q'\<lparr>qhead := qhead q, qcount := qcount q\<rparr> = q" by simp
  with q' that show thesis by blast
qed

lemma ring_tests:
  "queue_rep q xs \<Longrightarrow> QUEUE_EMPTY q \<longleftrightarrow> xs = []"
  "queue_rep q xs \<Longrightarrow> QUEUE_FULL q \<longleftrightarrow> length xs = 16"
  by (auto simp: ring.rep_empty ring.rep_full QUEUE_BUF_SZ_def)

text \<open>Cooking the read queue's one sequence; an incomplete one is put back.\<close>

lemma cook_one:
  assumes b: "0 \<le> b" "b < 256" "b \<noteq> 0xe0" and rep: "queue_rep (read_q tty) [b]" "queue_rep (secondary tty) []"
  shows "\<exists>tty'. tty_cook tty = Some (Inr tty') \<and> kb_flag tty' = fst (plain_key b (kb_flag tty)) \<and>
    queue_rep (read_q tty') [] \<and> queue_rep (secondary tty') (map sint (snd (plain_key b (kb_flag tty))))"
proof -
  from deq_ring [OF rep(1)] obtain q' where q': "QUEUE_DEQ (read_q tty) = Inr (b, q')" "queue_rep q' []" .
  obtain f cs where pk: "plain_key b (kb_flag tty) = (f, cs)" by force
  have loop: "cook_loop b CS_NORMAL (tty\<lparr>read_q := q'\<rparr>) = Some (Inr (Some cs, tty\<lparr>read_q := q', kb_flag := f\<rparr>))"
    using cook_normal [OF b] by (simp add: cook_loop.simps pk)
  have cs: "cs = [] \<or> (\<exists>c. cs = [c])" using pk by (auto simp: plain_key_def Let_def split: if_splits)
  then have "\<exists>q2. put_chars cs (secondary tty) = Inr q2 \<and> queue_rep q2 (map sint cs)"
  proof
    assume "\<exists>c. cs = [c]"
    then obtain c where c: "cs = [c]" ..
    have "length ([] :: int list) < 16" by simp
    from queue_rep_enq [OF rep(2) this, of "sint c"] c show ?thesis by auto
  qed (use rep(2) in simp)
  then obtain q2 where q2: "put_chars cs (secondary tty) = Inr q2" "queue_rep q2 (map sint cs)" by blast
  from cs have cnt: "\<not> int QUEUE_BUF_SZ - qcount (secondary tty) < int (length cs)"
    using rep(2) by (auto simp: queue_rep_def QUEUE_BUF_SZ_def)
  let ?t = "tty\<lparr>read_q := q', kb_flag := f, secondary := q2\<rparr>"
  have "tty_cook ?t = Some (Inr ?t)" using ring_tests [OF q'(2)] by (simp add: tty_cook.simps)
  then have "tty_cook tty = Some (Inr ?t)"
    using q' q2(1) loop cnt ring_tests [OF rep(1)] ring_tests [OF rep(2)]
    by (simp add: tty_cook.simps [of tty] Let_def)
  with q'(2) q2(2) show ?thesis by (simp add: pk)
qed

lemma cook_prefix:
  assumes rep: "queue_rep (read_q tty) [0xe0]" "queue_rep (secondary tty) []"
  shows "tty_cook tty = Some (Inr tty)"
proof -
  from deq_ring [OF rep(1)] obtain q' where q': "QUEUE_DEQ (read_q tty) = Inr (0xe0, q')" "queue_rep q' []"
    "q'\<lparr>qhead := qhead (read_q tty), qcount := qcount (read_q tty)\<rparr> = read_q tty" .
  have "cook_loop 0xe0 CS_NORMAL (tty\<lparr>read_q := q'\<rparr>) = Some (Inr (None, tty\<lparr>read_q := q'\<rparr>))"
    using ring_tests(1) [OF q'(2)] low_byte [of "0xe0"] by (simp add: cook_loop.simps cook_def)
  with q' ring_tests [OF rep(1)] ring_tests [OF rep(2)] show ?thesis
    by (simp add: tty_cook.simps [of tty] Let_def)
qed

lemma cook_pair:
  assumes b: "0 \<le> b" "b < 256" and rep: "queue_rep (read_q tty) [0xe0, b]" "queue_rep (secondary tty) []"
  shows "\<exists>tty'. tty_cook tty = Some (Inr tty') \<and> kb_flag tty' = kb_flag tty \<and>
    queue_rep (read_q tty') [] \<and> queue_rep (secondary tty') []"
proof -
  from deq_ring [OF rep(1)] obtain q1 where q1: "QUEUE_DEQ (read_q tty) = Inr (0xe0, q1)" "queue_rep q1 [b]" .
  from deq_ring [OF q1(2)] obtain q2 where q2: "QUEUE_DEQ q1 = Inr (b, q2)" "queue_rep q2 []" .
  let ?t = "tty\<lparr>read_q := q2\<rparr>"
  have "cook_loop b CS_E0 ?t = Some (Inr (Some [], ?t))"
    using low_byte [OF b] by (simp add: cook_loop.simps cook_def)
  then have "cook_loop 0xe0 CS_NORMAL (tty\<lparr>read_q := q1\<rparr>) = Some (Inr (Some [], ?t))"
    using ring_tests(1) [OF q1(2)] q2(1) low_byte [of "0xe0"]
    by (simp add: cook_loop.simps [of "0xe0" CS_NORMAL] cook_def)
  moreover have "tty_cook ?t = Some (Inr ?t)" using ring_tests [OF q2(2)] by (simp add: tty_cook.simps)
  moreover have "qcount (secondary tty) = 0" using rep(2) by (simp add: queue_rep_def)
  ultimately have "tty_cook tty = Some (Inr ?t)"
    using q1(1) ring_tests [OF rep(1)] ring_tests [OF rep(2)]
    by (simp add: tty_cook.simps [of tty] Let_def QUEUE_BUF_SZ_def)
  with q2(2) rep(2) show ?thesis by simp
qed

lemma echo_loop_all:
  "queue_rep (secondary tty) xs \<Longrightarrow>
   \<exists>q. echo_loop tty ss = Some (Inr (tty\<lparr>secondary := q\<rparr>, ss @ concat (map scroll_of xs))) \<and> queue_rep q []"
proof (induction xs arbitrary: tty ss)
  case Nil
  then show ?case using ring_tests(1) [OF Nil] by (intro exI [of _ "secondary tty"]) (simp add: echo_loop.simps)
next
  case (Cons x xs)
  from deq_ring [OF Cons.prems] obtain q' where q': "QUEUE_DEQ (secondary tty) = Inr (x, q')" "queue_rep q' xs" .
  then have "queue_rep (secondary (tty\<lparr>secondary := q'\<rparr>)) xs" by simp
  from Cons.IH [OF this, of "ss @ scroll_of x"] q' ring_tests(1) [OF Cons.prems] show ?case
    by (simp add: echo_loop.simps [of tty])
qed

lemma one_interrupt:
  assumes sim: "sim tty st" and io: "inb io 0x60 e = (b, e')"
  shows "\<exists>tty'. on_keyboard_interrupt io n (tty, e) =
      Some (Inr (tty', e', concat (map (scroll_of \<circ> sint) (snd (decode (uint b) st))))) \<and>
    sim tty' (fst (decode (uint b) st))"
proof -
  have b: "0 \<le> uint b" "uint b < 256" using uint_lt2p [of b] by simp_all
  obtain pend f where st: "st = (pend, f)" by force
  let ?xs = "if pend then [0xe0] else []"
  from sim have r: "queue_rep (read_q tty) ?xs" "queue_rep (secondary tty) []" "kb_flag tty = f"
    by (simp_all add: sim_def st)
  have "length ?xs < 16" by simp
  from queue_rep_enq [OF r(1) this, of "uint b"] obtain q where
    q: "QUEUE_ENQ (uint b) (read_q tty) = Inr q" "queue_rep q (?xs @ [uint b])" by blast
  have "\<exists>tty1. tty_cook (tty\<lparr>read_q := q\<rparr>) = Some (Inr tty1) \<and>
      kb_flag tty1 = snd (fst (decode (uint b) st)) \<and>
      queue_rep (read_q tty1) (if fst (fst (decode (uint b) st)) then [0xe0] else []) \<and>
      queue_rep (secondary tty1) (map sint (snd (decode (uint b) st)))"
  proof (cases pend)
    case True
    then show ?thesis using cook_pair [OF b, of "tty\<lparr>read_q := q\<rparr>"] q r by (simp add: st decode_def)
  next
    case False
    show ?thesis
    proof (cases "uint b = 0xe0")
      case True
      with False show ?thesis using cook_prefix [of "tty\<lparr>read_q := q\<rparr>"] q r by (simp add: st decode_def)
    next
      case nb: False
      with False show ?thesis using cook_one [OF b nb, of "tty\<lparr>read_q := q\<rparr>"] q r
        by (simp add: st decode_def split_beta Let_def)
    qed
  qed
  then obtain tty1 where t: "tty_cook (tty\<lparr>read_q := q\<rparr>) = Some (Inr tty1)"
      "kb_flag tty1 = snd (fst (decode (uint b) st))"
      "queue_rep (read_q tty1) (if fst (fst (decode (uint b) st)) then [0xe0] else [])"
      "queue_rep (secondary tty1) (map sint (snd (decode (uint b) st)))" by blast
  from echo_loop_all [OF t(4), of "[]"] obtain q2 where
    ec: "echo_loop tty1 [] = Some (Inr (tty1\<lparr>secondary := q2\<rparr>,
      concat (map scroll_of (map sint (snd (decode (uint b) st))))))" "queue_rep q2 []" by auto
  have "\<not> QUEUE_FULL (read_q tty)" using ring_tests(2) [OF r(1)] by simp
  then have "on_keyboard_interrupt io n (tty, e) = Some (Inr (tty1\<lparr>secondary := q2\<rparr>, e',
      concat (map scroll_of (map sint (snd (decode (uint b) st))))))"
    using q(1) t(1) ec(1) by (simp add: on_keyboard_interrupt_def io)
  moreover have "sim (tty1\<lparr>secondary := q2\<rparr>) (fst (decode (uint b) st))" using t ec(2) by (simp add: sim_def)
  ultimately show ?thesis by (simp add: map_map [symmetric] del: map_map)
qed

section \<open>Properties\<close>

text \<open>\<open>n\<close> keyboard interrupts in a row: the final state and all the scroll requests.\<close>

fun key_run :: "'e ports \<Rightarrow> nat \<Rightarrow> tty_struct \<times> 'e \<Rightarrow> (tty_struct \<times> 'e \<times> int list) res option" where
  "key_run io 0 (tty, e) = Some (Inr (tty, e, []))"
| "key_run io (Suc n) (tty, e) =
     Option.bind (on_keyboard_interrupt io 0x21 (tty, e)) (\<lambda>r.
       case r of Inl h \<Rightarrow> Some (Inl h)
       | Inr (tty, e, ss) \<Rightarrow>
           Option.bind (key_run io n (tty, e)) (\<lambda>r.
             case r of Inl h \<Rightarrow> Some (Inl h) | Inr (tty, e, ss') \<Rightarrow> Some (Inr (tty, e, ss @ ss'))))"

text \<open>The decoder on the bytes the device delivers meanwhile.\<close>

fun decode_run :: "'e ports \<Rightarrow> nat \<Rightarrow> (bool \<times> int) \<times> 'e \<Rightarrow> (bool \<times> int) \<times> 'e \<times> u8 list" where
  "decode_run io 0 (st, e) = (st, e, [])"
| "decode_run io (Suc n) (st, e) =
     (let (b, e) = inb io 0x60 e; (st, cs) = decode (uint b) st; (st, e, cs') = decode_run io n (st, e)
      in (st, e, cs @ cs'))"

lemma key_run_sim:
  "sim tty st \<Longrightarrow> \<exists>tty'. key_run io n (tty, e) =
     Some (Inr (tty', fst (snd (decode_run io n (st, e))),
       concat (map (scroll_of \<circ> sint) (snd (snd (decode_run io n (st, e))))))) \<and>
   sim tty' (fst (decode_run io n (st, e)))"
proof (induction n arbitrary: tty st e)
  case (Suc n)
  obtain b e1 where io: "inb io 0x60 e = (b, e1)" by force
  obtain st1 cs where d: "decode (uint b) st = (st1, cs)" by (cases "decode (uint b) st")
  from one_interrupt [OF Suc.prems io] d obtain tty1 where
    "on_keyboard_interrupt io 0x21 (tty, e) = Some (Inr (tty1, e1, concat (map (scroll_of \<circ> sint) cs)))"
    "sim tty1 st1" by auto
  with Suc.IH [of tty1 st1 e1] io d show ?case by (auto simp: split_beta Let_def comp_def)
qed simp

text \<open>
  C27: from the initial state of a terminal on, whatever bytes the keyboard controller delivers and
  however many, the interrupt handler always returns: it meets no full queue, no failed
  assertion and none of the panics of \<^verbatim>\<open>cook\<close>. Between interrupts the read queue holds nothing but a
  pending prefix \<^verbatim>\<open>0xe0\<close>, the modifier flags are those of the decoder, which ignores whatever byte
  follows a prefix, and the screen is scrolled exactly as the decoded characters ask.
\<close>

theorem keyboard_path_decodes:
  assumes "length (qbuffer (read_q tty)) = 16" and "length (qbuffer (secondary tty)) = 16"
  shows "\<exists>tty'. key_run io n (tty_init tty, e) =
      Some (Inr (tty', fst (snd (decode_run io n ((False, kb_flag tty), e))),
        concat (map (scroll_of \<circ> sint) (snd (snd (decode_run io n ((False, kb_flag tty), e))))))) \<and>
    sim tty' (fst (decode_run io n ((False, kb_flag tty), e)))"
proof -
  have "sim (tty_init tty) (False, kb_flag tty)"
    using assms by (simp add: sim_def tty_init_def queue_rep_init)
  then show ?thesis by (rule key_run_sim)
qed

text \<open>A keyboard that delivers the bytes of a list: its state.\<close>

definition key_source :: "u8 list ports" where
  "key_source = \<lparr>inb = (\<lambda>p bs. case bs of [] \<Rightarrow> (0, []) | b # bs \<Rightarrow> (b, bs)),
     outb = (\<lambda>p v e. e), inw = (\<lambda>p e. (0, e)), outw = (\<lambda>p v e. e)\<rparr>"

theorem keyboard_path_decodes_witness:
  "\<exists>tty'. key_run key_source 4 (tty_init \<lparr>kb_flag = 0, read_q = \<lparr>qhead = 3, qtail = 0, qcount = 9, qbuffer = replicate 16 0\<rparr>,
       secondary = \<lparr>qhead = 0, qtail = 0, qcount = 0, qbuffer = replicate 16 0\<rparr>\<rparr>, [0x2a, 0x24, 0xe0, 0x25]) =
     Some (Inr (tty', [], [3]))"
proof -
  let ?t = "\<lparr>kb_flag = 0, read_q = \<lparr>qhead = 3, qtail = 0, qcount = 9, qbuffer = replicate 16 0\<rparr>,
       secondary = \<lparr>qhead = 0, qtail = 0, qcount = 0, qbuffer = replicate 16 (0 :: int)\<rparr>\<rparr>"
  have "decode_run key_source 4 ((False, 0), [0x2a, 0x24, 0xe0, 0x25]) = ((False, 4), [], [0x4a])"
    by code_simp
  then show ?thesis using keyboard_path_decodes [of ?t key_source 4 "[0x2a, 0x24, 0xe0, 0x25]"]
    by (auto simp: scroll_of_def)
qed

end
