(* ===== verification/Scheduler.thy ===== *)
theory Scheduler imports Descriptor begin

text \<open>
  The task table and the scheduler (\<^verbatim>\<open>kernel/proc.c\<close>): time slices counted down in
  \<^verbatim>\<open>timespan\<close>, refilled from \<^verbatim>\<open>priority\<close> when no task has any left, and a cyclic search
  that starts behind the current task. Of \<^verbatim>\<open>switch_to\<close>'s assembly the model keeps what it does
  to stack and instruction pointers.
\<close>

definition NR_TASK :: nat where "NR_TASK = 64"

text \<open>
  A task and its kernel stack share one page; \<open>kstack t k\<close> is the word \<open>k\<close> words below the end of
  that page, \<open>KERNEL_STACK_TOP - k\<close>.
\<close>

record task =
  pid :: int
  eip :: u32
  esp :: u32
  ldt0 :: desc_struct
  ldt1 :: desc_struct
  priority :: int
  timespan :: int
  filp :: "addr_t list"
  kstack :: "nat \<Rightarrow> u32"

text \<open>
  \<open>tasks\<close> maps the address of a task's page to its contents. \<open>cpu_esp\<close> and \<open>cpu_eip\<close> are the
  registers \<^verbatim>\<open>switch_to\<close> saves and loads, \<open>switch_label\<close> the address of its label \<^verbatim>\<open>1:\<close>.
\<close>

record sched_state =
  tasks :: "addr_t \<Rightarrow> task option"
  task_table :: "addr_t list"
  current_task :: addr_t
  gdt :: "nat \<Rightarrow> desc_struct"
  tss_esp0 :: u32
  ldtr :: u32
  cpu_esp :: u32
  cpu_eip :: u32
  switch_label :: u32

definition task_at :: "addr_t \<Rightarrow> sched_state \<Rightarrow> task res" where
  "task_at p s = (case tasks s p of None \<Rightarrow> Inl Bad_access | Some t \<Rightarrow> Inr t)"

definition upd_task :: "addr_t \<Rightarrow> (task \<Rightarrow> task) \<Rightarrow> sched_state \<Rightarrow> sched_state" where
  "upd_task p f s = s\<lparr>tasks := (tasks s)(p := map_option f (tasks s p))\<rparr>"

section \<open>Operations\<close>

text \<open>\<^verbatim>\<open>INIT_IDT_DESC\<close>; the LDT lies 12 bytes into the task struct, behind \<^verbatim>\<open>pid\<close>, \<^verbatim>\<open>eip\<close>, \<^verbatim>\<open>esp\<close>.\<close>

definition set_ldt_desc :: "addr_t \<Rightarrow> sched_state \<Rightarrow> sched_state res" where
  "set_ldt_desc p s =
     bindr (task_at p s) (\<lambda>t.
       let d = \<lparr>low = 0x0, high = 0x00408200\<rparr>;
           d = set_desc_base (p + 12) d;
           d = set_desc_limit (8 * 2) d
       in Inr (s\<lparr>gdt := (gdt s)(nat (5 + pid t) := d)\<rparr>))"

fun get_pid_from :: "int \<Rightarrow> addr_t list \<Rightarrow> int" where
  "get_pid_from i [] = - 1"
| "get_pid_from i (p # ps) = (if p = 0 then i else get_pid_from (i + 1) ps)"

definition get_pid :: "sched_state \<Rightarrow> int" where
  "get_pid s = get_pid_from 0 (task_table s)"

definition add_task :: "addr_t \<Rightarrow> sched_state \<Rightarrow> sched_state res" where
  "add_task p s =
     bindr (task_at p s) (\<lambda>t.
       if 0 \<le> pid t \<and> nat (pid t) < length (task_table s)
       then assertr (task_table s ! nat (pid t) = 0)
              (Inr (s\<lparr>task_table := (task_table s)[nat (pid t) := p]\<rparr>))
       else Inl Bad_access)"

text \<open>A copy of the whole page, struct and kernel stack.\<close>

definition copy_process :: "addr_t \<Rightarrow> addr_t \<Rightarrow> sched_state \<Rightarrow> sched_state res" where
  "copy_process child parent s =
     bindr (task_at parent s) (\<lambda>t. Inr (s\<lparr>tasks := (tasks s)(child \<mapsto> t)\<rparr>))"

text \<open>
  \<^verbatim>\<open>sched_init\<close>, with the address of the static \<^verbatim>\<open>init_task\<close> and the clock handler as arguments,
  the handler table and the devices beside the state.
\<close>

definition sched_init :: "'e ports \<Rightarrow> 'h \<Rightarrow> addr_t \<Rightarrow> sched_state \<times> 'h list \<times> 'e \<Rightarrow>
    (sched_state \<times> 'h list \<times> 'e) res" where
  "sched_init io clock init_task = (\<lambda>(s, table, e).
     let s = s\<lparr>task_table := replicate NR_TASK 0\<rparr>;
         s = s\<lparr>task_table := (task_table s)[0 := init_task]\<rparr>;
         s = s\<lparr>current_task := task_table s ! 0\<rparr>
     in bindr (set_ldt_desc init_task s) (\<lambda>s.
        bindr (set_irq_handler 0 clock table) (\<lambda>table.
        bindr (enable_irq io 0 e) (\<lambda>e. Inr (s, table, e)))))"

text \<open>\<^verbatim>\<open>lldt(n)\<close> loads the selector \<^verbatim>\<open>_LDT(n)\<close>.\<close>

definition LDT_selector :: "int \<Rightarrow> u32" where
  "LDT_selector n = push_bit 3 (of_int n) + push_bit 3 5"

definition switch_to_next :: "addr_t \<Rightarrow> addr_t \<Rightarrow> sched_state \<Rightarrow> sched_state res" where
  "switch_to_next prev nxt s =
     bindr (task_at nxt s) (\<lambda>t.
       let s = s\<lparr>tss_esp0 := nxt + 4096\<rparr>;
           s = s\<lparr>ldtr := LDT_selector (pid t)\<rparr>
       in Inr (s\<lparr>current_task := nxt\<rparr>))"

text \<open>
  The macro \<^verbatim>\<open>switch_to\<close> pushes flags and \<^verbatim>\<open>ebp\<close>, saves \<^verbatim>\<open>esp\<close> and the label in the old task,
  loads the new task's stack and jumps through \<^verbatim>\<open>__switch_to\<close> (above) to its \<^verbatim>\<open>eip\<close>. Its output
  \<^verbatim>\<open>"=a" (last)\<close> is left out: behind the label the resumed task stores \<^verbatim>\<open>eax\<close> in \<^verbatim>\<open>current_task\<close>, and
  what \<^verbatim>\<open>__switch_to\<close>, which returns nothing, leaves there is up to the compiler. The model takes it to be
  \<^verbatim>\<open>next\<close>, the value of the last assignment of \<^verbatim>\<open>__switch_to\<close>, so that the store changes nothing.
\<close>

definition switch_to :: "addr_t \<Rightarrow> addr_t \<Rightarrow> sched_state \<Rightarrow> sched_state res" where
  "switch_to prev nxt s =
     (if prev = nxt then Inr s
      else bindr (task_at prev s) (\<lambda>_.
           let s = upd_task prev (\<lambda>t. t\<lparr>esp := cpu_esp s - 8\<rparr>) s in
           bindr (task_at nxt s) (\<lambda>t.
           let s = s\<lparr>cpu_esp := esp t\<rparr>;
               s = upd_task prev (\<lambda>t. t\<lparr>eip := switch_label s\<rparr>) s;
               s = s\<lparr>cpu_eip := eip t\<rparr>
           in switch_to_next prev nxt s)))"

text \<open>\<^verbatim>\<open>*p_table != NULL && *p_table == current_task\<close>\<close>

fun find_current :: "addr_t \<Rightarrow> addr_t list \<Rightarrow> nat option" where
  "find_current cur [] = None"
| "find_current cur (p # ps) =
     (if p \<noteq> 0 \<and> p = cur then Some 0 else map_option Suc (find_current cur ps))"

definition next_slot :: "sched_state \<Rightarrow> nat \<Rightarrow> nat" where
  "next_slot s j = (if Suc j = length (task_table s) then 0 else Suc j)"

text \<open>
  The \<^verbatim>\<open>do ... while (*p_table != current_task)\<close> loop. A pointer in the table to no task is a bad
  access when its \<^verbatim>\<open>timespan\<close> is read.
\<close>

definition has_time :: "addr_t \<Rightarrow> sched_state \<Rightarrow> bool res" where
  "has_time p s = (if p \<noteq> 0 then bindr (task_at p s) (\<lambda>t. Inr (timespan t > 0)) else Inr False)"

partial_function (option) pick :: "sched_state \<Rightarrow> nat \<Rightarrow> nat res option" where
  "pick s j =
     (case has_time (task_table s ! j) s of
        Inl e \<Rightarrow> Some (Inl e)
      | Inr b \<Rightarrow>
          if b then Some (Inr j)
          else if task_table s ! next_slot s j \<noteq> current_task s then pick s (next_slot s j)
          else Some (Inr (next_slot s j)))"

definition reset_spans :: "sched_state \<Rightarrow> sched_state" where
  "reset_spans s = s\<lparr>tasks := (\<lambda>p. if p \<noteq> 0 \<and> p \<in> set (task_table s)
     then map_option (\<lambda>t. t\<lparr>timespan := priority t\<rparr>) (tasks s p) else tasks s p)\<rparr>"

text \<open>The picked task pays for its slice and, if it is another one, gets the processor.\<close>

definition dispatch :: "addr_t \<Rightarrow> sched_state \<Rightarrow> sched_state res" where
  "dispatch p s =
     (let s = upd_task p (\<lambda>t. t\<lparr>timespan := timespan t - 1\<rparr>) s
      in if p \<noteq> current_task s then switch_to (current_task s) p s else Inr s)"

text \<open>\<^verbatim>\<open>schedule\<close> calls itself after a refill; it returns only if some task then has time left.\<close>

partial_function (option) schedule :: "sched_state \<Rightarrow> sched_state res option" where
  "schedule s =
     (case find_current (current_task s) (task_table s) of
        None \<Rightarrow> Some (Inl Assert_failed)
      | Some i \<Rightarrow>
          Option.bind (pick s (next_slot s i)) (\<lambda>r.
            case r of Inl e \<Rightarrow> Some (Inl e)
            | Inr j \<Rightarrow>
                (let p = task_table s ! j in
                 if p = 0 then Some (Inl Assert_failed)
                 else case tasks s p of None \<Rightarrow> Some (Inl Bad_access)
                   | Some t \<Rightarrow> if timespan t > 0 then Some (dispatch p s) else schedule (reset_spans s))))"

definition on_clock_interrupt :: "int \<Rightarrow> sched_state \<Rightarrow> sched_state res" where
  "on_clock_interrupt int_nr s = bindr (case schedule s of None \<Rightarrow> Inl Hang | Some r \<Rightarrow> Inr r) (\<lambda>r. r)"

section \<open>The cyclic order\<close>

definition span :: "sched_state \<Rightarrow> addr_t \<Rightarrow> int" where
  "span s p = (case tasks s p of None \<Rightarrow> 0 | Some t \<Rightarrow> timespan t)"

definition prio :: "sched_state \<Rightarrow> addr_t \<Rightarrow> int" where
  "prio s p = (case tasks s p of None \<Rightarrow> 0 | Some t \<Rightarrow> priority t)"

definition runnable :: "sched_state \<Rightarrow> addr_t \<Rightarrow> bool" where
  "runnable s p \<longleftrightarrow> p \<noteq> 0 \<and> span s p > 0"

definition live_tasks :: "sched_state \<Rightarrow> addr_t set" where
  "live_tasks s = {p \<in> set (task_table s). p \<noteq> 0}"

text \<open>The tasks in the order the scheduler considers them, the current one last.\<close>

definition cycle :: "sched_state \<Rightarrow> addr_t list" where
  "cycle s = (case find_current (current_task s) (task_table s) of None \<Rightarrow> []
     | Some i \<Rightarrow> drop (Suc i) (task_table s) @ take (Suc i) (task_table s))"

definition sched_ok :: "sched_state \<Rightarrow> bool" where
  "sched_ok s \<longleftrightarrow> length (task_table s) = NR_TASK \<and> current_task s \<in> live_tasks s \<and>
     (\<forall>p \<in> live_tasks s. tasks s p \<noteq> None) \<and>
     (\<forall>i < NR_TASK. \<forall>j < NR_TASK. task_table s ! i = task_table s ! j \<longrightarrow> task_table s ! i \<noteq> 0 \<longrightarrow> i = j)"

lemma find_current_Some:
  "find_current cur ps = Some i \<Longrightarrow> i < length ps \<and> ps ! i = cur \<and> cur \<noteq> 0"
  by (induction ps arbitrary: i) (auto split: if_splits)

lemma find_current_ex: "cur \<in> set ps \<Longrightarrow> cur \<noteq> 0 \<Longrightarrow> \<exists>i. find_current cur ps = Some i"
  by (induction ps) auto

lemma find_drop: "find P (drop j xs) =
    (if j < length xs then if P (xs ! j) then Some (xs ! j) else find P (drop (Suc j) xs) else None)"
  by (simp flip: Cons_nth_drop_Suc)

lemma find_append: "find P (xs @ ys) = (case find P xs of Some x \<Rightarrow> Some x | None \<Rightarrow> find P ys)"
  by (induction xs) auto

lemma sched_okD:
  assumes "sched_ok s"
  obtains i where "find_current (current_task s) (task_table s) = Some i" "i < NR_TASK"
    "task_table s ! i = current_task s" "current_task s \<noteq> 0" "length (task_table s) = NR_TASK"
    "\<forall>j < NR_TASK. task_table s ! j = current_task s \<longleftrightarrow> j = i"
proof -
  from assms have len: "length (task_table s) = NR_TASK" and cur: "current_task s \<in> live_tasks s"
    by (simp_all add: sched_ok_def)
  then obtain i where i: "find_current (current_task s) (task_table s) = Some i"
    using find_current_ex [of "current_task s"] by (auto simp: live_tasks_def)
  note f = find_current_Some [OF i]
  have "task_table s ! j = current_task s \<longleftrightarrow> j = i" if "j < NR_TASK" for j
    using assms f that len unfolding sched_ok_def by metis
  with i f len show thesis by (intro that) auto
qed

lemma has_time_ok:
  assumes "sched_ok s" "j < NR_TASK"
  shows "has_time (task_table s ! j) s = Inr (runnable s (task_table s ! j))"
proof (cases "task_table s ! j = 0")
  case False
  with assms have "task_table s ! j \<in> live_tasks s" by (auto simp: live_tasks_def sched_ok_def)
  with assms(1) have "tasks s (task_table s ! j) \<noteq> None" unfolding sched_ok_def by blast
  with False show ?thesis by (auto simp: has_time_def task_at_def runnable_def span_def)
qed (simp add: has_time_def runnable_def)

text \<open>
  What the loop finds from slot \<open>j\<close> on: the first task with time left, or, behind the last slot
  before it, the current task's own slot.
\<close>

lemma pick_end:
  assumes ok: "sched_ok s" and i: "find_current (current_task s) (task_table s) = Some i" "i < NR_TASK"
    and len: "length (task_table s) = NR_TASK"
    and uniq: "\<And>j. j < NR_TASK \<Longrightarrow> task_table s ! j = current_task s \<longleftrightarrow> j = i"
    and j: "j < i"
  shows "\<exists>k < NR_TASK. pick s j = Some (Inr k) \<and>
    task_table s ! k = (case find (runnable s) (drop j (take i (task_table s))) of
      Some p \<Rightarrow> p | None \<Rightarrow> current_task s)"
  using j
proof (induction "i - j" arbitrary: j)
  case (Suc d)
  let ?xs = "take i (task_table s)"
  have nxt: "next_slot s j = Suc j" using Suc.prems i len by (simp add: next_slot_def)
  have dr: "drop j ?xs = task_table s ! j # drop (Suc j) ?xs"
    using Suc.prems i len by (subst Cons_nth_drop_Suc [symmetric]) simp_all
  show ?case
  proof (cases "runnable s (task_table s ! j)")
    case True
    then show ?thesis using Suc.prems i has_time_ok [OF ok, of j] by (intro exI [of _ j]) (simp add: pick.simps dr)
  next
    case False
    show ?thesis
    proof (cases "Suc j = i")
      case True
      then show ?thesis
        using False Suc.prems i len has_time_ok [OF ok, of j] uniq [of "Suc j"]
        by (intro exI [of _ i]) (simp add: pick.simps [of s j] dr nxt)
    next
      case False2: False
      with Suc.prems have "Suc j < i" by simp
      then have "\<exists>k < NR_TASK. pick s (Suc j) = Some (Inr k) \<and>
          task_table s ! k = (case find (runnable s) (drop (Suc j) ?xs) of Some p \<Rightarrow> p | None \<Rightarrow> current_task s)"
        using Suc.hyps by (intro Suc.hyps(1)) simp_all
      moreover have "pick s j = pick s (Suc j)"
        using False False2 Suc.prems i has_time_ok [OF ok, of j] uniq [of "Suc j"]
        by (simp add: pick.simps [of s j] nxt)
      ultimately show ?thesis using False by (simp add: dr)
    qed
  qed
qed simp

lemma pick_start:
  assumes ok: "sched_ok s" and i: "find_current (current_task s) (task_table s) = Some i" "i < NR_TASK"
    and len: "length (task_table s) = NR_TASK"
    and uniq: "\<And>j. j < NR_TASK \<Longrightarrow> task_table s ! j = current_task s \<longleftrightarrow> j = i"
    and j: "i < j" "j < NR_TASK"
  shows "\<exists>k < NR_TASK. pick s j = Some (Inr k) \<and>
    task_table s ! k = (case find (runnable s) (drop j (task_table s) @ take i (task_table s)) of
      Some p \<Rightarrow> p | None \<Rightarrow> current_task s)"
  using j
proof (induction "NR_TASK - j" arbitrary: j)
  case (Suc d)
  have dr: "drop j (task_table s) = task_table s ! j # drop (Suc j) (task_table s)"
    using Suc.prems len by (subst Cons_nth_drop_Suc [symmetric]) simp_all
  show ?case
  proof (cases "runnable s (task_table s ! j)")
    case True
    then show ?thesis using Suc.prems has_time_ok [OF ok, of j] by (intro exI [of _ j]) (simp add: pick.simps dr)
  next
    case False
    note step = has_time_ok [OF ok, of j] pick.simps [of s j]
    consider "Suc j = NR_TASK" "i = 0" | "Suc j = NR_TASK" "0 < i" | "Suc j < NR_TASK" using Suc.prems by linarith
    then show ?thesis
    proof cases
      case 1
      then show ?thesis using False Suc.prems i len step uniq [of 0]
        by (intro exI [of _ 0]) (simp add: dr next_slot_def)
    next
      case 2
      then have "pick s j = pick s 0" using False Suc.prems i len step uniq [of 0] by (simp add: next_slot_def)
      with 2 False pick_end [OF ok i len uniq 2(2)] len show ?thesis by (simp add: dr)
    next
      case 3
      then have "pick s j = pick s (Suc j)"
        using False Suc.prems i len step uniq [of "Suc j"] by (simp add: next_slot_def)
      moreover have "\<exists>k < NR_TASK. pick s (Suc j) = Some (Inr k) \<and>
          task_table s ! k = (case find (runnable s) (drop (Suc j) (task_table s) @ take i (task_table s)) of
            Some p \<Rightarrow> p | None \<Rightarrow> current_task s)"
        using 3 Suc by (intro Suc.hyps(1)) simp_all
      ultimately show ?thesis using False by (simp add: dr)
    qed
  qed
qed simp

section \<open>One call of the scheduler\<close>

lemma cycle_eq:
  assumes "find_current (current_task s) (task_table s) = Some i"
  shows "cycle s = drop (Suc i) (task_table s) @ take i (task_table s) @ [current_task s]"
  using find_current_Some [OF assms] assms by (simp add: cycle_def take_Suc_conv_app_nth)

lemma set_cycle: "sched_ok s \<Longrightarrow> set (cycle s) = set (task_table s)"
proof -
  assume "sched_ok s"
  then obtain i where "find_current (current_task s) (task_table s) = Some i" by (rule sched_okD)
  then have "set (cycle s) = set (take (Suc i) (task_table s) @ drop (Suc i) (task_table s))"
    by (simp add: cycle_def Un_commute del: append_take_drop_id)
  then show ?thesis by simp
qed

text \<open>The slot \<open>k\<close> the search ends in, and what stands there.\<close>

lemma search_result:
  assumes ok: "sched_ok s"
  obtains i k t where "find_current (current_task s) (task_table s) = Some i"
    "pick s (next_slot s i) = Some (Inr k)" "task_table s ! k \<noteq> 0" "tasks s (task_table s ! k) = Some t"
    "find (runnable s) (cycle s) = (if timespan t > 0 then Some (task_table s ! k) else None)"
proof -
  from sched_okD [OF ok] obtain i where i: "find_current (current_task s) (task_table s) = Some i" "i < NR_TASK"
      "task_table s ! i = current_task s"
    and cur: "current_task s \<noteq> 0" and len: "length (task_table s) = NR_TASK"
    and uniq: "\<forall>j < NR_TASK. task_table s ! j = current_task s \<longleftrightarrow> j = i" .
  let ?xs = "drop (Suc i) (task_table s) @ take i (task_table s)"
  have "\<exists>k < NR_TASK. pick s (next_slot s i) = Some (Inr k) \<and>
      task_table s ! k = (case find (runnable s) ?xs of Some p \<Rightarrow> p | None \<Rightarrow> current_task s)"
  proof (cases "Suc i < NR_TASK")
    case True
    with pick_start [OF ok i(1,2) len uniq [rule_format], of "Suc i"] len show ?thesis by (simp add: next_slot_def)
  next
    case False
    with i(2) have "i = NR_TASK - 1" "0 < i" by (simp_all add: NR_TASK_def)
    with pick_end [OF ok i(1,2) len uniq [rule_format], of 0] len show ?thesis by (simp add: next_slot_def)
  qed
  then obtain k where k: "k < NR_TASK" "pick s (next_slot s i) = Some (Inr k)"
    and p: "task_table s ! k = (case find (runnable s) ?xs of Some p \<Rightarrow> p | None \<Rightarrow> current_task s)" by blast
  let ?p = "task_table s ! k"
  have "?p \<noteq> 0" using cur p by (auto simp: find_Some_iff runnable_def split: option.splits)
  with k len ok have "tasks s ?p \<noteq> None" unfolding sched_ok_def live_tasks_def by auto
  then obtain t where t: "tasks s ?p = Some t" by blast
  have run: "runnable s ?p \<longleftrightarrow> timespan t > 0" using \<open>?p \<noteq> 0\<close> t by (simp add: runnable_def span_def)
  have found: "find (runnable s) (cycle s) = (if runnable s ?p then Some ?p else None)"
  proof (cases "find (runnable s) ?xs")
    case None
    with p have "?p = current_task s" by simp
    moreover have "find (runnable s) (cycle s) = find (runnable s) [current_task s]"
      using None by (simp add: cycle_eq [OF i(1)] find_append split: option.splits)
    ultimately show ?thesis by simp
  next
    case (Some q)
    with p have "?p = q" by simp
    moreover have "runnable s q" using Some by (auto simp: find_Some_iff)
    moreover have "find (runnable s) (cycle s) = Some q"
      using Some by (simp add: cycle_eq [OF i(1)] find_append split: option.splits)
    ultimately show ?thesis by simp
  qed
  show thesis
    using that [OF i(1) k(2) \<open>?p \<noteq> 0\<close> t] run found by simp
qed

lemma schedule_step:
  assumes ok: "sched_ok s"
  shows "schedule s = (case find (runnable s) (cycle s) of
    Some p \<Rightarrow> Some (dispatch p s) | None \<Rightarrow> schedule (reset_spans s))"
proof -
  from search_result [OF ok] obtain i k t where "find_current (current_task s) (task_table s) = Some i"
    "pick s (next_slot s i) = Some (Inr k)" "task_table s ! k \<noteq> 0" "tasks s (task_table s ! k) = Some t"
    "find (runnable s) (cycle s) = (if timespan t > 0 then Some (task_table s ! k) else None)" .
  then show ?thesis by (simp add: schedule.simps [of s] Let_def)
qed

lemma dispatch_result:
  assumes ok: "sched_ok s" and p: "p \<in> live_tasks s"
  obtains s' where "dispatch p s = Inr s'" "sched_ok s'" "current_task s' = p" "task_table s' = task_table s"
    "\<And>q. span s' q = (if q = p then span s q - 1 else span s q)" "\<And>q. prio s' q = prio s q"
    "p \<noteq> current_task s \<Longrightarrow> tss_esp0 s' = p + 4096"
proof -
  have cur: "current_task s \<in> live_tasks s" and ex: "\<And>q. q \<in> live_tasks s \<Longrightarrow> \<exists>t. tasks s q = Some t"
    using ok by (auto simp: sched_ok_def)
  from ex [OF cur] obtain tc where tc: "tasks s (current_task s) = Some tc" ..
  from ex [OF p] obtain tp where tp: "tasks s p = Some tp" ..
  have "\<exists>s'. dispatch p s = Inr s'"
    using tc tp by (cases "p = current_task s")
      (auto simp: dispatch_def switch_to_def switch_to_next_def upd_task_def task_at_def Let_def)
  then obtain s' where run: "dispatch p s = Inr s'" ..
  have dom: "tasks s' q = None \<longleftrightarrow> tasks s q = None" for q
    using run tc tp by (auto simp: dispatch_def switch_to_def switch_to_next_def upd_task_def task_at_def
        Let_def split: if_splits)
  have tab: "task_table s' = task_table s" "current_task s' = p"
    using run tc tp by (auto simp: dispatch_def switch_to_def switch_to_next_def upd_task_def task_at_def
        Let_def split: if_splits)
  have span: "span s' q = (if q = p then span s q - 1 else span s q)" "prio s' q = prio s q" for q
    using run tc tp by (auto simp: dispatch_def switch_to_def switch_to_next_def upd_task_def task_at_def
        span_def prio_def Let_def split: if_splits option.splits)
  have "p \<noteq> current_task s \<Longrightarrow> tss_esp0 s' = p + 4096"
    using run tc tp by (auto simp: dispatch_def switch_to_def switch_to_next_def upd_task_def task_at_def
        Let_def split: if_splits)
  moreover have "sched_ok s'"
    using ok p by (simp add: sched_ok_def live_tasks_def tab dom)
  ultimately show thesis using run tab span that by blast
qed

lemma reset_spans_span:
  "p \<in> live_tasks s \<Longrightarrow> span (reset_spans s) p = prio s p"
  by (auto simp: span_def prio_def reset_spans_def live_tasks_def split: option.splits)

lemma reset_spans_ok: "sched_ok s \<Longrightarrow> sched_ok (reset_spans s)"
  by (auto simp: sched_ok_def live_tasks_def reset_spans_def)

lemma reset_spans_rest [simp]:
  "task_table (reset_spans s) = task_table s" "current_task (reset_spans s) = current_task s"
  "prio (reset_spans s) p = prio s p" "live_tasks (reset_spans s) = live_tasks s" "cycle (reset_spans s) = cycle s"
  by (auto simp: reset_spans_def prio_def live_tasks_def cycle_def split: option.splits)

lemma find_none: "sched_ok s \<Longrightarrow> find (runnable s) (cycle s) = None \<longleftrightarrow> (\<forall>p \<in> live_tasks s. span s p \<le> 0)"
  using set_cycle [of s] by (auto simp: find_None_iff runnable_def live_tasks_def not_less)

lemma schedule_dead:
  assumes run: "schedule s = Some r"
  shows "sched_ok s \<longrightarrow> (\<exists>p \<in> live_tasks s. span s p > 0 \<or> prio s p > 0)"
proof (rule schedule.raw_induct [OF _ run], rule impI, rule ccontr)
  fix sch s r
  assume IH: "\<And>s r. sch s = Some r \<Longrightarrow> sched_ok s \<longrightarrow> (\<exists>p \<in> live_tasks s. span s p > 0 \<or> prio s p > 0)"
    and ok: "sched_ok s" and "\<not> (\<exists>p \<in> live_tasks s. span s p > 0 \<or> prio s p > 0)"
    and body: "(case find_current (current_task s) (task_table s) of
        None \<Rightarrow> Some (Inl Assert_failed)
      | Some i \<Rightarrow>
          Option.bind (pick s (next_slot s i)) (\<lambda>r.
            case r of Inl e \<Rightarrow> Some (Inl e)
            | Inr j \<Rightarrow>
                (let p = task_table s ! j in
                 if p = 0 then Some (Inl Assert_failed)
                 else case tasks s p of None \<Rightarrow> Some (Inl Bad_access)
                   | Some t \<Rightarrow> if timespan t > 0 then Some (dispatch p s) else sch (reset_spans s)))) = Some r"
  then have dead: "\<forall>p \<in> live_tasks s. span s p \<le> 0 \<and> prio s p \<le> 0" by force
  from search_result [OF ok] obtain i k t where
    st: "find_current (current_task s) (task_table s) = Some i"
      "pick s (next_slot s i) = Some (Inr k)" "task_table s ! k \<noteq> 0" "tasks s (task_table s ! k) = Some t"
    and found: "find (runnable s) (cycle s) = (if timespan t > 0 then Some (task_table s ! k) else None)" .
  from dead find_none [OF ok] found have "\<not> timespan t > 0" by (auto split: if_splits)
  with body st have "sch (reset_spans s) = Some r" by (simp add: Let_def)
  from IH [OF this] reset_spans_ok [OF ok] dead show False
    by (auto simp: reset_spans_span)
qed

text \<open>One call, when some task has time left or can be refilled.\<close>

lemma schedule_picks:
  assumes ok: "sched_ok s" and p: "find (runnable s) (cycle s) = Some p"
  shows "schedule s = Some (dispatch p s)" and "p \<in> live_tasks s" "span s p > 0"
proof -
  show "schedule s = Some (dispatch p s)" using p by (simp add: schedule_step [OF ok])
  from p have "p \<in> set (cycle s)" "runnable s p" by (auto simp: find_Some_iff in_set_conv_nth)
  then show "p \<in> live_tasks s" "span s p > 0"
    using set_cycle [OF ok] by (auto simp: live_tasks_def runnable_def)
qed

text \<open>
  C5: one call of the scheduler. Among the tasks with time left it picks the first one in cyclic
  order behind the current task, takes one unit from its \<^verbatim>\<open>timespan\<close> and no other, and makes it
  the current task with its own kernel stack in the TSS. When none has time left, every task is
  refilled from its priority and the first with a positive priority is picked; when there is no
  such task either, the call never returns.
\<close>

theorem schedule_round_robin:
  assumes ok: "sched_ok s"
  shows "(\<forall>p. find (runnable s) (cycle s) = Some p \<longrightarrow>
      (\<exists>s'. schedule s = Some (Inr s') \<and> sched_ok s' \<and> current_task s' = p \<and>
         (p \<noteq> current_task s \<longrightarrow> tss_esp0 s' = p + 4096) \<and>
         (\<forall>q. span s' q = (if q = p then span s q - 1 else span s q)))) \<and>
    (find (runnable s) (cycle s) = None \<longrightarrow>
      schedule s = (case find (\<lambda>p. p \<noteq> 0 \<and> prio s p > 0) (cycle s) of
        None \<Rightarrow> None | Some p \<Rightarrow> Some (dispatch p (reset_spans s))))"
proof (intro conjI allI impI)
  fix p assume p: "find (runnable s) (cycle s) = Some p"
  note sp = schedule_picks [OF ok p]
  from dispatch_result [OF ok sp(2)] sp(1) show "\<exists>s'. schedule s = Some (Inr s') \<and> sched_ok s' \<and>
      current_task s' = p \<and> (p \<noteq> current_task s \<longrightarrow> tss_esp0 s' = p + 4096) \<and>
      (\<forall>q. span s' q = (if q = p then span s q - 1 else span s q))" by metis
next
  assume none: "find (runnable s) (cycle s) = None"
  note ok' = reset_spans_ok [OF ok]
  have same: "find (\<lambda>p. p \<noteq> 0 \<and> prio s p > 0) (cycle s) = find (runnable (reset_spans s)) (cycle (reset_spans s))"
    using set_cycle [OF ok] by (auto simp: runnable_def reset_spans_span live_tasks_def intro!: find_cong)
  have step: "schedule s = schedule (reset_spans s)" using none by (simp add: schedule_step [OF ok])
  show "schedule s = (case find (\<lambda>p. p \<noteq> 0 \<and> prio s p > 0) (cycle s) of
      None \<Rightarrow> None | Some p \<Rightarrow> Some (dispatch p (reset_spans s)))"
  proof (cases "find (runnable (reset_spans s)) (cycle (reset_spans s))")
    case None
    then have "\<forall>p \<in> live_tasks s. prio s p \<le> 0" using find_none [OF ok'] by (simp add: reset_spans_span)
    then have "schedule (reset_spans s) = None"
      using schedule_dead [of "reset_spans s"] ok' by (cases "schedule (reset_spans s)") (auto simp: reset_spans_span)
    with None step same show ?thesis by simp
  next
    case (Some p)
    with schedule_picks(1) [OF ok' Some] step same show ?thesis by simp
  qed
qed

text \<open>Two tasks, the first of them current.\<close>

definition some_task :: "int \<Rightarrow> int \<Rightarrow> task" where
  "some_task n ts = \<lparr>pid = n, eip = 0, esp = 0, ldt0 = \<lparr>low = 0xfff, high = 0xc0fa00\<rparr>,
     ldt1 = \<lparr>low = 0xfff, high = 0xc0f200\<rparr>, priority = 10, timespan = ts,
     filp = replicate 10 0, kstack = (\<lambda>_. 0)\<rparr>"

definition two_tasks :: sched_state where
  "two_tasks = \<lparr>tasks = [0x5000 \<mapsto> some_task 0 2, 0x200000 \<mapsto> some_task 1 3],
     task_table = 0x5000 # 0x200000 # replicate 62 0, current_task = 0x5000,
     gdt = (\<lambda>_. \<lparr>low = 0, high = 0\<rparr>), tss_esp0 = 0, ldtr = 0, cpu_esp = 0, cpu_eip = 0, switch_label = 0\<rparr>"

lemma two_tasks_live: "live_tasks two_tasks = {0x5000, 0x200000}"
  by (auto simp: live_tasks_def two_tasks_def)

lemma two_tasks_ok: "sched_ok two_tasks"
proof -
  have tab: "task_table two_tasks ! i = (if i = 0 then 0x5000 else if i = 1 then 0x200000 else 0)" if "i < 64" for i
    using that by (auto simp: two_tasks_def nth_Cons split: nat.split)
  have "length (task_table two_tasks) = NR_TASK" by (simp add: two_tasks_def NR_TASK_def)
  moreover have "current_task two_tasks \<in> live_tasks two_tasks" by (simp add: two_tasks_live) (simp add: two_tasks_def)
  moreover have "tasks two_tasks p \<noteq> None" if "p \<in> live_tasks two_tasks" for p
    using that by (auto simp: two_tasks_live) (simp_all add: two_tasks_def)
  ultimately show ?thesis by (auto simp: sched_ok_def NR_TASK_def tab split: if_splits)
qed

lemma two_tasks_cycle: "cycle two_tasks = 0x200000 # replicate 62 0 @ [0x5000]"
  by (simp add: cycle_def two_tasks_def)

theorem schedule_round_robin_witness:
  "\<exists>s'. schedule two_tasks = Some (Inr s') \<and> current_task s' = 0x200000 \<and> span s' 0x200000 = 2"
proof -
  have "span two_tasks 0x200000 = 3" by (simp add: span_def two_tasks_def some_task_def)
  moreover from this have "find (runnable two_tasks) (cycle two_tasks) = Some 0x200000"
    by (simp add: two_tasks_cycle runnable_def)
  ultimately show ?thesis using schedule_round_robin [OF two_tasks_ok] by auto
qed

section \<open>An epoch of time slices\<close>

text \<open>\<open>n\<close> clock ticks in a row, with the task each of them gives the processor to.\<close>

fun run_ticks :: "nat \<Rightarrow> sched_state \<Rightarrow> (addr_t list \<times> sched_state) option" where
  "run_ticks 0 s = Some ([], s)"
| "run_ticks (Suc n) s =
     (case on_clock_interrupt 0 s of
        Inl e \<Rightarrow> None
      | Inr s \<Rightarrow> map_option (\<lambda>(ps, s'). (current_task s # ps, s')) (run_ticks n s))"

definition time_left :: "sched_state \<Rightarrow> nat" where
  "time_left s = (\<Sum>p \<in> live_tasks s. nat (span s p))"

lemma finite_live [simp]: "finite (live_tasks s)"
  by (simp add: live_tasks_def)

lemma tick:
  assumes ok: "sched_ok s" and st: "0 < time_left s"
  obtains p s' where "on_clock_interrupt 0 s = Inr s'" "current_task s' = p" "sched_ok s'" "p \<in> live_tasks s"
    "0 < span s p" "live_tasks s' = live_tasks s" "\<And>q. span s' q = (if q = p then span s q - 1 else span s q)"
    "Suc (time_left s') = time_left s"
proof -
  have "find (runnable s) (cycle s) \<noteq> None"
  proof
    assume "find (runnable s) (cycle s) = None"
    then have "\<forall>p \<in> live_tasks s. span s p \<le> 0" by (simp only: find_none [OF ok])
    then have "time_left s = 0" by (simp add: time_left_def)
    with st show False by simp
  qed
  then obtain p where p: "find (runnable s) (cycle s) = Some p" by blast
  note sp = schedule_picks [OF ok p]
  from dispatch_result [OF ok sp(2)] obtain s' where s': "dispatch p s = Inr s'" "sched_ok s'"
    "current_task s' = p" "task_table s' = task_table s"
    "\<And>q. span s' q = (if q = p then span s q - 1 else span s q)" by metis
  have live: "live_tasks s' = live_tasks s" by (simp add: live_tasks_def s'(4))
  have "time_left s = nat (span s p) + (\<Sum>q \<in> live_tasks s - {p}. nat (span s q))"
    using sp(2) by (simp add: time_left_def sum.remove)
  moreover have "time_left s' = nat (span s p - 1) + (\<Sum>q \<in> live_tasks s - {p}. nat (span s q))"
    using sp(2) by (simp add: time_left_def live sum.remove s'(5))
  ultimately have "Suc (time_left s') = time_left s" using sp(3) by simp
  with s' sp live show thesis by (intro that [of s' p]) (simp_all add: on_clock_interrupt_def)
qed

lemma run_ticks_epoch:
  "sched_ok s \<Longrightarrow> time_left s = n \<Longrightarrow> \<forall>p \<in> live_tasks s. 0 \<le> span s p \<Longrightarrow>
   \<exists>ps s'. run_ticks n s = Some (ps, s') \<and> (\<forall>p \<in> live_tasks s. int (count_list ps p) = span s p \<and> span s' p = 0)"
proof (induction n arbitrary: s)
  case 0
  then have "\<forall>p \<in> live_tasks s. span s p = 0" by (force simp: time_left_def)
  then show ?case by simp
next
  case (Suc n)
  then have "0 < time_left s" by simp
  from tick [OF Suc.prems(1) this] obtain p s1 where t: "on_clock_interrupt 0 s = Inr s1" "current_task s1 = p"
    "sched_ok s1" "p \<in> live_tasks s" "0 < span s p" "live_tasks s1 = live_tasks s"
    "\<And>q. span s1 q = (if q = p then span s q - 1 else span s q)" "Suc (time_left s1) = time_left s" by metis
  have "\<forall>q \<in> live_tasks s1. 0 \<le> span s1 q" using Suc.prems(3) t by auto
  with Suc.IH [OF t(3)] t(8) Suc.prems(2) obtain ps s' where "run_ticks n s1 = Some (ps, s')"
    "\<forall>q \<in> live_tasks s1. int (count_list ps q) = span s1 q \<and> span s' q = 0" by auto
  with t show ?case by (intro exI [of _ "p # ps"] exI [of _ s']) auto
qed

text \<open>
  C11: no task starves and none overdraws. From any state whose slices are not negative, as many
  clock ticks as there are units of time left give the processor to every task for exactly the
  number of ticks its \<^verbatim>\<open>timespan\<close> held, and then no task has time left.
\<close>

theorem epoch_is_fair:
  assumes "sched_ok s" and "\<forall>p \<in> live_tasks s. 0 \<le> span s p"
  shows "\<exists>ps s'. run_ticks (time_left s) s = Some (ps, s') \<and>
    (\<forall>p \<in> live_tasks s. int (count_list ps p) = span s p \<and> span s' p = 0)"
  using run_ticks_epoch [OF assms(1) refl assms(2)] .

theorem epoch_is_fair_witness:
  "\<exists>ps s'. run_ticks 5 two_tasks = Some (ps, s') \<and> count_list ps 0x5000 = 2 \<and> count_list ps 0x200000 = 3"
proof -
  have sp: "span two_tasks 0x5000 = 2" "span two_tasks 0x200000 = 3"
    by (simp_all add: span_def two_tasks_def some_task_def)
  then have "\<forall>p \<in> live_tasks two_tasks. 0 \<le> span two_tasks p" "time_left two_tasks = 5"
    by (simp_all add: two_tasks_live time_left_def)
  with epoch_is_fair [OF two_tasks_ok] sp show ?thesis by (auto simp: two_tasks_live)
qed

section \<open>Switching away and back\<close>

text \<open>
  A task that was switched away from goes on where it left off. Whatever ran in between, as
  long as it left the task's saved state alone, switching back loads the stack pointer the
  task had when it was suspended, below the two words pushed for it, continues at the label inside
  \<^verbatim>\<open>switch_to\<close>, and points the TSS and the LDT register at this task again.
\<close>

lemma switch_to_resumes:
  assumes "switch_to a b s = Inr s1" and "a \<noteq> b"
    and "tasks s2 a = tasks s1 a" and "switch_to c a s2 = Inr s3" and "c \<noteq> a"
  shows "cpu_esp s3 = cpu_esp s - 8 \<and> cpu_eip s3 = switch_label s \<and> current_task s3 = a \<and>
    tss_esp0 s3 = a + 4096 \<and> (\<forall>t. tasks s a = Some t \<longrightarrow> ldtr s3 = LDT_selector (pid t))"
proof -
  from assms(1,2) obtain ta tb where ta: "tasks s a = Some ta" and "tasks s b = Some tb"
    by (auto simp: switch_to_def task_at_def bindr_eq_Inr upd_task_def Let_def split: option.splits)
  with assms(1,2) have "tasks s1 a = Some (ta\<lparr>esp := cpu_esp s - 8, eip := switch_label s\<rparr>)"
    by (auto simp: switch_to_def switch_to_next_def task_at_def upd_task_def Let_def)
  with assms(3-5) ta show ?thesis
    by (auto simp: switch_to_def switch_to_next_def task_at_def upd_task_def Let_def bindr_eq_Inr
        split: option.splits)
qed

lemma switch_to_resumes_witness:
  "\<exists>s1 s3. switch_to 0x5000 0x200000 two_tasks = Inr s1 \<and> switch_to 0x200000 0x5000 s1 = Inr s3 \<and>
    cpu_esp s3 = 0xfffffff8"
proof -
  obtain s1 where s1: "switch_to 0x5000 0x200000 two_tasks = Inr s1"
    and d: "tasks s1 0x5000 \<noteq> None" "tasks s1 0x200000 \<noteq> None"
    by (auto simp: switch_to_def switch_to_next_def task_at_def upd_task_def Let_def two_tasks_def)
  then obtain s3 where s3: "switch_to 0x200000 0x5000 s1 = Inr s3"
    by (auto simp: switch_to_def switch_to_next_def task_at_def upd_task_def Let_def)
  from switch_to_resumes [OF s1 _ refl s3] have "cpu_esp s3 = cpu_esp two_tasks - 8" by simp
  then have "cpu_esp s3 = 0xfffffff8" by (simp add: two_tasks_def)
  with s1 s3 show ?thesis by blast
qed

end
