(* ===== verification/Boot.thy ===== *)
theory Boot imports Slab_System Fs_Syscall Tty Scheduler begin

text \<open>
  The start of the kernel, \<^verbatim>\<open>kernel/main.c\<close>: \<^verbatim>\<open>kmain\<close> runs the initialisation of every part on one
  state, and the test programs of the file use the allocators and the cache as clients.
\<close>

section \<open>The kernel's state\<close>

datatype irq_handler = Unknown_irq | Clock_irq | Keyboard_irq | Disk_irq

text \<open>
  The file system with the caches, pages and drive below it, the terminal, the tasks and the
  table of interrupt handlers. The devices are the state of the drive's ports.
\<close>

record 'e kernel =
  fsys :: "'e fs"
  ktty :: tty_struct
  ksched :: sched_state
  irqs :: "irq_handler list"

definition kdev :: "'e kernel \<Rightarrow> 'e" where
  "kdev s = dev_st (drive (blk (bc (fsys s))))"

definition on_bc :: "('e buf_state \<Rightarrow> 'e buf_state) \<Rightarrow> 'e kernel \<Rightarrow> 'e kernel" where
  "on_bc f s = s\<lparr>fsys := (fsys s)\<lparr>bc := f (bc (fsys s))\<rparr>\<rparr>"

definition set_kdev :: "'e \<Rightarrow> 'e kernel \<Rightarrow> 'e kernel" where
  "set_kdev e = on_bc (\<lambda>b. b\<lparr>blk := (blk b)\<lparr>drive := (drive (blk b))\<lparr>dev_st := e\<rparr>\<rparr>\<rparr>)"

definition on_sl :: "(slab_state \<Rightarrow> slab_state) \<Rightarrow> 'e kernel \<Rightarrow> 'e kernel" where
  "on_sl f s = s\<lparr>fsys := (fsys s)\<lparr>sl := f (sl (fsys s))\<rparr>\<rparr>"

section \<open>\<^verbatim>\<open>kmain\<close>\<close>

text \<open>
  \<^verbatim>\<open>kmain\<close> up to the switch to user mode; the messages and \<^verbatim>\<open>print_boot_params\<close> only print. The
  first five calls do not depend on what is on the disk.
\<close>

definition kmain_devices :: "'e ports \<Rightarrow> (addr_t \<Rightarrow> buffer_head) \<Rightarrow> 'e kernel \<Rightarrow> 'e kernel res" where
  "kmain_devices io raw s =
     bindr (mem_init 0x100000 0xffffff) (\<lambda>ps.
     let s = on_sl (\<lambda>t. t\<lparr>km := (km t)\<lparr>pages := ps\<rparr>\<rparr>) s in
     bindr (slab_op (\<lambda>t. bindr (cache_init t) (\<lambda>t. Inr ((), t))) (fsys s)) (\<lambda>(_, f).
     let s = s\<lparr>fsys := f\<rparr> in
     bindr (blk_dev_init io Disk_irq (blk (bc (fsys s)), irqs s)) (\<lambda>(b, table).
     let s = on_bc (\<lambda>c. c\<lparr>blk := b\<rparr>) (s\<lparr>irqs := table\<rparr>) in
     bindr (buffer_init raw 0x20000 0x90000 (bc (fsys s))) (\<lambda>c.
     let s = on_bc (\<lambda>_. c) s in
     bindr (io_init io Keyboard_irq (ktty s, irqs s, kdev s)) (\<lambda>(tty, table, e).
     Inr (set_kdev e (s\<lparr>ktty := tty, irqs := table\<rparr>)))))))"

definition kmain ::
  "'e ports \<Rightarrow> (addr_t \<Rightarrow> buffer_head) \<Rightarrow> addr_t \<Rightarrow> addr_t \<Rightarrow> 'e kernel \<Rightarrow> 'e kernel res" where
  "kmain io raw root_name init_task s =
     bindr (kmain_devices io raw s) (\<lambda>s.
     bindr (fs_init io root_name (fsys s)) (\<lambda>f.
     let s = s\<lparr>fsys := f\<rparr> in
     bindr (sched_init io Clock_irq init_task (ksched s, irqs s, kdev s)) (\<lambda>(t, table, e).
     Inr (set_kdev e (s\<lparr>ksched := t, irqs := table\<rparr>)))))"

section \<open>The test programs\<close>

definition mm_test :: "page_state \<Rightarrow> page_state res" where
  "mm_test s =
     bindr (alloc_page s) (\<lambda>(page, s).
     bindr (free_page page s) (\<lambda>s.
     bindr (alloc_page s) (\<lambda>(page, s).
     bindr (free_page page s) (\<lambda>s.
     bindr (alloc_pages 3 s) (\<lambda>(page, s).
     bindr (alloc_page s) (\<lambda>(page0, s).
     bindr (free_pages page 3 s) (\<lambda>s.
     bindr (free_page page0 s) (\<lambda>s.
     bindr (alloc_page s) (\<lambda>(page, s).
     free_page page s)))))))))"

text \<open>\<^verbatim>\<open>for (i = 0; i < 8; ++i) objs[i] = kmalloc(i + 1);\<close> and the loop that frees them.\<close>

fun kmalloc_all :: "u32 list \<Rightarrow> slab_state \<Rightarrow> (addr_t list \<times> slab_state) res" where
  "kmalloc_all [] s = Inr ([], s)"
| "kmalloc_all (sz # szs) s =
     bindr (kmalloc sz s) (\<lambda>(p, s). bindr (kmalloc_all szs s) (\<lambda>(ps, s). Inr (p # ps, s)))"

fun kfree_all :: "addr_t list \<Rightarrow> slab_state \<Rightarrow> slab_state res" where
  "kfree_all [] s = Inr s"
| "kfree_all (p # ps) s = bindr (kfree p s) (kfree_all ps)"

definition cache_test :: "slab_state \<Rightarrow> slab_state res" where
  "cache_test s =
     bindr (kmalloc 4 s) (\<lambda>(ip, s).
     bindr (kfree ip s) (\<lambda>s.
     bindr (kmalloc 4 s) (\<lambda>(ip, s).
     bindr (kfree ip s) (\<lambda>s.
     bindr (kmalloc_all (List.map (\<lambda>i. of_nat i + 1) [0..<8]) s) (\<lambda>(objs, s). kfree_all objs s)))))"

text \<open>\<open>hello\<close> is the address of the literal that is copied into the block.\<close>

fun buffer_test_loop :: "'e ports \<Rightarrow> addr_t \<Rightarrow> int list \<Rightarrow> 'e buf_state \<Rightarrow> 'e buf_state res" where
  "buffer_test_loop io hello [] s = Inr s"
| "buffer_test_loop io hello (i # is) s =
     bindr (bread io 3 (i mod 2) s) (\<lambda>(bh, s).
     bindr (if bh \<noteq> 0
            then bindr (buf_at bh s) (\<lambda>b.
                 bindr (strcpy (b_data b + 5) hello (bmem s)) (\<lambda>(_, m).
                 bindr (bwrite bh (upd_bmem (\<lambda>_. m) s)) (\<lambda>s.
                 bindr (brelease io bh s) (\<lambda>s.
                 bindr (buffer_stat s) (\<lambda>_. Inr s)))))
            else Inr s) (buffer_test_loop io hello is))"

definition buffer_test :: "'e ports \<Rightarrow> addr_t \<Rightarrow> 'e buf_state \<Rightarrow> 'e buf_state res" where
  "buffer_test io hello = buffer_test_loop io hello [0, 1, 2, 3]"

text \<open>
  The first user program, through the system calls it makes; \<open>path\<close> and \<open>str\<close> are the literals
  \<^verbatim>\<open>"/abc"\<close> and \<^verbatim>\<open>"hello, filesystem!"\<close> in its segment. The value is the state in which it spins.
\<close>

definition init_program :: "'e ports \<Rightarrow> addr_t \<Rightarrow> addr_t \<Rightarrow> 'e fs \<Rightarrow> 'e fs res" where
  "init_program io path str s =
     bindr (sys_open io path O_CREAT 0 s) (\<lambda>(fd, s).
     if fd \<noteq> - 1
     then bindr (sys_lseek fd 0 SEEK_END s) (\<lambda>(_, s).
          bindr (strlen (umem s) str) (\<lambda>n.
          bindr (sys_write io fd str (n + 1) s) (\<lambda>(ret, s).
          bindr (strlen (umem s) str) (\<lambda>n.
          assertr (of_int ret = n + 1)
          (bindr (sys_close io fd s) (\<lambda>(_, s). Inr s))))))
     else Inr s)"

section \<open>What the start establishes\<close>

text \<open>The static objects of the slab allocator lie below the pages it hands out.\<close>

definition statics_low :: "addr_t \<Rightarrow> addr_t \<Rightarrow> bool" where
  "statics_low cc ch \<longleftrightarrow> cc \<noteq> NULL \<and> ch \<notin> cache_fields cc \<and> (\<forall>a \<in> insert ch (cache_fields cc). a < LOW_MEM)"

lemma frame_low: "a < LOW_MEM \<Longrightarrow> frame a < LOW_MEM"
proof -
  assume "a < LOW_MEM"
  then have "unat a < 0x100000" by (simp add: LOW_MEM_def word_less_nat_alt)
  then have "unat (frame a) < 0x100000" unfolding unat_frame by linarith
  then show ?thesis by (simp add: LOW_MEM_def word_less_nat_alt)
qed

lemma statics_boot: "statics_low cc ch \<Longrightarrow> pages_ok (pages k) \<Longrightarrow> boot_ok cc ch k"
  using frame_low low_not_free by (auto simp: statics_low_def boot_ok_def)

lemma enable_irq_ok: "0 \<le> n \<Longrightarrow> n < 16 \<Longrightarrow> \<exists>e'. enable_irq io n e = Inr e'"
  by (auto simp: enable_irq_def Let_def split: prod.splits)

text \<open>A kernel as it is loaded: the initial values of the static variables.\<close>

definition loaded_kernel :: "addr_t \<Rightarrow> addr_t \<Rightarrow> 'e kernel \<Rightarrow> bool" where
  "loaded_kernel cc ch s \<longleftrightarrow> (\<exists>k. sl (fsys s) = static_caches cc ch k) \<and> length (irqs s) = 16 \<and>
     length (qbuffer (read_q (ktty s))) = 16 \<and> length (qbuffer (secondary (ktty s))) = 16"

text \<open>The state behind the first five calls of \<^verbatim>\<open>kmain\<close>.\<close>

definition devices_up :: "addr_t \<Rightarrow> 'e kernel \<Rightarrow> bool" where
  "devices_up cc s \<longleftrightarrow>
     caches_ok (insert cc (set (generic_cachep (sl (fsys s))))) (sl (fsys s)) \<and>
     generics_in (insert cc (set (generic_cachep (sl (fsys s))))) (sl (fsys s)) \<and>
     3834 \<le> mem_stat (pages (km (sl (fsys s)))) \<and>
     (\<forall>r \<in> set (request (blk (bc (fsys s)))). rq_dev r = - 1) \<and>
     NR_BUFFERS (bc (fsys s)) = 424 \<and>
     (\<exists>fs. buf_rep (bc (fsys s)) [] fs \<and> length fs = 424 \<and> (\<forall>p \<in> set fs. p < LOW_MEM \<and> b_data (the (bufs (bc (fsys s)) p)) < LOW_MEM)) \<and>
     queue_rep (read_q (ktty s)) [] \<and> queue_rep (secondary (ktty s)) [] \<and> length (irqs s) = 16 \<and>
     irqs s ! 1 = Keyboard_irq \<and> irqs s ! 14 = Disk_irq"

lemma buffers_boot:
  fixes s :: "'e buf_state"
  obtains s' where "buffer_init raw 0x20000 0x90000 s = Inr s'" "NR_BUFFERS s' = 424" "blk s' = blk s"
    "\<exists>fs. buf_rep s' [] fs \<and> length fs = 424 \<and> (\<forall>p \<in> set fs. p < LOW_MEM \<and> b_data (the (bufs s' p)) < LOW_MEM)"
proof -
  from buffer_init_lists [of "0x20000" "0x90000" 424 raw s] obtain s' where
    s': "buffer_init raw 0x20000 0x90000 s = Inr s'" "NR_BUFFERS s' = 424" "blk s' = blk s"
      "buf_rep s' [] (rev (map (head_addr 0x20000) [0..<424]))"
    and b: "\<forall>k < 424. bufs s' (head_addr 0x20000 k)
      = Some ((raw (head_addr 0x20000 k))\<lparr>b_uptodate := 0, b_data := block_addr 0x90000 k\<rparr>)"
    by auto
  have small: "unat (head_addr 0x20000 k) = 0x20000 + 56 * k \<and> unat (block_addr 0x90000 k) = 0x90000 - 1024 * (k + 1)"
    if "k < 424" for k
    using addr_small [of "0x20000" "0x90000" k] that by simp
  have "p < LOW_MEM \<and> b_data (the (bufs s' p)) < LOW_MEM" if p: "p \<in> set (rev (map (head_addr 0x20000) [0..<424]))" for p
  proof -
    from p obtain k where k: "k < 424" "p = head_addr 0x20000 k" by auto
    then show ?thesis using small [OF k(1)] b by (simp add: word_less_nat_alt LOW_MEM_def)
  qed
  with s' show thesis
    by (intro that [of s'] exI [of _ "rev (map (head_addr 0x20000) [0..<424])"] conjI) simp_all
qed

text \<open>The drive answers its identification, whatever memory holds.\<close>

definition drive_answers :: "'e ports \<Rightarrow> 'e kernel \<Rightarrow> bool" where
  "drive_answers io s \<longleftrightarrow>
     (\<forall>m. \<exists>r. hd_init io Disk_irq ((drive (blk (bc (fsys s))))\<lparr>dmem := m\<rparr>, irqs s) = Inr r)"

lemma slabs_boot:
  assumes "statics_low cc ch" "sl f = static_caches cc ch k0" "km (sl f) = k" "pages k = ps" "mem_init 0x100000 0xffffff = Inr ps"
  obtains t f' where "slab_op (\<lambda>t. bindr (cache_init t) (\<lambda>t. Inr ((), t))) f = Inr ((), f')" "sl f' = t"
    "caches_ok (insert cc (set (generic_cachep t))) t" "generics_in (insert cc (set (generic_cachep t))) t"
    "3834 \<le> mem_stat (pages (km t))" "\<exists>m. bc f' = upd_bmem (\<lambda>_. m) (bc f)"
proof -
  have ps: "ps = \<lparr>HIGH_MEMORY = 0xffffff, mem_map = replicate NR_PAGES 0\<rparr>" using assms(5) by (simp add: mem_init_boot)
  let ?k = "k\<lparr>ram := bmem (bc f)\<rparr>"
  have start: "(sl f)\<lparr>km := (km (sl f))\<lparr>ram := bmem (bc f)\<rparr>\<rparr> = static_caches cc ch ?k"
    using assms(2,3) by (simp add: static_caches_def)
  have "pages_ok (pages ?k)" using assms(4) ps by (simp add: pages_ok_high)
  then have ok: "boot_ok cc ch ?k" by (rule statics_boot [OF assms(1)])
  have stat: "mem_stat (pages ?k) = 3840" using assms(4) ps by (simp add: mem_stat_def NR_PAGES_eq)
  obtain t where t: "cache_init (static_caches cc ch ?k) = Inr t" "mem_stat (pages ?k) \<le> mem_stat (pages (km t)) + 6"
    using cache_init_total [OF ok] stat by auto
  note c = cache_init_ok [OF ok t(1)]
  show thesis
    using c stat t(2) by (intro that [of _ t]) (auto simp: slab_op_def start t(1))
qed

lemma bc_on_sl: "bc (fsys (on_sl f s)) = bc (fsys s)" "irqs (on_sl f s) = irqs s" "ktty (on_sl f s) = ktty s"
  by (simp_all add: on_sl_def)

lemma hd_init_table:
  "hd_init io h (d, table) = Inr (d', table') \<Longrightarrow> length table = 16 \<Longrightarrow> table' = table[14 := h]"
  by (auto simp: hd_init_def set_irq_handler_def res_Inr)

lemma io_init_up:
  assumes "length table = 16" "length (qbuffer (read_q tty)) = 16" "length (qbuffer (secondary tty)) = 16"
  obtains tty' e' where "io_init io h (tty, table, e) = Inr (tty', table[1 := h], e')"
    "queue_rep (read_q tty') []" "queue_rep (secondary tty') []"
  using assms enable_irq_ok [of 1 io e] queue_rep_init [of "read_q tty"] queue_rep_init [of "secondary tty"]
  by (auto simp: io_init_def set_irq_handler_def tty_init_def Let_def)

lemma blk_init_up:
  assumes "\<forall>m. \<exists>r. hd_init io Disk_irq ((drive (blk b))\<lparr>dmem := m\<rparr>, table) = Inr r" "length table = 16"
  obtains k where "blk_dev_init io Disk_irq (blk (upd_bmem (\<lambda>_. m) b), table) = Inr (k, table[14 := Disk_irq])"
    "\<forall>r \<in> set (request k). rq_dev r = - 1"
proof -
  from assms(1) obtain d table' where hd: "hd_init io Disk_irq ((drive (blk b))\<lparr>dmem := m\<rparr>, table) = Inr (d, table')"
    by (metis surj_pair)
  from hd_init_table [OF this assms(2)] have "table' = table[14 := Disk_irq]" .
  with hd show thesis by (intro that) (auto simp: blk_dev_init_def upd_bmem_def)
qed

lemma kmain_devices_up:
  assumes "statics_low cc ch" "loaded_kernel cc ch s" "drive_answers io s"
  shows "\<exists>s'. kmain_devices io raw s = Inr s' \<and> devices_up cc s' \<and> ksched s' = ksched s"
proof -
  obtain k where k: "sl (fsys s) = static_caches cc ch k" and len: "length (irqs s) = 16"
      "length (qbuffer (read_q (ktty s))) = 16" "length (qbuffer (secondary (ktty s))) = 16"
    using assms(2) by (auto simp: loaded_kernel_def)
  obtain ps where ps: "mem_init 0x100000 0xffffff = Inr ps" using mem_init_boot by blast
  define s1 where "s1 = on_sl (\<lambda>t. t\<lparr>km := (km t)\<lparr>pages := ps\<rparr>\<rparr>) s"
  have s1: "bc (fsys s1) = bc (fsys s)" "irqs s1 = irqs s" "ktty s1 = ktty s" by (simp_all add: s1_def bc_on_sl)
  have sl1: "sl (fsys s1) = static_caches cc ch (k\<lparr>pages := ps\<rparr>)" using k by (simp add: s1_def on_sl_def static_caches_def)
  then have "pages (km (sl (fsys s1))) = ps" by (simp add: static_caches_def)
  from slabs_boot [OF assms(1) sl1 refl this ps] obtain f' m where
    f: "slab_op (\<lambda>t. bindr (cache_init t) (\<lambda>t. Inr ((), t))) (fsys s1) = Inr ((), f')"
    "caches_ok (insert cc (set (generic_cachep (sl f')))) (sl f')" "generics_in (insert cc (set (generic_cachep (sl f')))) (sl f')"
    "3834 \<le> mem_stat (pages (km (sl f')))" and bc: "bc f' = upd_bmem (\<lambda>_. m) (bc (fsys s1))" by metis
  from blk_init_up [OF assms(3) [unfolded drive_answers_def] len(1), of m] obtain b where
    b: "blk_dev_init io Disk_irq (blk (bc f'), irqs s1) = Inr (b, (irqs s)[14 := Disk_irq])" "\<forall>r \<in> set (request b). rq_dev r = - 1"
    unfolding bc s1 by metis
  define c where "c = (bc f')\<lparr>blk := b\<rparr>"
  from buffers_boot [of raw c] obtain c' where c': "buffer_init raw 0x20000 0x90000 c = Inr c'" "NR_BUFFERS c' = 424"
    "blk c' = blk c"
    "\<exists>fs. buf_rep c' [] fs \<and> length fs = 424 \<and> (\<forall>p \<in> set fs. p < LOW_MEM \<and> b_data (the (bufs c' p)) < LOW_MEM)" .
  have "length ((irqs s)[14 := Disk_irq]) = 16" using len by simp
  from io_init_up [OF this len(2,3)] obtain tty' e' where
    tty: "io_init io Keyboard_irq (ktty s, (irqs s)[14 := Disk_irq], dev_st (drive (blk c'))) =
      Inr (tty', (irqs s)[14 := Disk_irq, 1 := Keyboard_irq], e')"
    "queue_rep (read_q tty') []" "queue_rep (secondary tty') []" by metis
  define s' where "s' = set_kdev e' (s1\<lparr>fsys := f'\<lparr>bc := c'\<rparr>, ktty := tty', irqs := (irqs s)[14 := Disk_irq, 1 := Keyboard_irq]\<rparr>)"
  have "kmain_devices io raw s = Inr s'"
    using f(1) b(1) c'(1) tty(1) s1(2,3)
    by (simp add: kmain_devices_def ps s'_def on_bc_def kdev_def flip: s1_def c_def)
  moreover have "devices_up cc s'"
  proof -
    have cong: "buf_rep (c'\<lparr>blk := x\<rparr>) [] fs = buf_rep c' [] fs" for x fs
      by (simp add: buf_rep_def uses_def block_key_def)
    show ?thesis
      using f(2-4) b(2) c'(2-4) tty(2,3) len(1)
      by (auto simp: devices_up_def s'_def set_kdev_def on_bc_def cong c_def)
  qed
  moreover have "ksched s' = ksched s" by (simp add: s'_def set_kdev_def on_bc_def s1_def on_sl_def)
  ultimately show ?thesis by blast
qed

lemma sched_init_up:
  assumes "tasks s init_task = Some t" "length table = 16"
  obtains s' e' where "sched_init io h init_task (s, table, e) = Inr (s', table[0 := h], e')"
    "current_task s' = init_task" "task_table s' = init_task # replicate 63 0"
proof -
  have tab: "(replicate NR_TASK 0)[0 := init_task] = init_task # replicate 63 0"
    by (simp add: NR_TASK_def numeral_eq_Suc)
  obtain e' where "enable_irq io 0 e = Inr e'" using enable_irq_ok [of 0 io e] by auto
  then have "\<exists>g. sched_init io h init_task (s, table, e) =
      Inr (s\<lparr>task_table := init_task # replicate 63 0, current_task := init_task, gdt := g\<rparr>, table[0 := h], e')"
    using assms by (cases table) (auto simp: sched_init_def set_ldt_desc_def task_at_def set_irq_handler_def tab Let_def)
  then show thesis by (auto intro!: that)
qed

section \<open>The tests leave the allocators as they were\<close>

lemma first_run_ex:
  assumes "run_at mm i n"
  obtains j where "first_run mm n = Some j" "run_at mm j n" "j \<le> i"
proof -
  have "first_run mm n = Some (LEAST i. run_at mm i n)" using assms by (auto simp: first_run_def)
  moreover have "(LEAST i. run_at mm i n) \<le> i" using assms by (rule Least_le)
  ultimately show thesis using that first_run_Some by blast
qed

lemma alloc_run:
  assumes "pages_ok s" "order < 32" "run_at (mem_map s) i (2 ^ order)"
  obtains j where "alloc_pages order s = Inr (page_addr j, s\<lparr>mem_map := set_run j (2 ^ order) 1 (mem_map s)\<rparr>)"
    "run_at (mem_map s) j (2 ^ order)" "j \<le> i"
proof -
  obtain j where "first_run (mem_map s) (2 ^ order) = Some j" "run_at (mem_map s) j (2 ^ order)" "j \<le> i"
    using first_run_ex [OF assms(3)] .
  then show thesis using assms by (intro that [of j]) (simp_all add: alloc_pages_eq)
qed

lemma free_run:
  assumes "run_at mm j (2 ^ order)" "order < 32" "j + 2 ^ order < NR_PAGES" "mem_map s = set_run j (2 ^ order) 1 mm"
  shows "free_pages (page_addr j) order s = Inr (s\<lparr>mem_map := mm\<rparr>)"
  using assms by (simp add: free_pages_eq release_set_run)

lemma run_part: "run_at mm i n \<Longrightarrow> k + n' \<le> n \<Longrightarrow> run_at mm (i + k) n'"
  by (auto simp: run_at_def add.assoc)

lemma run_beside:
  assumes "run_at mm a m" "run_at (set_run a m 1 mm) b 1"
  shows "run_at mm b 1" "b < a \<or> a + m \<le> b"
    "set_run b 1 1 (set_run a m 1 mm) = set_run a m 1 (set_run b 1 1 mm)" "run_at (set_run b 1 1 mm) a m"
proof -
  show b: "run_at mm b 1" "b < a \<or> a + m \<le> b" using assms by (auto simp: run_at_def split: if_splits)
  show "set_run b 1 1 (set_run a m 1 mm) = set_run a m 1 (set_run b 1 1 mm)"
    by (rule nth_equalityI) auto
  show "run_at (set_run b 1 1 mm) a m" using assms(1) b(2) by (auto simp: run_at_def)
qed

lemma mm_test_same:
  assumes ok: "pages_ok s" and run: "run_at (mem_map s) i 9" "i + 9 < NR_PAGES"
  shows "mm_test s = Inr s"
proof -
  let ?mm = "mem_map s"
  have one: "run_at ?mm i (2 ^ 0)" using run_part [OF run(1), of 0 1] by simp
  obtain a where a: "alloc_page s = Inr (page_addr a, s\<lparr>mem_map := set_run a 1 1 ?mm\<rparr>)" "run_at ?mm a 1" "a \<le> i"
    using alloc_run [OF ok _ one] by (auto simp: alloc_page_def)
  have fa: "free_page (page_addr a) (s\<lparr>mem_map := set_run a 1 1 ?mm\<rparr>) = Inr s"
    using free_run [of ?mm a 0] a run(2) by (simp add: free_page_def)
  have eight: "run_at ?mm i (2 ^ 3)" using run_part [OF run(1), of 0 8] by simp
  let ?s3 = "\<lambda>b. s\<lparr>mem_map := set_run b 8 1 ?mm\<rparr>"
  obtain b where b: "alloc_pages 3 s = Inr (page_addr b, ?s3 b)" "run_at ?mm b 8" "b \<le> i"
    using alloc_run [OF ok _ eight] by auto
  have "run_at (set_run b 8 1 ?mm) (i + 8) 1"
    using run_part [OF run(1), of 8 1] b(3) by (auto simp: run_at_def)
  then have nx: "run_at (mem_map (?s3 b)) (i + 8) (2 ^ 0)" by simp
  have ok3: "pages_ok (?s3 b)" using ok by (rule pages_ok_set_run)
  obtain c where c: "alloc_page (?s3 b) = Inr (page_addr c, s\<lparr>mem_map := set_run c 1 1 (set_run b 8 1 ?mm)\<rparr>)"
    "run_at (set_run b 8 1 ?mm) c 1" "c \<le> i + 8"
    using alloc_run [OF ok3 _ nx] by (auto simp: alloc_page_def)
  note bc = run_beside [OF b(2) c(2)]
  have fb: "free_pages (page_addr b) 3 (s\<lparr>mem_map := set_run c 1 1 (set_run b 8 1 ?mm)\<rparr>) = Inr (s\<lparr>mem_map := set_run c 1 1 ?mm\<rparr>)"
    using free_run [of "set_run c 1 1 ?mm" b 3] bc(3,4) b(3) run(2) by simp
  have fc: "free_page (page_addr c) (s\<lparr>mem_map := set_run c 1 1 ?mm\<rparr>) = Inr s"
    using free_run [of ?mm c 0] bc(1) c(3) run(2) by (simp add: free_page_def)
  show ?thesis unfolding mm_test_def by (simp only: a(1) fa b(1) c(1) fb fc bindr_simps prod.case)
qed

text \<open>Objects taken one after the other and given back in the same order.\<close>

definition same_live :: "addr_t set \<Rightarrow> slab_state \<Rightarrow> slab_state \<Rightarrow> bool" where
  "same_live C s s' \<longleftrightarrow> (\<forall>q \<in> C. \<forall>x. live q s' x = live q s x)"

definition caches_run :: "addr_t set \<Rightarrow> slab_state \<Rightarrow> slab_state \<Rightarrow> bool" where
  "caches_run C s s' \<longleftrightarrow> caches_ok C s' \<and> generics_in C s' \<and> generic_cachep s' = generic_cachep s \<and>
     cache_cache s' = cache_cache s"

lemma kmalloc_one:
  assumes ok: "caches_ok C s" "generics_in C s" and sz: "0 < sz" "sz \<le> 128" and m: "0 < mem_stat (pages (km s))"
  obtains p s' where "kmalloc sz s = Inr (p, s')" "caches_run C s s'"
    "\<not> live (generic_cachep s ! size_class sz) s p"
    "\<And>q x. q \<in> C \<Longrightarrow> live q s' x \<longleftrightarrow> live q s x \<or> q = generic_cachep s ! size_class sz \<and> x = p"
    "mem_stat (pages (km s)) \<le> Suc (mem_stat (pages (km s')))"
proof -
  note cp = generics_class [OF ok(2) sz]
  obtain p s' where al: "kmem_cache_alloc (generic_cachep s ! size_class sz) s = Inr (p, s')"
    using alloc_with_memory [OF generics_pool [OF ok size_class_fits(1) [OF sz]] m] .
  note a = caches_alloc [OF ok(1) cp(1) al] generics_pool [OF ok size_class_fits(1) [OF sz]]
  have "generics_in C s'" using a generics_keep [OF ok(2)] by blast
  with a al show thesis
    using kmalloc_alloc [OF ok sz] by (intro that [of p s']) (auto simp: caches_run_def)
qed

lemma free_allocated:
  assumes ok: "caches_ok C s" "generics_in C s" and cp: "i < 6" "cp = generic_cachep s ! i" and p: "live cp s p"
  obtains s' where "kfree p s = Inr s'" "caches_run C s s'" "km s' = km s"
    "\<And>q x. q \<in> C \<Longrightarrow> live q s' x \<longleftrightarrow> live q s x \<and> \<not> (q = cp \<and> x = p)"
proof -
  have c: "cp \<in> C" "pool_ok cp s" "cp \<noteq> cache_cache s"
    using generics_member [OF ok(2) cp(1)] generics_pool [OF ok cp(1)] cp(2) by simp_all
  from caches_kfree [OF ok c p] that show thesis unfolding caches_run_def by metis
qed

text \<open>\<open>G\<close> are the objects a client holds, each with its cache; what else is live is \<open>base\<close>.\<close>

definition holding :: "addr_t set \<Rightarrow> slab_state \<Rightarrow> slab_state \<Rightarrow> (addr_t \<times> addr_t) list \<Rightarrow> bool" where
  "holding C base s G \<longleftrightarrow> distinct G \<and> (\<forall>(cp, p) \<in> set G. (\<exists>i < 6. cp = generic_cachep s ! i) \<and> \<not> live cp base p) \<and>
     (\<forall>q \<in> C. \<forall>x. live q s x \<longleftrightarrow> live q base x \<or> (q, x) \<in> set G)"

lemma kfree_all_back:
  "caches_ok C s \<Longrightarrow> generics_in C s \<Longrightarrow> holding C base s G \<Longrightarrow>
   \<exists>s'. kfree_all (List.map snd G) s = Inr s' \<and> caches_run C s s' \<and> same_live C base s' \<and> km s' = km s"
proof (induction G arbitrary: s)
  case Nil
  then show ?case by (intro exI [of _ s]) (simp add: holding_def same_live_def caches_run_def)
next
  case (Cons g G)
  obtain cp p where g: "g = (cp, p)" by (cases g)
  obtain i where i: "i < 6" "cp = generic_cachep s ! i" using Cons.prems(3) by (auto simp: holding_def g)
  then have "cp \<in> C" using generics_member [OF Cons.prems(2)] by simp
  then have "live cp s p" using Cons.prems(3) by (auto simp: holding_def g)
  note cp = i this
  obtain s1 where s1: "kfree p s = Inr s1" "caches_run C s s1" "km s1 = km s"
    "\<And>q x. q \<in> C \<Longrightarrow> live q s1 x \<longleftrightarrow> live q s x \<and> \<not> (q = cp \<and> x = p)"
    using free_allocated [OF Cons.prems(1,2) cp] by metis
  have "holding C base s1 G"
    using Cons.prems(3) s1(2,4) unfolding holding_def g caches_run_def by auto
  with s1(2) obtain s' where "kfree_all (List.map snd G) s1 = Inr s'" "caches_run C s1 s'" "same_live C base s'" "km s' = km s1"
    using Cons.IH [of s1] by (auto simp: caches_run_def)
  with s1 show ?case by (intro exI [of _ s']) (simp add: g caches_run_def)
qed

lemma kmalloc_all_holding:
  "caches_ok C s \<Longrightarrow> generics_in C s \<Longrightarrow> holding C base s G \<Longrightarrow> \<forall>sz \<in> set szs. 0 < sz \<and> sz \<le> 128 \<Longrightarrow>
   length szs \<le> mem_stat (pages (km s)) \<Longrightarrow>
   \<exists>H s'. kmalloc_all szs s = Inr (List.map snd H, s') \<and> caches_run C s s' \<and> holding C base s' (G @ H)"
proof (induction szs arbitrary: s G)
  case Nil
  then show ?case by (intro exI [of _ "[]"] exI [of _ s]) (simp add: caches_run_def)
next
  case (Cons sz szs)
  then have sz: "0 < sz" "sz \<le> 128" and m: "0 < mem_stat (pages (km s))" by auto
  let ?cp = "generic_cachep s ! size_class sz"
  note cp = generics_class [OF Cons.prems(2) sz]
  obtain p s1 where s1: "kmalloc sz s = Inr (p, s1)" "caches_run C s s1" "\<not> live ?cp s p"
    "\<And>q x. q \<in> C \<Longrightarrow> live q s1 x \<longleftrightarrow> live q s x \<or> q = ?cp \<and> x = p"
    "mem_stat (pages (km s)) \<le> Suc (mem_stat (pages (km s1)))"
    using kmalloc_one [OF Cons.prems(1,2) sz m] by metis
  have "holding C base s1 (G @ [(?cp, p)])"
    using Cons.prems(3) s1(2-4) cp size_class_fits(1) [OF sz] unfolding holding_def caches_run_def by auto
  moreover have "length szs \<le> mem_stat (pages (km s1))" using s1(5) Cons.prems(5) by simp
  ultimately obtain H s' where "kmalloc_all szs s1 = Inr (List.map snd H, s')" "caches_run C s1 s'"
    "holding C base s' ((G @ [(?cp, p)]) @ H)"
    using Cons.IH [of s1 "G @ [(?cp, p)]"] s1(2) Cons.prems(4) by (auto simp: caches_run_def)
  with s1(1,2) show ?case
    by (intro exI [of _ "(?cp, p) # H"] exI [of _ s']) (simp add: caches_run_def)
qed

lemma malloc_free_list:
  assumes ok: "caches_ok C s" "generics_in C s" and szs: "\<forall>sz \<in> set szs. 0 < sz \<and> sz \<le> 128"
    and m: "length szs \<le> mem_stat (pages (km s))"
  obtains ps s1 s2 where "kmalloc_all szs s = Inr (ps, s1)" "kfree_all ps s1 = Inr s2" "caches_run C s s2" "same_live C s s2"
    "km s2 = km s1"
proof -
  have "holding C s s []" by (simp add: holding_def)
  from kmalloc_all_holding [OF ok this szs m] obtain H s1 where
    a: "kmalloc_all szs s = Inr (List.map snd H, s1)" "caches_run C s s1" "holding C s s1 H" by auto
  from kfree_all_back [OF _ _ a(3)] a(2) obtain s2 where
    "kfree_all (List.map snd H) s1 = Inr s2" "caches_run C s1 s2" "same_live C s s2" "km s2 = km s1"
    by (auto simp: caches_run_def)
  with a show thesis by (intro that [of "List.map snd H" s1 s2]) (auto simp: caches_run_def)
qed


lemma malloc_free:
  assumes ok: "caches_ok C s" "generics_in C s" and sz: "0 < sz" "sz \<le> 128" and m: "0 < mem_stat (pages (km s))"
  obtains p s1 s2 where "kmalloc sz s = Inr (p, s1)" "kfree p s1 = Inr s2" "caches_run C s s2" "same_live C s s2"
    "mem_stat (pages (km s)) \<le> Suc (mem_stat (pages (km s2)))"
proof -
  let ?cp = "generic_cachep s ! size_class sz"
  note cp = generics_class [OF ok(2) sz]
  obtain p s1 where s1: "kmalloc sz s = Inr (p, s1)" "caches_run C s s1" "\<not> live ?cp s p"
    "\<And>q x. q \<in> C \<Longrightarrow> live q s1 x \<longleftrightarrow> live q s x \<or> q = ?cp \<and> x = p"
    "mem_stat (pages (km s)) \<le> Suc (mem_stat (pages (km s1)))"
    using kmalloc_one [OF ok sz m] by metis
  have "live ?cp s1 p" using s1(4) cp(1) by simp
  with s1(2) obtain s2 where "kfree p s1 = Inr s2" "caches_run C s1 s2" "km s2 = km s1"
    "\<And>q x. q \<in> C \<Longrightarrow> live q s2 x \<longleftrightarrow> live q s1 x \<and> \<not> (q = ?cp \<and> x = p)"
    using free_allocated [of C s1 "size_class sz" ?cp p] size_class_fits(1) [OF sz] unfolding caches_run_def by metis
  with s1 show thesis by (intro that [of p s1 s2]) (auto simp: caches_run_def same_live_def)
qed

lemma cache_test_same:
  assumes ok: "caches_ok C s" "generics_in C s" and m: "10 \<le> mem_stat (pages (km s))"
  obtains s' where "cache_test s = Inr s'" "caches_run C s s'" "same_live C s s'"
proof -
  obtain p s1 s2 where a: "kmalloc 4 s = Inr (p, s1)" "kfree p s1 = Inr s2" "caches_run C s s2" "same_live C s s2"
    "mem_stat (pages (km s)) \<le> Suc (mem_stat (pages (km s2)))"
    using malloc_free [OF ok, of 4] m by auto
  then have ok2: "caches_ok C s2" "generics_in C s2" by (simp_all add: caches_run_def)
  obtain q s3 s4 where b: "kmalloc 4 s2 = Inr (q, s3)" "kfree q s3 = Inr s4" "caches_run C s2 s4" "same_live C s2 s4"
    "mem_stat (pages (km s2)) \<le> Suc (mem_stat (pages (km s4)))"
    using malloc_free [OF ok2, of 4] m a(5) by auto
  then have ok4: "caches_ok C s4" "generics_in C s4" by (simp_all add: caches_run_def)
  let ?szs = "List.map (\<lambda>i. of_nat i + 1) [0..<8] :: u32 list"
  have "\<forall>sz \<in> set ?szs. 0 < sz \<and> sz \<le> 128" by (simp add: upt_conv_Cons)
  moreover have "length ?szs \<le> mem_stat (pages (km s4))" using m a(5) b(5) by simp
  ultimately obtain ps s5 s6 where c: "kmalloc_all ?szs s4 = Inr (ps, s5)" "kfree_all ps s5 = Inr s6" "caches_run C s4 s6"
    "same_live C s4 s6"
    using malloc_free_list [OF ok4] by metis
  have "cache_test s = Inr s6" unfolding cache_test_def by (simp only: a(1,2) b(1,2) c(1,2) bindr_simps prod.case)
  with a b c show thesis by (intro that [of s6]) (auto simp: caches_run_def same_live_def)
qed

section \<open>Properties\<close>

text \<open>
  C23: on a kernel as it is loaded, with a drive that answers its identification, \<^verbatim>\<open>kmain\<close> reaches
  \<^verbatim>\<open>fs_init\<close>: the caches are in order with the six generic ones among them and at least 3834 of the 3840
  pages free, every request slot is empty, all 424 buffers are free and lie below the pages, and
  the terminal queues are empty. From there \<^verbatim>\<open>kmain\<close> returns exactly when \<^verbatim>\<open>fs_init\<close> does, with the
  clock, keyboard and disk interrupts on their handlers and the first task alone and current.
\<close>

theorem kmain_brings_up:
  assumes "statics_low cc ch" and "loaded_kernel cc ch s" and "drive_answers io s"
    and "tasks (ksched s) init_task = Some t"
  shows "\<exists>s'. kmain_devices io raw s = Inr s' \<and> devices_up cc s' \<and>
    (case fs_init io root_name (fsys s') of
       Inl h \<Rightarrow> kmain io raw root_name init_task s = Inl h
     | Inr f \<Rightarrow> \<exists>s''. kmain io raw root_name init_task s = Inr s'' \<and> sl (fsys s'') = sl f \<and>
         current_task (ksched s'') = init_task \<and> task_table (ksched s'') = init_task # replicate 63 0 \<and>
         irqs s'' ! 0 = Clock_irq \<and> irqs s'' ! 1 = Keyboard_irq \<and> irqs s'' ! 14 = Disk_irq)"
proof -
  from kmain_devices_up [OF assms(1-3)] obtain s' where
    s': "kmain_devices io raw s = Inr s'" "devices_up cc s'" "ksched s' = ksched s" by blast
  have irq: "length (irqs s') = 16" "irqs s' ! 1 = Keyboard_irq" "irqs s' ! 14 = Disk_irq"
    using s'(2) by (simp_all add: devices_up_def)
  have "\<exists>s''. kmain io raw root_name init_task s = Inr s'' \<and> sl (fsys s'') = sl f \<and>
      current_task (ksched s'') = init_task \<and> task_table (ksched s'') = init_task # replicate 63 0 \<and>
      irqs s'' ! 0 = Clock_irq \<and> irqs s'' ! 1 = Keyboard_irq \<and> irqs s'' ! 14 = Disk_irq"
    if f: "fs_init io root_name (fsys s') = Inr f" for f
  proof -
    let ?s = "s'\<lparr>fsys := f\<rparr>"
    obtain u e where u: "sched_init io Clock_irq init_task (ksched s, irqs s', kdev ?s) = Inr (u, (irqs s')[0 := Clock_irq], e)"
      "current_task u = init_task" "task_table u = init_task # replicate 63 0"
      using sched_init_up [OF assms(4) irq(1)] by metis
    then have "kmain io raw root_name init_task s = Inr (set_kdev e (?s\<lparr>ksched := u, irqs := (irqs s')[0 := Clock_irq]\<rparr>))"
      using s'(1,3) f by (simp add: kmain_def)
    then show ?thesis using u(2,3) irq by (simp add: set_kdev_def on_bc_def)
  qed
  with s' show ?thesis by (auto simp: kmain_def split: sum.splits)
qed

text \<open>A loaded kernel with zeroed variables, and the drive that answers nothing.\<close>

definition zero_kernel :: "(u16 \<times> u8) list kernel" where
  "zero_kernel = \<lparr>fsys = \<lparr>bc = \<lparr>blk = boot_blk, bufs = \<lambda>_. None,
       cached = \<lparr>hfirst = \<lambda>_. None, hnext = \<lambda>_. None, hpprev = \<lambda>_. First_of ()\<rparr>,
       bfree = \<lparr>lnext = \<lambda>_. None, lprev = \<lambda>_. None\<rparr>, NR_BUFFERS = 0\<rparr>,
       sl = static_caches 0x5000 0x5100 bare_kmem,
       super = \<lparr>s_magic = 0, s_imap_start = 0, s_imap_count = 0, s_zmap_start = 0, s_zmap_count = 0,
         s_itable_start = 0, s_itable_count = 0, s_data_start = 0, s_dev = 0\<rparr>, super_at = 0x500,
       inodes = \<lambda>_. zero_inode, dentries = \<lambda>_. zero_dentry, dnames = \<lambda>_. [], files = \<lambda>_. zero_file,
       ilk = \<lparr>lnext = \<lambda>_. 0, lprev = \<lambda>_. 0\<rparr>, root_inode = 0x1000, root_dentry = 0x2000,
       inode_list = 0x3000, dentry_list = 0x3008, inode_cache = 0, dname_cache = 0, dentry_cache = 0,
       file_cache = 0, filps = replicate 10 0, umem = \<lambda>_. 0\<rparr>,
     ktty = \<lparr>kb_flag = 0, read_q = \<lparr>qhead = 0, qtail = 0, qcount = 0, qbuffer = replicate 16 0\<rparr>,
       secondary = \<lparr>qhead = 0, qtail = 0, qcount = 0, qbuffer = replicate 16 0\<rparr>\<rparr>,
     ksched = \<lparr>tasks = [0x7000 \<mapsto> \<lparr>pid = 0, eip = 0, esp = 0, ldt0 = \<lparr>low = 0, high = 0\<rparr>, ldt1 = \<lparr>low = 0, high = 0\<rparr>,
         priority = 5, timespan = 5, filp = replicate 10 0, kstack = \<lambda>_. 0\<rparr>],
       task_table = replicate 64 0, current_task = 0, gdt = \<lambda>_. \<lparr>low = 0, high = 0\<rparr>, tss_esp0 = 0, ldtr = 0,
       cpu_esp = 0, cpu_eip = 0, switch_label = 0\<rparr>,
     irqs = replicate 16 Unknown_irq\<rparr>"

lemma idle_answers: "length table = 16 \<Longrightarrow> \<exists>r. hd_init idle_drive h (d, table) = Inr r"
proof -
  assume t: "length table = 16"
  have inb: "inb idle_drive p e = (0, e)" for p e by (simp add: idle_drive_def)
  have id: "dev_nr \<le> 1 \<Longrightarrow> \<exists>d'. hd_identity idle_drive dev_nr d = Inr d'" for dev_nr and d :: "(u16 \<times> u8) list hd_state"
    by (simp add: hd_identity_def inb Let_def)
  have irq: "0 \<le> i \<Longrightarrow> i < 16 \<Longrightarrow> enable_irq idle_drive i e = Inr e" for i e
    by (simp add: enable_irq_def inb Let_def)
  obtain d0 where d0: "hd_identity idle_drive 0 d = Inr d0" using id [of 0 d] by auto
  obtain d1 where "hd_identity idle_drive 1 d0 = Inr d1" using id [of 1 d0] by auto
  with t d0 show ?thesis by (simp add: hd_init_def set_irq_handler_def irq)
qed

theorem kmain_brings_up_witness:
  "\<exists>s'. kmain_devices idle_drive (\<lambda>_. \<lparr>b_dev = 0, b_blocknr = 0, b_uptodate = 0, b_data = 0, b_dirty = 0, b_count = 0\<rparr>)
      zero_kernel = Inr s' \<and> devices_up 0x5000 s'"
proof -
  have low: "statics_low 0x5000 0x5100"
    by (simp add: statics_low_def cache_fields_def heads_def cache_next_def slabs_partial_def slabs_full_def
      slabs_free_def LOW_MEM_def)
  have loaded: "loaded_kernel 0x5000 0x5100 zero_kernel" by (auto simp: loaded_kernel_def zero_kernel_def)
  have drive: "drive_answers idle_drive zero_kernel"
    unfolding drive_answers_def by (intro allI idle_answers) (simp add: zero_kernel_def)
  have task: "\<exists>t. tasks (ksched zero_kernel) 0x7000 = Some t" by (simp add: zero_kernel_def)
  then obtain t where "tasks (ksched zero_kernel) 0x7000 = Some t" ..
  from kmain_brings_up [OF low loaded drive this] show ?thesis by blast
qed

text \<open>
  The tests of the allocators leave them as they found them. \<^verbatim>\<open>mm_test\<close> returns the page table
  unchanged when a run of nine free pages ends before the last page, and \<^verbatim>\<open>cache_test\<close> returns with
  the caches in order and exactly the objects live in each that were live before, given ten free
  pages; no assertion or panic of either stops the machine.
\<close>

lemma self_tests_pass:
  assumes "pages_ok ps" and "run_at (mem_map ps) i 9" and "i + 9 < NR_PAGES"
    and "caches_ok C s" and "generics_in C s" and "10 \<le> mem_stat (pages (km s))"
  shows "mm_test ps = Inr ps \<and>
    (\<exists>s'. cache_test s = Inr s' \<and> caches_ok C s' \<and> generics_in C s' \<and> (\<forall>q \<in> C. {x. live q s' x} = {x. live q s x}))"
proof
  show "mm_test ps = Inr ps" using assms(1-3) by (rule mm_test_same)
  obtain s' where "cache_test s = Inr s'" "caches_run C s s'" "same_live C s s'"
    using cache_test_same [OF assms(4-6)] .
  then show "\<exists>s'. cache_test s = Inr s' \<and> caches_ok C s' \<and> generics_in C s' \<and> (\<forall>q \<in> C. {x. live q s' x} = {x. live q s x})"
    by (auto simp: caches_run_def same_live_def)
qed

lemma self_tests_pass_witness:
  "\<exists>ps s s'. mem_init 0x100000 0xffffff = Inr ps \<and> mm_test ps = Inr ps \<and>
    cache_init (static_caches 0x5000 0x5100 bare_kmem) = Inr s \<and> cache_test s = Inr s'"
proof -
  let ?ps = "\<lparr>HIGH_MEMORY = 0xffffff, mem_map = replicate NR_PAGES 0\<rparr>"
  obtain s where s: "cache_init (static_caches 0x5000 0x5100 bare_kmem) = Inr s"
    "mem_stat (pages bare_kmem) \<le> mem_stat (pages (km s)) + 6"
    by (rule cache_init_total [OF boot_5000]) (simp add: bare_memory)
  note ok = cache_init_ok(2,3) [OF boot_5000 s(1)]
  have "run_at (mem_map ?ps) 0 9" by (simp add: run_at_def NR_PAGES_eq)
  moreover have "10 \<le> mem_stat (pages (km s))" using s(2) by (simp add: bare_memory)
  ultimately have "mm_test ?ps = Inr ?ps \<and> (\<exists>s'. cache_test s = Inr s')"
    using self_tests_pass [OF _ _ _ ok, of ?ps 0] by (auto simp: pages_ok_high NR_PAGES_eq)
  with s(1) mem_init_boot show ?thesis by blast
qed


end
