(* ===== verification/Fork.thy ===== *)
theory Fork imports Scheduler Paging begin

text \<open>
  Creating a process (\<^verbatim>\<open>do_fork\<close> in \<^verbatim>\<open>kernel/syscall_impl.c\<close>): the first free slot of the task
  table, a copy of the parent's page, an address space of 64 MB per process number, the shared
  first 4 MB, and the two return values, stored in the saved \<^verbatim>\<open>eax\<close> of each kernel stack
  (\<^verbatim>\<open>include/entry.h\<close>). The stub in \<^verbatim>\<open>entry.asm\<close> that runs after \<^verbatim>\<open>do_fork\<close> is in \<open>Gate\<close>.
\<close>

record kernel =
  sched :: sched_state
  vm :: kmem

text \<open>\<^verbatim>\<open>SET_TASK_RETVAL\<close>: the word 6 below the top of the kernel stack.\<close>

definition SET_TASK_RETVAL :: "addr_t \<Rightarrow> int \<Rightarrow> sched_state \<Rightarrow> sched_state" where
  "SET_TASK_RETVAL p v = upd_task p (\<lambda>t. t\<lparr>kstack := (kstack t)(6 := of_int v)\<rparr>)"

definition FORK_STACK :: "addr_t \<Rightarrow> u32" where
  "FORK_STACK p = p + 4096 - 4 * 15"

definition MB64 :: "32 word" where "MB64 = 0x4000000"

text \<open>
  \<^verbatim>\<open>do_fork\<close> up to its call of \<^verbatim>\<open>schedule\<close>; \<open>False\<close> is the early return when no slot is free.
  \<open>ret_from_fork\<close> is the address of the assembly label.
\<close>

definition fork_child :: "u32 \<Rightarrow> kernel \<Rightarrow> (bool \<times> kernel) res" where
  "fork_child ret_from_fork k =
     (let child_pid = get_pid (sched k); cur = current_task (sched k) in
      if child_pid < 0
      then Inr (False, k\<lparr>sched := SET_TASK_RETVAL cur (- 1) (sched k)\<rparr>)
      else
        bindr (take_page (vm k)) (\<lambda>(child, v).
        bindr (copy_process child cur (sched k)) (\<lambda>s.
        let s = upd_task child (\<lambda>t. t\<lparr>pid := child_pid\<rparr>) s;
            base = of_int child_pid * MB64;
            s = upd_task child (\<lambda>t. t\<lparr>ldt0 := set_desc_base base (ldt0 t)\<rparr>) s;
            s = upd_task child (\<lambda>t. t\<lparr>ldt1 := set_desc_base base (ldt1 t)\<rparr>) s in
        bindr (set_ldt_desc child s) (\<lambda>s.
        bindr (task_at cur s) (\<lambda>parent.
        bindr (share_vma (of_int (pid parent) * MB64) base (640 * 1024) v) (\<lambda>v.
        let s = upd_task child (\<lambda>t. t\<lparr>eip := ret_from_fork\<rparr>) s;
            s = upd_task child (\<lambda>t. t\<lparr>esp := FORK_STACK child\<rparr>) s;
            s = SET_TASK_RETVAL cur child_pid s;
            s = SET_TASK_RETVAL child 0 s in
        bindr (add_task child s) (\<lambda>s. Inr (True, k\<lparr>sched := s, vm := v\<rparr>))))))))"

definition do_fork :: "u32 \<Rightarrow> kernel \<Rightarrow> kernel res" where
  "do_fork ret_from_fork k =
     bindr (fork_child ret_from_fork k) (\<lambda>(forked, k).
       if forked
       then bindr (case schedule (sched k) of None \<Rightarrow> Inl Hang | Some r \<Rightarrow> r) (\<lambda>s. Inr (k\<lparr>sched := s\<rparr>))
       else Inr k)"

section \<open>Properties\<close>

lemma get_pid_from_spec:
  "get_pid_from i ps = (if 0 \<in> set ps then i + int (LEAST k. k < length ps \<and> ps ! k = 0) else - 1)"
proof (induction ps arbitrary: i)
  case (Cons p ps)
  show ?case
  proof (cases "p = 0")
    case True
    then have "(LEAST k. k < length (p # ps) \<and> (p # ps) ! k = 0) = 0" by (intro Least_equality) auto
    with True show ?thesis by simp
  next
    case False
    show ?thesis
    proof (cases "0 \<in> set ps")
      case True
      then obtain k where "k < length ps" "ps ! k = 0" by (auto simp: in_set_conv_nth)
      then have "(LEAST k. k < length (p # ps) \<and> (p # ps) ! k = 0) =
          Suc (LEAST k. Suc k < length (p # ps) \<and> (p # ps) ! Suc k = 0)"
        using False by (intro Least_Suc [where n = "Suc k"]) auto
      with Cons.IH [of "i + 1"] False True show ?thesis by simp
    qed (use Cons.IH [of "i + 1"] False in auto)
  qed
qed simp

text \<open>A process that may fork: its address space starts at \<open>64 MB * pid\<close> and is mapped.\<close>

definition can_fork :: "kernel \<Rightarrow> bool" where
  "can_fork k \<longleftrightarrow> sched_ok (sched k) \<and> vm_ok (vm k) \<and>
     (\<forall>p \<in> live_tasks (sched k). not_free (pages (vm k)) p) \<and>
     (\<exists>t. tasks (sched k) (current_task (sched k)) = Some t \<and> 0 \<le> pid t \<and> pid t < 64 \<and>
        task_table (sched k) ! nat (pid t) \<noteq> 0 \<and>
        present (pde (ram (vm k)) (nat (pid t) * 16)))"

lemma region:
  assumes "m < 64"
  shows "unat (of_int (int m) * MB64) = m * 2 ^ 26" "(of_int (int m) * MB64) AND 0x3fffff = 0"
    "pdx (of_int (int m) * MB64) = 16 * m"
proof -
  have eq: "of_int (int m) * MB64 = push_bit 26 (of_nat m)" by (simp add: MB64_def push_bit_eq_mult)
  show u: "unat (of_int (int m) * MB64) = m * 2 ^ 26"
    using assms by (simp add: MB64_def unat_word_ariths unat_of_nat)
  have "(0x3fffff :: u32) = mask 22" by (simp add: mask_eq_exp_minus_1)
  then show "(of_int (int m) * MB64) AND 0x3fffff = 0"
    unfolding eq by (auto simp: bit_eq_iff bit_simps)
  show "pdx (of_int (int m) * MB64) = 16 * m"
    unfolding pdx_def drop_bit_eq_div unat_div u by simp
qed

lemma region_apart:
  assumes "m < 64" "n < 64" "m \<noteq> n"
  shows "if of_int (int m) * MB64 > of_int (int n) * MB64
    then of_int (int m) * MB64 - of_int (int n) * MB64 \<ge> 640 * 1024
    else of_int (int n) * MB64 - of_int (int m) * MB64 \<ge> 640 * 1024"
proof -
  have "m < n \<or> n < m" using assms(3) by linarith
  then have "m * 2 ^ 26 + 2 ^ 26 \<le> n * 2 ^ 26 \<or> n * 2 ^ 26 + 2 ^ 26 \<le> m * (2 ^ 26 :: nat)" by auto
  then show ?thesis
    using region(1) [OF assms(1)] region(1) [OF assms(2)]
    by (auto simp: word_less_nat_alt word_le_nat_alt unat_sub_if')
qed

text \<open>What \<^verbatim>\<open>fork\<close> makes of the parent's page: the child's.\<close>

definition child_of :: "u32 \<Rightarrow> addr_t \<Rightarrow> nat \<Rightarrow> task \<Rightarrow> task" where
  "child_of ret p n t = t\<lparr>pid := int n,
     ldt0 := set_desc_base (of_int (int n) * MB64) (ldt0 t), ldt1 := set_desc_base (of_int (int n) * MB64) (ldt1 t),
     eip := ret, esp := FORK_STACK p, kstack := (kstack t)(6 := 0)\<rparr>"

lemma get_pid_free:
  assumes "0 \<in> set (task_table s)" "length (task_table s) = NR_TASK"
  obtains n where "get_pid s = int n" "n < NR_TASK" "task_table s ! n = 0" "\<forall>k < n. task_table s ! k \<noteq> 0"
proof -
  let ?P = "\<lambda>k. k < length (task_table s) \<and> task_table s ! k = 0"
  define n where "n = (LEAST k. ?P k)"
  obtain k where "?P k" using assms(1) by (auto simp: in_set_conv_nth)
  then have n: "?P n" unfolding n_def by (rule LeastI)
  have "get_pid s = int n" using assms(1) by (simp add: get_pid_def get_pid_from_spec n_def)
  moreover have "task_table s ! k \<noteq> 0" if "k < n" for k
    using not_less_Least [of k ?P] that n unfolding n_def [symmetric] by auto
  ultimately show thesis using that [of n] n assms(2) by simp
qed

lemma sched_ok_add:
  assumes ok: "sched_ok s" and n: "n < NR_TASK" "task_table s ! n = 0" and p: "p \<noteq> 0" "p \<notin> live_tasks s"
    and s': "task_table s' = (task_table s)[n := p]" "current_task s' = current_task s"
      "tasks s' p \<noteq> None" "\<And>q. q \<in> live_tasks s \<Longrightarrow> tasks s' q \<noteq> None"
  shows "sched_ok s'" "live_tasks s' = insert p (live_tasks s)"
proof -
  have len: "length (task_table s) = NR_TASK" using ok by (simp add: sched_ok_def)
  have nth: "task_table s' ! i = (if i = n then p else task_table s ! i)" if "i < NR_TASK" for i
    using that n len by (simp add: s'(1) nth_list_update)
  have mem: "q \<in> live_tasks s' \<longleftrightarrow> (\<exists>i < NR_TASK. q = task_table s' ! i \<and> q \<noteq> 0)" for q
    using len by (auto simp: live_tasks_def in_set_conv_nth s'(1))
  have mem0: "q \<in> live_tasks s \<longleftrightarrow> (\<exists>i < NR_TASK. q = task_table s ! i \<and> q \<noteq> 0)" for q
    using len by (auto simp: live_tasks_def in_set_conv_nth)
  show live: "live_tasks s' = insert p (live_tasks s)"
  proof (intro set_eqI iffI)
    fix q assume "q \<in> live_tasks s'"
    then show "q \<in> insert p (live_tasks s)" unfolding mem insert_iff mem0 using nth by (metis (full_types))
  next
    fix q assume "q \<in> insert p (live_tasks s)"
    then show "q \<in> live_tasks s'" unfolding mem insert_iff mem0 using nth n p by (metis (full_types))
  qed
  have "task_table s ! i \<noteq> p" if "i < NR_TASK" for i using p that mem0 by metis
  then have "i = j" if "i < NR_TASK" "j < NR_TASK" "task_table s' ! i = task_table s' ! j" "task_table s' ! i \<noteq> 0" for i j
    using that ok nth unfolding sched_ok_def by (metis (full_types))
  then show "sched_ok s'"
    using ok live s' len unfolding sched_ok_def by auto
qed

text \<open>A page taken and nothing else done keeps the tables in order.\<close>

lemma take_page_vm_ok:
  assumes "vm_ok v" "fresh_page (pages v) ps' p"
  shows "vm_ok (v\<lparr>pages := ps'\<rparr>)"
  using assms fresh_page_ok [OF _ assms(2)] fresh_page_not_free [OF _ assms(2)] by (simp add: vm_ok_def)

text \<open>The scheduler's side of a fork, with the page of the child and the address space given.\<close>

lemma fork_child_eq:
  assumes take: "take_page (vm k) = Inr (p, v1)" and n: "get_pid (sched k) = int n" "n < length (task_table (sched k))"
      "task_table (sched k) ! n = 0"
    and t: "tasks (sched k) (current_task (sched k)) = Some t" and p: "p \<noteq> current_task (sched k)"
    and share: "share_vma (of_int (pid t) * MB64) (of_int (int n) * MB64) (640 * 1024) v1 = Inr v2"
  obtains s' where "fork_child ret k = Inr (True, k\<lparr>sched := s', vm := v2\<rparr>)"
    "tasks s' = (tasks (sched k))(p \<mapsto> child_of ret p n t,
       current_task (sched k) \<mapsto> t\<lparr>kstack := (kstack t)(6 := of_nat n)\<rparr>)"
    "task_table s' = (task_table (sched k))[n := p]" "current_task s' = current_task (sched k)"
    "gdt s' = (gdt (sched k))(5 + n := set_desc_limit 16 (set_desc_base (p + 12) \<lparr>low = 0, high = 0x408200\<rparr>))"
    "tss_esp0 s' = tss_esp0 (sched k)" "switch_label s' = switch_label (sched k)"
proof -
  let ?s = "(sched k)
    \<lparr>gdt := (gdt (sched k))(5 + n := set_desc_limit 16 (set_desc_base (p + 12) \<lparr>low = 0, high = 0x408200\<rparr>)),
     tasks := (tasks (sched k))(p \<mapsto> child_of ret p n t,
       current_task (sched k) \<mapsto> t\<lparr>kstack := (kstack t)(6 := of_nat n)\<rparr>),
     task_table := (task_table (sched k))[n := p]\<rparr>"
  have "nat (5 + int n) = 5 + n" by simp
  then have "fork_child ret k = Inr (True, k\<lparr>sched := ?s, vm := v2\<rparr>)"
    using p t n share
    by (simp add: fork_child_def take copy_process_def task_at_def Let_def upd_task_def set_ldt_desc_def
        SET_TASK_RETVAL_def add_task_def child_of_def fun_upd_twist)
  then show thesis by (rule that) simp_all
qed

text \<open>
  C6: \<^verbatim>\<open>fork\<close>. With no slot free it only stores -1 as the caller's return value. Otherwise, with two
  pages to spare and the child's region of the address space unused, it succeeds: the child takes
  the lowest free slot \<open>n\<close>; its page, fresh, is a copy of the parent's except for its number, its
  entry point and stack, its two segments, moved to \<open>64 MB * n\<close>, and the 0 it will return; the
  parent is unchanged but for the return value \<open>n\<close>; the child's first 4 MB are the parent's without
  the write bits and every other mapping stays; the GDT slot of the child describes its LDT.
\<close>

theorem fork_makes_child:
  assumes can: "can_fork k" and pg: "2 \<le> mem_stat (pages (vm k))"
    and t: "tasks (sched k) (current_task (sched k)) = Some t"
    and unused: "\<And>n. get_pid (sched k) = int n \<Longrightarrow> pde (ram (vm k)) (16 * n) = 0"
  shows "(0 \<notin> set (task_table (sched k)) \<longrightarrow>
      fork_child ret k = Inr (False, k\<lparr>sched := SET_TASK_RETVAL (current_task (sched k)) (- 1) (sched k)\<rparr>)) \<and>
    (0 \<in> set (task_table (sched k)) \<longrightarrow> (\<exists>n p s' v'. fork_child ret k = Inr (True, k\<lparr>sched := s', vm := v'\<rparr>) \<and>
      n < NR_TASK \<and> task_table (sched k) ! n = 0 \<and> (\<forall>i < n. task_table (sched k) ! i \<noteq> 0) \<and>
      task_table s' = (task_table (sched k))[n := p] \<and> sched_ok s' \<and> vm_ok v' \<and> \<not> not_free (pages (vm k)) p \<and>
      tasks s' = (tasks (sched k))(p \<mapsto> child_of ret p n t,
         current_task (sched k) \<mapsto> t\<lparr>kstack := (kstack t)(6 := of_nat n)\<rparr>) \<and>
      desc_base (gdt s' (5 + n)) = p + 12 \<and> desc_limit (gdt s' (5 + n)) = 16 \<and>
      (\<forall>i < 1024. walk (ram v') (16 * n) i = map_option (shared_entry i) (walk (ram (vm k)) (16 * nat (pid t)) i)) \<and>
      (\<forall>v. pdx v \<noteq> 16 * n \<longrightarrow> page_entry (ram v') v = page_entry (ram (vm k)) v)))"
proof (intro conjI impI)
  let ?s = "sched k" let ?cur = "current_task (sched k)"
  have ok: "sched_ok ?s" "vm_ok (vm k)" "\<And>p. p \<in> live_tasks ?s \<Longrightarrow> not_free (pages (vm k)) p"
    using can by (simp_all add: can_fork_def)
  have len: "length (task_table ?s) = NR_TASK" and cur: "?cur \<in> live_tasks ?s" using ok(1) by (simp_all add: sched_ok_def)
  from can t obtain m where m: "pid t = int m" "m < 64" "task_table ?s ! m \<noteq> 0" "present (pde (ram (vm k)) (16 * m))"
    by (auto simp: can_fork_def mult.commute dest: zero_le_imp_eq_int)
  show "fork_child ret k = Inr (False, k\<lparr>sched := SET_TASK_RETVAL ?cur (- 1) ?s\<rparr>)" if "0 \<notin> set (task_table ?s)"
    using that by (simp add: fork_child_def get_pid_def get_pid_from_spec)
  assume "0 \<in> set (task_table ?s)"
  from get_pid_free [OF this len] obtain n where n: "get_pid ?s = int n" "n < NR_TASK" "task_table ?s ! n = 0"
    "\<forall>i < n. task_table ?s ! i \<noteq> 0" .
  have n64: "n < 64" "m \<noteq> n" using n m by (auto simp: NR_TASK_def)
  have pok: "pages_ok (pages (vm k))" and "0 < mem_stat (pages (vm k))" using ok(2) pg by (simp_all add: vm_ok_def)
  from take_page_fresh [OF this] obtain p ps' where
    take: "take_page (vm k) = Inr (p, (vm k)\<lparr>pages := ps'\<rparr>)" and fresh: "fresh_page (pages (vm k)) ps' p" .
  let ?v = "(vm k)\<lparr>pages := ps'\<rparr>"
  note r = region [OF m(2)] region [OF n64(1)]
  have "\<exists>v2. share_vma (of_int (int m) * MB64) (of_int (int n) * MB64) (640 * 1024) ?v = Inr v2 \<and> vm_ok v2 \<and>
      (\<forall>i < 1024. walk (ram v2) (pdx (of_int (int n) * MB64)) i =
        map_option (shared_entry i) (walk (ram ?v) (pdx (of_int (int m) * MB64)) i)) \<and>
      (\<forall>v. pdx v \<noteq> pdx (of_int (int n) * MB64) \<longrightarrow> page_entry (ram v2) v = page_entry (ram ?v) v)"
  proof (rule share_vma_effect [OF take_page_vm_ok [OF ok(2) fresh]])
    show "0 < mem_stat (pages ?v)" using fresh_page_stat [OF pok fresh] pg by simp
  qed (use r m unused [OF n(1)] region_apart [OF m(2) n64] in simp_all)
  then obtain v2 where share: "share_vma (of_int (pid t) * MB64) (of_int (int n) * MB64) (640 * 1024) ?v = Inr v2"
    and v2: "vm_ok v2"
      "\<forall>i < 1024. walk (ram v2) (16 * n) i = map_option (shared_entry i) (walk (ram (vm k)) (16 * m) i)"
      "\<forall>v. pdx v \<noteq> 16 * n \<longrightarrow> page_entry (ram v2) v = page_entry (ram (vm k)) v"
    unfolding r m(1) by auto
  have notlive: "p \<notin> live_tasks ?s" using ok(3) fresh_page_was_free [OF fresh] by blast
  then have "p \<noteq> ?cur" using cur by blast
  from fork_child_eq [OF take n(1) _ n(3) t this share] n(2) len obtain s' where
    run: "fork_child ret k = Inr (True, k\<lparr>sched := s', vm := v2\<rparr>)"
    and s': "tasks s' = (tasks ?s)(p \<mapsto> child_of ret p n t, ?cur \<mapsto> t\<lparr>kstack := (kstack t)(6 := of_nat n)\<rparr>)"
      "task_table s' = (task_table ?s)[n := p]" "current_task s' = ?cur"
      "gdt s' = (gdt ?s)(5 + n := set_desc_limit 16 (set_desc_base (p + 12) \<lparr>low = 0, high = 0x408200\<rparr>))"
    by metis
  have "sched_ok s'"
    using ok(1) fresh_page_nonzero [OF fresh] notlive
    by (intro sched_ok_add(1) [OF ok(1) n(2,3) _ _ s'(2,3)]) (auto simp: s'(1) sched_ok_def)
  moreover have "desc_base (gdt s' (5 + n)) = p + 12" "desc_limit (gdt s' (5 + n)) = 16"
    by (simp_all add: s'(4) set_desc_limit_fields set_desc_base_fields)
  ultimately show "\<exists>n p s' v'. fork_child ret k = Inr (True, k\<lparr>sched := s', vm := v'\<rparr>) \<and>
      n < NR_TASK \<and> task_table ?s ! n = 0 \<and> (\<forall>i < n. task_table ?s ! i \<noteq> 0) \<and>
      task_table s' = (task_table ?s)[n := p] \<and> sched_ok s' \<and> vm_ok v' \<and> \<not> not_free (pages (vm k)) p \<and>
      tasks s' = (tasks ?s)(p \<mapsto> child_of ret p n t, ?cur \<mapsto> t\<lparr>kstack := (kstack t)(6 := of_nat n)\<rparr>) \<and>
      desc_base (gdt s' (5 + n)) = p + 12 \<and> desc_limit (gdt s' (5 + n)) = 16 \<and>
      (\<forall>i < 1024. walk (ram v') (16 * n) i = map_option (shared_entry i) (walk (ram (vm k)) (16 * nat (pid t)) i)) \<and>
      (\<forall>v. pdx v \<noteq> 16 * n \<longrightarrow> page_entry (ram v') v = page_entry (ram (vm k)) v)"
    using run n s'(1,2) v2 fresh_page_was_free [OF fresh] m(1)
    by (intro exI [of _ n] exI [of _ p] exI [of _ s'] exI [of _ v2]) simp
qed

text \<open>The initial task alone, on the machine that maps its own low page.\<close>

definition first_kernel :: kernel where
  "first_kernel = \<lparr>sched = two_tasks\<lparr>task_table := 0x5000 # replicate 63 0\<rparr>, vm = low_kmem\<rparr>"

lemma first_kernel_can_fork: "can_fork first_kernel"
proof -
  let ?s = "sched first_kernel"
  have tab: "task_table ?s = 0x5000 # replicate 63 0" by (simp add: first_kernel_def)
  have live: "live_tasks ?s = {0x5000}" by (auto simp: live_tasks_def tab)
  have cur: "current_task ?s = 0x5000" "tasks ?s 0x5000 = Some (some_task 0 2)"
    by (simp_all add: first_kernel_def two_tasks_def)
  have nth: "task_table ?s ! i = (if i = 0 then 0x5000 else 0)" if "i < 64" for i
    using that by (auto simp: tab nth_Cons split: nat.split)
  have "length (task_table ?s) = 64" by (simp add: tab)
  then have "sched_ok ?s"
    using cur live by (auto simp: sched_ok_def NR_TASK_def nth split: if_splits)
  moreover have "not_free (pages low_kmem) 0x5000"
  proof -
    have "0x5000 \<noteq> page_addr i" if "i < NR_PAGES" for i
      using page_addr_ge [of i] that by (auto simp: LOW_MEM_def)
    then show ?thesis by (simp add: not_free_def)
  qed
  moreover have "present (pde (ram low_kmem) 0)" by (simp add: low_kmem_pde) (simp add: present_def)
  ultimately show ?thesis
    using low_kmem_ok(1) cur live nth [of 0]
    by (simp add: can_fork_def some_task_def) (simp add: first_kernel_def)
qed

theorem fork_makes_child_witness:
  "\<exists>p s' v'. fork_child 0x1234 first_kernel = Inr (True, first_kernel\<lparr>sched := s', vm := v'\<rparr>) \<and>
    task_table s' ! 1 = p \<and> tasks s' p = Some (child_of 0x1234 p 1 (some_task 0 2))"
proof -
  let ?k = first_kernel
  have t: "tasks (sched ?k) (current_task (sched ?k)) = Some (some_task 0 2)"
    and tab: "task_table (sched ?k) = 0x5000 # 0 # replicate 62 0"
    using replicate_Suc [of 62 "0 :: addr_t"] by (simp_all add: first_kernel_def two_tasks_def)
  have pid: "get_pid (sched ?k) = 1" by (simp add: get_pid_def tab)
  have st: "2 \<le> mem_stat (pages (vm ?k))" using bare_kmem_ok(2) by (simp add: first_kernel_def low_kmem_def)
  have "pde (ram (vm ?k)) (16 * n) = 0" if "get_pid (sched ?k) = int n" for n
    using that pid by (simp add: first_kernel_def low_kmem_pde)
  from fork_makes_child [OF first_kernel_can_fork st t this, of "0x1234"] tab obtain n p s' v' where
    run: "fork_child 0x1234 ?k = Inr (True, ?k\<lparr>sched := s', vm := v'\<rparr>)"
    and n: "n < NR_TASK" "task_table (sched ?k) ! n = 0" "\<forall>i < n. task_table (sched ?k) ! i \<noteq> 0"
    and tab': "task_table s' = (task_table (sched ?k))[n := p]"
    and p: "\<not> not_free (pages (vm ?k)) p" "tasks s' = (tasks (sched ?k))(p \<mapsto> child_of 0x1234 p n (some_task 0 2),
         current_task (sched ?k) \<mapsto> (some_task 0 2)\<lparr>kstack := (kstack (some_task 0 2))(6 := of_nat n)\<rparr>)"
    by auto
  have "n = 1"
  proof (rule ccontr)
    assume "n \<noteq> 1"
    with n(2) tab have "1 < n" by (cases n) auto
    with n(3) have "task_table (sched ?k) ! 1 \<noteq> 0" by blast
    with tab show False by simp
  qed
  have "current_task (sched ?k) \<in> live_tasks (sched ?k)" using first_kernel_can_fork by (simp add: can_fork_def sched_ok_def)
  then have "p \<noteq> current_task (sched ?k)" using p(1) first_kernel_can_fork by (auto simp: can_fork_def)
  with p(2) \<open>n = 1\<close> tab tab' run show ?thesis by auto
qed

end
