(* ===== verification/Gate.thy ===== *)
theory Gate imports Boot Fork Hd begin

text \<open>
  The way from a user program into the kernel and back: the system call stubs of
  \<^verbatim>\<open>include/syscall.h\<close>, the table of \<^verbatim>\<open>kernel/syscall_impl.c\<close>, and the entry points of \<^verbatim>\<open>kernel/entry.asm\<close>
  for system calls, interrupts and page faults, on the stack frame \<^verbatim>\<open>include/entry.h\<close> describes. A machine
  is a kernel together with the registers of the program that runs in user mode.
\<close>

unbundle bit_operations_syntax

section \<open>Registers and the kernel stack\<close>

record regs =
  r_eax :: u32
  r_ecx :: u32
  r_edx :: u32
  r_ebx :: u32
  r_ebp :: u32
  r_esi :: u32
  r_edi :: u32
  r_ds :: u32
  r_es :: u32
  r_eip :: u32
  r_cs :: u32
  r_eflags :: u32
  r_esp :: u32
  r_ss :: u32

text \<open>The number of words on a kernel stack and its words, counted from the top as in \<open>task\<close>.\<close>

type_synonym stack = "nat \<times> (nat \<Rightarrow> u32)"

definition push :: "u32 \<Rightarrow> stack \<Rightarrow> stack" where
  "push v = (\<lambda>(n, st). (Suc n, st(Suc n := v)))"

definition pop :: "stack \<Rightarrow> u32 \<times> stack" where
  "pop = (\<lambda>(n, st). (st n, (n - 1, st)))"

text \<open>What the processor pushes when an interrupt leaves user mode.\<close>

definition int_frame :: "regs \<Rightarrow> stack \<Rightarrow> stack" where
  "int_frame r s = fold push [r_ss r, r_esp r, r_eflags r, r_cs r, r_eip r] s"

text \<open>\<^verbatim>\<open>pushad; push ds; push es\<close>, with the stack pointer before the \<^verbatim>\<open>pushad\<close>.\<close>

definition SAVE_ALL :: "u32 \<Rightarrow> regs \<Rightarrow> stack \<Rightarrow> stack" where
  "SAVE_ALL sp r s = fold push [r_eax r, r_ecx r, r_edx r, r_ebx r, sp, r_ebp r, r_esi r, r_edi r, r_ds r, r_es r] s"

text \<open>
  The entry of a page fault: \<^verbatim>\<open>eax\<close> takes the place of the error code, the word of the stack pointer is skipped.
\<close>

definition save_fault :: "u32 \<Rightarrow> regs \<Rightarrow> stack \<Rightarrow> stack" where
  "save_fault sp r s =
     (let (n, st) = fold push [r_eax r, r_ecx r, r_edx r, r_ebx r] s
      in fold push [r_ebp r, r_esi r, r_edi r, r_ds r, r_es r] (Suc n, st))"

text \<open>\<^verbatim>\<open>pop es; pop ds; popad; iretd\<close>\<close>

definition RESTORE_ALL_iretd :: "stack \<Rightarrow> regs" where
  "RESTORE_ALL_iretd s =
     (let (es, s) = pop s; (ds, s) = pop s;
          (edi, s) = pop s; (esi, s) = pop s; (ebp, s) = pop s; (_, s) = pop s;
          (ebx, s) = pop s; (edx, s) = pop s; (ecx, s) = pop s; (eax, s) = pop s;
          (eip, s) = pop s; (cs, s) = pop s; (eflags, s) = pop s; (esp, s) = pop s; (ss, s) = pop s
      in \<lparr>r_eax = eax, r_ecx = ecx, r_edx = edx, r_ebx = ebx, r_ebp = ebp, r_esi = esi, r_edi = edi,
          r_ds = ds, r_es = es, r_eip = eip, r_cs = cs, r_eflags = eflags, r_esp = esp, r_ss = ss\<rparr>)"

text \<open>The words of the frame as \<^verbatim>\<open>include/entry.h\<close> names them; \<^verbatim>\<open>EAX(task)\<close> is word 6 below the top, and so on.\<close>

definition frame_of :: "(nat \<Rightarrow> u32) \<Rightarrow> regs" where
  "frame_of st = \<lparr>r_eax = st 6, r_ecx = st 7, r_edx = st 8, r_ebx = st 9, r_ebp = st 11, r_esi = st 12, r_edi = st 13,
     r_ds = st 14, r_es = st 15, r_eip = st 5, r_cs = st 4, r_eflags = st 3, r_esp = st 2, r_ss = st 1\<rparr>"

text \<open>
  Entering the kernel: the processor takes the stack from the TSS, which is the page of a task, saves the
  program's registers, and the stub pushes the arguments of the routine it calls.
\<close>

definition enter_kernel ::
  "(u32 \<Rightarrow> regs \<Rightarrow> stack \<Rightarrow> stack) \<Rightarrow> u32 list \<Rightarrow> regs \<Rightarrow> sched_state \<Rightarrow> sched_state res" where
  "enter_kernel save args r s =
     (let p = tss_esp0 s - 4096 in
      bindr (task_at p s) (\<lambda>t.
        let (n, st) = fold push args (save (tss_esp0 s - 20) r (int_frame r (0, kstack t)))
        in Inr ((upd_task p (\<lambda>t. t\<lparr>kstack := st\<rparr>) s)\<lparr>cpu_esp := tss_esp0 s - 4 * of_nat n\<rparr>)))"

section \<open>The machine\<close>

text \<open>
  \<open>parked\<close> stands for the C frames of a suspended task: the stub its kernel routines return to. \<open>fs_base\<close> is
  the base of the segment in \<^verbatim>\<open>fs\<close>, through which the kernel reaches user memory.
\<close>

datatype stub = Syscall_stub | Irq_stub

record 'e machine =
  kern :: "'e Boot.kernel"
  cpu :: regs
  fs_base :: u32
  parked :: "addr_t \<Rightarrow> stub"

text \<open>The end of a stub, on the stack of the current task; a system call first stores \<^verbatim>\<open>eax\<close> in the frame.\<close>

definition leave_stub :: "stub \<Rightarrow> u32 \<Rightarrow> 'e Boot.kernel \<Rightarrow> 'e machine \<Rightarrow> 'e machine res" where
  "leave_stub g eax k m =
     (let p = current_task (ksched k) in
      bindr (task_at p (ksched k)) (\<lambda>t.
        let st = (case g of Syscall_stub \<Rightarrow> (kstack t)(15 - 9 := eax) | Irq_stub \<Rightarrow> kstack t)
        in Inr (m\<lparr>kern := k\<lparr>ksched := upd_task p (\<lambda>t. t\<lparr>kstack := st\<rparr>) (ksched k)\<rparr>,
                  cpu := RESTORE_ALL_iretd (15, st)\<rparr>)))"

text \<open>
  What follows the routine a stub has called, in the kernel state \<open>k\<close> it left, with \<open>eax\<close> in the register. If it
  switched tasks, the processor is where the new task was suspended: at \<^verbatim>\<open>ret_from_fork\<close>, or inside
  \<^verbatim>\<open>switch_to\<close>, from where the routines return to the stub they were called from.
\<close>

definition after_call :: "u32 \<Rightarrow> stub \<Rightarrow> u32 \<Rightarrow> 'e Boot.kernel \<Rightarrow> 'e machine \<Rightarrow> 'e machine res" where
  "after_call ret_from_fork g eax k m =
     (let s = ksched k; old = current_task (ksched (kern m)); cur = current_task s in
      if cur = old then leave_stub g eax k m
      else
        let m = m\<lparr>parked := (parked m)(old := g)\<rparr> in
        if cpu_eip s = ret_from_fork
        then bindr (task_at cur s) (\<lambda>t.
             Inr (m\<lparr>kern := k, cpu := RESTORE_ALL_iretd (unat (cur + 4096 - cpu_esp s) div 4, kstack t)\<rparr>))
        else if cpu_eip s = switch_label s then leave_stub (parked m cur) eax k m
        else Inl Bad_access)"

section \<open>System calls\<close>

datatype syscall = Do_fork | Sys_open | Sys_close | Sys_read | Sys_write | Sys_lseek

definition NR_SYSCALL :: nat where "NR_SYSCALL = 128"

text \<open>The slots behind the six calls hold null pointers.\<close>

definition syscall_table :: "syscall option list" where
  "syscall_table = map Some [Do_fork, Sys_open, Sys_close, Sys_read, Sys_write, Sys_lseek] @ replicate (NR_SYSCALL - 6) None"

text \<open>A routine of the file system works on the file table of the current task.\<close>

definition file_call :: "('e fs \<Rightarrow> (int \<times> 'e fs) res) \<Rightarrow> 'e Boot.kernel \<Rightarrow> (int \<times> 'e Boot.kernel) res" where
  "file_call f k =
     (let cur = current_task (ksched k) in
      bindr (task_at cur (ksched k)) (\<lambda>t.
      bindr (f ((fsys k)\<lparr>filps := task.filp t\<rparr>)) (\<lambda>(v, g).
      Inr (v, k\<lparr>fsys := g, ksched := upd_task cur (\<lambda>t. t\<lparr>filp := filps g\<rparr>) (ksched k)\<rparr>))))"

text \<open>\<^verbatim>\<open>do_fork\<close> on the pages the file system and the slab allocator also use.\<close>

definition fork_call :: "u32 \<Rightarrow> 'e Boot.kernel \<Rightarrow> 'e Boot.kernel res" where
  "fork_call ret_from_fork k =
     bindr (slab_op (\<lambda>t. bindr (do_fork ret_from_fork \<lparr>sched = ksched k, vm = km t\<rparr>) (\<lambda>f.
       Inr (sched f, t\<lparr>km := vm f\<rparr>))) (fsys k)) (\<lambda>(s, g). Inr (k\<lparr>fsys := g, ksched := s\<rparr>))"

text \<open>The routine behind a slot, with the three words the stub pushed as its arguments.\<close>

fun file_syscall :: "'e ports \<Rightarrow> syscall \<Rightarrow> u32 \<times> u32 \<times> u32 \<Rightarrow> 'e fs \<Rightarrow> (int \<times> 'e fs) res" where
  "file_syscall io Sys_open (a, b, c) = sys_open io a (sint b) (sint c)"
| "file_syscall io Sys_close (a, b, c) = sys_close io (sint a)"
| "file_syscall io Sys_read (a, b, c) = sys_read io (sint a) b c"
| "file_syscall io Sys_write (a, b, c) = sys_write io (sint a) b c"
| "file_syscall io Sys_lseek (a, b, c) = sys_lseek (sint a) (sint b) (sint c)"
| "file_syscall io Do_fork (a, b, c) = (\<lambda>s. Inl Bad_access)"

text \<open>
  Vector \<^verbatim>\<open>0x90\<close>. The number is not checked: one without a routine calls a null pointer or whatever follows
  the table. \<^verbatim>\<open>do_fork\<close> returns nothing, so what it leaves in \<^verbatim>\<open>eax\<close> is an argument.
\<close>

definition sys_call :: "'e ports \<Rightarrow> u32 \<Rightarrow> u32 \<Rightarrow> 'e machine \<Rightarrow> 'e machine res" where
  "sys_call io ret_from_fork left m =
     (let r = cpu m; nr = unat (r_eax r) in
      bindr (enter_kernel SAVE_ALL [r_edx r, r_ecx r, r_ebx r] r (ksched (kern m))) (\<lambda>s.
      let k = (kern m)\<lparr>ksched := s\<rparr> in
      if nr < length syscall_table
      then (case syscall_table ! nr of
              None \<Rightarrow> Inl Bad_access
            | Some f \<Rightarrow>
                if f = Do_fork
                then bindr (fork_call ret_from_fork k) (\<lambda>k. after_call ret_from_fork Syscall_stub left k m)
                else bindr (file_call (file_syscall io f (r_ebx r, r_ecx r, r_edx r)) k) (\<lambda>(v, k).
                     after_call ret_from_fork Syscall_stub (of_int v) k m))
      else Inl Bad_access))"

text \<open>
  The macros \<^verbatim>\<open>_syscall0\<close> to \<^verbatim>\<open>_syscall3\<close>: the registers before the \<^verbatim>\<open>int\<close>; the result is \<^verbatim>\<open>eax\<close> behind it.
\<close>

definition syscall0 :: "u32 \<Rightarrow> regs \<Rightarrow> regs" where
  "syscall0 nr r = r\<lparr>r_eax := nr\<rparr>"
definition syscall1 :: "u32 \<Rightarrow> u32 \<Rightarrow> regs \<Rightarrow> regs" where
  "syscall1 nr a r = r\<lparr>r_eax := nr, r_ebx := a\<rparr>"
definition syscall2 :: "u32 \<Rightarrow> u32 \<Rightarrow> u32 \<Rightarrow> regs \<Rightarrow> regs" where
  "syscall2 nr a b r = r\<lparr>r_eax := nr, r_ebx := a, r_ecx := b\<rparr>"
definition syscall3 :: "u32 \<Rightarrow> u32 \<Rightarrow> u32 \<Rightarrow> u32 \<Rightarrow> regs \<Rightarrow> regs" where
  "syscall3 nr a b c r = r\<lparr>r_eax := nr, r_ebx := a, r_ecx := b, r_edx := c\<rparr>"

definition user_call :: "'e ports \<Rightarrow> u32 \<Rightarrow> u32 \<Rightarrow> (regs \<Rightarrow> regs) \<Rightarrow> 'e machine \<Rightarrow> (u32 \<times> 'e machine) res" where
  "user_call io ret_from_fork left stub m =
     bindr (sys_call io ret_from_fork left (m\<lparr>cpu := stub (cpu m)\<rparr>)) (\<lambda>m. Inr (r_eax (cpu m), m))"

text \<open>The numbers of \<^verbatim>\<open>include/syscall.h\<close>.\<close>

definition NR_fork :: u32 where "NR_fork = 0"
definition NR_open :: u32 where "NR_open = 1"
definition NR_close :: u32 where "NR_close = 2"
definition NR_read :: u32 where "NR_read = 3"
definition NR_write :: u32 where "NR_write = 4"
definition NR_lseek :: u32 where "NR_lseek = 5"

section \<open>Interrupts and page faults\<close>

definition handle_irq :: "'e ports \<Rightarrow> irq_handler \<Rightarrow> int \<Rightarrow> 'e Boot.kernel \<Rightarrow> 'e Boot.kernel res" where
  "handle_irq io h n k =
     (case h of
        Unknown_irq \<Rightarrow> on_unknown_irq n k
      | Clock_irq \<Rightarrow> bindr (on_clock_interrupt n (ksched k)) (\<lambda>s. Inr (k\<lparr>ksched := s\<rparr>))
      | Keyboard_irq \<Rightarrow>
          bindr (of_loop (on_keyboard_interrupt io n (ktty k, kdev k))) (\<lambda>r.
          bindr r (\<lambda>(tty, e, _). Inr (set_kdev e (k\<lparr>ktty := tty\<rparr>))))
      | Disk_irq \<Rightarrow> on_hd_interrupt n k)"

text \<open>
  \<^verbatim>\<open>HINT_MASTER\<close> and \<^verbatim>\<open>HINT_SLAVE\<close> mask the line, acknowledge, call the handler and unmask the line; the
  clock's entry only acknowledges.
\<close>

definition mask_line :: "'e ports \<Rightarrow> (u8 \<Rightarrow> u8 \<Rightarrow> u8) \<Rightarrow> nat \<Rightarrow> 'e Boot.kernel \<Rightarrow> 'e Boot.kernel" where
  "mask_line io f n k =
     (let port = (if n < 8 then 0x21 else 0xa1);
          (v, e) = inb io port (kdev k)
      in set_kdev (outb io port (f v (irq_bit (int n))) e) k)"

definition send_EOI :: "'e ports \<Rightarrow> nat \<Rightarrow> 'e Boot.kernel \<Rightarrow> 'e Boot.kernel" where
  "send_EOI io n k =
     (let e = outb io 0x20 0x20 (kdev k)
      in set_kdev (if n < 8 then e else outb io 0xa0 0x20 e) k)"

definition irq_call :: "'e ports \<Rightarrow> nat \<Rightarrow> 'e Boot.kernel \<Rightarrow> 'e Boot.kernel res" where
  "irq_call io n k =
     (if n = 0 then handle_irq io (irqs k ! 0) 0 (send_EOI io 0 k)
      else
        bindr (handle_irq io (irqs k ! n) (int n) (send_EOI io n (mask_line io (OR) n k))) (\<lambda>k.
        Inr (mask_line io (\<lambda>v b. v AND NOT b) n k)))"

definition irq_entry :: "'e ports \<Rightarrow> u32 \<Rightarrow> nat \<Rightarrow> u32 \<Rightarrow> 'e machine \<Rightarrow> 'e machine res" where
  "irq_entry io ret_from_fork n left m =
     bindr (enter_kernel SAVE_ALL [of_nat n] (cpu m) (ksched (kern m))) (\<lambda>s.
     bindr (irq_call io n ((kern m)\<lparr>ksched := s\<rparr>)) (\<lambda>k. after_call ret_from_fork Irq_stub left k m))"

definition fault_call :: "u32 \<Rightarrow> addr_t \<Rightarrow> 'e Boot.kernel \<Rightarrow> 'e Boot.kernel res" where
  "fault_call err addr k =
     bindr (slab_op (\<lambda>t.
       bindr (if err AND 1 = 0 then do_no_page addr (km t) else do_wp_page addr (km t)) (\<lambda>v.
       Inr ((), t\<lparr>km := v\<rparr>))) (fsys k)) (\<lambda>(_, g). Inr (k\<lparr>fsys := g\<rparr>))"

definition page_fault :: "u32 \<Rightarrow> u32 \<Rightarrow> addr_t \<Rightarrow> 'e machine \<Rightarrow> 'e machine res" where
  "page_fault ret_from_fork err cr2 m =
     bindr (enter_kernel save_fault [cr2, err] (cpu m) (ksched (kern m))) (\<lambda>s.
     bindr (fault_call err cr2 ((kern m)\<lparr>ksched := s\<rparr>)) (\<lambda>k. after_call ret_from_fork Irq_stub 0 k m))"

section \<open>Starting the first program\<close>

text \<open>
  \<^verbatim>\<open>move_to_user_mode\<close>: the kernel stack of the first task goes into the TSS, by an addition of 16 bits, and an
  \<^verbatim>\<open>iretd\<close> starts the program with cleared registers.
\<close>

definition add_word :: "u32 \<Rightarrow> u16 \<Rightarrow> u32" where
  "add_word a n = (a AND 0xffff0000) OR ucast (ucast a + n)"

definition move_to_user_mode :: "(addr_t \<Rightarrow> stub) \<Rightarrow> 'e Boot.kernel \<Rightarrow> 'e machine res" where
  "move_to_user_mode pk k =
     (let s = ksched k; p = current_task s in
      bindr (task_at p s) (\<lambda>t.
        let s = s\<lparr>tss_esp0 := add_word p 4096\<rparr>;
            s = s\<lparr>ldtr := LDT_selector (pid t)\<rparr>
        in Inr \<lparr>kern = k\<lparr>ksched := s\<rparr>,
             cpu = \<lparr>r_eax = 0, r_ecx = 0, r_edx = 0, r_ebx = 0, r_ebp = 0, r_esi = 0, r_edi = 0,
               r_ds = 0x0f, r_es = 0x0f, r_eip = eip t, r_cs = 0x07, r_eflags = 0x3200, r_esp = esp t, r_ss = 0x0f\<rparr>,
             fs_base = desc_base (ldt1 t), parked = pk\<rparr>))"

section \<open>Events\<close>

text \<open>
  What happens to a machine in user mode: a system call or an interrupt, with what \<^verbatim>\<open>do_fork\<close> leaves in
  \<^verbatim>\<open>eax\<close> should a forking task go on, a page fault, or an instruction of the program, which may set its
  registers and its memory in any way. The interrupt vectors \<^verbatim>\<open>boot/head.asm\<close> fills are those of four lines; the others
  lead to \<^verbatim>\<open>_hint_null\<close>, which never returns.
\<close>

definition irq_lines :: "nat list" where "irq_lines = [0, 1, 2, 14]"

datatype event = Int_0x90 u32 | Irq nat u32 | Fault u32 addr_t | Program regs mem

fun kernel_event :: "'e ports \<Rightarrow> u32 \<Rightarrow> event \<Rightarrow> 'e machine \<Rightarrow> 'e machine res" where
  "kernel_event io ret (Int_0x90 left) m = sys_call io ret left m"
| "kernel_event io ret (Irq n left) m = (if n \<in> set irq_lines then irq_entry io ret n left m else Inl Hang)"
| "kernel_event io ret (Fault err addr) m = page_fault ret err addr m"
| "kernel_event io ret (Program r mm) m =
     Inr (m\<lparr>cpu := r, kern := (kern m)\<lparr>fsys := (fsys (kern m))\<lparr>umem := mm\<rparr>\<rparr>\<rparr>)"

section \<open>The frame\<close>

lemma restore_frame: "RESTORE_ALL_iretd (15, st) = frame_of st"
  by (simp add: RESTORE_ALL_iretd_def pop_def frame_of_def)

text \<open>\<open>s'\<close> is \<open>s\<close> with the registers \<open>r\<close> saved on the stack of \<open>p\<close>.\<close>

definition entered :: "addr_t \<Rightarrow> regs \<Rightarrow> sched_state \<Rightarrow> sched_state \<Rightarrow> bool" where
  "entered p r s s' \<longleftrightarrow> (\<exists>t st n. tasks s p = Some t \<and> frame_of st = r \<and>
     s' = s\<lparr>tasks := (tasks s)(p \<mapsto> t\<lparr>kstack := st\<rparr>), cpu_esp := n\<rparr>)"

lemma push_simps: "fst (push v s) = Suc (fst s)" "snd (push v s) = (snd s)(Suc (fst s) := v)"
  by (simp_all add: push_def split: prod.splits)

lemma fold_push_above: "i \<le> fst s \<Longrightarrow> snd (fold push vs s) i = snd s i"
  by (induction vs arbitrary: s) (simp_all add: push_simps)

lemma frame_args:
  assumes "save = SAVE_ALL \<or> save = save_fault"
  shows "frame_of (snd (fold push args (save sp r (int_frame r (0, st))))) = r"
proof -
  define s where "s = save sp r (int_frame r (0, st))"
  have s: "fst s = 15" "frame_of (snd s) = r"
    using assms by (auto simp: s_def SAVE_ALL_def save_fault_def int_frame_def push_def frame_of_def)
  then have "snd (fold push args s) i = snd s i" if "i \<le> 15" for i using that by (intro fold_push_above) simp
  with s(2) show ?thesis unfolding s_def [symmetric] by (simp add: frame_of_def)
qed

lemma enter_kernel_entered:
  assumes "save = SAVE_ALL \<or> save = save_fault" and "tss_esp0 s = p + 4096" and "tasks s p = Some t"
  obtains s' where "enter_kernel save args r s = Inr s'" "entered p r s s'"
proof -
  let ?f = "fold push args (save (tss_esp0 s - 20) r (int_frame r (0, kstack t)))"
  let ?s = "s\<lparr>tasks := (tasks s)(p \<mapsto> t\<lparr>kstack := snd ?f\<rparr>), cpu_esp := tss_esp0 s - 4 * of_nat (fst ?f)\<rparr>"
  have "enter_kernel save args r s = Inr ?s"
    using assms by (simp add: enter_kernel_def task_at_def upd_task_def split: prod.splits)
  moreover have "entered p r s ?s" unfolding entered_def using assms(3) frame_args [OF assms(1)] by (intro exI conjI) (assumption | rule refl)+
  ultimately show thesis ..
qed

lemma entered_sched_ok: "entered p r s s' \<Longrightarrow> sched_ok s \<Longrightarrow> sched_ok s'"
  by (auto simp: entered_def sched_ok_def live_tasks_def)

end
