(* ===== verification/Processes.thy ===== *)
theory Processes imports Gate begin

text \<open>
  What the programs see of the kernel: every task has registers of its own, in the processor or in the frame
  on its kernel stack, and an event of one program changes no other's.
\<close>

section \<open>A call of the scheduler\<close>

text \<open>
  \<open>s'\<close> is \<open>s\<close> after at most one switch: stacks are as they were, a task that gave up the processor is to
  continue in \<^verbatim>\<open>switch_to\<close>, and the processor is where the new one was suspended.
\<close>

definition handed_over :: "sched_state \<Rightarrow> sched_state \<Rightarrow> bool" where
  "handed_over s s' \<longleftrightarrow>
     task_table s' = task_table s \<and> current_task s' \<in> live_tasks s \<and> switch_label s' = switch_label s \<and>
     (\<forall>p t. tasks s p = Some t \<longrightarrow> (\<exists>t'. tasks s' p = Some t' \<and> kstack t' = kstack t \<and>
        (p \<noteq> current_task s \<longrightarrow> eip t' = eip t \<and> esp t' = esp t))) \<and>
     (if current_task s' = current_task s then tss_esp0 s' = tss_esp0 s
      else tss_esp0 s' = current_task s' + 4096 \<and>
        (\<forall>t. tasks s (current_task s') = Some t \<longrightarrow> cpu_eip s' = eip t \<and> cpu_esp s' = esp t) \<and>
        (\<forall>t. tasks s' (current_task s) = Some t \<longrightarrow> eip t = switch_label s))"

lemma handed_over_refl: "sched_ok s \<Longrightarrow> handed_over s s"
  by (simp add: handed_over_def sched_ok_def)

lemma dispatch_handed_over:
  assumes ok: "sched_ok s" and p: "p \<in> live_tasks s" and run: "dispatch p s = Inr s'"
  shows "handed_over s s'"
proof -
  have cur: "current_task s \<in> live_tasks s" using ok by (simp add: sched_ok_def)
  obtain tc where tc: "tasks s (current_task s) = Some tc" using ok cur unfolding sched_ok_def by blast
  obtain tp where tp: "tasks s p = Some tp" using ok p unfolding sched_ok_def by blast
  show ?thesis
  proof (cases "p = current_task s")
    case True
    with run tc cur show ?thesis by (auto simp: dispatch_def upd_task_def handed_over_def Let_def)
  next
    case False
    with run tc tp p show ?thesis
      by (auto simp: dispatch_def switch_to_def switch_to_next_def upd_task_def task_at_def Let_def handed_over_def)
  qed
qed

lemma reset_spans_handed_over:
  assumes "handed_over (reset_spans s) s'"
  shows "handed_over s s'"
proof -
  have t: "\<exists>t'. tasks (reset_spans s) p = Some t' \<and> kstack t' = kstack t \<and> eip t' = eip t \<and> esp t' = esp t"
    if "tasks s p = Some t" for p t
    using that by (auto simp: reset_spans_def)
  have rest: "switch_label (reset_spans s) = switch_label s" "tss_esp0 (reset_spans s) = tss_esp0 s"
    by (simp_all add: reset_spans_def)
  show ?thesis
    unfolding handed_over_def
  proof (intro conjI allI impI)
    fix p t assume "tasks s p = Some t"
    from t [OF this] assms show "\<exists>t'. tasks s' p = Some t' \<and> kstack t' = kstack t \<and>
        (p \<noteq> current_task s \<longrightarrow> eip t' = eip t \<and> esp t' = esp t)"
      unfolding handed_over_def by (metis reset_spans_rest(2))
  qed (use assms rest t in \<open>unfold handed_over_def, fastforce split: if_splits\<close>)+
qed

lemma schedule_handed_over:
  assumes ok: "sched_ok s" and run: "schedule s = Some (Inr s')"
  shows "handed_over s s' \<and> sched_ok s'"
proof -
  have picked: "handed_over s s' \<and> sched_ok s'"
    if "sched_ok s" "find (runnable s) (cycle s) = Some p" "schedule s = Some (Inr s')" for s p
  proof -
    note sp = schedule_picks [OF that(1,2)]
    with that(3) have d: "dispatch p s = Inr s'" by simp
    from dispatch_result [OF that(1) sp(2)] d have "sched_ok s'" by (metis Inr_inject)
    with dispatch_handed_over [OF that(1) sp(2) d] show ?thesis by blast
  qed
  show ?thesis
  proof (cases "find (runnable s) (cycle s)")
    case None
    then have run': "schedule (reset_spans s) = Some (Inr s')" using run by (simp add: schedule_step [OF ok])
    from schedule_dead [OF this] reset_spans_ok [OF ok]
    have "\<exists>p \<in> live_tasks s. span s p > 0 \<or> prio s p > 0" by (auto simp: reset_spans_span)
    then have "find (runnable (reset_spans s)) (cycle (reset_spans s)) \<noteq> None"
      using find_none [OF ok] None find_none [OF reset_spans_ok [OF ok]] by (force simp: reset_spans_span not_le)
    then obtain p where "find (runnable (reset_spans s)) (cycle (reset_spans s)) = Some p" by blast
    from picked [OF reset_spans_ok [OF ok] this run'] show ?thesis using reset_spans_handed_over by blast
  next
    case (Some p)
    from picked [OF ok Some run] show ?thesis .
  qed
qed

section \<open>Saved registers\<close>

definition saved_regs :: "sched_state \<Rightarrow> addr_t \<Rightarrow> regs" where
  "saved_regs s p = (case tasks s p of None \<Rightarrow> frame_of (\<lambda>_. 0) | Some t \<Rightarrow> frame_of (kstack t))"

text \<open>
  The registers task \<open>p\<close> goes on with: those in the processor for the current task, those in its frame for
  any other.
\<close>

definition user_regs :: "'e machine \<Rightarrow> addr_t \<Rightarrow> regs" where
  "user_regs m p = (if p = current_task (ksched (kern m)) then cpu m else saved_regs (ksched (kern m)) p)"

text \<open>
  What the scheduler and the stubs rely on: the TSS holds the top of the current task's page, every other
  task waits in \<^verbatim>\<open>switch_to\<close> or is a child that has not run yet.
\<close>

definition running_ok :: "u32 \<Rightarrow> sched_state \<Rightarrow> bool" where
  "running_ok ret s \<longleftrightarrow> sched_ok s \<and> tss_esp0 s = current_task s + 4096 \<and> switch_label s \<noteq> ret \<and>
     (\<forall>p \<in> live_tasks s. p \<noteq> current_task s \<longrightarrow>
        (\<exists>t. tasks s p = Some t \<and> (eip t = switch_label s \<or> eip t = ret \<and> esp t = FORK_STACK p)))"

definition machine_ok :: "u32 \<Rightarrow> 'e machine \<Rightarrow> bool" where
  "machine_ok ret m \<longleftrightarrow> running_ok ret (ksched (kern m))"

text \<open>A task that waits inside a system call; what is in \<^verbatim>\<open>eax\<close> when it goes on becomes its result.\<close>

definition in_syscall :: "'e machine \<Rightarrow> addr_t \<Rightarrow> bool" where
  "in_syscall m p \<longleftrightarrow> parked m p = Syscall_stub \<and>
     (\<exists>t. tasks (ksched (kern m)) p = Some t \<and> eip t = switch_label (ksched (kern m)))"

lemma live_task: "sched_ok s \<Longrightarrow> p \<in> live_tasks s \<Longrightarrow> \<exists>t. tasks s p = Some t"
  by (auto simp: sched_ok_def)

lemma handed_over_saved:
  assumes "handed_over s s'" "tasks s p = Some t"
  shows "saved_regs s' p = saved_regs s p"
  using assms unfolding handed_over_def saved_regs_def by fastforce

lemma handed_over_live: "handed_over s s' \<Longrightarrow> live_tasks s' = live_tasks s"
  by (simp add: handed_over_def live_tasks_def)

text \<open>The invariant when the new task has the processor.\<close>

lemma handed_over_running:
  assumes ok: "running_ok ret s" and h: "handed_over s s'"
  shows "running_ok ret s'"
proof -
  have sok: "sched_ok s" and lab: "switch_label s' = switch_label s" and tab: "task_table s' = task_table s"
    using ok h by (simp_all add: running_ok_def handed_over_def)
  note live = handed_over_live [OF h]
  have t': "\<exists>t'. tasks s' p = Some t' \<and> kstack t' = kstack t \<and> (p \<noteq> current_task s \<longrightarrow> eip t' = eip t \<and> esp t' = esp t)"
    if "tasks s p = Some t" for p t
    using h that by (simp add: handed_over_def)
  have "tasks s' p \<noteq> None" if "p \<in> live_tasks s" for p using live_task [OF sok that] t' by fastforce
  then have sok': "sched_ok s'" using sok h tab live unfolding sched_ok_def handed_over_def by auto
  have tss: "tss_esp0 s' = current_task s' + 4096"
    using ok h by (auto simp: running_ok_def handed_over_def split: if_splits)
  have "\<exists>t. tasks s' p = Some t \<and> (eip t = switch_label s' \<or> eip t = ret \<and> esp t = FORK_STACK p)"
    if p: "p \<in> live_tasks s'" "p \<noteq> current_task s'" for p
  proof -
    from p(1) live obtain t where t: "tasks s p = Some t" using live_task [OF sok] by auto
    from t' [OF this] obtain u where u: "tasks s' p = Some u" "p \<noteq> current_task s \<longrightarrow> eip u = eip t \<and> esp u = esp t" by blast
    show ?thesis
    proof (cases "p = current_task s")
      case True
      with p(2) h u(1) have "eip u = switch_label s" by (auto simp: handed_over_def split: if_splits)
      with u(1) lab show ?thesis by simp
    next
      case False
      with ok t p(1) live have "eip t = switch_label s \<or> eip t = ret \<and> esp t = FORK_STACK p" by (auto simp: running_ok_def)
      with False u lab show ?thesis by auto
    qed
  qed
  with sok' tss ok lab show ?thesis by (simp add: running_ok_def)
qed

lemma upd_stack_running:
  "running_ok ret s \<Longrightarrow> running_ok ret (upd_task p (\<lambda>t. t\<lparr>kstack := st\<rparr>) s)"
  unfolding running_ok_def sched_ok_def live_tasks_def upd_task_def by auto

lemma leave_stub_result:
  assumes run: "leave_stub g v k m = Inr m'"
  shows "cpu m' = (case g of Syscall_stub \<Rightarrow> (saved_regs (ksched k) (current_task (ksched k)))\<lparr>r_eax := v\<rparr>
      | Irq_stub \<Rightarrow> saved_regs (ksched k) (current_task (ksched k)))"
    and "\<exists>st. ksched (kern m') = upd_task (current_task (ksched k)) (\<lambda>t. t\<lparr>kstack := st\<rparr>) (ksched k)"
    and "fsys (kern m') = fsys k" "ktty (kern m') = ktty k" "irqs (kern m') = irqs k"
    and "fs_base m' = fs_base m" "parked m' = parked m"
  using run
  by (auto simp: leave_stub_def task_at_def saved_regs_def restore_frame Let_def frame_of_def split: option.splits stub.splits)


text \<open>Of the stub's end only the stack of the task that goes on changes.\<close>

lemma leave_stub_user_regs:
  assumes run: "leave_stub g v k m = Inr m'" and ok: "running_ok ret (ksched k)"
  shows "machine_ok ret m'" "live_tasks (ksched (kern m')) = live_tasks (ksched k)"
    "current_task (ksched (kern m')) = current_task (ksched k)"
    "user_regs m' p = (if p = current_task (ksched k) \<and> g = Syscall_stub then (saved_regs (ksched k) p)\<lparr>r_eax := v\<rparr>
       else saved_regs (ksched k) p)"
proof -
  note r = leave_stub_result [OF run]
  from r(2) obtain st where st: "ksched (kern m') = upd_task (current_task (ksched k)) (\<lambda>t. t\<lparr>kstack := st\<rparr>) (ksched k)" ..
  show "machine_ok ret m'" using upd_stack_running [OF ok] st by (simp add: machine_ok_def)
  show "live_tasks (ksched (kern m')) = live_tasks (ksched k)"
    "current_task (ksched (kern m')) = current_task (ksched k)"
    by (simp_all add: st upd_task_def live_tasks_def)
  show "user_regs m' p = (if p = current_task (ksched k) \<and> g = Syscall_stub then (saved_regs (ksched k) p)\<lparr>r_eax := v\<rparr>
       else saved_regs (ksched k) p)"
    using r(1) st by (auto simp: user_regs_def upd_task_def saved_regs_def split: stub.splits)
qed

lemma fork_stack_words: "unat (p + 4096 - FORK_STACK p) div 4 = 15"
  by (simp add: FORK_STACK_def)

text \<open>A task whose \<^verbatim>\<open>eax\<close> the end of the stub may set.\<close>

definition gets_eax :: "stub \<Rightarrow> sched_state \<Rightarrow> addr_t \<Rightarrow> 'e machine \<Rightarrow> addr_t \<Rightarrow> bool" where
  "gets_eax g s cur m p \<longleftrightarrow> p = cur \<and>
     (if p = current_task s then g = Syscall_stub
      else parked m p = Syscall_stub \<and> (\<exists>t. tasks s p = Some t \<and> eip t = switch_label s))"

lemma after_call_result:
  assumes ok: "running_ok ret s" and h: "handed_over s (ksched k)"
    and cur: "current_task (ksched (kern m)) = current_task s"
    and run: "after_call ret g v k m = Inr m'"
  shows "machine_ok ret m' \<and> live_tasks (ksched (kern m')) = live_tasks s \<and>
    current_task (ksched (kern m')) = current_task (ksched k) \<and> fs_base m' = fs_base m \<and> fsys (kern m') = fsys k \<and>
    (\<forall>p \<in> live_tasks s. user_regs m' p =
       (if gets_eax g s (current_task (ksched k)) m p then (saved_regs s p)\<lparr>r_eax := v\<rparr> else saved_regs s p))"
proof -
  let ?c = "current_task (ksched k)"
  have sok: "sched_ok s" using ok by (simp add: running_ok_def)
  note ok' = handed_over_running [OF ok h] and live = handed_over_live [OF h]
  have same: "saved_regs (ksched k) p = saved_regs s p" if "p \<in> live_tasks s" for p
    using live_task [OF sok that] handed_over_saved [OF h] by blast
  have c: "?c \<in> live_tasks s" and lab: "switch_label (ksched k) = switch_label s" using h by (simp_all add: handed_over_def)
  obtain tc where tc: "tasks s ?c = Some tc" using live_task [OF sok c] by blast
  show ?thesis
  proof (cases "?c = current_task s")
    case True
    with run cur have l: "leave_stub g v k m = Inr m'" by (simp add: after_call_def)
    note r = leave_stub_user_regs [OF l ok']
    show ?thesis using r leave_stub_result [OF l] live same True by (auto simp: gets_eax_def)
  next
    case False
    let ?m = "m\<lparr>parked := (parked m)(current_task s := g)\<rparr>"
    have eip: "cpu_eip (ksched k) = eip tc" "cpu_esp (ksched k) = esp tc" using h False tc by (simp_all add: handed_over_def)
    have wait: "eip tc = switch_label s \<or> eip tc = ret \<and> esp tc = FORK_STACK ?c"
      using ok c False tc by (auto simp: running_ok_def)
    have ne: "switch_label s \<noteq> ret" using ok by (simp add: running_ok_def)
    show ?thesis
    proof (cases "eip tc = ret")
      case True
      with wait ne have "esp tc = FORK_STACK ?c" by auto
      with run True False cur eip fork_stack_words obtain t where t: "tasks (ksched k) ?c = Some t"
        and m': "m' = ?m\<lparr>kern := k, cpu := frame_of (kstack t)\<rparr>"
        by (auto simp: after_call_def Let_def task_at_def restore_frame split: option.splits)
      have "cpu m' = saved_regs (ksched k) ?c" using t m' by (simp add: saved_regs_def)
      with m' have "user_regs m' p = saved_regs (ksched k) p" for p by (simp add: user_regs_def)
      moreover have "\<not> gets_eax g s ?c m p" for p using True False tc ne by (auto simp: gets_eax_def)
      ultimately show ?thesis using m' ok' live same by (simp add: machine_ok_def)
    next
      case no: False
      with wait run False cur eip lab ne have l: "leave_stub (parked m ?c) v k ?m = Inr m'"
        by (auto simp: after_call_def Let_def)
      note r = leave_stub_user_regs [OF l ok']
      have "gets_eax g s ?c m p \<longleftrightarrow> p = ?c \<and> parked m ?c = Syscall_stub" for p
        using no wait False tc by (auto simp: gets_eax_def)
      then show ?thesis using r leave_stub_result [OF l] live same by auto
    qed
  qed
qed


section \<open>A fork\<close>

text \<open>The page table marks the page of every task as used, so that a fork takes another one.\<close>

definition tasks_paged :: "sched_state \<Rightarrow> page_state \<Rightarrow> bool" where
  "tasks_paged s ps \<longleftrightarrow> pages_ok ps \<and> (\<forall>p \<in> live_tasks s. not_free ps p)"

lemma take_page_result:
  assumes "pages_ok (pages v)" "take_page v = Inr (p, v')"
  shows "\<exists>ps'. v' = v\<lparr>pages := ps'\<rparr> \<and> fresh_page (pages v) ps' p"
proof -
  from assms(2) obtain ps' where ps': "alloc_page (pages v) = Inr (p, ps')" "v' = v\<lparr>pages := ps'\<rparr>"
    by (auto simp: take_page_def res_Inr)
  with alloc_page_cases [OF assms(1) ps'(1)] show ?thesis by (metis fresh_page_def)
qed

text \<open>The tasks behind a successful \<open>fork_child\<close>: a new one, and the parent with its return value.\<close>

lemma fork_child_tasks:
  assumes ok: "sched_ok (sched k)" and pg: "tasks_paged (sched k) (pages (vm k))"
    and run: "fork_child ret k = Inr (True, k')"
  obtains n p t where "p \<noteq> 0" "p \<notin> live_tasks (sched k)" "n < NR_TASK" "task_table (sched k) ! n = 0"
    "tasks (sched k) (current_task (sched k)) = Some t"
    "tasks (sched k') = (tasks (sched k))(p \<mapsto> child_of ret p n t,
       current_task (sched k) \<mapsto> t\<lparr>kstack := (kstack t)(6 := of_nat n)\<rparr>)"
    "task_table (sched k') = (task_table (sched k))[n := p]" "current_task (sched k') = current_task (sched k)"
    "tss_esp0 (sched k') = tss_esp0 (sched k)" "switch_label (sched k') = switch_label (sched k)"
proof -
  let ?s = "sched k" let ?cur = "current_task (sched k)"
  have cur: "?cur \<in> live_tasks ?s" and len: "length (task_table ?s) = NR_TASK" using ok by (simp_all add: sched_ok_def)
  obtain t where t: "tasks ?s ?cur = Some t" using live_task [OF ok cur] by blast
  have "\<not> get_pid ?s < 0" using run by (auto simp: fork_child_def Let_def split: if_splits)
  then have "0 \<in> set (task_table ?s)" by (auto simp: get_pid_def get_pid_from_spec split: if_splits)
  from get_pid_free [OF this len] obtain n where n: "get_pid ?s = int n" "n < NR_TASK" "task_table ?s ! n = 0" by blast
  from run n(1) obtain p v1 where take: "take_page (vm k) = Inr (p, v1)" by (auto simp: fork_child_def Let_def res_Inr)
  from take_page_result [OF _ take] pg have fresh: "\<exists>ps'. fresh_page (pages (vm k)) ps' p" by (auto simp: tasks_paged_def)
  then have p: "p \<noteq> 0" "p \<notin> live_tasks ?s" using pg fresh_page_nonzero fresh_page_was_free by (fastforce simp: tasks_paged_def)+
  then have ne: "p \<noteq> ?cur" using cur by blast
  have "nat (5 + int n) = 5 + n" by simp
  with run take n t ne len have "\<exists>v2. share_vma (of_int (pid t) * MB64) (of_int (int n) * MB64) (640 * 1024) v1 = Inr v2"
    by (cases "share_vma (of_int (pid t) * MB64) (of_int (int n) * MB64) (640 * 1024) v1")
      (simp_all add: fork_child_def copy_process_def task_at_def Let_def upd_task_def set_ldt_desc_def)
  then obtain v2 where "share_vma (of_int (pid t) * MB64) (of_int (int n) * MB64) (640 * 1024) v1 = Inr v2" ..
  from fork_child_eq [OF take n(1) _ n(3) t ne this, of ret] n(2) len obtain s' where
    s': "fork_child ret k = Inr (True, k\<lparr>sched := s', vm := v2\<rparr>)"
    "tasks s' = (tasks ?s)(p \<mapsto> child_of ret p n t, ?cur \<mapsto> t\<lparr>kstack := (kstack t)(6 := of_nat n)\<rparr>)"
    "task_table s' = (task_table ?s)[n := p]" "current_task s' = ?cur" "tss_esp0 s' = tss_esp0 ?s"
    "switch_label s' = switch_label ?s" by metis
  with that [OF p n(2,3) t] s' run show thesis by simp
qed


text \<open>
  \<open>s'\<close> is \<open>s\<close> with possibly one more task, which will start with the current task's registers and 0 in
  \<^verbatim>\<open>eax\<close>; only the current task's saved \<^verbatim>\<open>eax\<close> has changed.
\<close>

definition grown :: "u32 \<Rightarrow> sched_state \<Rightarrow> sched_state \<Rightarrow> bool" where
  "grown ret s s' \<longleftrightarrow> running_ok ret s' \<and> current_task s' = current_task s \<and> switch_label s' = switch_label s \<and>
     live_tasks s \<subseteq> live_tasks s' \<and>
     (\<forall>p \<in> live_tasks s. p \<noteq> current_task s \<longrightarrow> tasks s' p = tasks s p) \<and>
     (\<exists>v. saved_regs s' (current_task s) = (saved_regs s (current_task s))\<lparr>r_eax := v\<rparr>) \<and>
     (\<forall>p \<in> live_tasks s' - live_tasks s. saved_regs s' p = (saved_regs s (current_task s))\<lparr>r_eax := 0\<rparr> \<and>
        (\<exists>t. tasks s' p = Some t \<and> eip t = ret))"

lemma set_retval_grown:
  assumes "running_ok ret s"
  shows "grown ret s (SET_TASK_RETVAL (current_task s) v s)"
proof -
  have sok: "sched_ok s" using assms by (simp add: running_ok_def)
  then have "current_task s \<in> live_tasks s" by (simp add: sched_ok_def)
  then obtain t where t: "tasks s (current_task s) = Some t" using live_task [OF sok] by blast
  have eq: "SET_TASK_RETVAL (current_task s) v s =
      upd_task (current_task s) (\<lambda>u. u\<lparr>kstack := (kstack t)(6 := of_int v)\<rparr>) s"
    using t by (simp add: SET_TASK_RETVAL_def upd_task_def)
  have "running_ok ret (SET_TASK_RETVAL (current_task s) v s)" unfolding eq by (rule upd_stack_running [OF assms])
  then show ?thesis
    using t unfolding grown_def eq
    by (auto simp: upd_task_def live_tasks_def saved_regs_def frame_of_def)
qed

lemma fork_child_grown:
  assumes ok: "running_ok ret (sched k)" and pg: "tasks_paged (sched k) (pages (vm k))"
    and run: "fork_child ret k = Inr (forked, k')"
  shows "grown ret (sched k) (sched k')"
proof (cases forked)
  case False
  with run have "sched k' = SET_TASK_RETVAL (current_task (sched k)) (- 1) (sched k)"
    by (auto simp: fork_child_def Let_def res_Inr split: if_splits)
  with set_retval_grown [OF ok] show ?thesis by simp
next
  case True
  let ?s = "sched k" let ?cur = "current_task (sched k)"
  have sok: "sched_ok ?s" using ok by (simp add: running_ok_def)
  have run': "fork_child ret k = Inr (True, k')" using run True by simp
  obtain n p t where p: "p \<noteq> 0" "p \<notin> live_tasks ?s"
    and n: "n < NR_TASK" "task_table ?s ! n = 0" and t: "tasks ?s ?cur = Some t"
    and k': "tasks (sched k') = (tasks ?s)(p \<mapsto> child_of ret p n t, ?cur \<mapsto> t\<lparr>kstack := (kstack t)(6 := of_nat n)\<rparr>)"
      "task_table (sched k') = (task_table ?s)[n := p]" "current_task (sched k') = ?cur"
      "tss_esp0 (sched k') = tss_esp0 ?s" "switch_label (sched k') = switch_label ?s"
    using fork_child_tasks [OF sok pg run'] .
  have cur: "?cur \<in> live_tasks ?s" using sok by (simp add: sched_ok_def)
  with p have ne: "p \<noteq> ?cur" by blast
  have ex: "tasks (sched k') p \<noteq> None" "\<And>q. q \<in> live_tasks ?s \<Longrightarrow> tasks (sched k') q \<noteq> None"
    using live_task [OF sok] by (auto simp: k'(1))
  note add = sched_ok_add [OF sok n p k'(2,3) ex]
  have old: "tasks (sched k') q = tasks ?s q" if "q \<in> live_tasks ?s" "q \<noteq> ?cur" for q using that p by (auto simp: k'(1))
  have new: "tasks (sched k') p = Some (child_of ret p n t)" using ne by (simp add: k'(1))
  have "running_ok ret (sched k')"
    using ok add old new k'(3-5) by (auto simp: running_ok_def child_of_def)
  then show ?thesis
    using add(2) old new p t k'(1,3,5) ne by (auto simp: grown_def saved_regs_def frame_of_def child_of_def)
qed

lemma fork_call_result:
  assumes ok: "running_ok ret (ksched k)" and pg: "tasks_paged (ksched k) (pages (km (sl (fsys k))))"
    and run: "fork_call ret k = Inr k'"
  obtains s where "grown ret (ksched k) s" "handed_over s (ksched k')"
proof -
  from run obtain v f where f: "do_fork ret \<lparr>sched = ksched k, vm = v\<rparr> = Inr f" "pages v = pages (km (sl (fsys k)))"
    "ksched k' = sched f"
    by (auto simp: fork_call_def slab_op_def res_Inr)
  from f(1) obtain forked j where j: "fork_child ret \<lparr>sched = ksched k, vm = v\<rparr> = Inr (forked, j)"
    and r: "if forked then \<exists>s. schedule (sched j) = Some (Inr s) \<and> sched f = s else f = j"
    by (auto simp: do_fork_def res_Inr split: option.splits if_splits)
  from fork_child_grown [OF _ _ j] ok pg f(2) have g: "grown ret (ksched k) (sched j)" by simp
  then have "sched_ok (sched j)" by (simp add: grown_def running_ok_def)
  then have "handed_over (sched j) (sched f)"
    using r schedule_handed_over handed_over_refl by (auto split: if_splits)
  with g f(3) that show thesis by simp
qed


section \<open>One event\<close>

lemma regs_same_eax: "\<exists>v. r = (r :: regs)\<lparr>r_eax := v\<rparr>"
  by (rule exI [of _ "r_eax r"]) simp

lemma grown_refl: "running_ok ret s \<Longrightarrow> grown ret s s"
  using regs_same_eax by (auto simp: grown_def)

lemma enter_kernel_machine:
  assumes ok: "machine_ok ret m" and save: "save = SAVE_ALL \<or> save = save_fault"
    and run: "enter_kernel save args (cpu m) (ksched (kern m)) = Inr s"
  shows "running_ok ret s" "current_task s = current_task (ksched (kern m))" "switch_label s = switch_label (ksched (kern m))"
    "task_table s = task_table (ksched (kern m))" "saved_regs s p = user_regs m p"
    "p \<noteq> current_task s \<Longrightarrow> tasks s p = tasks (ksched (kern m)) p"
proof -
  let ?s = "ksched (kern m)" let ?cur = "current_task ?s"
  have sok: "sched_ok ?s" and tss: "tss_esp0 ?s = ?cur + 4096" using ok by (simp_all add: machine_ok_def running_ok_def)
  then have "?cur \<in> live_tasks ?s" by (simp add: sched_ok_def)
  then obtain t where "tasks ?s ?cur = Some t" using live_task [OF sok] by blast
  from enter_kernel_entered [OF save tss this, of args "cpu m"] run have "entered ?cur (cpu m) ?s s" by auto
  then obtain u st n where e: "tasks ?s ?cur = Some u" "frame_of st = cpu m"
    "s = ?s\<lparr>tasks := (tasks ?s)(?cur \<mapsto> u\<lparr>kstack := st\<rparr>), cpu_esp := n\<rparr>" by (auto simp: entered_def)
  show "current_task s = ?cur" "switch_label s = switch_label ?s" "task_table s = task_table ?s"
    "p \<noteq> current_task s \<Longrightarrow> tasks s p = tasks ?s p" by (simp_all add: e(3))
  show "saved_regs s p = user_regs m p" using e(2) by (simp add: e(3) saved_regs_def user_regs_def)
  have "running_ok ret (upd_task ?cur (\<lambda>t. t\<lparr>kstack := st\<rparr>) ?s)"
    using upd_stack_running ok by (simp add: machine_ok_def)
  then show "running_ok ret s" using e(1) by (simp add: e(3) upd_task_def running_ok_def sched_ok_def live_tasks_def)
qed

abbreviation current_of :: "'e machine \<Rightarrow> addr_t" where
  "current_of m \<equiv> current_task (ksched (kern m))"

abbreviation live_of :: "'e machine \<Rightarrow> addr_t set" where
  "live_of m \<equiv> live_tasks (ksched (kern m))"

text \<open>The registers a task should have behind an event: only the program that runs changes its own.\<close>

definition regs_after :: "event \<Rightarrow> 'e machine \<Rightarrow> addr_t \<Rightarrow> regs" where
  "regs_after ev m p =
     (case ev of Program r _ \<Rightarrow> if p = current_of m then r else user_regs m p | _ \<Rightarrow> user_regs m p)"

text \<open>The tasks that get a result: the one that makes a call, and one that goes on inside a call.\<close>

definition gets_result :: "event \<Rightarrow> 'e machine \<Rightarrow> 'e machine \<Rightarrow> addr_t \<Rightarrow> bool" where
  "gets_result ev m m' p \<longleftrightarrow>
     (if p = current_of m then \<exists>left. ev = Int_0x90 left else p = current_of m' \<and> in_syscall m p)"

definition contexts_ok :: "u32 \<Rightarrow> event \<Rightarrow> 'e machine \<Rightarrow> 'e machine \<Rightarrow> bool" where
  "contexts_ok ret ev m m' \<longleftrightarrow> machine_ok ret m' \<and> fs_base m' = fs_base m \<and> live_of m \<subseteq> live_of m' \<and>
     (\<forall>p \<in> live_of m. (\<exists>v. user_regs m' p = (regs_after ev m p)\<lparr>r_eax := v\<rparr>) \<and>
        (\<not> gets_result ev m m' p \<longrightarrow> user_regs m' p = regs_after ev m p)) \<and>
     (\<forall>p \<in> live_of m' - live_of m. user_regs m' p = (cpu m)\<lparr>r_eax := 0\<rparr>)"

lemma stub_contexts:
  assumes ok: "machine_ok ret m" and save: "save = SAVE_ALL \<or> save = save_fault"
    and entry: "enter_kernel save args (cpu m) (ksched (kern m)) = Inr s"
    and call: "grown ret s s1" "handed_over s1 (ksched k)" "g = Irq_stub \<Longrightarrow> s1 = s"
    and run: "after_call ret g v k m = Inr m'"
    and ev: "\<And>r mm. ev \<noteq> Program r mm" "g = Syscall_stub \<Longrightarrow> \<exists>left. ev = Int_0x90 left"
  shows "contexts_ok ret ev m m'"
proof -
  let ?cur = "current_of m"
  note e = enter_kernel_machine [OF ok save entry]
  have live: "live_tasks s = live_of m" using e(4) by (simp add: live_tasks_def)
  have ok1: "running_ok ret s1" and g1: "current_task s1 = ?cur" "switch_label s1 = switch_label (ksched (kern m))"
      "live_of m \<subseteq> live_tasks s1" "\<And>p. p \<in> live_of m \<Longrightarrow> p \<noteq> ?cur \<Longrightarrow> tasks s1 p = tasks s p"
    and g1': "\<exists>w. saved_regs s1 ?cur = (user_regs m ?cur)\<lparr>r_eax := w\<rparr>"
      "\<And>p. p \<in> live_tasks s1 - live_of m \<Longrightarrow>
         saved_regs s1 p = (user_regs m ?cur)\<lparr>r_eax := 0\<rparr> \<and> (\<exists>t. tasks s1 p = Some t \<and> eip t = ret)"
    using call(1) e(2,3,5) live by (auto simp: grown_def)
  from after_call_result [OF ok1 call(2) _ run] g1(1) have r: "machine_ok ret m'" "live_of m' = live_tasks s1"
      "current_of m' = current_task (ksched k)" "fs_base m' = fs_base m"
    and u: "\<And>p. p \<in> live_tasks s1 \<Longrightarrow> user_regs m' p =
      (if gets_eax g s1 (current_of m') m p then (saved_regs s1 p)\<lparr>r_eax := v\<rparr> else saved_regs s1 p)" by simp_all
  have after: "regs_after ev m p = user_regs m p" for p using ev(1) by (cases ev) (auto simp: regs_after_def)
  have saved: "\<exists>w. saved_regs s1 p = (user_regs m p)\<lparr>r_eax := w\<rparr>" if "p \<in> live_of m" for p
  proof (cases "p = ?cur")
    case False
    then have "saved_regs s1 p = user_regs m p" using g1(4) [OF that] e(5) [of p] by (simp add: saved_regs_def)
    then show ?thesis using regs_same_eax by metis
  qed (use g1'(1) in simp)
  have exact: "user_regs m' p = user_regs m p" if p: "p \<in> live_of m" and no: "\<not> gets_result ev m m' p" for p
  proof (cases "p = ?cur")
    case True
    with no ev(2) have "g = Irq_stub" by (cases g) (auto simp: gets_result_def)
    moreover from this have "saved_regs s1 p = user_regs m p" using call(3) e(5) by simp
    ultimately show ?thesis using u p g1(1,3) True by (auto simp: gets_eax_def)
  next
    case False
    then have t: "tasks s1 p = tasks (ksched (kern m)) p" using g1(4) [OF p] e(2,6) by simp
    with no False g1(1,2) have "\<not> gets_eax g s1 (current_of m') m p"
      by (auto simp: gets_eax_def gets_result_def in_syscall_def)
    moreover have "saved_regs s1 p = user_regs m p" using False t by (simp add: saved_regs_def user_regs_def)
    ultimately show ?thesis using u p g1(3) by auto
  qed
  have new: "user_regs m' p = (cpu m)\<lparr>r_eax := 0\<rparr>" if p: "p \<in> live_of m' - live_of m" for p
  proof -
    from p r(2) g1'(2) obtain t where "saved_regs s1 p = (user_regs m ?cur)\<lparr>r_eax := 0\<rparr>" "tasks s1 p = Some t" "eip t = ret"
      by metis
    moreover have "?cur \<in> live_of m" using ok by (simp add: machine_ok_def running_ok_def sched_ok_def)
    moreover have "switch_label s1 \<noteq> ret" using ok1 by (simp add: running_ok_def)
    ultimately show ?thesis using u p r(2) g1(1) by (auto simp: gets_eax_def user_regs_def)
  qed
  have "\<exists>w. user_regs m' p = (user_regs m p)\<lparr>r_eax := w\<rparr>" if p: "p \<in> live_of m" for p
  proof -
    have "p \<in> live_tasks s1" using p g1(3) by blast
    from u [OF this] saved [OF p] show ?thesis by auto
  qed
  with r exact new g1(3) show ?thesis by (simp add: contexts_ok_def after)
qed


lemma file_call_handed_over:
  assumes ok: "sched_ok (ksched k)" and run: "file_call f k = Inr (v, k')"
  shows "handed_over (ksched k) (ksched k')"
  using run ok
  by (auto simp: file_call_def res_Inr task_at_def handed_over_def upd_task_def sched_ok_def Let_def split: option.splits)

lemma on_bc_ksched [simp]: "ksched (on_bc f k) = ksched k"
  by (simp add: on_bc_def)

lemma port_ksched [simp]:
  "ksched (set_kdev e k) = ksched k" "ksched (mask_line io f n k) = ksched k" "ksched (send_EOI io n k) = ksched k"
  "irqs (set_kdev e k) = irqs k" "irqs (mask_line io f n k) = irqs k" "irqs (send_EOI io n k) = irqs k"
  by (simp_all add: set_kdev_def on_bc_def mask_line_def send_EOI_def Let_def split: prod.splits)

lemma handle_irq_handed_over:
  assumes ok: "sched_ok (ksched k)" and run: "handle_irq io h n k = Inr k'"
  shows "handed_over (ksched k) (ksched k')"
proof (cases h)
  case Clock_irq
  with run obtain s where s: "schedule (ksched k) = Some (Inr s)" "ksched k' = s"
    by (auto simp: handle_irq_def on_clock_interrupt_def res_Inr split: option.splits)
  from schedule_handed_over [OF ok s(1)] s(2) show ?thesis by simp
next
  case Keyboard_irq
  with run have "ksched k' = ksched k" by (auto simp: handle_irq_def res_Inr)
  then show ?thesis using handed_over_refl [OF ok] by simp
qed (use run handed_over_refl [OF ok] in \<open>simp_all add: handle_irq_def on_unknown_irq_def on_hd_interrupt_def\<close>)

lemma irq_call_handed_over:
  assumes "sched_ok (ksched k)" and "irq_call io n k = Inr k'"
  shows "handed_over (ksched k) (ksched k')"
proof -
  obtain h j k1 k2 where "handle_irq io h j k1 = Inr k2" "ksched k1 = ksched k" "ksched k' = ksched k2"
    using assms(2) by (auto simp: irq_call_def res_Inr split: if_splits)
  with handle_irq_handed_over assms(1) show ?thesis by metis
qed

lemma sys_call_contexts:
  assumes ok: "machine_ok ret m" and pg: "tasks_paged (ksched (kern m)) (pages (km (sl (fsys (kern m)))))"
    and run: "sys_call io ret left m = Inr m'"
  shows "contexts_ok ret (Int_0x90 left) m m'"
proof -
  from run obtain s where entry: "enter_kernel SAVE_ALL [r_edx (cpu m), r_ecx (cpu m), r_ebx (cpu m)] (cpu m) (ksched (kern m)) = Inr s"
    and rest: "(\<exists>k. fork_call ret ((kern m)\<lparr>ksched := s\<rparr>) = Inr k \<and> after_call ret Syscall_stub left k m = Inr m') \<or>
      (\<exists>f v k. file_call f ((kern m)\<lparr>ksched := s\<rparr>) = Inr (v, k) \<and> after_call ret Syscall_stub (of_int v) k m = Inr m')"
    by (auto simp: sys_call_def Let_def res_Inr split: if_splits option.splits)
  note e = enter_kernel_machine [OF ok _ entry]
  have okS: "running_ok ret s" and live: "live_tasks s = live_of m" using e(1,4) by (simp_all add: live_tasks_def)
  have sok: "sched_ok s" using okS by (simp add: running_ok_def)
  let ?k = "(kern m)\<lparr>ksched := s\<rparr>"
  from rest show ?thesis
  proof (elim disjE exE conjE)
    fix k assume k: "fork_call ret ?k = Inr k" "after_call ret Syscall_stub left k m = Inr m'"
    have "tasks_paged s (pages (km (sl (fsys ?k))))" using pg live by (simp add: tasks_paged_def)
    with fork_call_result [OF _ _ k(1)] okS obtain s1 where "grown ret s s1" "handed_over s1 (ksched k)" by auto
    from stub_contexts [OF ok _ entry this _ k(2)] show ?thesis by simp
  next
    fix f v k assume k: "file_call f ?k = Inr (v, k)" "after_call ret Syscall_stub (of_int v) k m = Inr m'"
    from file_call_handed_over [OF _ k(1)] sok have "handed_over s (ksched k)" by simp
    from stub_contexts [OF ok _ entry grown_refl [OF okS] this _ k(2)] show ?thesis by simp
  qed
qed

lemma event_contexts:
  assumes "machine_ok ret m" and "tasks_paged (ksched (kern m)) (pages (km (sl (fsys (kern m)))))"
    and "kernel_event io ret ev m = Inr m'"
  shows "contexts_ok ret ev m m'"
proof (cases ev)
  case (Int_0x90 left)
  with assms(3) sys_call_contexts [OF assms(1,2)] show ?thesis by simp
next
  case (Irq n left)
  with assms(3) obtain s k where entry: "enter_kernel SAVE_ALL [of_nat n] (cpu m) (ksched (kern m)) = Inr s"
    and k: "irq_call io n ((kern m)\<lparr>ksched := s\<rparr>) = Inr k" "after_call ret Irq_stub left k m = Inr m'"
    by (auto simp: irq_entry_def res_Inr split: if_splits)
  have ok: "running_ok ret s" using enter_kernel_machine(1) [OF assms(1) _ entry] by simp
  then have "handed_over s (ksched k)" using irq_call_handed_over [OF _ k(1)] by (simp add: running_ok_def)
  from stub_contexts [OF assms(1) _ entry grown_refl [OF ok] this _ k(2)] Irq show ?thesis by simp
next
  case (Fault err addr)
  with assms(3) obtain s k where entry: "enter_kernel save_fault [addr, err] (cpu m) (ksched (kern m)) = Inr s"
    and k: "fault_call err addr ((kern m)\<lparr>ksched := s\<rparr>) = Inr k" "after_call ret Irq_stub 0 k m = Inr m'"
    by (auto simp: page_fault_def res_Inr)
  have ok: "running_ok ret s" using enter_kernel_machine(1) [OF assms(1) _ entry] by simp
  have "ksched k = s" using k(1) by (auto simp: fault_call_def res_Inr)
  then have "handed_over s (ksched k)" using handed_over_refl ok by (simp add: running_ok_def)
  from stub_contexts [OF assms(1) _ entry grown_refl [OF ok] this _ k(2)] Fault show ?thesis by simp
next
  case (Program r mm)
  with assms(3) have m': "m' = m\<lparr>cpu := r, kern := (kern m)\<lparr>fsys := (fsys (kern m))\<lparr>umem := mm\<rparr>\<rparr>\<rparr>" by simp
  then have "user_regs m' p = regs_after ev m p" for p using Program by (simp add: user_regs_def regs_after_def)
  then show ?thesis using assms(1) m' regs_same_eax by (auto simp: contexts_ok_def machine_ok_def)
qed

text \<open>
  C2: programs keep their registers. On a machine in order, whatever event reaches the kernel, when it returns to
  user mode the machine is in order again and every task has the registers it had, in the processor
  or on its stack, no matter which task now runs: only the running program changes its own, only \<^verbatim>\<open>eax\<close> of a task
  that makes a call, or goes on inside one, is set, and a forked child has its parent's registers with 0
  in \<^verbatim>\<open>eax\<close>. The segment through which the kernel reaches user memory never changes: after a switch
  the calls of one program still copy from and to the memory of another.
\<close>

theorem contexts_kept:
  assumes "machine_ok ret m" and "tasks_paged (ksched (kern m)) (pages (km (sl (fsys (kern m)))))"
    and "kernel_event io ret ev m = Inr m'"
  shows "machine_ok ret m' \<and> fs_base m' = fs_base m \<and> live_of m \<subseteq> live_of m' \<and>
    (\<forall>p \<in> live_of m. (\<exists>v. user_regs m' p = (regs_after ev m p)\<lparr>r_eax := v\<rparr>) \<and>
       (\<not> gets_result ev m m' p \<longrightarrow> user_regs m' p = regs_after ev m p)) \<and>
    (\<forall>p \<in> live_of m' - live_of m. user_regs m' p = (cpu m)\<lparr>r_eax := 0\<rparr>)"
  using event_contexts [OF assms] unfolding contexts_ok_def .


text \<open>Two tasks, the first in user mode, the second suspended by the clock.\<close>

definition sample_regs :: regs where
  "sample_regs = \<lparr>r_eax = 1, r_ecx = 2, r_edx = 3, r_ebx = 4, r_ebp = 5, r_esi = 6, r_edi = 7, r_ds = 0x0f, r_es = 0x0f,
     r_eip = 0x1000, r_cs = 0x07, r_eflags = 0x3200, r_esp = 0x2000, r_ss = 0x0f\<rparr>"

definition sample_machine :: "(u16 \<times> u8) list machine" where
  "sample_machine = \<lparr>kern = (on_sl (\<lambda>t. t\<lparr>km := (km t)\<lparr>pages := \<lparr>HIGH_MEMORY = 0xffffff, mem_map = replicate NR_PAGES 1\<rparr>\<rparr>\<rparr>) zero_kernel)
       \<lparr>ksched := two_tasks\<lparr>tss_esp0 := 0x6000\<rparr>, irqs := Clock_irq # replicate 15 Unknown_irq\<rparr>,
     cpu = sample_regs, fs_base = 0, parked = (\<lambda>_. Irq_stub)\<rparr>"

lemma sample_sched: "ksched (kern sample_machine) = two_tasks\<lparr>tss_esp0 := 0x6000\<rparr>"
  "irqs (kern sample_machine) ! 0 = Clock_irq"
  by (simp_all add: sample_machine_def on_sl_def)

lemma sample_ok: "machine_ok 0x1234 sample_machine"
proof -
  have "sched_ok (two_tasks\<lparr>tss_esp0 := 0x6000\<rparr>)" using two_tasks_ok by (simp add: sched_ok_def live_tasks_def)
  moreover have "live_tasks (two_tasks\<lparr>tss_esp0 := 0x6000\<rparr>) = {0x5000, 0x200000}"
    using two_tasks_live by (simp add: live_tasks_def)
  ultimately show ?thesis
    by (simp add: machine_ok_def sample_sched running_ok_def) (simp add: two_tasks_def some_task_def)
qed

lemma sample_paged: "tasks_paged (ksched (kern sample_machine)) (pages (km (sl (fsys (kern sample_machine)))))"
proof -
  have "pages (km (sl (fsys (kern sample_machine)))) = \<lparr>HIGH_MEMORY = 0xffffff, mem_map = replicate NR_PAGES 1\<rparr>"
    by (simp add: sample_machine_def on_sl_def)
  then show ?thesis by (simp add: tasks_paged_def pages_ok_def not_free_def)
qed

text \<open>The stub returns to user mode whenever the scheduler has done its part.\<close>

lemma after_call_total:
  assumes ok: "running_ok ret s" and h: "handed_over s (ksched k)"
    and cur: "current_of m = current_task s"
  shows "\<exists>m'. after_call ret g v k m = Inr m'"
proof -
  let ?c = "current_task (ksched k)"
  have c: "?c \<in> live_tasks s" and lab: "switch_label (ksched k) = switch_label s" using h by (simp_all add: handed_over_def)
  have "sched_ok s" using ok by (simp add: running_ok_def)
  then obtain t where t: "tasks s ?c = Some t" using live_task c by blast
  with h obtain t' where t': "tasks (ksched k) ?c = Some t'" unfolding handed_over_def by blast
  then have leave: "\<exists>m'. leave_stub g v k j = Inr m'" for g and j :: "'a machine"
    by (simp add: leave_stub_def task_at_def Let_def)
  show ?thesis
  proof (cases "?c = current_task s")
    case False
    then have "cpu_eip (ksched k) = eip t" "eip t = switch_label s \<or> eip t = ret"
      using h t ok c by (auto simp: handed_over_def running_ok_def)
    then show ?thesis using False cur lab leave t' by (auto simp: after_call_def Let_def task_at_def)
  qed (use cur leave in \<open>simp add: after_call_def\<close>)
qed

lemma enter_kernel_total:
  assumes ok: "machine_ok ret m" and save: "save = SAVE_ALL \<or> save = save_fault"
  shows "\<exists>s. enter_kernel save args (cpu m) (ksched (kern m)) = Inr s"
proof -
  have sok: "sched_ok (ksched (kern m))" and tss: "tss_esp0 (ksched (kern m)) = current_of m + 4096"
    using ok by (simp_all add: machine_ok_def running_ok_def)
  then have "current_of m \<in> live_of m" by (simp add: sched_ok_def)
  then obtain t where "tasks (ksched (kern m)) (current_of m) = Some t" using live_task [OF sok] by blast
  from enter_kernel_entered [OF save tss this] show ?thesis by metis
qed

text \<open>A tick of the clock always comes back to user mode, in the task whose turn it is.\<close>

lemma enter_kernel_shape:
  assumes "enter_kernel save args r s = Inr s'"
  obtains t st n where "tasks s (tss_esp0 s - 4096) = Some t"
    "s' = s\<lparr>tasks := (tasks s)(tss_esp0 s - 4096 \<mapsto> t\<lparr>kstack := st\<rparr>), cpu_esp := n\<rparr>"
proof -
  obtain t where t: "tasks s (tss_esp0 s - 4096) = Some t"
    using assms by (auto simp: enter_kernel_def task_at_def Let_def res_Inr split: option.splits)
  obtain n st where "fold push args (save (tss_esp0 s - 20) r (int_frame r (0, kstack t))) = (n, st)" by fastforce
  with assms t have "s' = s\<lparr>tasks := (tasks s)(tss_esp0 s - 4096 \<mapsto> t\<lparr>kstack := st\<rparr>), cpu_esp := tss_esp0 s - 4 * of_nat n\<rparr>"
    by (simp add: enter_kernel_def task_at_def upd_task_def)
  with t show thesis by (rule that)
qed

lemma entered_runnable:
  assumes "enter_kernel save args r s = Inr s'"
  shows "runnable s' = runnable s" "cycle s' = cycle s"
proof -
  obtain t st n where t: "tasks s (tss_esp0 s - 4096) = Some t"
    and s': "s' = s\<lparr>tasks := (tasks s)(tss_esp0 s - 4096 \<mapsto> t\<lparr>kstack := st\<rparr>), cpu_esp := n\<rparr>"
    using enter_kernel_shape [OF assms] .
  have "span s' p = span s p" for p using t by (simp add: span_def s')
  then show "runnable s' = runnable s" by (simp add: runnable_def fun_eq_iff)
  show "cycle s' = cycle s" by (simp add: cycle_def s' split: option.split)
qed

lemma clock_switches:
  assumes ok: "machine_ok ret m" and h: "irqs (kern m) ! 0 = Clock_irq"
    and p: "find (runnable (ksched (kern m))) (cycle (ksched (kern m))) = Some p"
  shows "\<exists>m'. kernel_event io ret (Irq 0 left) m = Inr m' \<and> current_of m' = p"
proof -
  obtain s where entry: "enter_kernel SAVE_ALL [of_nat 0] (cpu m) (ksched (kern m)) = Inr s"
    using enter_kernel_total [OF ok] by blast
  note e = enter_kernel_machine [OF ok _ entry]
  have run: "running_ok ret s" using e(1) by simp
  then have sok: "sched_ok s" by (simp add: running_ok_def)
  have "find (runnable s) (cycle s) = Some p" using p entered_runnable [OF entry] by simp
  note sp = schedule_picks [OF sok this]
  obtain s' where s': "dispatch p s = Inr s'" "current_task s' = p" using dispatch_result [OF sok sp(2)] by metis
  let ?k = "(send_EOI io 0 ((kern m)\<lparr>ksched := s\<rparr>))\<lparr>ksched := s'\<rparr>"
  have call: "irq_call io 0 ((kern m)\<lparr>ksched := s\<rparr>) = Inr ?k"
    using h s'(1) sp(1) by (simp add: irq_call_def handle_irq_def on_clock_interrupt_def)
  have hand: "handed_over s (ksched ?k)" using dispatch_handed_over [OF sok sp(2) s'(1)] by simp
  have "current_of m = current_task s" using e(2) by simp
  with after_call_total [OF run hand] obtain m' where m': "after_call ret Irq_stub left ?k m = Inr m'" by metis
  then have "kernel_event io ret (Irq 0 left) m = Inr m'" using entry call by (simp add: irq_entry_def irq_lines_def)
  moreover have "current_of m' = p"
    using after_call_result [OF run hand _ m'] e(2) s'(2) by simp
  ultimately show ?thesis by blast
qed

theorem contexts_kept_witness:
  "\<exists>m'. kernel_event idle_drive 0x1234 (Irq 0 0) sample_machine = Inr m' \<and> current_of m' = 0x200000 \<and>
    user_regs m' 0x5000 = sample_regs"
proof -
  have "find (runnable (two_tasks\<lparr>tss_esp0 := 0x6000\<rparr>)) (cycle (two_tasks\<lparr>tss_esp0 := 0x6000\<rparr>)) = Some 0x200000"
    by (simp add: cycle_def two_tasks_def runnable_def span_def some_task_def)
  with clock_switches [OF sample_ok sample_sched(2), of _ idle_drive 0] obtain m' where
    m': "kernel_event idle_drive 0x1234 (Irq 0 0) sample_machine = Inr m'" "current_of m' = 0x200000"
    by (auto simp: sample_sched)
  have "current_of sample_machine = 0x5000" "0x5000 \<in> live_of sample_machine"
    using two_tasks_live by (simp_all add: sample_sched live_tasks_def) (simp_all add: two_tasks_def)
  moreover from this have "user_regs sample_machine 0x5000 = sample_regs" by (simp add: user_regs_def) (simp add: sample_machine_def)
  ultimately have "user_regs m' 0x5000 = sample_regs"
    using contexts_kept [OF sample_ok sample_paged m'(1)] by (simp add: gets_result_def regs_after_def)
  with m' show ?thesis by blast
qed

section \<open>The result of a system call\<close>

lemma after_call_current:
  assumes "after_call ret Syscall_stub v k m = Inr m'"
  shows "current_of m' = current_task (ksched k)" and "current_task (ksched k) = current_of m \<Longrightarrow> r_eax (cpu m') = v"
  using assms
  by (auto simp: after_call_def leave_stub_def Let_def res_Inr upd_task_def restore_frame frame_of_def split: if_splits)

lemma after_call_same:
  assumes "current_task (ksched k) = current_of m" and "tasks (ksched k) (current_of m) = Some t"
  obtains m' where "after_call ret Syscall_stub v k m = Inr m'" "cpu m' = (saved_regs (ksched k) (current_of m))\<lparr>r_eax := v\<rparr>"
    "fsys (kern m') = fsys k" "\<exists>st. ksched (kern m') = upd_task (current_of m) (\<lambda>t. t\<lparr>kstack := st\<rparr>) (ksched k)"
proof -
  obtain m' where l: "leave_stub Syscall_stub v k m = Inr m'" using assms by (simp add: leave_stub_def task_at_def Let_def)
  then have "after_call ret Syscall_stub v k m = Inr m'" using assms by (simp add: after_call_def)
  with leave_stub_result [OF l] assms(1) that show thesis by simp
qed

text \<open>A call whose routine is one of the file system's.\<close>

lemma file_user_call:
  assumes ok: "machine_ok ret m" and t: "tasks (ksched (kern m)) (current_of m) = Some t"
    and r: "r = stub (cpu m)" and f: "unat (r_eax r) < length syscall_table" "syscall_table ! unat (r_eax r) = Some f" "f \<noteq> Do_fork"
  shows "case file_syscall io f (r_ebx r, r_ecx r, r_edx r) ((fsys (kern m))\<lparr>filps := task.filp t\<rparr>) of
      Inl h \<Rightarrow> user_call io ret left stub m = Inl h
    | Inr (v, g) \<Rightarrow> \<exists>m' t'. user_call io ret left stub m = Inr (of_int v, m') \<and> fsys (kern m') = g \<and>
        current_of m' = current_of m \<and> cpu m' = r\<lparr>r_eax := of_int v\<rparr> \<and> machine_ok ret m' \<and>
        tasks (ksched (kern m')) (current_of m) = Some t' \<and> task.filp t' = filps g"
proof -
  let ?m = "m\<lparr>cpu := r\<rparr>" let ?cur = "current_of m"
  have ok': "machine_ok ret ?m" using ok by (simp add: machine_ok_def)
  obtain s where entry: "enter_kernel SAVE_ALL [r_edx r, r_ecx r, r_ebx r] r (ksched (kern m)) = Inr s"
    using enter_kernel_total [OF ok', of SAVE_ALL] by auto
  then have entry': "enter_kernel SAVE_ALL [r_edx r, r_ecx r, r_ebx r] (cpu ?m) (ksched (kern ?m)) = Inr s" by simp
  note e = enter_kernel_machine [OF ok' disjI1 [OF refl] entry']
  have tss: "tss_esp0 (ksched (kern m)) - 4096 = ?cur" using ok by (simp add: machine_ok_def running_ok_def)
  obtain st n where s: "s = (ksched (kern m))\<lparr>tasks := (tasks (ksched (kern m)))(?cur \<mapsto> t\<lparr>kstack := st\<rparr>), cpu_esp := n\<rparr>"
    using enter_kernel_shape [OF entry] t unfolding tss by (metis option.inject)
  let ?k = "(kern m)\<lparr>ksched := s\<rparr>"
  let ?run = "file_syscall io f (r_ebx r, r_ecx r, r_edx r) ((fsys (kern m))\<lparr>filps := task.filp t\<rparr>)"
  have call: "user_call io ret left stub m = bindr (file_call (file_syscall io f (r_ebx r, r_ecx r, r_edx r)) ?k) (\<lambda>(v, k).
      bindr (after_call ret Syscall_stub (of_int v) k ?m) (\<lambda>m. Inr (r_eax (cpu m), m)))"
    using f entry r by (simp add: user_call_def sys_call_def Let_def bindr_assoc case_prod_unfold)
  have routine: "file_call (file_syscall io f (r_ebx r, r_ecx r, r_edx r)) ?k = bindr ?run (\<lambda>(v, g).
      Inr (v, ?k\<lparr>fsys := g, ksched := upd_task ?cur (\<lambda>t. t\<lparr>filp := filps g\<rparr>) s\<rparr>))"
    by (simp add: file_call_def task_at_def s Let_def)
  show ?thesis
  proof (cases ?run)
    case (Inr vg)
    obtain v g where vg: "vg = (v, g)" by fastforce
    let ?k' = "?k\<lparr>fsys := g, ksched := upd_task ?cur (\<lambda>t. t\<lparr>filp := filps g\<rparr>) s\<rparr>"
    have k': "current_task (ksched ?k') = current_of ?m" "tasks (ksched ?k') (current_of ?m) = Some (t\<lparr>kstack := st, filp := filps g\<rparr>)"
      by (simp_all add: upd_task_def s)
    have "saved_regs s ?cur = r" using e(2,5) by (simp add: user_regs_def)
    then have saved: "saved_regs (ksched ?k') ?cur = r" by (simp add: saved_regs_def upd_task_def s)
    obtain m' where m': "after_call ret Syscall_stub (of_int v) ?k' ?m = Inr m'" "cpu m' = r\<lparr>r_eax := of_int v\<rparr>"
      "fsys (kern m') = g" "\<exists>st. ksched (kern m') = upd_task ?cur (\<lambda>t. t\<lparr>kstack := st\<rparr>) (ksched ?k')"
      using after_call_same [OF k', of ret "of_int v"] saved by auto
    have run: "running_ok ret s" using e(1) by simp
    then have sok: "sched_ok (ksched ?k)" by (simp add: running_ok_def)
    have rt: "file_call (file_syscall io f (r_ebx r, r_ecx r, r_edx r)) ?k = Inr (v, ?k')" using routine Inr vg by simp
    have "handed_over s (ksched ?k')" using file_call_handed_over [OF sok rt] by simp
    from handed_over_running [OF run this] have run': "running_ok ret (ksched ?k')" .
    have okm: "machine_ok ret m'" using m'(4) upd_stack_running [OF run'] by (auto simp: machine_ok_def)
    have call': "user_call io ret left stub m = Inr (of_int v, m')"
      using call rt m'(1,2) by simp
    have "current_of m' = ?cur" "\<exists>t'. tasks (ksched (kern m')) ?cur = Some t' \<and> task.filp t' = filps g"
      using m'(4) k' by (auto simp: upd_task_def)
    with call' okm m'(2,3) show ?thesis unfolding Inr vg by auto
  qed (simp add: call routine)
qed


text \<open>The calls of \<^verbatim>\<open>include/syscall.h\<close> the file system answers, with their numbers.\<close>

definition file_calls :: "(u32 \<times> syscall) list" where
  "file_calls = [(NR_open, Sys_open), (NR_close, Sys_close), (NR_read, Sys_read), (NR_write, Sys_write), (NR_lseek, Sys_lseek)]"

lemma file_calls_slots:
  "(n, f) \<in> set file_calls \<Longrightarrow> unat n < length syscall_table \<and> syscall_table ! unat n = Some f \<and> f \<noteq> Do_fork"
  by (auto simp: file_calls_def NR_open_def NR_close_def NR_read_def NR_write_def NR_lseek_def syscall_table_def NR_SYSCALL_def)

lemma no_slot: "6 \<le> i \<Longrightarrow> i < length syscall_table \<Longrightarrow> syscall_table ! i = None"
  by (simp add: syscall_table_def nth_append)

text \<open>Stubs of fewer arguments pass on what the registers held: \<^verbatim>\<open>open\<close> gets its mode from \<^verbatim>\<open>edx\<close>.\<close>

lemma short_stubs:
  "syscall1 n a r = syscall3 n a (r_ecx r) (r_edx r) r" "syscall2 n a b r = syscall3 n a b (r_edx r) r"
  by (simp_all add: syscall1_def syscall2_def syscall3_def)

text \<open>
  C3: system calls. On a machine in order, a call through a stub runs the routine its number names on the
  arguments given and the caller's file table, stops when it stops, and otherwise returns to the caller
  with its value in \<^verbatim>\<open>eax\<close> and every other register kept. A number from 6 on, which the table has no routine
  for, is never checked and jumps astray. A fork that goes on in the parent
  does not return the child's number but whatever \<^verbatim>\<open>do_fork\<close> left in \<^verbatim>\<open>eax\<close>.
\<close>

theorem system_calls_dispatched:
  assumes ok: "machine_ok ret m" and t: "tasks (ksched (kern m)) (current_of m) = Some t"
  shows "(\<forall>(n, f) \<in> set file_calls.
      case file_syscall io f (a, b, c) ((fsys (kern m))\<lparr>filps := task.filp t\<rparr>) of
        Inl h \<Rightarrow> user_call io ret left (syscall3 n a b c) m = Inl h
      | Inr (v, g) \<Rightarrow> \<exists>m' t'. user_call io ret left (syscall3 n a b c) m = Inr (of_int v, m') \<and> fsys (kern m') = g \<and>
          current_of m' = current_of m \<and> cpu m' = (syscall3 n a b c (cpu m))\<lparr>r_eax := of_int v\<rparr> \<and> machine_ok ret m' \<and>
          tasks (ksched (kern m')) (current_of m) = Some t' \<and> task.filp t' = filps g) \<and>
    (\<forall>n. 6 \<le> unat n \<longrightarrow> user_call io ret left (syscall3 n a b c) m = Inl Bad_access) \<and>
    (\<forall>v m'. user_call io ret left (syscall0 NR_fork) m = Inr (v, m') \<and> current_of m' = current_of m \<longrightarrow> v = left)"
proof (intro conjI allI impI ballI, goal_cases)
  case (1 nf)
  obtain n f where nf: "nf = (n, f)" by fastforce
  let ?r = "syscall3 n a b c (cpu m)"
  have r: "r_eax ?r = n" "r_ebx ?r = a" "r_ecx ?r = b" "r_edx ?r = c" by (simp_all add: syscall3_def)
  from 1 nf file_calls_slots [of n f] have f: "unat (r_eax ?r) < length syscall_table"
    "syscall_table ! unat (r_eax ?r) = Some f" "f \<noteq> Do_fork" unfolding r by blast+
  from file_user_call [OF ok t, of ?r "syscall3 n a b c" f io left, OF refl f] show ?case unfolding nf r by simp
next
  case (2 n)
  let ?m = "m\<lparr>cpu := syscall3 n a b c (cpu m)\<rparr>"
  have "machine_ok ret ?m" using ok by (simp add: machine_ok_def)
  from enter_kernel_total [OF this, of SAVE_ALL "[c, b, a]"] obtain s where
    "enter_kernel SAVE_ALL [c, b, a] (syscall3 n a b c (cpu m)) (ksched (kern m)) = Inr s" by auto
  moreover have "r_eax (syscall3 n a b c (cpu m)) = n" "r_ebx (syscall3 n a b c (cpu m)) = a"
    "r_ecx (syscall3 n a b c (cpu m)) = b" "r_edx (syscall3 n a b c (cpu m)) = c" by (simp_all add: syscall3_def)
  ultimately show ?case using no_slot [OF 2]
    by (cases "unat n < length syscall_table") (simp_all add: user_call_def sys_call_def)
next
  case (3 v m')
  then have run: "sys_call io ret left (m\<lparr>cpu := syscall0 NR_fork (cpu m)\<rparr>) = Inr m'" "v = r_eax (cpu m')"
    and cur: "current_of m' = current_of m" by (auto simp: user_call_def res_Inr)
  have "syscall_table ! 0 = Some Do_fork" "0 < length syscall_table" by (simp_all add: syscall_table_def)
  with run(1) obtain k where "after_call ret Syscall_stub left k (m\<lparr>cpu := syscall0 NR_fork (cpu m)\<rparr>) = Inr m'"
    by (auto simp: sys_call_def syscall0_def NR_fork_def Let_def res_Inr)
  from after_call_current [OF this] cur run(2) show ?case by simp
qed

theorem system_calls_dispatched_witness:
  "(\<exists>m'. user_call idle_drive 0x1234 0 (syscall3 NR_lseek 0 0 9) sample_machine = Inr (- 1, m') \<and>
      cpu m' = sample_regs\<lparr>r_eax := - 1, r_ebx := 0, r_ecx := 0, r_edx := 9\<rparr>) \<and>
    user_call idle_drive 0x1234 0 (syscall3 6 0 0 9) sample_machine = Inl Bad_access \<and>
    \<not> (\<exists>m'. user_call idle_drive 0x1234 0 (syscall0 NR_fork) sample_machine = Inr (1, m') \<and>
      current_of m' = current_of sample_machine)"
proof -
  have t: "tasks (ksched (kern sample_machine)) (current_of sample_machine) = Some (some_task 0 2)"
    by (simp add: sample_sched two_tasks_def)
  have seek: "(NR_lseek, Sys_lseek) \<in> set file_calls" by (simp add: file_calls_def)
  have stop: "file_syscall idle_drive Sys_lseek (0, 0, 9) s = Inr (- 1, s)" for s :: "(u16 \<times> u8) list fs"
    by (simp add: sys_lseek_def Fs_Syscall.filp_def NR_MAX_OPEN_def SEEK_SET_def SEEK_CUR_def SEEK_END_def)
  note calls = system_calls_dispatched [OF sample_ok t, where io = idle_drive and a = 0 and b = 0 and c = 9 and left = 0]
  from bspec [OF conjunct1 [OF calls] seek] obtain m' where
    "user_call idle_drive 0x1234 0 (syscall3 NR_lseek 0 0 9) sample_machine = Inr (- 1, m')"
    "cpu m' = (syscall3 NR_lseek 0 0 9 (cpu sample_machine))\<lparr>r_eax := - 1\<rparr>"
    unfolding prod.case stop sum.case by auto
  moreover have "cpu sample_machine = sample_regs" by (simp add: sample_machine_def)
  moreover have "6 \<le> unat (6 :: u32)" by simp
  with calls have "user_call idle_drive 0x1234 0 (syscall3 6 0 0 9) sample_machine = Inl Bad_access" by blast
  moreover have "(1 :: u32) \<noteq> 0" by simp
  with calls have "user_call idle_drive 0x1234 0 (syscall0 NR_fork) sample_machine = Inr (1, m') \<longrightarrow>
      current_of m' \<noteq> current_of sample_machine" for m' by blast
  ultimately show ?thesis by (auto simp: syscall3_def)
qed

end
