(* ===== verification/First_Program.thy ===== *)
theory First_Program imports Processes begin

text \<open>
  From \<^verbatim>\<open>kmain\<close> to the first program: the switch to user mode, and \<^verbatim>\<open>init\<close> of \<^verbatim>\<open>kernel/main.c\<close> as the program it is,
  making its calls through the stubs.
\<close>

unbundle bit_operations_syntax

section \<open>The program\<close>

text \<open>
  \<open>path\<close> and \<open>str\<close> are the literals \<^verbatim>\<open>"/abc"\<close> and \<^verbatim>\<open>"hello, filesystem!"\<close>; \<^verbatim>\<open>strlen\<close> and \<^verbatim>\<open>assert\<close> run in user mode.
  What is printed is left out. The value is the machine the program spins on.
\<close>

definition init_calls :: "'e ports \<Rightarrow> u32 \<Rightarrow> u32 \<Rightarrow> addr_t \<Rightarrow> addr_t \<Rightarrow> 'e machine \<Rightarrow> 'e machine res" where
  "init_calls io ret left path str m =
     bindr (user_call io ret left (syscall2 NR_open path (of_int O_CREAT)) m) (\<lambda>(fd, m).
     if fd \<noteq> - 1
     then bindr (user_call io ret left (syscall3 NR_lseek fd 0 (of_int SEEK_END)) m) (\<lambda>(_, m).
          bindr (strlen (umem (fsys (kern m))) str) (\<lambda>n.
          bindr (user_call io ret left (syscall3 NR_write fd str (n + 1)) m) (\<lambda>(ret', m).
          bindr (strlen (umem (fsys (kern m))) str) (\<lambda>n.
          assertr (ret' = n + 1)
          (bindr (user_call io ret left (syscall1 NR_close fd) m) (\<lambda>(_, m). Inr m))))))
     else Inr m)"

section \<open>Calls through the stubs\<close>

text \<open>The file system as the current task of a machine sees it: with that task's file table.\<close>

definition task_fs :: "u32 \<Rightarrow> 'e machine \<Rightarrow> 'e fs \<Rightarrow> bool" where
  "task_fs ret m s \<longleftrightarrow> machine_ok ret m \<and>
     (\<exists>t. tasks (ksched (kern m)) (current_of m) = Some t \<and> s = (fsys (kern m))\<lparr>filps := task.filp t\<rparr>)"

lemma task_fs_umem: "task_fs ret m s \<Longrightarrow> umem (fsys (kern m)) = umem s"
  by (auto simp: task_fs_def)

text \<open>Both stop alike, or the stub's result in \<^verbatim>\<open>eax\<close> is the routine's.\<close>

definition answers :: "u32 \<Rightarrow> int \<times> 'e fs \<Rightarrow> u32 \<times> 'e machine \<Rightarrow> bool" where
  "answers ret = (\<lambda>(v, g) (w, m). w = of_int v \<and> task_fs ret m g)"

lemma sim_bindr:
  "rel_sum (=) R r r' \<Longrightarrow> (\<And>x y. R x y \<Longrightarrow> rel_sum (=) S (f x) (g y)) \<Longrightarrow> rel_sum (=) S (bindr r f) (bindr r' g)"
  by (cases r; cases r') auto

lemma sim_assertr: "rel_sum (=) S k k' \<Longrightarrow> rel_sum (=) S (assertr b k) (assertr b k')"
  by (cases b) auto

lemma call_through_stub:
  assumes "task_fs ret m s" and "(n, f) \<in> set file_calls"
  shows "rel_sum (=) (answers ret) (file_syscall io f (a, b, c) s) (user_call io ret left (syscall3 n a b c) m)"
proof -
  from assms(1) obtain t where ok: "machine_ok ret m" and t: "tasks (ksched (kern m)) (current_of m) = Some t"
    and s: "s = (fsys (kern m))\<lparr>filps := task.filp t\<rparr>" by (auto simp: task_fs_def)
  let ?r = "syscall3 n a b c (cpu m)"
  have r: "r_eax ?r = n" "r_ebx ?r = a" "r_ecx ?r = b" "r_edx ?r = c" by (simp_all add: syscall3_def)
  from file_calls_slots [OF assms(2)] have f: "unat (r_eax ?r) < length syscall_table"
    "syscall_table ! unat (r_eax ?r) = Some f" "f \<noteq> Do_fork" unfolding r by blast+
  from file_user_call [OF ok t, of ?r "syscall3 n a b c" f io left, OF refl f] show ?thesis
    unfolding r s by (fastforce simp: task_fs_def answers_def split: sum.splits)
qed

text \<open>The same for the stubs with fewer arguments, whose further arguments are what the registers hold.\<close>

lemma stub_calls:
  "user_call io ret left (syscall1 n a) m = user_call io ret left (syscall3 n a (r_ecx (cpu m)) (r_edx (cpu m))) m"
  "user_call io ret left (syscall2 n a b) m = user_call io ret left (syscall3 n a b (r_edx (cpu m))) m"
  by (simp_all add: user_call_def short_stubs [where r = "cpu m"])

lemma sys_open_mode: "sys_open io path flags mode s = sys_open io path flags 0 s"
  by (simp add: sys_open_def)

lemma free_filp_le: "free_filp s \<le> NR_MAX_OPEN"
  unfolding free_filp_def by (rule order_trans [OF length_takeWhile_le]) simp

text \<open>\<open>sys_open\<close> returns -1 or a slot of the file table.\<close>

definition yields_fd :: "(int \<times> 'e fs) res \<Rightarrow> bool" where
  "yields_fd r \<longleftrightarrow> (\<forall>fd s. r = Inr (fd, s) \<longrightarrow> fd = - 1 \<or> 0 \<le> fd \<and> fd < int NR_MAX_OPEN)"

lemma yields_fd_intros:
  "(\<And>x. yields_fd (f x)) \<Longrightarrow> yields_fd (bindr r f)"
  "yields_fd k \<Longrightarrow> yields_fd (assertr b k)"
  "(b \<Longrightarrow> yields_fd k) \<Longrightarrow> (\<not> b \<Longrightarrow> yields_fd l) \<Longrightarrow> yields_fd (if b then k else l)"
  "yields_fd (Inr (- 1, s))"
  "free_filp s' \<noteq> NR_MAX_OPEN \<Longrightarrow> yields_fd (Inr (int (free_filp s'), s))"
  using free_filp_le [of s'] by (auto simp: yields_fd_def res_Inr)

lemma yields_fd_case:
  "yields_fd k \<Longrightarrow> (\<And>d. yields_fd (l d)) \<Longrightarrow> yields_fd (case d of None \<Rightarrow> k | Some d \<Rightarrow> l d)"
  by (cases d) simp_all

lemma sys_open_fd: "yields_fd (sys_open io path flags mode s)"
  unfolding sys_open_def Let_def case_prod_unfold by (intro yields_fd_intros yields_fd_case)

lemma fd_word: "0 \<le> fd \<Longrightarrow> fd < int NR_MAX_OPEN \<Longrightarrow> sint (of_int fd :: u32) = fd \<and> (of_int fd :: u32) \<noteq> - 1"
proof -
  assume fd: "0 \<le> fd" "fd < int NR_MAX_OPEN"
  then obtain k where k: "fd = int k" "k < 10" by (auto simp: NR_MAX_OPEN_def dest: zero_le_imp_eq_int)
  then have "unat (of_nat k :: u32) = k" by (simp add: unat_of_nat)
  with k have s: "sint (of_int fd :: u32) = fd" using sint_unat [of "of_nat k :: u32"] by simp
  then have "(of_int fd :: u32) \<noteq> - 1" using fd(1) by auto
  with s show ?thesis by simp
qed

lemma file_call_numbers:
  "(NR_open, Sys_open) \<in> set file_calls" "(NR_close, Sys_close) \<in> set file_calls" "(NR_read, Sys_read) \<in> set file_calls"
  "(NR_write, Sys_write) \<in> set file_calls" "(NR_lseek, Sys_lseek) \<in> set file_calls"
  by (simp_all add: file_calls_def)

lemma flag_words: "sint (of_int O_CREAT :: u32) = O_CREAT" "sint (of_int SEEK_END :: u32) = SEEK_END"
  using sint_unat [of "1 :: u32"] sint_unat [of "3 :: u32"] by (simp_all add: O_CREAT_def SEEK_END_def)

text \<open>The calls of the program.\<close>

lemma init_open:
  assumes "task_fs ret m s"
  shows "rel_sum (=) (\<lambda>r r'. answers ret r r' \<and> (fst r = - 1 \<or> 0 \<le> fst r \<and> fst r < int NR_MAX_OPEN))
    (sys_open io path O_CREAT 0 s) (user_call io ret left (syscall2 NR_open path (of_int O_CREAT)) m)"
  using call_through_stub [OF assms file_call_numbers(1), of io path "of_int O_CREAT" "r_edx (cpu m)" left]
    sys_open_fd [of io path O_CREAT 0 s] sys_open_mode [of io path O_CREAT "sint (r_edx (cpu m))" s]
  by (auto simp: stub_calls flag_words yields_fd_def rel_sum.simps)

lemma init_file_calls:
  assumes "task_fs ret m s" and fd: "sint (fd :: u32) = k"
  shows "rel_sum (=) (answers ret) (sys_lseek k 0 SEEK_END s) (user_call io ret left (syscall3 NR_lseek fd 0 (of_int SEEK_END)) m)"
    and "rel_sum (=) (answers ret) (sys_write io k str n s) (user_call io ret left (syscall3 NR_write fd str n) m)"
    and "rel_sum (=) (answers ret) (sys_close io k s) (user_call io ret left (syscall1 NR_close fd) m)"
  using call_through_stub [OF assms(1) file_call_numbers(5), of io fd 0 "of_int SEEK_END" left]
    call_through_stub [OF assms(1) file_call_numbers(4), of io fd str n left]
    call_through_stub [OF assms(1) file_call_numbers(2), of io fd "r_ecx (cpu m)" "r_edx (cpu m)" left]
  by (simp_all add: flag_words fd stub_calls)

lemma sim_same: "(\<And>x. rel_sum (=) S (f x) (g x)) \<Longrightarrow> rel_sum (=) S (bindr r f) (bindr r g)"
  by (cases r) auto

text \<open>The program makes of the file system what its calls, one after the other, make of it.\<close>

lemma init_calls_program:
  assumes start: "task_fs ret m s"
  shows "rel_sum (=) (\<lambda>g m'. task_fs ret m' g) (init_program io path str s) (init_calls io ret left path str m)"
  unfolding init_program_def init_calls_def
proof (rule sim_bindr [OF init_open [OF start]], clarify, goal_cases)
  case (1 v g w m)
  then have w: "w = of_int v" and g: "task_fs ret m g" by (simp_all add: answers_def)
  show ?case
  proof (cases "v = - 1")
    case False
    with 1 have fd: "sint w = v" "w \<noteq> - 1" using fd_word [of v] w by auto
    have close: "rel_sum (=) (\<lambda>g m'. task_fs ret m' g) (assertr (of_int x = n + 1) (bindr (sys_close io v s) (\<lambda>(_, s). Inr s)))
        (assertr (of_int x = n + 1) (bindr (user_call io ret left (syscall1 NR_close w) m) (\<lambda>(_, m). Inr m)))"
      if "task_fs ret m s" for m s n x
      by (intro sim_assertr sim_bindr [OF init_file_calls(3) [OF that fd(1)]]) (auto simp: answers_def)
    have "rel_sum (=) (\<lambda>g m'. task_fs ret m' g)
        (bindr (sys_write io v str n s) (\<lambda>(r, s). bindr (strlen (umem s) str) (\<lambda>n.
           assertr (of_int r = n + 1) (bindr (sys_close io v s) (\<lambda>(_, s). Inr s)))))
        (bindr (user_call io ret left (syscall3 NR_write w str n) m) (\<lambda>(r, m). bindr (strlen (umem (fsys (kern m))) str) (\<lambda>n.
           assertr (r = n + 1) (bindr (user_call io ret left (syscall1 NR_close w) m) (\<lambda>(_, m). Inr m)))))"
      if "task_fs ret m s" for m s n
      by (rule sim_bindr [OF init_file_calls(2) [OF that fd(1)]])
        (auto simp: answers_def task_fs_umem intro!: sim_same close)
    then show ?thesis
      using False fd(2) by (auto simp: answers_def task_fs_umem intro!: sim_bindr [OF init_file_calls(1) [OF g fd(1)]] sim_same)
  qed (use w g in simp)
qed

section \<open>From \<^verbatim>\<open>kmain\<close> to user mode\<close>

lemma kmain_devices_ksched: "kmain_devices io raw s = Inr s' \<Longrightarrow> ksched s' = ksched s"
  by (auto simp: kmain_devices_def res_Inr Let_def on_sl_def)

lemma sched_init_state:
  assumes "sched_init io h init_task (s, table, e) = Inr (s', table', e')"
  shows "tasks s' = tasks s \<and> task_table s' = init_task # replicate 63 0 \<and> current_task s' = init_task \<and>
    switch_label s' = switch_label s"
proof -
  have "(replicate NR_TASK 0)[0 := init_task] = init_task # replicate 63 0" by (simp add: NR_TASK_def numeral_eq_Suc)
  with assms show ?thesis by (auto simp: sched_init_def set_ldt_desc_def res_Inr Let_def)
qed

text \<open>The tasks \<^verbatim>\<open>kmain\<close> leaves are those of its last step.\<close>

lemma kmain_last_step:
  assumes "kmain io raw root_name init_task s = Inr k"
  shows "\<exists>table e table' e'. sched_init io Clock_irq init_task (ksched s, table, e) = Inr (ksched k, table', e')"
proof -
  from assms obtain s1 f t table e where "kmain_devices io raw s = Inr s1"
    "sched_init io Clock_irq init_task (ksched s1, irqs s1, kdev (s1\<lparr>fsys := f\<rparr>)) = Inr (t, table, e)" "ksched k = t"
    by (auto simp: kmain_def res_Inr Let_def)
  with kmain_devices_ksched show ?thesis by metis
qed

lemma unat_add_word: "unat (add_word p n) = unat p div 65536 * 65536 + (unat p + unat n) mod 65536"
proof -
  have c: "(0xffff0000 :: u32) = push_bit 16 (mask 16)" by (simp add: mask_eq_exp_minus_1)
  have hi: "p AND 0xffff0000 = push_bit 16 (drop_bit 16 p)"
    unfolding c by (rule bit_eqI) (auto simp: bit_simps dest: bit_imp_le_length)
  have "push_bit 16 (drop_bit 16 p) AND ucast (ucast p + n :: u16) = 0"
    by (rule bit_eqI) (auto simp: bit_simps dest: bit_imp_le_length)
  then have "add_word p n = push_bit 16 (drop_bit 16 p) + ucast (ucast p + n :: u16)"
    by (simp add: add_word_def hi disjunctive_add_eq_or)
  moreover have "unat p div 65536 < 65536" using unat_lt_u32 [of p] by (simp add: div_less_iff_less_mult)
  moreover have "unat (ucast (ucast p + n :: u16) :: u32) = (unat p + unat n) mod 65536"
    by (simp add: unat_word_ariths unsigned_ucast_eq take_bit_eq_mod mod_simps)
  moreover have "unat (push_bit 16 (drop_bit 16 p)) = unat p div 65536 * 65536"
    using \<open>unat p div 65536 < 65536\<close> by (simp add: push_bit_eq_mult unat_word_ariths drop_bit_eq_div unat_div)
  ultimately show ?thesis by (simp add: unat_word_ariths)
qed

text \<open>The carry of the 16-bit addition is lost.\<close>

lemma add_word_carry: "add_word p 4096 = p + 4096 \<longleftrightarrow> unat p mod 65536 < 0xf000"
proof -
  define q r where "q = unat p div 65536" and "r = unat p mod 65536"
  have p: "unat p = q * 65536 + r" "r < 65536" "q < 65536"
    using unat_lt_u32 [of p] by (simp_all add: q_def r_def div_less_iff_less_mult)
  have "unat (add_word p 4096) = q * 65536 + (r + 4096) mod 65536"
    using p by (simp add: unat_add_word q_def [symmetric]) (simp add: mod_simps add.assoc)
  moreover have "unat (p + 4096) = (q * 65536 + (r + 4096)) mod 2 ^ 32"
    using p by (simp add: unat_word_ariths add.assoc)
  moreover have "q * 65536 + (r + 4096) mod 65536 = (q * 65536 + (r + 4096)) mod 2 ^ 32 \<longleftrightarrow> r < 0xf000"
  proof (cases "r < 0xf000")
    case False
    with p(2) have "r + 4096 = 65536 + (r - 0xf000)" "(r + 4096) mod 65536 = r - 0xf000" by (simp_all add: mod_if)
    with False p(2,3) show ?thesis by (cases "q = 65535") (simp_all add: mod_if)
  qed (use p in simp)
  ultimately show ?thesis by (simp add: r_def word_unat_eq_iff)
qed

lemma task_fs_files: "task_fs ret m g \<Longrightarrow> machine_ok ret m \<and> fsys (kern m) = g\<lparr>filps := filps (fsys (kern m))\<rparr>"
  by (cases "fsys (kern m)") (auto simp: task_fs_def)

lemma one_live: "task_table s = p # replicate 63 0 \<Longrightarrow> p \<noteq> 0 \<Longrightarrow> live_tasks s = {p}"
  by (auto simp: live_tasks_def)

lemma one_task_ok:
  assumes "task_table s = p # replicate 63 0" "current_task s = p" "p \<noteq> 0" "tasks s p = Some t"
  shows "sched_ok s"
  using assms one_live [OF assms(1,3)]
  by (auto simp: sched_ok_def NR_TASK_def nth_Cons split: nat.splits)

text \<open>The machine behind \<^verbatim>\<open>move_to_user_mode\<close>.\<close>

lemma user_mode_starts:
  assumes "sched_init io Clock_irq init_task (u, table, e) = Inr (ksched k, table', e')" and "tasks u init_task = Some t"
    and "init_task \<noteq> 0" and "switch_label u \<noteq> ret"
  obtains m where "move_to_user_mode pk k = Inr m" "fsys (kern m) = fsys k" "fs_base m = desc_base (ldt1 t)"
    "cpu m = \<lparr>r_eax = 0, r_ecx = 0, r_edx = 0, r_ebx = 0, r_ebp = 0, r_esi = 0, r_edi = 0, r_ds = 0x0f, r_es = 0x0f,
      r_eip = eip t, r_cs = 0x07, r_eflags = 0x3200, r_esp = esp t, r_ss = 0x0f\<rparr>"
    "current_of m = init_task" "tasks (ksched (kern m)) init_task = Some t"
    "machine_ok ret m \<longleftrightarrow> unat init_task mod 65536 < 0xf000" "live_of m = {init_task}"
proof -
  note k = sched_init_state [OF assms(1)]
  then have t: "tasks (ksched k) (current_task (ksched k)) = Some t" using assms(2) by simp
  then obtain m where m: "move_to_user_mode pk k = Inr m" by (simp add: move_to_user_mode_def task_at_def Let_def)
  then have mk: "kern m = k\<lparr>ksched := (ksched k)\<lparr>tss_esp0 := add_word init_task 4096, ldtr := LDT_selector (pid t)\<rparr>\<rparr>"
    "fs_base m = desc_base (ldt1 t)"
    "cpu m = \<lparr>r_eax = 0, r_ecx = 0, r_edx = 0, r_ebx = 0, r_ebp = 0, r_esi = 0, r_edi = 0, r_ds = 0x0f, r_es = 0x0f,
      r_eip = eip t, r_cs = 0x07, r_eflags = 0x3200, r_esp = esp t, r_ss = 0x0f\<rparr>"
    using t k by (auto simp: move_to_user_mode_def task_at_def Let_def)
  have s: "task_table (ksched (kern m)) = init_task # replicate 63 0" "current_of m = init_task"
    "tasks (ksched (kern m)) init_task = Some t" "switch_label (ksched (kern m)) = switch_label u"
    "tss_esp0 (ksched (kern m)) = add_word init_task 4096"
    using k assms(2) by (simp_all add: mk(1))
  have "sched_ok (ksched (kern m))" using one_task_ok s assms(3) by metis
  moreover have live: "live_of m = {init_task}" using one_live s(1) assms(3) by metis
  ultimately have ok: "machine_ok ret m \<longleftrightarrow> unat init_task mod 65536 < 0xf000"
    using s assms(4) by (simp add: machine_ok_def running_ok_def add_word_carry)
  show thesis by (rule that [OF m _ mk(2,3) s(2,3) ok live]) (simp add: mk(1))
qed

text \<open>
  C4: from \<^verbatim>\<open>kmain\<close> to the first program. When \<^verbatim>\<open>sched_init\<close>, the last step of \<^verbatim>\<open>kmain\<close>, has run, the switch to user
  mode starts the first task at its entry point with an empty stack and cleared registers. Its kernel stack is computed by an addition of 16
  bits: only when the page of the task does not reach into the next 64 KB is the machine in order, so that system calls and
  interrupts find the stack. Then the program does to the file system, through the
  stubs, exactly what its calls do one after the other, and stops where they stop.
\<close>

theorem first_program_starts:
  assumes "sched_init io Clock_irq init_task (u, table, e) = Inr (ksched k, table', e')" and "tasks u init_task = Some t"
    and "init_task \<noteq> 0" and "switch_label u \<noteq> ret"
  shows "\<exists>m. move_to_user_mode pk k = Inr m \<and> fsys (kern m) = fsys k \<and> fs_base m = desc_base (ldt1 t) \<and>
    cpu m = \<lparr>r_eax = 0, r_ecx = 0, r_edx = 0, r_ebx = 0, r_ebp = 0, r_esi = 0, r_edi = 0, r_ds = 0x0f, r_es = 0x0f,
      r_eip = eip t, r_cs = 0x07, r_eflags = 0x3200, r_esp = esp t, r_ss = 0x0f\<rparr> \<and>
    (machine_ok ret m \<longleftrightarrow> unat init_task mod 65536 < 0xf000) \<and>
    (machine_ok ret m \<longrightarrow> rel_sum (=) (\<lambda>g m'. machine_ok ret m' \<and> fsys (kern m') = g\<lparr>filps := filps (fsys (kern m'))\<rparr>)
       (init_program io path str ((fsys k)\<lparr>filps := task.filp t\<rparr>)) (init_calls io ret left path str m))"
proof -
  obtain m where m: "move_to_user_mode pk k = Inr m" "fsys (kern m) = fsys k" "fs_base m = desc_base (ldt1 t)"
    "cpu m = \<lparr>r_eax = 0, r_ecx = 0, r_edx = 0, r_ebx = 0, r_ebp = 0, r_esi = 0, r_edi = 0, r_ds = 0x0f, r_es = 0x0f,
      r_eip = eip t, r_cs = 0x07, r_eflags = 0x3200, r_esp = esp t, r_ss = 0x0f\<rparr>"
    "current_of m = init_task" "tasks (ksched (kern m)) init_task = Some t"
    "machine_ok ret m \<longleftrightarrow> unat init_task mod 65536 < 0xf000"
    by (rule user_mode_starts [OF assms])
  have "rel_sum (=) (\<lambda>g m'. machine_ok ret m' \<and> fsys (kern m') = g\<lparr>filps := filps (fsys (kern m'))\<rparr>)
      (init_program io path str ((fsys k)\<lparr>filps := task.filp t\<rparr>)) (init_calls io ret left path str m)" if "machine_ok ret m"
  proof -
    from that m(2,5,6) have "task_fs ret m ((fsys k)\<lparr>filps := task.filp t\<rparr>)" by (simp add: task_fs_def)
    from init_calls_program [OF this, of io path str left] show ?thesis
      by (rule sum.rel_mono_strong) (assumption | erule task_fs_files)+
  qed
  with m show ?thesis by blast
qed

theorem first_program_starts_witness:
  "\<exists>(k :: (u16 \<times> u8) list Boot.kernel) table' e' m. sched_init idle_drive Clock_irq 0x7000 (ksched zero_kernel, irqs zero_kernel, []) = Inr (ksched k, table', e') \<and>
    move_to_user_mode (\<lambda>_. Irq_stub) k = Inr m \<and> machine_ok 0x1234 m \<and> r_cs (cpu m) = 0x07"
proof -
  obtain t where t: "tasks (ksched zero_kernel) 0x7000 = Some t" by (simp add: zero_kernel_def)
  have len: "length (irqs zero_kernel) = 16" by (simp add: zero_kernel_def)
  obtain u e' where "sched_init idle_drive Clock_irq 0x7000 (ksched zero_kernel, irqs zero_kernel, []) =
      Inr (u, (irqs zero_kernel)[0 := Clock_irq], e')"
    using sched_init_up [OF t len, of idle_drive Clock_irq "[]"] by metis
  then have run: "sched_init idle_drive Clock_irq 0x7000 (ksched zero_kernel, irqs zero_kernel, []) =
      Inr (ksched (zero_kernel\<lparr>ksched := u\<rparr>), (irqs zero_kernel)[0 := Clock_irq], e')" by simp
  have label: "(0x7000 :: addr_t) \<noteq> 0" "switch_label (ksched zero_kernel) \<noteq> 0x1234" by (simp_all add: zero_kernel_def)
  note start = first_program_starts [OF run t label, where pk = "\<lambda>_. Irq_stub" and left = 0 and path = 0 and str = 0]
  obtain m where m: "move_to_user_mode (\<lambda>_. Irq_stub) (zero_kernel\<lparr>ksched := u\<rparr>) = Inr m"
    "machine_ok 0x1234 m \<longleftrightarrow> unat (0x7000 :: u32) mod 65536 < 0xf000"
    "cpu m = \<lparr>r_eax = 0, r_ecx = 0, r_edx = 0, r_ebx = 0, r_ebp = 0, r_esi = 0, r_edi = 0, r_ds = 0x0f, r_es = 0x0f,
      r_eip = eip t, r_cs = 0x07, r_eflags = 0x3200, r_esp = esp t, r_ss = 0x0f\<rparr>"
    using start by blast
  then have "machine_ok 0x1234 m" by simp
  moreover have "r_cs (cpu m) = 0x07" by (simp add: m(3))
  ultimately show ?thesis using run m(1) by blast
qed

end
