(* ===== verification/Fs_Contents.thy ===== *)
theory Fs_Contents imports Fs_Dentry begin

text \<open>
  What the file operations compute on blocks that are in the cache: reading and writing parts of
  a file, finding a directory entry, storing an inode and reading it back.
\<close>

section \<open>Parts of a block\<close>

text \<open>The cache is kept, with the same users, and the memory is now \<open>m\<close>.\<close>

definition kept :: "'e buf_state \<Rightarrow> 'e buf_state \<Rightarrow> mem \<Rightarrow> bool" where
  "kept b b' m \<longleftrightarrow> same_blocks b b' \<and> blk_ok (blk b') \<and> bmem b' = m \<and> uses b' = uses b"

lemma kept_trans: "kept b b' m \<Longrightarrow> kept b' b'' m' \<Longrightarrow> kept b b'' m'"
  by (auto simp: kept_def elim: same_blocks_trans)

lemma kept_block_in: "kept b b' m \<Longrightarrow> block_in b dev n p \<Longrightarrow> block_in b' dev n p"
  by (auto simp: kept_def elim: block_in_same)

lemma kept_data: "kept b b' m \<Longrightarrow> block_data b' p = block_data b p"
  by (simp add: kept_def same_blocks_def)

lemma kept_mem: "kept b b' m \<Longrightarrow> bmem b' = m"
  by (simp add: kept_def)

lemma kept_uses: "kept b b' m \<Longrightarrow> uses b' = uses b"
  by (simp add: kept_def)

lemma brelease_uses:
  assumes "bufs s p = Some b" "brelease io p s = Inr s'"
  shows "uses s' = (uses s)(p := uses s p - 1)"
  using brelease_shape [OF assms] assms(1) by (auto simp: uses_def upd_buf_def fun_eq_iff)

text \<open>Releasing a block that was read and changed.\<close>

lemma release_touched:
  assumes c: "block_in s dev n p" and run: "brelease io p (touched f p s) = Inr s'"
  shows "kept s s' (f (block_data s p) (bmem s))"
proof -
  obtain b where b: "bufs s p = Some b" by (rule block_inE [OF c])
  note t = touched_keeps [OF c, of f]
  note r = brelease_cached [OF t(1) run]
  obtain b' where b': "bufs (touched f p s) p = Some b'" by (rule block_inE [OF t(1)])
  have "uses (touched f p s) = (uses s)(p := uses s p + 1)"
    using b by (auto simp: touched_def uses_def upd_buf_def upd_bmem_def fun_eq_iff)
  with brelease_uses [OF b' run] have "uses s' = uses s" by (auto simp: fun_eq_iff)
  moreover have "blk_ok (blk s')" using r(1) by (simp add: block_in_def)
  ultimately show ?thesis using same_blocks_trans [OF t(2) r(2)] r(3) t(3) by (simp add: kept_def)
qed

lemma release_read:
  assumes c: "block_in s dev n p" and run: "brelease io p (upd_buf p (\<lambda>b. b\<lparr>b_count := b_count b + 1\<rparr>) s) = Inr s'"
  shows "kept s s' (bmem s)"
proof -
  let ?s1 = "upd_buf p (\<lambda>b. b\<lparr>b_count := b_count b + 1\<rparr>) s"
  obtain b where b: "bufs s p = Some b" and ok: "blk_ok (blk s)" by (rule block_inE [OF c])
  have c1: "block_in ?s1 dev n p"
    by (rule block_in_same [OF c bread_cached(2) [OF c]]) (use ok in \<open>simp add: upd_buf_def\<close>)
  note r = brelease_cached [OF c1 run]
  have "uses ?s1 = (uses s)(p := uses s p + 1)" using b by (auto simp: uses_def upd_buf_def fun_eq_iff)
  moreover obtain b' where "bufs ?s1 p = Some b'" by (rule block_inE [OF c1])
  ultimately have "uses s' = uses s" using brelease_uses [OF _ run] by (auto simp: fun_eq_iff)
  moreover have "blk_ok (blk s')" using r(1) by (simp add: block_in_def)
  ultimately show ?thesis using same_blocks_trans [OF bread_cached(2) [OF c] r(2)] r(3) by (simp add: kept_def)
qed

lemma load_block_eq:
  assumes "block_in (bc s) dev n p"
  shows "load_block io dev n off len s =
    bindr (brelease io p (upd_buf p (\<lambda>b. b\<lparr>b_count := b_count b + 1\<rparr>) (bc s))) (\<lambda>b.
      Inr (bytes_at (bmem (bc s)) (block_data (bc s) p + of_nat off) len, s\<lparr>bc := b\<rparr>))"
proof -
  obtain b where "bufs (bc s) p = Some b" by (rule block_inE [OF assms])
  then show ?thesis
    by (simp add: load_block_def fs_bread_def fs_brelease_def bread_cached(1) [OF assms] buf_at_def upd_buf_def
        block_data_def bmem_def bindr_assoc)
qed

lemma save_block_eq:
  assumes "block_in (bc s) dev n p"
  shows "save_block io dev n off bs s =
    bindr (brelease io p (touched (\<lambda>a. stored (a + of_nat off) bs) p (bc s))) (\<lambda>b. Inr (s\<lparr>bc := b\<rparr>))"
proof -
  obtain b where b: "bufs (bc s) p = Some b" by (rule block_inE [OF assms])
  then show ?thesis
    by (simp add: save_block_def fs_bread_def fs_brelease_def fs_bwrite_def bread_cached(1) [OF assms] buf_at_def
        upd_buf_def block_data_def bwrite_def touched_def upd_mem_def upd_bmem_def bmem_def)
qed

lemma load_block_step:
  assumes c: "block_in (bc s) dev n p" and run: "load_block io dev n off len s = Inr (bs, s')"
  obtains b where "s' = s\<lparr>bc := b\<rparr>" "kept (bc s) b (bmem (bc s))"
    "bs = bytes_at (bmem (bc s)) (block_data (bc s) p + of_nat off) len"
  using run release_read [OF c] by (auto simp: load_block_eq [OF c] bindr_eq_Inr)

lemma save_block_step:
  assumes c: "block_in (bc s) dev n p" and run: "save_block io dev n off bs s = Inr s'"
  obtains b where "s' = s\<lparr>bc := b\<rparr>" "kept (bc s) b (stored (block_data (bc s) p + of_nat off) bs (bmem (bc s)))"
  using run release_touched [OF c] by (auto simp: save_block_eq [OF c] bindr_eq_Inr)

text \<open>With another user the block is not written to the disk, and the sequences return.\<close>

lemma block_ops_return:
  assumes c: "block_in (bc s) dev n p" and u: "0 < uses (bc s) p"
  shows "\<exists>s'. load_block io dev n off len s = Inr (bytes_at (bmem (bc s)) (block_data (bc s) p + of_nat off) len, s')"
    "\<exists>s'. save_block io dev n off bs s = Inr s'"
proof -
  let ?s1 = "upd_buf p (\<lambda>b. b\<lparr>b_count := b_count b + 1\<rparr>) (bc s)"
  obtain b where b: "bufs (bc s) p = Some b" and ok: "blk_ok (blk (bc s))" by (rule block_inE [OF c])
  have c1: "block_in ?s1 dev n p"
    by (rule block_in_same [OF c bread_cached(2) [OF c]]) (use ok in \<open>simp add: upd_buf_def\<close>)
  have "uses ?s1 p = uses (bc s) p + 1" using b by (simp add: uses_def upd_buf_def)
  with brelease_returns [OF c1, of io] u obtain s1 where "brelease io p ?s1 = Inr s1" by auto
  then show "\<exists>s'. load_block io dev n off len s = Inr (bytes_at (bmem (bc s)) (block_data (bc s) p + of_nat off) len, s')"
    by (simp add: load_block_eq [OF c])
  note t = touched_keeps [OF c, of "\<lambda>a. stored (a + of_nat off) bs"]
  from brelease_returns [OF t(1), of io] t(4) u
  obtain s2 where "brelease io p (touched (\<lambda>a. stored (a + of_nat off) bs) p (bc s)) = Inr s2" by auto
  then show "\<exists>s'. save_block io dev n off bs s = Inr s'" by (simp add: save_block_eq [OF c])
qed

section \<open>Reading a file\<close>

text \<open>The first blocks of the file are in the buffers \<open>bl\<close>.\<close>

definition file_in :: "'e fs \<Rightarrow> addr_t \<Rightarrow> addr_t list \<Rightarrow> bool" where
  "file_in s p bl \<longleftrightarrow> i_super (inodes s p) = super_at s \<and> length bl \<le> 7
     \<and> (\<forall>k < length bl. block_in (bc s) (s_dev (super s)) (i_zone (inodes s p) ! k) (bl ! k))"

definition file_byte :: "'e fs \<Rightarrow> addr_t list \<Rightarrow> nat \<Rightarrow> u8" where
  "file_byte s bl i = bmem (bc s) (block_data (bc s) (bl ! (i div 1024)) + of_nat (i mod 1024))"

definition file_bytes :: "'e fs \<Rightarrow> addr_t list \<Rightarrow> nat \<Rightarrow> nat \<Rightarrow> u8 list" where
  "file_bytes s bl a n = map (file_byte s bl) [a..<a + n]"

lemma length_file_bytes [simp]: "length (file_bytes s bl a n) = n"
  by (simp add: file_bytes_def)

lemma file_bytes_append: "file_bytes s bl a m @ file_bytes s bl (a + m) n = file_bytes s bl a (m + n)"
  unfolding file_bytes_def by (simp only: map_append [symmetric] add.assoc [symmetric] upt_add_eq_append [of a "a + m", OF le_add1])

lemma bytes_at_zone:
  assumes "off + n \<le> 1024"
  shows "bytes_at (bmem (bc s)) (block_data (bc s) (bl ! k) + of_nat off) n = file_bytes s bl (1024 * k + off) n"
proof (rule nth_equalityI)
  fix i
  assume "i < length (bytes_at (bmem (bc s)) (block_data (bc s) (bl ! k) + of_nat off) n)"
  then have i: "i < n" by (simp add: bytes_at_def)
  with assms have "off + i < 1024" by simp
  then have "(1024 * k + off + i) div 1024 = k" "(1024 * k + off + i) mod 1024 = off + i" by (simp_all add: add.assoc)
  with i show "bytes_at (bmem (bc s)) (block_data (bc s) (bl ! k) + of_nat off) n ! i = file_bytes s bl (1024 * k + off) n ! i"
    by (simp add: bytes_at_def file_bytes_def file_byte_def algebra_simps)
qed (simp add: bytes_at_def)

lemma file_in_kept: "file_in s p bl \<Longrightarrow> kept (bc s) b m \<Longrightarrow> file_in (s\<lparr>bc := b\<rparr>) p bl"
  by (auto simp: file_in_def elim: kept_block_in)

lemma file_bytes_kept: "kept (bc s) b (bmem (bc s)) \<Longrightarrow> file_bytes (s\<lparr>bc := b\<rparr>) bl a n = file_bytes s bl a n"
  by (simp add: file_bytes_def file_byte_def kept_data kept_mem)

lemma zones_of_nonneg: "0 \<le> sz \<Longrightarrow> zones_of sz = (sz + 1023) div 1024"
  by (cases "sz + 1023 = 0") (simp_all add: zones_of_def BLOCK_SIZE_def signed_divide_int_def)

lemma zone_in_file:
  assumes "file_in s p bl" "k < length bl" "1024 * int k < i_size (inodes s p)"
  shows "zone_dev p s = Inr (s_dev (super s))" "get_zone_blk p (int k) s = Inr (i_zone (inodes s p) ! k)"
proof -
  show "zone_dev p s = Inr (s_dev (super s))" using assms by (simp add: zone_dev_def sb_at_def file_in_def)
  have "int k \<le> (i_size (inodes s p) + 1023) div 1024" "int k \<le> 6" using assms by (simp_all add: file_in_def)
  then show "get_zone_blk p (int k) s = Inr (i_zone (inodes s p) ! k)"
    using assms by (simp add: get_zone_blk_def zones_of_nonneg MAX_ZONE_def)
qed

text \<open>One step of the reading loop, when it returns and that it returns.\<close>

lemma read_zone_step:
  assumes f: "file_in s p bl" "k < length bl" "1024 * int k < i_size (inodes s p)" and n: "off + n \<le> 1024"
    and run: "bindr (zone_dev p s) (\<lambda>dev. bindr (get_zone_blk p (int k) s) (\<lambda>blk.
      bindr (load_block io dev blk off n s) (\<lambda>(bs, s). F bs s))) = Inr r"
  obtains b where "kept (bc s) b (bmem (bc s))" "F (file_bytes s bl (1024 * k + off) n) (s\<lparr>bc := b\<rparr>) = Inr r"
proof -
  have c: "block_in (bc s) (s_dev (super s)) (i_zone (inodes s p) ! k) (bl ! k)" using f by (simp add: file_in_def)
  from run zone_in_file [OF f] obtain bs s' where
    "load_block io (s_dev (super s)) (i_zone (inodes s p) ! k) off n s = Inr (bs, s')" "F bs s' = Inr r"
    by (auto simp: bindr_eq_Inr)
  with that show thesis by (auto elim!: load_block_step [OF c] simp: bytes_at_zone [OF n])
qed

lemma read_zone_returns:
  assumes f: "file_in s p bl" "k < length bl" "1024 * int k < i_size (inodes s p)" and n: "off + n \<le> 1024"
    and u: "\<forall>q \<in> set bl. 0 < uses (bc s) q"
  obtains b where "kept (bc s) b (bmem (bc s))"
    "bindr (zone_dev p s) (\<lambda>dev. bindr (get_zone_blk p (int k) s) (\<lambda>blk.
      bindr (load_block io dev blk off n s) (\<lambda>(bs, s). F bs s))) =
     F (file_bytes s bl (1024 * k + off) n) (s\<lparr>bc := b\<rparr>)"
proof -
  have c: "block_in (bc s) (s_dev (super s)) (i_zone (inodes s p) ! k) (bl ! k)" using f by (simp add: file_in_def)
  from u f(2) have "0 < uses (bc s) (bl ! k)" by simp
  from block_ops_return(1) [OF c this, of io off n] obtain s' where
    l: "load_block io (s_dev (super s)) (i_zone (inodes s p) ! k) off n s =
      Inr (file_bytes s bl (1024 * k + off) n, s')" by (auto simp: bytes_at_zone [OF n])
  obtain b where "s' = s\<lparr>bc := b\<rparr>" "kept (bc s) b (bmem (bc s))" by (rule load_block_step [OF c l])
  with l zone_in_file [OF f] that show thesis by simp
qed

lemma read_zones_0 [simp]: "read_zones io p z 0 s = Inr ([], s)"
  by (simp add: read_zones.simps)

text \<open>A rest of whole blocks, more than one, is never read: the loop asks for 0 bytes of every zone.\<close>

lemma read_zones_stuck: "left mod 1024 = 0 \<Longrightarrow> 2048 \<le> left \<Longrightarrow> read_zones io p z left s \<noteq> Inr r"
proof (induction io p z left s arbitrary: r rule: read_zones.induct)
  case (1 io p z left s)
  have "chunk left = 0" using 1(2,3) by (simp add: chunk_def BLOCK_SIZE_def)
  then show ?case using 1
    by (simp add: read_zones.simps [of io p z left s] bindr_eq_Inr)
qed

lemma read_zones_long:
  assumes "2048 \<le> left"
  shows "read_zones io p z left s \<noteq> Inr r"
proof -
  have c: "chunk left = left mod 1024" using assms by (simp add: chunk_def BLOCK_SIZE_def)
  have "(left - chunk left) mod 1024 = 0" "2048 \<le> left - chunk left"
    using assms div_le_mono [OF assms, of 1024] unfolding c by (simp_all add: minus_mod_eq_mult_div)
  from read_zones_stuck [OF this, of io p] assms show ?thesis
    by (auto simp: read_zones.simps [of io p z left] bindr_eq_Inr)
qed

definition in_first :: "nat \<Rightarrow> nat \<Rightarrow> nat" where
  "in_first a n = min n (1024 - a mod 1024)"

lemma read_file_eq:
  assumes "p \<noteq> 0" "int (a + n) \<le> i_size (inodes s p)"
  shows "read_file io p (int a) (int n) s =
    bindr (zone_dev p s) (\<lambda>dev. bindr (get_zone_blk p (int (a div 1024)) s) (\<lambda>blk.
      bindr (load_block io dev blk (a mod 1024) (in_first a n) s) (\<lambda>(bs, s).
      bindr (read_zones io p (int (Suc (a div 1024))) (n - in_first a n) s) (\<lambda>(rest, s).
      Inr ((int n, bs @ rest), s)))))"
  using assms by (simp add: read_file_def at_def BLOCK_SIZE_def in_first_def Let_def zdiv_int nat_add_distrib add.commute)

text \<open>The rest after the first block begins a block and lies in the file.\<close>

lemma in_first_le [simp]: "in_first a n \<le> n"
  by (simp add: in_first_def)

lemma in_first_block: "a mod 1024 + in_first a n \<le> 1024"
proof -
  have "a mod 1024 < 1024" by simp
  then show ?thesis unfolding in_first_def by linarith
qed

lemma in_first_rest:
  assumes "in_first a n < n"
  shows "a + in_first a n = 1024 * Suc (a div 1024)"
proof -
  have "a mod 1024 < 1024" by simp
  then have "in_first a n = 1024 - a mod 1024" using assms by (simp add: in_first_def)
  moreover have "a = 1024 * (a div 1024) + a mod 1024" by simp
  ultimately show ?thesis using \<open>a mod 1024 < 1024\<close> unfolding mult_Suc_right by linarith
qed

lemma in_first_start: "1024 * (a div 1024) + a mod 1024 = (a :: nat)"
  by simp

lemma zone_bound:
  assumes "i < m" "int m \<le> sz" "sz \<le> 1024 * int l"
  shows "i div 1024 < l" "1024 * int (i div 1024) < sz"
proof -
  have "1024 * (i div 1024) \<le> i" by simp
  with assms show "1024 * int (i div 1024) < sz" "i div 1024 < l" by linarith+
qed

text \<open>The zones after the first, in the two cases in which the loop ends.\<close>

lemma read_zones_one:
  assumes f: "file_in s p bl" "k < length bl" "1024 * int k < i_size (inodes s p)" and n: "0 < n" "n \<le> 1024"
    and run: "read_zones io p (int k) n s = Inr (bs, s')"
  obtains b where "s' = s\<lparr>bc := b\<rparr>" "kept (bc s) b (bmem (bc s))" "bs = file_bytes s bl (1024 * k) n"
proof -
  have c: "chunk n = n" using n by (simp add: chunk_def BLOCK_SIZE_def)
  have n': "0 + n \<le> 1024" using n by simp
  show thesis
    by (rule read_zone_step [OF f n' run [unfolded read_zones.simps [of io p "int k" n s] c, unfolded if_P [OF n(1)]]])
      (auto intro!: that)
qed

lemma read_zones_last:
  assumes "0 < n" "n \<le> 1024"
  shows "read_zones io p z n s = bindr (zone_dev p s) (\<lambda>dev. bindr (get_zone_blk p z s) (\<lambda>blk.
      bindr (load_block io dev blk 0 n s) (\<lambda>(bs, s). Inr (bs, s))))"
proof -
  have "chunk n = n" using assms by (simp add: chunk_def BLOCK_SIZE_def)
  then show ?thesis using assms by (simp add: read_zones.simps [of io p z n])
qed

lemma read_zones_two:
  assumes f: "file_in s p bl" "Suc k < length bl" "1024 * int (Suc k) < i_size (inodes s p)" and n: "1024 < n" "n < 2048"
    and run: "read_zones io p (int k) n s = Inr (bs, s')"
  obtains b where "s' = s\<lparr>bc := b\<rparr>" "kept (bc s) b (bmem (bc s))"
    "bs = file_bytes s bl (1024 * k) (n - 1024) @ file_bytes s bl (1024 * Suc k) 1024"
proof -
  have "n mod 1024 = n - 1024" using n by (simp add: mod_if)
  then have c: "chunk n = n - 1024" "n - chunk n = 1024" using n by (simp_all add: chunk_def BLOCK_SIZE_def)
  have n': "0 + (n - 1024) \<le> 1024" "0 < n" using n by simp_all
  have f': "k < length bl" "1024 * int k < i_size (inodes s p)" using f by simp_all
  note run' = run [unfolded read_zones.simps [of io p "int k" n s] c, unfolded if_P [OF n'(2)]]
  obtain b rest where b: "kept (bc s) b (bmem (bc s))"
    and r: "read_zones io p (int (Suc k)) 1024 (s\<lparr>bc := b\<rparr>) = Inr (rest, s')"
    and bs: "bs = file_bytes s bl (1024 * k) (n - 1024) @ rest"
    by (rule read_zone_step [OF f(1) f' n'(1) run']) (use n in \<open>auto simp: bindr_eq_Inr add.commute\<close>)
  show thesis
  proof (rule read_zones_one [OF file_in_kept [OF f(1) b] f(2) _ _ _ r])
    fix b'
    assume "s' = s\<lparr>bc := b\<rparr>\<lparr>bc := b'\<rparr>" "kept (bc (s\<lparr>bc := b\<rparr>)) b' (bmem (bc (s\<lparr>bc := b\<rparr>)))"
      "rest = file_bytes (s\<lparr>bc := b\<rparr>) bl (1024 * Suc k) 1024"
    with b bs show thesis by (intro that [of b']) (auto simp: file_bytes_kept kept_mem elim: kept_trans)
  qed (use f in simp_all)
qed

text \<open>The number of bytes after the first block, and what the buffer gets in the cases that return.\<close>

definition read_bytes :: "'e fs \<Rightarrow> addr_t list \<Rightarrow> nat \<Rightarrow> nat \<Rightarrow> u8 list" where
  "read_bytes s bl a n =
     (let rest = n - in_first a n; start = a + in_first a n in
      if rest \<le> 1024 then file_bytes s bl a n
      else file_bytes s bl a (in_first a n) @ file_bytes s bl start (rest - 1024) @ file_bytes s bl (start + 1024) 1024)"

lemma read_file_step:
  assumes f: "file_in s p bl" "p \<noteq> 0" "0 < n" "int (a + n) \<le> i_size (inodes s p)" "i_size (inodes s p) \<le> 1024 * int (length bl)"
    and run: "read_file io p (int a) (int n) s = Inr ((r, bs), s')"
  obtains b where "s' = s\<lparr>bc := b\<rparr>" "kept (bc s) b (bmem (bc s))" "r = int n" "bs = read_bytes s bl a n"
    "n - in_first a n < 2048"
proof -
  let ?k = "a div 1024" and ?m = "in_first a n"
  have z: "?k < length bl" "1024 * int ?k < i_size (inodes s p)"
    using zone_bound [of a "a + n", OF _ f(4,5)] f(3) by simp_all
  obtain b rest where b: "kept (bc s) b (bmem (bc s))" and r: "r = int n" "bs = file_bytes s bl a ?m @ rest"
    and zs: "read_zones io p (int (Suc ?k)) (n - ?m) (s\<lparr>bc := b\<rparr>) = Inr (rest, s')"
    using run unfolding read_file_eq [OF f(2,4)]
    by (rule read_zone_step [OF f(1) z in_first_block]) (auto simp: bindr_eq_Inr)
  have same: "read_bytes (s\<lparr>bc := b\<rparr>) bl a n = read_bytes s bl a n"
    by (simp add: read_bytes_def Let_def file_bytes_kept [OF b])
  consider "n = ?m" | "?m < n" "n - ?m \<le> 1024" | "1024 < n - ?m" "n - ?m < 2048" | "2048 \<le> n - ?m"
    using in_first_le [of a n] by linarith
  then show thesis
  proof cases
    case 1
    then have "file_bytes s bl a ?m @ rest = read_bytes s bl a n" "s' = s\<lparr>bc := b\<rparr>"
      using zs by (simp_all add: read_bytes_def Let_def)
    with 1 b r show thesis by (intro that) simp_all
  next
    case 2
    note s = in_first_rest [OF 2(1)]
    have z2: "Suc ?k < length bl" "1024 * int (Suc ?k) < i_size (inodes s p)"
      using zone_bound [of "1024 * Suc ?k" "a + n", OF _ f(4,5)] 2(1) s by (simp_all del: mult_Suc_right)
    obtain b' where b': "s' = s\<lparr>bc := b\<rparr>\<lparr>bc := b'\<rparr>" "kept (bc (s\<lparr>bc := b\<rparr>)) b' (bmem (bc (s\<lparr>bc := b\<rparr>)))"
      "rest = file_bytes (s\<lparr>bc := b\<rparr>) bl (1024 * Suc ?k) (n - ?m)"
      by (rule read_zones_one [OF file_in_kept [OF f(1) b] z2(1) _ _ 2(2) zs]) (use z2 2(1) in simp_all)
    have "bs = read_bytes s bl a n"
      using 2 b'(3) file_bytes_append [of s bl a ?m "n - ?m"]
      by (simp add: r(2) read_bytes_def Let_def file_bytes_kept [OF b] s)
    with 2 b b' r show thesis by (intro that [of b']) (auto simp: kept_mem elim: kept_trans)
  next
    case 3
    then have "?m < n" by simp
    note s = in_first_rest [OF this]
    have e: "1024 * Suc (Suc ?k) < a + n" using 3 s by simp
    have z2: "Suc (Suc ?k) < length bl" "1024 * int (Suc (Suc ?k)) < i_size (inodes s p)"
      using zone_bound [of "1024 * Suc (Suc ?k)" "a + n", OF e f(4,5)] by (simp_all del: mult_Suc_right)
    obtain b' where b': "s' = s\<lparr>bc := b\<rparr>\<lparr>bc := b'\<rparr>" "kept (bc (s\<lparr>bc := b\<rparr>)) b' (bmem (bc (s\<lparr>bc := b\<rparr>)))"
      "rest = file_bytes (s\<lparr>bc := b\<rparr>) bl (1024 * Suc ?k) (n - ?m - 1024) @ file_bytes (s\<lparr>bc := b\<rparr>) bl (1024 * Suc (Suc ?k)) 1024"
      by (rule read_zones_two [OF file_in_kept [OF f(1) b] z2(1) _ 3 zs]) (use z2 in simp_all)
    have "bs = read_bytes s bl a n"
      using 3 b'(3) by (simp add: r(2) read_bytes_def Let_def file_bytes_kept [OF b] s algebra_simps)
    with 3 b b' r show thesis by (intro that [of b']) (auto simp: kept_mem elim: kept_trans)
  next
    case 4
    from read_zones_long [OF this] zs have False by blast
    then show thesis ..
  qed
qed

lemma read_file_returns:
  assumes f: "file_in s p bl" "p \<noteq> 0" "0 < n" "int (a + n) \<le> i_size (inodes s p)" "i_size (inodes s p) \<le> 1024 * int (length bl)"
    and u: "\<forall>q \<in> set bl. 0 < uses (bc s) q" and n: "n - in_first a n \<le> 1024"
  shows "\<exists>r. read_file io p (int a) (int n) s = Inr r"
proof -
  let ?k = "a div 1024" and ?m = "in_first a n"
  have z: "?k < length bl" "1024 * int ?k < i_size (inodes s p)"
    using zone_bound [of a "a + n", OF _ f(4,5)] f(3) by simp_all
  let ?F = "\<lambda>bs s. bindr (read_zones io p (int (Suc ?k)) (n - ?m) s) (\<lambda>(rest, s). Inr ((int n, bs @ rest), s))"
  obtain b where b: "kept (bc s) b (bmem (bc s))"
    and eq: "read_file io p (int a) (int n) s = ?F (file_bytes s bl (1024 * ?k + a mod 1024) ?m) (s\<lparr>bc := b\<rparr>)"
    unfolding read_file_eq [OF f(2,4)] by (rule read_zone_returns [OF f(1) z in_first_block u, where F = ?F])
  show ?thesis
  proof (cases "?m < n")
    case True
    note s = in_first_rest [OF True]
    have z2: "Suc ?k < length bl" "1024 * int (Suc ?k) < i_size (inodes s p)"
      using zone_bound [of "1024 * Suc ?k" "a + n", OF _ f(4,5)] True s by (simp_all del: mult_Suc_right)
    have "\<exists>r. read_zones io p (int (Suc ?k)) (n - ?m) (s\<lparr>bc := b\<rparr>) = Inr r"
      unfolding read_zones_last [OF zero_less_diff [THEN iffD2, OF True] n]
      by (rule read_zone_returns [OF file_in_kept [OF f(1) b] z2(1), where off = 0 and F = "\<lambda>bs s. Inr (bs, s)" and io = io])
        (use z2 n u kept_uses [OF b] in auto)
    then show ?thesis unfolding eq by auto
  qed (auto simp: eq)
qed

section \<open>Writing a file\<close>

text \<open>Buffers whose blocks do not overlap.\<close>

definition apart :: "'e buf_state \<Rightarrow> addr_t list \<Rightarrow> bool" where
  "apart b ps \<longleftrightarrow> distinct ps \<and> (\<forall>p \<in> set ps. \<forall>q \<in> set ps. p \<noteq> q \<longrightarrow>
     (\<forall>i < 1024. \<forall>j < 1024. block_data b p + of_nat i \<noteq> block_data b q + of_nat j))"

lemma apart_kept: "kept b b' m \<Longrightarrow> apart b' ps = apart b ps"
  by (simp add: apart_def kept_data)

lemma stored_in_block:
  assumes "off + length bs \<le> 1024" "i < 1024"
  shows "stored (d + of_nat off) bs m (d + of_nat i) =
    (if off \<le> i \<and> i < off + length bs then bs ! (i - off) else m (d + of_nat i))"
proof -
  have e: "d + of_nat i - (d + of_nat off) = (of_nat i - of_nat off :: addr_t)" by simp
  have u: "unat (of_nat i :: addr_t) = i" "unat (of_nat off :: addr_t) = off"
    using assms by (simp_all add: unsigned_of_nat take_bit_nat_eq_self)
  have "unat (of_nat i - of_nat off :: addr_t) = (if off \<le> i then i - off else i + 2 ^ 32 - off)"
    by (simp add: unat_sub_if' u)
  then show ?thesis using assms unfolding stored_def e by auto
qed

lemma stored_elsewhere:
  assumes "\<And>i. i < length bs \<Longrightarrow> a \<noteq> p + of_nat i"
  shows "stored p bs m a = m a"
proof -
  have "a = p + of_nat (unat (a - p))" by simp
  with assms have "\<not> unat (a - p) < length bs" by metis
  then show ?thesis by (simp add: stored_def)
qed

lemma stored_other_block:
  assumes "apart b ps" "p \<in> set ps" "q \<in> set ps" "p \<noteq> q" "off + length bs \<le> 1024" "i < 1024"
  shows "stored (block_data b p + of_nat off) bs m (block_data b q + of_nat i) = m (block_data b q + of_nat i)"
proof (rule stored_elsewhere)
  fix j
  assume "j < length bs"
  then have "off + j < 1024" using assms(5) by simp
  with assms have "block_data b p + of_nat (off + j) \<noteq> block_data b q + of_nat i" unfolding apart_def by blast
  then show "block_data b q + of_nat i \<noteq> block_data b p + of_nat off + of_nat j" by (simp add: add.assoc)
qed

lemma file_byte_saved:
  assumes ap: "apart (bc s) bl" and k: "k < length bl" and n: "off + length bs \<le> 1024" and i: "i < 1024 * length bl"
    and b: "kept (bc s) b (stored (block_data (bc s) (bl ! k) + of_nat off) bs (bmem (bc s)))"
  shows "file_byte (s\<lparr>bc := b\<rparr>) bl i =
    (if 1024 * k + off \<le> i \<and> i < 1024 * k + off + length bs then bs ! (i - (1024 * k + off)) else file_byte s bl i)"
proof -
  have ik: "i div 1024 < length bl" using i by simp
  have i': "i = 1024 * (i div 1024) + i mod 1024" "i mod 1024 < 1024" by simp_all
  show ?thesis
  proof (cases "i div 1024 = k")
    case True
    with i' have "i = 1024 * k + i mod 1024" by simp
    then have "1024 * k + off \<le> i \<longleftrightarrow> off \<le> i mod 1024"
      "i < 1024 * k + off + length bs \<longleftrightarrow> i mod 1024 < off + length bs"
      "i - (1024 * k + off) = i mod 1024 - off" by linarith+
    with stored_in_block [OF n i'(2), of "block_data (bc s) (bl ! k)" "bmem (bc s)"] True show ?thesis
      by (simp add: file_byte_def kept_data [OF b] kept_mem [OF b])
  next
    case False
    have d: "bl ! k \<noteq> bl ! (i div 1024)" using False ik k ap by (auto simp: apart_def nth_eq_iff_index_eq)
    have "\<not> (1024 * k + off \<le> i \<and> i < 1024 * k + off + length bs)"
    proof
      assume "1024 * k + off \<le> i \<and> i < 1024 * k + off + length bs"
      with n have "1024 * k \<le> i" "i < 1024 * Suc k" by simp_all
      with False show False by (simp add: div_nat_eqI)
    qed
    with stored_other_block [OF ap _ _ d n i'(2), of "bmem (bc s)"] k ik show ?thesis
      by (auto simp: file_byte_def kept_data [OF b] kept_mem [OF b])
  qed
qed

lemma write_zone_step:
  assumes f: "file_in s p bl" "k < length bl" "1024 * int k < i_size (inodes s p)"
    and run: "bindr (zone_dev p s) (\<lambda>dev. bindr (get_zone_blk p (int k) s) (\<lambda>blk.
      bindr (save_block io dev blk off bs s) F)) = Inr r"
  obtains b where "kept (bc s) b (stored (block_data (bc s) (bl ! k) + of_nat off) bs (bmem (bc s)))"
    "F (s\<lparr>bc := b\<rparr>) = Inr r"
proof -
  have c: "block_in (bc s) (s_dev (super s)) (i_zone (inodes s p) ! k) (bl ! k)" using f by (simp add: file_in_def)
  from run zone_in_file [OF f] obtain s' where
    "save_block io (s_dev (super s)) (i_zone (inodes s p) ! k) off bs s = Inr s'" "F s' = Inr r"
    by (auto simp: bindr_eq_Inr)
  with that show thesis by (auto elim!: save_block_step [OF c])
qed

lemma write_zone_returns:
  assumes f: "file_in s p bl" "k < length bl" "1024 * int k < i_size (inodes s p)"
    and u: "\<forall>q \<in> set bl. 0 < uses (bc s) q"
  obtains b where "kept (bc s) b (stored (block_data (bc s) (bl ! k) + of_nat off) bs (bmem (bc s)))"
    "bindr (zone_dev p s) (\<lambda>dev. bindr (get_zone_blk p (int k) s) (\<lambda>blk.
      bindr (save_block io dev blk off bs s) F)) = F (s\<lparr>bc := b\<rparr>)"
proof -
  have c: "block_in (bc s) (s_dev (super s)) (i_zone (inodes s p) ! k) (bl ! k)" using f by (simp add: file_in_def)
  from u f(2) have "0 < uses (bc s) (bl ! k)" by simp
  from block_ops_return(2) [OF c this, of io off bs] obtain s' where
    l: "save_block io (s_dev (super s)) (i_zone (inodes s p) ! k) off bs s = Inr s'" by auto
  obtain b where "s' = s\<lparr>bc := b\<rparr>" "kept (bc s) b (stored (block_data (bc s) (bl ! k) + of_nat off) bs (bmem (bc s)))"
    by (rule save_block_step [OF c l])
  with l zone_in_file [OF f] that show thesis by simp
qed

section \<open>The inode table\<close>

text \<open>The block of the inode map and the block of an inode's record are in the buffers \<open>pm\<close> and \<open>pt\<close>.\<close>

definition inode_in :: "'e fs \<Rightarrow> u32 \<Rightarrow> addr_t \<Rightarrow> addr_t \<Rightarrow> bool" where
  "inode_in s inum pm pt \<longleftrightarrow> s_imap_count (super s) = 1
     \<and> block_in (bc s) (s_dev (super s)) (s_imap_start (super s)) pm
     \<and> block_in (bc s) (s_dev (super s)) (inode_blknr (super s) inum) pt"

lemma inode_in_kept: "inode_in s inum pm pt \<Longrightarrow> kept (bc s) b m \<Longrightarrow> inode_in (s\<lparr>bc := b\<rparr>) inum pm pt"
  by (auto simp: inode_in_def elim: kept_block_in)

lemma bitmap_test_eq:
  assumes c: "block_in s dev start p" and n: "0 \<le> n" "n < 4096"
  shows "bitmap_test io dev start (start + 1) n s =
    bindr (brelease io p (upd_buf p (\<lambda>b. b\<lparr>b_count := b_count b + 1\<rparr>) s))
      (\<lambda>s'. Inr (if nat n \<in> used_bits s p then 1 else 0, s'))"
proof -
  obtain b where "bufs s p = Some b" by (rule block_inE [OF c])
  with n bread_cached(1) [OF c, of io] show ?thesis
    by (simp add: bitmap_test_def SECTOR_BITS_def SECTOR_SIZE_def buf_at_def upd_buf_def block_data_def
        bmem_def test_bit_set used_bits_def)
qed

lemma test_inode_step:
  assumes c: "inode_in s inum pm pt" and run: "test_inode_nr io (super_at s) n s = Inr (t, s')"
  obtains b where "s' = s\<lparr>bc := b\<rparr>" "kept (bc s) b (bmem (bc s))" "t = (if nat n \<in> used_bits (bc s) pm then 1 else 0)"
proof -
  have c': "block_in (bc s) (s_dev (super s)) (s_imap_start (super s)) pm" "s_imap_count (super s) = 1"
    using c by (simp_all add: inode_in_def)
  from run obtain b where t: "bitmap_test io (s_dev (super s)) (s_imap_start (super s)) (s_imap_start (super s) + 1) n (bc s) = Inr (t, b)"
    and s': "s' = s\<lparr>bc := b\<rparr>"
    by (auto simp: test_inode_nr_def sb_at_def on_buf_def bindr_eq_Inr c'(2))
  note n = bitmap_test_step(1,2) [OF c'(1) t]
  with t release_read [OF c'(1)] s' that show thesis by (auto simp: bitmap_test_eq [OF c'(1) n] bindr_eq_Inr)
qed

lemma write_inode_step:
  assumes c: "inode_in s (i_inum (inodes s p)) pm pt" and run: "write_inode io p s = Inr s'"
  obtains b where "s' = s\<lparr>bc := b\<rparr>"
    "kept (bc s) b (stored (block_data (bc s) pt + of_nat (inode_blkoff (i_inum (inodes s p)))) (inode_bytes p s) (bmem (bc s)))"
    "p \<noteq> 0" "i_inum (inodes s p) \<noteq> 0" "i_super (inodes s p) = super_at s"
    "nat (sint (i_inum (inodes s p))) \<in> used_bits (bc s) pm"
proof -
  let ?inum = "i_inum (inodes s p)"
  from run obtain t s1 where a: "p \<noteq> 0" "?inum \<noteq> 0" "i_super (inodes s p) = super_at s"
    and t: "test_inode_nr io (super_at s) (sint ?inum) s = Inr (t, s1)" "t \<noteq> 0"
    and w: "save_block io (s_dev (super s1)) (inode_blknr (super s1) ?inum) (inode_blkoff ?inum) (inode_bytes p s1) s1 = Inr s'"
    by (auto simp: write_inode_def Let_def assertr_eq_Inr bindr_eq_Inr split: if_splits)
  obtain b where b: "s1 = s\<lparr>bc := b\<rparr>" "kept (bc s) b (bmem (bc s))" "nat (sint ?inum) \<in> used_bits (bc s) pm"
    by (rule test_inode_step [OF c t(1)], rule that) (use t(2) in \<open>auto split: if_splits\<close>)
  have c1: "block_in (bc s1) (s_dev (super s1)) (inode_blknr (super s1) ?inum) pt"
    using inode_in_kept [OF c b(2)] by (simp add: b(1) inode_in_def)
  have e: "inode_bytes p s1 = inode_bytes p s" by (simp add: b(1) inode_bytes_def)
  show thesis
    by (rule save_block_step [OF c1 w], rule that)
      (use a b in \<open>auto simp: kept_data kept_mem e [unfolded b(1)] intro: kept_trans\<close>)
qed

lemma write_inode_returns:
  assumes c: "inode_in s (i_inum (inodes s p)) pm pt" and u: "0 < uses (bc s) pm" "0 < uses (bc s) pt"
    and a: "p \<noteq> 0" "i_inum (inodes s p) \<noteq> 0" "i_super (inodes s p) = super_at s"
    and n: "0 \<le> sint (i_inum (inodes s p))" "sint (i_inum (inodes s p)) < 4096"
      "nat (sint (i_inum (inodes s p))) \<in> used_bits (bc s) pm"
  shows "\<exists>s'. write_inode io p s = Inr s'"
proof -
  let ?inum = "i_inum (inodes s p)"
  have c': "block_in (bc s) (s_dev (super s)) (s_imap_start (super s)) pm" "s_imap_count (super s) = 1"
    using c by (simp_all add: inode_in_def)
  from bitmap_ops_return(2) [OF c'(1) n(1,2) u(1), of io] obtain t b where
    t: "bitmap_test io (s_dev (super s)) (s_imap_start (super s)) (s_imap_start (super s) + 1) (sint ?inum) (bc s) = Inr (t, b)"
    by auto
  then have t': "test_inode_nr io (super_at s) (sint ?inum) s = Inr (t, s\<lparr>bc := b\<rparr>)"
    by (simp add: test_inode_nr_def sb_at_def on_buf_def c'(2))
  obtain b' where b': "s\<lparr>bc := b\<rparr> = s\<lparr>bc := b'\<rparr>" "kept (bc s) b' (bmem (bc s))" "t = 1"
    by (rule test_inode_step [OF c t'], rule that) (use n(3) in simp_all)
  from arg_cong [OF b'(1), where f = bc] have "b = b'" by simp
  with b' have b: "kept (bc s) b (bmem (bc s))" "t = 1" by simp_all
  have c1: "block_in b (s_dev (super s)) (inode_blknr (super s) ?inum) pt"
    using inode_in_kept [OF c b(1)] by (simp add: inode_in_def)
  have u1: "0 < uses b pt" using u(2) kept_uses [OF b(1)] by simp
  from block_ops_return(2) [of "s\<lparr>bc := b\<rparr>", simplified, OF c1 u1] t' a b(2) show ?thesis
    by (simp add: write_inode_def Let_def)
qed

lemma inode_blkoff_le: "inode_blkoff inum + 72 \<le> 1024"
proof -
  have "unat inum mod 14 \<le> 13" by simp
  then have "unat inum mod 14 * 72 \<le> 13 * 72" by (rule mult_le_mono1)
  then show ?thesis by (simp add: inode_blkoff_def inode_per_blk_def sizeof_inode_def BLOCK_SIZE_def)
qed

lemma length_inode_bytes: "length (i_zone (inodes s p)) = 9 \<Longrightarrow> length (inode_bytes p s) = 72"
  by (simp add: inode_bytes_def Let_def enc32_def enc16_def length_concat comp_def sum_list_triv)

section \<open>What a write leaves in the file\<close>

lemma write_zones_Nil [simp]: "write_zones io p z [] = Inr"
  by (rule ext) (simp add: write_zones.simps)

lemma write_zones_last:
  assumes "bs \<noteq> []" "length bs \<le> 1024"
  shows "write_zones io p z bs s = bindr (zone_dev p s) (\<lambda>dev. bindr (get_zone_blk p z s) (\<lambda>blk.
      bindr (save_block io dev blk 0 bs s) Inr))"
proof -
  have "chunk (length bs) = length bs" using assms by (simp add: chunk_def BLOCK_SIZE_def)
  then show ?thesis using assms by (simp add: write_zones.simps [of io p z bs])
qed

text \<open>The blocks of the file, all of them in the cache, and its record.\<close>

definition whole_file :: "'e fs \<Rightarrow> addr_t \<Rightarrow> addr_t list \<Rightarrow> addr_t \<Rightarrow> addr_t \<Rightarrow> bool" where
  "whole_file s p bl pm pt \<longleftrightarrow> file_in s p bl \<and> p \<noteq> 0 \<and> 0 \<le> i_size (inodes s p)
     \<and> zones_of (i_size (inodes s p)) = int (length bl)
     \<and> inode_in s (i_inum (inodes s p)) pm pt \<and> apart (bc s) (pt # bl) \<and> length (i_zone (inodes s p)) = 9"

lemma zone_of_file:
  assumes "0 \<le> sz" "zones_of sz = int l" "k < l"
  shows "1024 * int k < sz"
  using assms by (simp add: zones_of_nonneg)

lemma size_of_file: "0 \<le> sz \<Longrightarrow> zones_of sz = int l \<Longrightarrow> sz \<le> 1024 * int l"
  by (simp add: zones_of_nonneg)

text \<open>The first half of \<^verbatim>\<open>_write\<close>: the data.\<close>

definition write_data :: "'e ports \<Rightarrow> addr_t \<Rightarrow> nat \<Rightarrow> u8 list \<Rightarrow> 'e fs \<Rightarrow> 'e fs res" where
  "write_data io p a bs s =
    bindr (zone_dev p s) (\<lambda>dev. bindr (get_zone_blk p (int (a div 1024)) s) (\<lambda>blk.
      bindr (save_block io dev blk (a mod 1024) (take (in_first a (length bs)) bs) s) (\<lambda>s.
      write_zones io p (int (Suc (a div 1024))) (drop (in_first a (length bs)) bs) s)))"

lemma write_file_eq:
  assumes w: "whole_file s p bl pm pt" and n: "bs \<noteq> []" "a + length bs \<le> 1024 * length bl"
  shows "write_file io p (int a) bs s =
    assertr (i_inum (inodes s p) \<ge> 1)
    (bindr (write_data io p a bs s) (\<lambda>s.
     let s = (if (of_int (i_size (inodes s p)) :: u32) < of_int (int a + int (length bs))
              then upd_inode p (\<lambda>i. i\<lparr>i_size := int a + int (length bs)\<rparr>) s else s) in
     bindr (write_inode io p s) (\<lambda>s. Inr (int (length bs), s))))"
proof -
  have "(a + length bs + 1023) div 1024 \<le> length bl" using n(2) by simp
  then have "(int a + int (length bs) + 1023) div 1024 \<le> int (length bl)" by (simp add: zdiv_int flip: of_nat_add of_nat_le_iff)
  moreover have "zones_of (i_size (inodes s p)) = int (length bl)" "p \<noteq> 0" using w by (simp_all add: whole_file_def)
  ultimately have "reserve_zone io p ((int a + int (length bs) + 1023) div 1024) False s =
      assertr (i_inum (inodes s p) \<ge> 1) (Inr (0, s))"
    by (simp add: reserve_zone_def Let_def)
  with n(1) show ?thesis
    by (simp add: write_file_def write_data_def BLOCK_SIZE_def in_first_def Let_def zdiv_int add.commute assertr_def bindr_assoc)
qed

text \<open>The bytes of the file after \<open>bs\<close> has been put at \<open>a\<close>.\<close>

definition spliced :: "nat \<Rightarrow> u8 list \<Rightarrow> (nat \<Rightarrow> u8) \<Rightarrow> nat \<Rightarrow> u8" where
  "spliced a bs g i = (if a \<le> i \<and> i < a + length bs then bs ! (i - a) else g i)"

lemma spliced_take_drop:
  "m \<le> length bs \<Longrightarrow> spliced (a + m) (drop m bs) (spliced a (take m bs) g) = spliced a bs g"
  by (rule ext) (auto simp: spliced_def)

lemma write_data_step:
  assumes w: "whole_file s p bl pm pt" and n: "bs \<noteq> []" "a + length bs \<le> 1024 * length bl"
      "length bs - in_first a (length bs) \<le> 1024"
    and run: "write_data io p a bs s = Inr s'"
  obtains b m where "s' = s\<lparr>bc := b\<rparr>" "kept (bc s) b m"
    "\<forall>i < 1024 * length bl. file_byte s' bl i = spliced a bs (file_byte s bl) i"
    "\<forall>q i. apart (bc s) (q # bl) \<longrightarrow> i < 1024 \<longrightarrow>
       m (block_data (bc s) q + of_nat i) = bmem (bc s) (block_data (bc s) q + of_nat i)"
proof -
  let ?k = "a div 1024" and ?m = "in_first a (length bs)"
  have f: "file_in s p bl" and sz: "0 \<le> i_size (inodes s p)" "zones_of (i_size (inodes s p)) = int (length bl)"
    and ap: "apart (bc s) bl" using w by (auto simp: whole_file_def apart_def)
  have k: "?k < length bl" using n by (metis add_lessD1 length_greater_0_conv less_add_same_cancel1 less_mult_imp_div_less mult.commute order_less_le_trans)
  obtain b where b: "kept (bc s) b (stored (block_data (bc s) (bl ! ?k) + of_nat (a mod 1024)) (take ?m bs) (bmem (bc s)))"
    and zs: "write_zones io p (int (Suc ?k)) (drop ?m bs) (s\<lparr>bc := b\<rparr>) = Inr s'"
    by (rule write_zone_step [OF f k zone_of_file [OF sz k] run [unfolded write_data_def]])
  have n1: "a mod 1024 + length (take ?m bs) \<le> 1024" using in_first_block [of a "length bs"] by simp
  note fb = file_byte_saved [OF ap k n1 _ b, unfolded in_first_start]
  have other: "stored (block_data (bc s) (bl ! j) + of_nat off) cs m (block_data (bc s) q + of_nat i) = m (block_data (bc s) q + of_nat i)"
    if "apart (bc s) (q # bl)" "i < 1024" "j < length bl" "off + length cs \<le> 1024" for q i j off cs and m :: mem
    by (rule stored_other_block [OF that(1) _ _ _ that(4,2)]) (use that(1,3) in \<open>auto simp: apart_def\<close>)
  have fb': "file_byte (s\<lparr>bc := b\<rparr>) bl i = spliced a (take ?m bs) (file_byte s bl) i" if "i < 1024 * length bl" for i
    using fb [OF that] by (simp add: spliced_def)
  show thesis
  proof (cases "?m < length bs")
    case False
    then have "drop ?m bs = []" "take ?m bs = bs" by simp_all
    with zs b fb' other [OF _ _ k n1] that show thesis by auto
  next
    case True
    note s = in_first_rest [OF True]
    have e: "1024 * Suc ?k < 1024 * length bl" using s n(2) True by linarith
    then have k1: "Suc ?k < length bl" by simp
    have ne: "drop ?m bs \<noteq> []" "length (drop ?m bs) \<le> 1024" using True n(3) by simp_all
    have f1: "file_in (s\<lparr>bc := b\<rparr>) p bl" by (rule file_in_kept [OF f b])
    have ap1: "apart (bc (s\<lparr>bc := b\<rparr>)) bl" using ap by (simp add: apart_kept [OF b])
    have z1: "1024 * int (Suc ?k) < i_size (inodes (s\<lparr>bc := b\<rparr>) p)" using zone_of_file [OF sz k1] by simp
    obtain b1 where b1: "kept (bc (s\<lparr>bc := b\<rparr>)) b1 (stored (block_data (bc (s\<lparr>bc := b\<rparr>)) (bl ! Suc ?k) + of_nat 0)
        (drop ?m bs) (bmem (bc (s\<lparr>bc := b\<rparr>))))" "s' = s\<lparr>bc := b\<rparr>\<lparr>bc := b1\<rparr>"
      by (rule write_zone_step [OF f1 k1 z1 zs [unfolded write_zones_last [OF ne]]]) simp
    have le: "0 + length (drop ?m bs) \<le> 1024" using ne by simp
    have "file_byte s' bl i = spliced a bs (file_byte s bl) i" if i: "i < 1024 * length bl" for i
    proof -
      have "file_byte s' bl i = spliced (a + ?m) (drop ?m bs) (file_byte (s\<lparr>bc := b\<rparr>) bl) i"
        using file_byte_saved [OF ap1 k1 le i b1(1)] s by (simp add: b1(2) spliced_def)
      also have "\<dots> = spliced (a + ?m) (drop ?m bs) (spliced a (take ?m bs) (file_byte s bl)) i"
        using fb' [OF i] by (simp add: spliced_def)
      also have "\<dots> = spliced a bs (file_byte s bl) i" by (simp add: spliced_take_drop)
      finally show ?thesis .
    qed
    with b b1 other [OF _ _ k n1] other [OF _ _ k1 le] show thesis
      by (intro that [of b1]) (auto simp: kept_data [OF b] kept_mem [OF b] elim: kept_trans)
  qed
qed

lemma zones_of_max:
  assumes "0 \<le> sz" "zones_of sz = int l" "e \<le> 1024 * int l"
  shows "zones_of (max sz e) = int l"
  using assms by (cases "sz \<le> e") (simp_all add: zones_of_nonneg max_def)

lemma less_u32_int: "0 \<le> x \<Longrightarrow> x \<le> 7168 \<Longrightarrow> 0 \<le> y \<Longrightarrow> y \<le> 7168 \<Longrightarrow> (of_int x :: u32) < of_int y \<longleftrightarrow> x < y"
  by (simp add: word_less_def uint_word_of_int)

text \<open>A write to the blocks a file has: the bytes, the size, and everything the next operation needs.\<close>

lemma write_file_step:
  assumes w: "whole_file s p bl pm pt" and n: "bs \<noteq> []" "a + length bs \<le> 1024 * length bl"
      "length bs - in_first a (length bs) \<le> 1024"
    and run: "write_file io p (int a) bs s = Inr (r, s')"
  shows "r = int (length bs)"
    "inodes s' p = (inodes s p)\<lparr>i_size := max (i_size (inodes s p)) (int a + int (length bs))\<rparr>"
    "\<forall>i < 1024 * length bl. file_byte s' bl i = spliced a bs (file_byte s bl) i"
    "whole_file s' p bl pm pt" "kept (bc s) (bc s') (bmem (bc s'))"
proof -
  let ?sz = "i_size (inodes s p)" and ?e = "int a + int (length bs)"
  have f: "file_in s p bl" and sz: "0 \<le> ?sz" "zones_of ?sz = int (length bl)" and l7: "length bl \<le> 7"
    and ii: "inode_in s (i_inum (inodes s p)) pm pt" and ap: "apart (bc s) (pt # bl)"
    using w by (auto simp: whole_file_def file_in_def)
  have e: "?e \<le> 1024 * int (length bl)" using n(2) by linarith
  have cmp: "((of_int ?sz :: u32) < of_int (int a + int (length bs))) = (?sz < ?e)"
    using less_u32_int [of ?sz ?e] sz size_of_file [OF sz] e l7 by simp
  define s2 where "s2 b = upd_inode p (\<lambda>i. i\<lparr>i_size := max ?sz ?e\<rparr>) (s\<lparr>bc := b\<rparr>)" for b
  have s2: "(let t = s\<lparr>bc := b\<rparr> in if ?sz < ?e then upd_inode p (\<lambda>i. i\<lparr>i_size := ?e\<rparr>) t else t) = s2 b" for b
    by (auto simp: s2_def upd_inode_def max_def Let_def fun_eq_iff intro!: fs.equality)
  obtain b m where b: "kept (bc s) b m" and fb: "\<forall>i < 1024 * length bl. file_byte (s\<lparr>bc := b\<rparr>) bl i = spliced a bs (file_byte s bl) i"
    and wi: "write_inode io p (s2 b) = Inr s'" and r: "r = int (length bs)"
  proof -
    from run obtain s1 where d: "write_data io p a bs s = Inr s1"
      and rest: "(let s = (if (of_int (i_size (inodes s1 p)) :: u32) < of_int (int a + int (length bs))
            then upd_inode p (\<lambda>i. i\<lparr>i_size := int a + int (length bs)\<rparr>) s1 else s1) in
          bindr (write_inode io p s) (\<lambda>s. Inr (int (length bs), s))) = Inr (r, s')"
      by (auto simp: write_file_eq [OF w n(1,2)] assertr_eq_Inr bindr_eq_Inr)
    obtain b m where bm: "s1 = s\<lparr>bc := b\<rparr>" "kept (bc s) b m"
      "\<forall>i < 1024 * length bl. file_byte s1 bl i = spliced a bs (file_byte s bl) i"
      by (rule write_data_step [OF w n d])
    have "bindr (write_inode io p (s2 b)) (\<lambda>s. Inr (int (length bs), s)) = Inr (r, s')"
      using rest cmp unfolding bm(1) s2 [of b, symmetric] Let_def by simp
    with bm that show thesis by (auto simp: bindr_eq_Inr)
  qed
  have in2: "inodes (s2 b) p = (inodes s p)\<lparr>i_size := max ?sz ?e\<rparr>" "bc (s2 b) = b" "super (s2 b) = super s"
    "super_at (s2 b) = super_at s"
    by (simp_all add: s2_def upd_inode_def)
  have ii2: "inode_in (s2 b) (i_inum (inodes (s2 b) p)) pm pt"
    using inode_in_kept [OF ii b] by (simp add: inode_in_def in2)
  obtain b2 where b2': "s' = (s2 b)\<lparr>bc := b2\<rparr>"
    "kept (bc (s2 b)) b2 (stored (block_data (bc (s2 b)) pt + of_nat (inode_blkoff (i_inum (inodes (s2 b) p))))
       (inode_bytes p (s2 b)) (bmem (bc (s2 b))))"
    by (rule write_inode_step [OF ii2 wi])
  then have b2: "s' = (s2 b)\<lparr>bc := b2\<rparr>"
    "kept b b2 (stored (block_data b pt + of_nat (inode_blkoff (i_inum (inodes s p)))) (inode_bytes p (s2 b)) (bmem b))"
    by (simp_all add: in2)
  show "r = int (length bs)" by (rule r)
  show i': "inodes s' p = (inodes s p)\<lparr>i_size := max ?sz ?e\<rparr>" by (simp add: b2(1) in2)
  have len: "inode_blkoff (i_inum (inodes s p)) + length (inode_bytes p (s2 b)) \<le> 1024"
    using length_inode_bytes [of "s2 b" p] inode_blkoff_le w by (simp add: whole_file_def in2)
  have ap': "apart b (pt # bl)" using ap by (simp add: apart_kept [OF b])
  show "\<forall>i < 1024 * length bl. file_byte s' bl i = spliced a bs (file_byte s bl) i"
  proof (intro allI impI)
    fix i
    assume i: "i < 1024 * length bl"
    then have k: "i div 1024 < length bl" by simp
    have ne: "pt \<noteq> bl ! (i div 1024)" using ap' k by (auto simp: apart_def)
    have "file_byte s' bl i = file_byte (s\<lparr>bc := b\<rparr>) bl i"
      using stored_other_block [OF ap' _ _ ne len, of "i mod 1024" "bmem b"] k
      by (simp add: file_byte_def b2(1) kept_data [OF b2(2)] kept_mem [OF b2(2)])
    with fb i show "file_byte s' bl i = spliced a bs (file_byte s bl) i" by simp
  qed
  have k2: "kept (bc s) b2 (bmem b2)" using kept_trans [OF b b2(2)] b2(2) by (simp add: kept_def)
  then show "kept (bc s) (bc s') (bmem (bc s'))" by (simp add: b2(1))
  have "zones_of (max ?sz ?e) = int (length bl)" by (rule zones_of_max [OF sz e])
  with w k2 ap file_in_kept [OF f k2] inode_in_kept [OF ii k2] show "whole_file s' p bl pm pt"
    unfolding whole_file_def i' by (simp add: file_in_def inode_in_def b2(1) in2 apart_kept [OF k2] max_def i')
qed

lemma write_data_returns:
  assumes w: "whole_file s p bl pm pt" and n: "bs \<noteq> []" "a + length bs \<le> 1024 * length bl"
      "length bs - in_first a (length bs) \<le> 1024" and u: "\<forall>q \<in> set bl. 0 < uses (bc s) q"
  shows "\<exists>s'. write_data io p a bs s = Inr s'"
proof -
  let ?k = "a div 1024" and ?m = "in_first a (length bs)"
  have f: "file_in s p bl" and sz: "0 \<le> i_size (inodes s p)" "zones_of (i_size (inodes s p)) = int (length bl)"
    using w by (auto simp: whole_file_def)
  have "0 < length bs" using n(1) by simp
  with n(2) have "a < 1024 * length bl" by linarith
  then have k: "?k < length bl" by simp
  let ?F = "\<lambda>s. write_zones io p (int (Suc ?k)) (drop ?m bs) s"
  obtain b where b: "kept (bc s) b (stored (block_data (bc s) (bl ! ?k) + of_nat (a mod 1024)) (take ?m bs) (bmem (bc s)))"
    and eq: "write_data io p a bs s = ?F (s\<lparr>bc := b\<rparr>)"
    unfolding write_data_def by (rule write_zone_returns [OF f k zone_of_file [OF sz k] u, where F = ?F])
  show ?thesis
  proof (cases "?m < length bs")
    case True
    have "1024 * Suc ?k < 1024 * length bl" using in_first_rest [OF True] n(2) True by linarith
    then have k1: "Suc ?k < length bl" by simp
    have ne: "drop ?m bs \<noteq> []" "length (drop ?m bs) \<le> 1024" using True n(3) by simp_all
    have z: "1024 * int (Suc ?k) < i_size (inodes (s\<lparr>bc := b\<rparr>) p)" using zone_of_file [OF sz k1] by simp
    have u1: "\<forall>q \<in> set bl. 0 < uses (bc (s\<lparr>bc := b\<rparr>)) q" using u by (simp add: kept_uses [OF b])
    show ?thesis unfolding eq write_zones_last [OF ne]
      by (rule write_zone_returns [OF file_in_kept [OF f b] k1 z u1, where off = 0 and F = Inr and bs = "drop ?m bs" and io = io])
        auto
  qed (simp add: eq)
qed

text \<open>Everything a write touches has another user, and the inode is in use.\<close>

definition all_used :: "'e fs \<Rightarrow> addr_t \<Rightarrow> addr_t list \<Rightarrow> addr_t \<Rightarrow> addr_t \<Rightarrow> bool" where
  "all_used s p bl pm pt \<longleftrightarrow> (\<forall>q \<in> set (pm # pt # bl). 0 < uses (bc s) q) \<and> 0 < sint (i_inum (inodes s p))
     \<and> sint (i_inum (inodes s p)) < 4096 \<and> nat (sint (i_inum (inodes s p))) \<in> used_bits (bc s) pm
     \<and> apart (bc s) (pm # pt # bl)"

lemma used_bits_kept:
  assumes "kept b b' m" "\<And>i. i < 1024 \<Longrightarrow> m (block_data b p + of_nat i) = bmem b (block_data b p + of_nat i)"
  shows "used_bits b' p = used_bits b p"
proof -
  have "bit_set m (block_data b p) k = bit_set (bmem b) (block_data b p) k" if "k < 4096" for k
    using assms(2) [of "k div 8"] that by (simp add: bit_set_def)
  then show ?thesis by (auto simp: used_bits_def kept_mem [OF assms(1)] kept_data [OF assms(1)])
qed

lemma apart_sub: "apart b (p # q # ps) \<Longrightarrow> apart b (p # ps)"
  by (auto simp: apart_def)

lemma write_file_returns:
  assumes w: "whole_file s p bl pm pt" and n: "bs \<noteq> []" "a + length bs \<le> 1024 * length bl"
      "length bs - in_first a (length bs) \<le> 1024" and u: "all_used s p bl pm pt"
  shows "\<exists>r. write_file io p (int a) bs s = Inr r"
proof -
  let ?inum = "i_inum (inodes s p)"
  have us: "\<forall>q \<in> set bl. 0 < uses (bc s) q" and um: "0 < uses (bc s) pm" "0 < uses (bc s) pt"
    and ib: "0 < sint ?inum" "sint ?inum < 4096" "nat (sint ?inum) \<in> used_bits (bc s) pm"
    and ap: "apart (bc s) (pm # bl)" using u by (auto simp: all_used_def intro: apart_sub)
  from write_data_returns [OF w n us, of io] obtain s1 where d: "write_data io p a bs s = Inr s1" by blast
  obtain b m where b: "s1 = s\<lparr>bc := b\<rparr>" "kept (bc s) b m"
    "\<forall>q i. apart (bc s) (q # bl) \<longrightarrow> i < 1024 \<longrightarrow>
       m (block_data (bc s) q + of_nat i) = bmem (bc s) (block_data (bc s) q + of_nat i)"
    by (rule write_data_step [OF w n d])
  have ub: "used_bits b pm = used_bits (bc s) pm" by (rule used_bits_kept [OF b(2)]) (use b(3) ap in blast)
  have nz: "?inum \<noteq> 0" using ib(1) by auto
  then have one: "?inum \<ge> 1" by (simp add: word_less_iff_unsigned word_le_nat_alt unat_gt_0 Suc_leI)
  have ii: "inode_in s ?inum pm pt" using w by (simp add: whole_file_def)
  have wi: "\<exists>s'. write_inode io p (upd_inode p (\<lambda>i. i\<lparr>i_size := g i\<rparr>) s1) = Inr s'" for g
  proof (rule write_inode_returns)
    show "inode_in (upd_inode p (\<lambda>i. i\<lparr>i_size := g i\<rparr>) s1) (i_inum (inodes (upd_inode p (\<lambda>i. i\<lparr>i_size := g i\<rparr>) s1) p)) pm pt"
      using inode_in_kept [OF ii b(2)] by (simp add: b(1) upd_inode_def inode_in_def)
  qed (use w ib um nz in \<open>auto simp: whole_file_def file_in_def b(1) upd_inode_def kept_uses [OF b(2)] ub\<close>)
  have same: "upd_inode p (\<lambda>i. i\<lparr>i_size := i_size i\<rparr>) s1 = s1" by (simp add: upd_inode_def)
  from wi [of "\<lambda>i. i_size i"] obtain t1 where "write_inode io p s1 = Inr t1" unfolding same by blast
  moreover from wi [of "\<lambda>_. int a + int (length bs)"]
  obtain t2 where "write_inode io p (upd_inode p (\<lambda>i. i\<lparr>i_size := int a + int (length bs)\<rparr>) s1) = Inr t2" by blast
  ultimately show ?thesis using one by (simp add: write_file_eq [OF w n(1,2)] d Let_def)
qed

end
