(* ===== verification/Fs_Files.thy ===== *)
theory Fs_Files imports Fs_Contents begin

text \<open>
  Properties of files and directories whose blocks are in the cache. They are applied to a small
  disk: three cached blocks, namely the inode map, the first block of the inode table and the
  one block of the root directory, which has two entries.
\<close>

section \<open>A small disk\<close>

definition small_buf :: "int \<Rightarrow> addr_t \<Rightarrow> buffer_head" where
  "small_buf n a = \<lparr>b_dev = 3, b_blocknr = n, b_uptodate = 1, b_data = a, b_dirty = 0, b_count = 1\<rparr>"

definition small_entry :: "u32 \<Rightarrow> u8 \<Rightarrow> dir_entry" where
  "small_entry n c = \<lparr>de_inode = n, de_rec_len = 32, de_name_len = 1, de_file_type = 1, de_name = c # replicate 23 0\<rparr>"

definition small_mem :: mem where
  "small_mem = stored 0x8f400 (dir_entry_bytes (small_entry 2 97) @ dir_entry_bytes (small_entry 3 98)) ((\<lambda>_. 0)(0x8fc00 := 3))"

definition small_cache :: "unit buf_state" where
  "small_cache = \<lparr>blk = \<lparr>request = replicate NR_REQUEST
       \<lparr>rq_rw = 0, rq_sector = 0, rq_count = 0, rq_buffer = 0, rq_dev = - 1, rq_next = None\<rparr>,
       bd_request = replicate 4 None,
       drive = \<lparr>hd = [], sect_per_trk = 0, head_nr = 0, dmem = small_mem, dev_st = ()\<rparr>\<rparr>,
     bufs = [0x20000 \<mapsto> small_buf 2 0x8fc00, 0x20038 \<mapsto> small_buf 4 0x8f800, 0x20070 \<mapsto> small_buf 10 0x8f400],
     cached = \<lparr>hfirst = \<lambda>_. Some 0x20000, hnext = [0x20000 \<mapsto> 0x20038, 0x20038 \<mapsto> 0x20070],
       hpprev = (\<lambda>_. First_of ())(0x20038 := Next_of 0x20000, 0x20070 := Next_of 0x20038)\<rparr>,
     bfree = \<lparr>lnext = \<lambda>_. None, lprev = \<lambda>_. None\<rparr>, NR_BUFFERS = 3\<rparr>"

definition small_disk :: "unit fs" where
  "small_disk = \<lparr>bc = small_cache,
     sl = \<lparr>km = \<lparr>pages = \<lparr>HIGH_MEMORY = 0, mem_map = []\<rparr>, ram = \<lambda>_. 0\<rparr>, caches = \<lambda>_. None, slabs = \<lambda>_. None,
       lk = \<lparr>lnext = \<lambda>x. x, lprev = \<lambda>x. x\<rparr>, cache_cache = 0, cache_chain = 0, generic_cachep = []\<rparr>,
     super = \<lparr>s_magic = 0x12345678, s_imap_start = 2, s_imap_count = 1, s_zmap_start = 3,
       s_zmap_count = 1, s_itable_start = 4, s_itable_count = 6, s_data_start = 10, s_dev = 3\<rparr>,
     super_at = 0x500,
     inodes = (\<lambda>_. zero_inode)(0x1000 := \<lparr>i_inum = 1, i_size = 64, i_mode = 0, i_nlink = 4, i_zone = 10 # replicate 8 0,
       i_super = 0x500, i_refcnt = 1\<rparr>),
     dentries = \<lambda>_. zero_dentry, dnames = \<lambda>_. [], files = \<lambda>_. zero_file,
     ilk = \<lparr>lnext = \<lambda>x. x, lprev = \<lambda>x. x\<rparr>, root_inode = 0x1000, root_dentry = 0x2000,
     inode_list = 0x3000, dentry_list = 0x3008, inode_cache = 0, dname_cache = 0, dentry_cache = 0,
     file_cache = 0, filps = replicate 10 0, umem = \<lambda>_. 0\<rparr>"

lemma small_cache_rep: "buf_rep small_cache [0x20000, 0x20038, 0x20070] []"
  by (simp add: buf_rep_def small_cache_def small_buf_def hlist_def dlist_def uses_def block_key_def Let_def)

lemma small_block_in: "block_in small_cache 3 2 0x20000" "block_in small_cache 3 4 0x20038" "block_in small_cache 3 10 0x20070"
proof -
  have "block_in small_cache 3 n p"
    if "p \<in> set [0x20000, 0x20038, 0x20070]" "holds 3 n (the (bufs small_cache p))" for n p
    unfolding block_in_def using small_cache_rep that by (auto simp: blk_ok_def small_cache_def)
  note b = this
  show "block_in small_cache 3 2 0x20000" "block_in small_cache 3 4 0x20038" "block_in small_cache 3 10 0x20070"
    by (rule b; simp add: holds_def small_cache_def small_buf_def)+
qed

lemma regions_apart:
  assumes "unat a + 1024 \<le> unat b \<or> unat b + 1024 \<le> unat a" "unat a + 1024 \<le> 2 ^ 32" "unat b + 1024 \<le> 2 ^ 32"
    "i < 1024" "j < 1024"
  shows "a + of_nat i \<noteq> b + (of_nat j :: addr_t)"
proof -
  have "unat (a + of_nat i) = unat a + i" "unat (b + of_nat j) = unat b + j"
    using assms by (simp_all add: unat_word_ariths unsigned_of_nat take_bit_nat_eq_self)
  with assms show ?thesis by force
qed

lemma small_data [simp]:
  "block_data small_cache 0x20000 = 0x8fc00" "block_data small_cache 0x20038 = 0x8f800"
  "block_data small_cache 0x20070 = 0x8f400"
  by (simp_all add: block_data_def small_cache_def small_buf_def)

lemma small_apart: "apart small_cache [0x20000, 0x20038, 0x20070]"
proof -
  let ?ps = "[0x20000, 0x20038, 0x20070] :: addr_t list"
  have "unat (block_data small_cache p) + 1024 \<le> 2 ^ 32" if "p \<in> set ?ps" for p using that by auto
  moreover have "unat (block_data small_cache p) + 1024 \<le> unat (block_data small_cache q)
      \<or> unat (block_data small_cache q) + 1024 \<le> unat (block_data small_cache p)"
    if "p \<in> set ?ps" "q \<in> set ?ps" "p \<noteq> q" for p q using that by auto
  ultimately show ?thesis unfolding apart_def by (intro conjI ballI allI impI regions_apart) simp_all
qed

lemma small_file: "whole_file small_disk 0x1000 [0x20070] 0x20000 0x20038"
proof -
  have "apart small_cache [0x20038, 0x20070]" using small_apart by (auto simp: apart_def)
  then show ?thesis using small_block_in
    by (simp add: whole_file_def file_in_def inode_in_def small_disk_def zones_of_nonneg inode_blknr_def inode_per_blk_def
        BLOCK_SIZE_def sizeof_inode_def)
qed

lemma small_mem_map: "small_mem 0x8fc00 = 3"
  by (simp add: small_mem_def stored_def dir_entry_bytes_def small_entry_def enc32_def enc16_def)

lemma small_used: "all_used small_disk 0x1000 [0x20070] 0x20000 0x20038"
proof -
  have "1 \<in> used_bits small_cache 0x20000"
    by (simp add: used_bits_def bit_set_def small_mem_map bmem_def small_cache_def small_buf_def block_data_def)
  with small_apart show ?thesis
    by (simp add: all_used_def small_disk_def) (simp add: uses_def small_cache_def small_buf_def)
qed

section \<open>Reading and writing\<close>

text \<open>
  C17: \<^verbatim>\<open>_read\<close> of \<open>n\<close> bytes at \<open>a\<close> inside a file whose blocks are in the cache, \<open>rest\<close> being what lies
  beyond the first block. Up to 1024 bytes of rest it delivers exactly the file's bytes, and it
  always returns while the blocks have other users. With a rest between 1025 and 2047 bytes it claims to have
  read everything but has skipped bytes: after the first block it takes only \<open>rest - 1024\<close> bytes of the
  second and then the whole third. With a longer rest it never returns. The memory and the cache are kept.
\<close>

theorem read_file_result:
  assumes "file_in s p bl" "p \<noteq> 0" "0 < n" "int (a + n) \<le> i_size (inodes s p)" "i_size (inodes s p) \<le> 1024 * int (length bl)"
    and rest: "first = min n (1024 - a mod 1024)" "rest = n - first"
  shows "(\<forall>r bs s'. read_file io p (int a) (int n) s = Inr ((r, bs), s') \<longrightarrow> r = int n \<and> rest < 2048
      \<and> bs = (if rest \<le> 1024 then file_bytes s bl a n
              else file_bytes s bl a first @ file_bytes s bl (a + first) (rest - 1024) @ file_bytes s bl (a + first + 1024) 1024)
      \<and> s' = s\<lparr>bc := bc s'\<rparr> \<and> same_blocks (bc s) (bc s') \<and> bmem (bc s') = bmem (bc s))
    \<and> (rest \<le> 1024 \<longrightarrow> (\<forall>q \<in> set bl. 0 < uses (bc s) q) \<longrightarrow> (\<exists>r. read_file io p (int a) (int n) s = Inr r))"
proof (intro conjI allI impI)
  have i: "in_first a n = first" using rest by (simp add: in_first_def)
  fix r bs s'
  assume "read_file io p (int a) (int n) s = Inr ((r, bs), s')"
  from assms(1-5) this obtain b where b: "s' = s\<lparr>bc := b\<rparr>" "kept (bc s) b (bmem (bc s))" "r = int n"
    "bs = read_bytes s bl a n" "n - in_first a n < 2048" by (rule read_file_step)
  then show "r = int n" "rest < 2048" "s' = s\<lparr>bc := bc s'\<rparr>" "same_blocks (bc s) (bc s')" "bmem (bc s') = bmem (bc s)"
    using i rest(2) by (simp_all add: kept_def)
  show "bs = (if rest \<le> 1024 then file_bytes s bl a n
      else file_bytes s bl a first @ file_bytes s bl (a + first) (rest - 1024) @ file_bytes s bl (a + first + 1024) 1024)"
    by (simp only: b(4) read_bytes_def Let_def i rest(2))
next
  assume "rest \<le> 1024" "\<forall>q \<in> set bl. 0 < uses (bc s) q"
  with read_file_returns [OF assms(1-5)] rest show "\<exists>r. read_file io p (int a) (int n) s = Inr r"
    by (simp add: in_first_def)
qed

theorem read_file_result_witness:
  "\<forall>io. \<exists>s'. read_file io 0x1000 8 2 small_disk = Inr ((2, [97, 0]), s')"
proof -
  have "\<exists>s'. read_file io 0x1000 8 2 small_disk = Inr ((2, [97, 0]), s')" for io
  proof -
    have s: "file_in small_disk 0x1000 [0x20070]" using small_file by (simp add: whole_file_def)
    have m: "small_mem 0x8f408 = 97" "small_mem 0x8f409 = 0"
      by (simp_all add: small_mem_def stored_def dir_entry_bytes_def small_entry_def enc32_def enc16_def nth_append nth_Cons')
    have u: "0 < uses small_cache 0x20070" by (simp add: uses_def small_cache_def small_buf_def)
    have fb: "file_bytes small_disk [0x20070] 8 2 = [97, 0]"
      by (simp add: file_bytes_def file_byte_def upt_rec small_disk_def m) (simp add: small_cache_def bmem_def m)
    have "\<exists>r. read_file io 0x1000 (int 8) (int 2) small_disk = Inr r"
      and "\<forall>r bs s'. read_file io 0x1000 (int 8) (int 2) small_disk = Inr ((r, bs), s') \<longrightarrow> r = 2 \<and> bs = [97, 0]"
      using read_file_result [OF s, of 2 8 2 0 io] u fb by (simp_all add: small_disk_def)
    then show ?thesis by auto
  qed
  then show ?thesis by blast
qed

lemma read_written:
  assumes w: "whole_file s p bl pm pt" and n: "bs \<noteq> []" "a + length bs \<le> 1024 * length bl"
      "length bs - in_first a (length bs) \<le> 1024"
    and run: "write_file io p (int a) bs s = Inr (r, s1)"
    and m: "0 < m" "int (c + m) \<le> max (i_size (inodes s p)) (int a + int (length bs))" "m - in_first c m \<le> 1024"
  shows "read_file io p (int c) (int m) s1 = Inr ((r', cs), s2) \<Longrightarrow>
      r' = int m \<and> cs = map (\<lambda>i. if a \<le> i \<and> i < a + length bs then bs ! (i - a) else file_byte s bl i) [c..<c + m]"
    and "\<forall>q \<in> set bl. 0 < uses (bc s) q \<Longrightarrow> \<exists>r. read_file io p (int c) (int m) s1 = Inr r"
proof -
  note s = write_file_step [OF w n run]
  have f: "file_in s1 p bl" "p \<noteq> 0" "i_size (inodes s1 p) \<le> 1024 * int (length bl)"
    using s(4) size_of_file by (auto simp: whole_file_def)
  have sz: "int (c + m) \<le> i_size (inodes s1 p)" using m(2) by (simp add: s(2))
  {
    assume read: "read_file io p (int c) (int m) s1 = Inr ((r', cs), s2)"
    have r': "r' = int m" "cs = read_bytes s1 bl c m"
      by (rule read_file_step [OF f(1,2) m(1) sz f(3) read], simp)+
    have "cs = map (file_byte s1 bl) [c..<c + m]" using m(3) by (simp add: r'(2) read_bytes_def Let_def file_bytes_def)
    also have "\<dots> = map (spliced a bs (file_byte s bl)) [c..<c + m]"
      using s(3) sz f(3) by (intro map_cong) auto
    finally show "r' = int m \<and> cs = map (\<lambda>i. if a \<le> i \<and> i < a + length bs then bs ! (i - a) else file_byte s bl i) [c..<c + m]"
      using r'(1) by (simp add: spliced_def)
  }
  assume "\<forall>q \<in> set bl. 0 < uses (bc s) q"
  then show "\<exists>r. read_file io p (int c) (int m) s1 = Inr r"
    by (intro read_file_returns [OF f(1,2) m(1) sz f(3) _ m(3)]) (simp add: kept_uses [OF s(5)])
qed

text \<open>
  C14: \<^verbatim>\<open>_write\<close> inside the blocks a file has, all of them in the cache with the inode's map and table blocks, and
  with at most 1024 bytes beyond the first block it touches: the call returns the count, the size
  becomes the larger of the old one and the end of the write, and nothing else of the inode
  changes. A \<^verbatim>\<open>_read\<close> after it, of any range it reads correctly, delivers the written bytes where it
  was written and the old bytes elsewhere. While the blocks have other users both calls return.
\<close>

theorem write_then_read:
  assumes w: "whole_file s p bl pm pt" and n: "bs \<noteq> []" "a + length bs \<le> 1024 * length bl"
      "length bs - in_first a (length bs) \<le> 1024"
    and m: "0 < m" "int (c + m) \<le> max (i_size (inodes s p)) (int a + int (length bs))" "m - in_first c m \<le> 1024"
  shows "(\<forall>r s1. write_file io p (int a) bs s = Inr (r, s1) \<longrightarrow> r = int (length bs)
      \<and> inodes s1 p = (inodes s p)\<lparr>i_size := max (i_size (inodes s p)) (int a + int (length bs))\<rparr>
      \<and> (\<forall>r' cs s2. read_file io p (int c) (int m) s1 = Inr ((r', cs), s2) \<longrightarrow> r' = int m
          \<and> cs = map (\<lambda>i. if a \<le> i \<and> i < a + length bs then bs ! (i - a) else file_byte s bl i) [c..<c + m]))
    \<and> (all_used s p bl pm pt \<longrightarrow>
      (\<exists>r s1 q. write_file io p (int a) bs s = Inr (r, s1) \<and> read_file io p (int c) (int m) s1 = Inr q))"
proof (intro conjI allI impI)
  fix r s1
  assume run: "write_file io p (int a) bs s = Inr (r, s1)"
  show "r = int (length bs)"
    "inodes s1 p = (inodes s p)\<lparr>i_size := max (i_size (inodes s p)) (int a + int (length bs))\<rparr>"
    by (rule write_file_step [OF w n run])+
  fix r' cs s2
  assume "read_file io p (int c) (int m) s1 = Inr ((r', cs), s2)"
  from read_written(1) [OF w n run m this]
  show "r' = int m" "cs = map (\<lambda>i. if a \<le> i \<and> i < a + length bs then bs ! (i - a) else file_byte s bl i) [c..<c + m]"
    by simp_all
next
  assume u: "all_used s p bl pm pt"
  with write_file_returns [OF w n, of io] obtain r s1 where run: "write_file io p (int a) bs s = Inr (r, s1)" by auto
  with read_written(2) [OF w n run m] u
  show "\<exists>r s1 q. write_file io p (int a) bs s = Inr (r, s1) \<and> read_file io p (int c) (int m) s1 = Inr q"
    by (auto simp: all_used_def)
qed

theorem write_then_read_witness:
  "\<forall>io. \<exists>s1 s2. write_file io 0x1000 63 [5, 6] small_disk = Inr (2, s1) \<and> read_file io 0x1000 64 1 s1 = Inr ((1, [6]), s2)"
proof -
  have "\<exists>s1 s2. write_file io 0x1000 63 [5, 6] small_disk = Inr (2, s1) \<and> read_file io 0x1000 64 1 s1 = Inr ((1, [6]), s2)" for io
  proof -
    have n: "[5, 6 :: u8] \<noteq> []" "63 + length [5, 6 :: u8] \<le> 1024 * length [0x20070 :: addr_t]"
      "length [5, 6 :: u8] - in_first 63 (length [5, 6 :: u8]) \<le> 1024" "0 < (1 :: nat)"
      "int (64 + 1) \<le> max (i_size (inodes small_disk 0x1000)) (int 63 + int (length [5, 6 :: u8]))" "1 - in_first 64 1 \<le> 1024"
      by (simp_all add: in_first_def)
    from write_then_read [OF small_file n, of io] small_used obtain r s1 q where
      r: "write_file io 0x1000 63 [5, 6] small_disk = Inr (r, s1)" "read_file io 0x1000 64 1 s1 = Inr q" by auto
    obtain r' cs s2 where q: "q = ((r', cs), s2)" by (cases q) auto
    have "[64..<64 + 1] = [64 :: nat]" by (simp add: upt_rec)
    with write_then_read [OF small_file n, of io] r q have "r = 2" "r' = 1" "cs = [6]" by simp_all
    with r q show ?thesis by simp
  qed
  then show ?thesis by blast
qed

end
