(* ===== verification/Fs_Records.thy ===== *)
theory Fs_Records imports Fs_Files begin

text \<open>
  The records on the disk: a directory entry, a super block and an inode come back from their bytes, and an inode
  written to the table is read back into another object.
\<close>

section \<open>Words in bytes\<close>

lemma length_enc [simp]: "length (enc16 w) = 2" "length (enc32 v) = 4"
  by (simp_all add: enc16_def enc32_def)

lemma get32_drop: "length bs \<ge> i + 4 \<Longrightarrow> get32 i bs = get32 0 (drop i bs)"
  by (simp add: get32_def)

lemma get16_drop: "length bs \<ge> i + 2 \<Longrightarrow> get16 i bs = get16 0 (drop i bs)"
  by (simp add: get16_def)

lemma get32_enc32: "get32 0 (enc32 w @ bs) = w"
  by (simp add: get32_def enc32_def join_bytes)

lemma get16_enc16: "get16 0 (enc16 w @ bs) = w"
proof (rule bit_word_eqI)
  fix n
  assume "n < LENGTH(16)"
  then have "n < 16" by simp
  then show "bit (get16 0 (enc16 w @ bs)) n = bit w n"
    by (cases "n < 8") (auto simp: get16_def enc16_def bit_simps)
qed

text \<open>A word behind a prefix.\<close>

lemma get32_at: "i = length xs \<Longrightarrow> get32 i (xs @ enc32 w @ bs) = w"
  using get32_drop [of i "xs @ enc32 w @ bs"] by (simp add: get32_enc32)

lemma get16_at: "i = length xs \<Longrightarrow> get16 i (xs @ enc16 w @ bs) = w"
  using get16_drop [of i "xs @ enc16 w @ bs"] by (simp add: get16_enc16)

lemma get32_skip: "i \<ge> length xs \<Longrightarrow> get32 i (xs @ bs) = get32 (i - length xs) bs"
  by (simp add: get32_def nth_append Suc_diff_le)

lemma get16_skip: "i \<ge> length xs \<Longrightarrow> get16 i (xs @ bs) = get16 (i - length xs) bs"
  by (simp add: get16_def nth_append Suc_diff_le)

lemmas get_simps = get32_skip get16_skip get32_enc32 get16_enc16

lemma sint_of_int_range: "- (2 ^ 31) \<le> x \<Longrightarrow> x < 2 ^ 31 \<Longrightarrow> sint (of_int x :: u32) = x"
  by (simp add: signed_of_int signed_take_bit_int_eq_self)

lemma sint16_of_int_range: "- (2 ^ 15) \<le> x \<Longrightarrow> x < 2 ^ 15 \<Longrightarrow> sint (of_int x :: u16) = x"
  by (simp add: signed_of_int signed_take_bit_int_eq_self)

lemma dir_entry_roundtrip: "length (de_name de) = 24 \<Longrightarrow> bytes_dir_entry (dir_entry_bytes de @ bs) = de"
  by (simp add: bytes_dir_entry_def dir_entry_bytes_def get_simps MAX_DENTRY_LENGTH_def nth_append)

text \<open>What \<^verbatim>\<open>struct super_block\<close> can hold.\<close>

definition int32_range :: "int \<Rightarrow> bool" where "int32_range x \<longleftrightarrow> - (2 ^ 31) \<le> x \<and> x < 2 ^ 31"

lemma sint_of_int32 [simp]: "int32_range x \<Longrightarrow> sint (of_int x :: u32) = x"
  by (simp add: int32_range_def sint_of_int_range)

definition super_fits :: "super_block \<Rightarrow> bool" where
  "super_fits d \<longleftrightarrow> int32_range (s_imap_start d) \<and> int32_range (s_imap_count d) \<and> int32_range (s_zmap_start d)
     \<and> int32_range (s_zmap_count d) \<and> int32_range (s_itable_start d) \<and> int32_range (s_itable_count d) \<and> int32_range (s_data_start d)"

lemma super_roundtrip: "super_fits d \<Longrightarrow> bytes_super (super_bytes d) = d"
  using get16_enc16 [of "s_dev d" "[]"]
  by (simp add: bytes_super_def super_bytes_def get_simps super_fits_def)

definition inode_fits :: "inode \<Rightarrow> bool" where
  "inode_fits i \<longleftrightarrow> int32_range (i_size i) \<and> - (2 ^ 15) \<le> i_nlink i \<and> i_nlink i < 2 ^ 15 \<and> length (i_zone i) = 9
     \<and> (\<forall>z \<in> set (i_zone i). int32_range z)"

lemma inode_bytes_zones:
  assumes "length zs = n" "k < n"
  shows "get32 (4 * k) (concat (map (enc32 \<circ> of_int) zs) @ bs) = of_int (zs ! k)"
  using assms
proof (induction zs arbitrary: k n)
  case (Cons z zs)
  then show ?case by (cases k) (simp_all add: get_simps)
qed simp

lemma inode_roundtrip:
  assumes "inode_fits (inodes s p)"
  shows "disk_inode (inode_bytes p s) i = i\<lparr>i_size := i_size (inodes s p), i_mode := i_mode (inodes s p),
      i_nlink := i_nlink (inodes s p), i_zone := i_zone (inodes s p)\<rparr>"
    "get32 0 (inode_bytes p s) = i_inum (inodes s p)"
proof -
  show "get32 0 (inode_bytes p s) = i_inum (inodes s p)" by (simp add: inode_bytes_def Let_def get_simps)
  have z: "map (\<lambda>k. sint (get32 (12 + 4 * k) (inode_bytes p s))) [0..<9] = i_zone (inodes s p)"
  proof (rule nth_equalityI)
    fix k
    assume "k < length (map (\<lambda>k. sint (get32 (12 + 4 * k) (inode_bytes p s))) [0..<9])"
    then have k: "k < 9" by simp
    with assms have "i_zone (inodes s p) ! k \<in> set (i_zone (inodes s p))" by (simp add: inode_fits_def)
    with assms have "int32_range (i_zone (inodes s p) ! k)" by (simp add: inode_fits_def)
    moreover have "get32 (12 + 4 * k) (inode_bytes p s) = of_int (i_zone (inodes s p) ! k)"
      using inode_bytes_zones [of "i_zone (inodes s p)" 9 k] k assms
      by (simp add: inode_bytes_def Let_def get_simps inode_fits_def)
    ultimately show "map (\<lambda>k. sint (get32 (12 + 4 * k) (inode_bytes p s))) [0..<9] ! k = i_zone (inodes s p) ! k"
      using k by simp
  qed (use assms in \<open>simp add: inode_fits_def\<close>)
  have "sint (get32 4 (inode_bytes p s)) = i_size (inodes s p)" "get16 8 (inode_bytes p s) = i_mode (inodes s p)"
    "sint (get16 10 (inode_bytes p s)) = i_nlink (inodes s p)"
    using assms by (simp_all add: inode_bytes_def Let_def get_simps inode_fits_def sint16_of_int_range)
  then show "disk_inode (inode_bytes p s) i = i\<lparr>i_size := i_size (inodes s p), i_mode := i_mode (inodes s p),
      i_nlink := i_nlink (inodes s p), i_zone := i_zone (inodes s p)\<rparr>"
    by (simp add: disk_inode_def z)
qed

section \<open>The inode table\<close>

lemma bytes_at_stored:
  assumes "length bs < 2 ^ 32"
  shows "bytes_at (stored p bs m) p (length bs) = bs"
proof (rule nth_equalityI)
  fix i
  assume "i < length (bytes_at (stored p bs m) p (length bs))"
  then have i: "i < length bs" by (simp add: bytes_at_def)
  with assms have "unat (of_nat i :: addr_t) = i" by (simp add: unsigned_of_nat take_bit_nat_eq_self)
  with i show "bytes_at (stored p bs m) p (length bs) ! i = bs ! i" by (simp add: bytes_at_def stored_def)
qed (simp add: bytes_at_def)

lemma read_inode_step:
  assumes c: "inode_in s inum pm pt" and run: "read_inode io q inum sb s = Inr s'"
    and bs: "bytes_at (bmem (bc s)) (block_data (bc s) pt + of_nat (inode_blkoff inum)) 72 = bs"
  obtains b where "kept (bc s) b (bmem (bc s))" "sb = super_at s" "inum \<noteq> 0" "get32 0 bs = inum"
    "s' = upd_inode q (\<lambda>i. disk_inode bs (i\<lparr>i_inum := inum, i_super := sb\<rparr>)) (s\<lparr>bc := b\<rparr>)"
proof -
  from run obtain t s1 bs' s2 where a: "inum \<noteq> 0" "sb = super_at s"
    and t: "test_inode_nr io (super_at s) (sint inum) s = Inr (t, s1)"
    and l: "load_block io (s_dev (super s1)) (inode_blknr (super s1) inum) (inode_blkoff inum) 72 s1 = Inr (bs', s2)"
    and e: "get32 0 bs' = inum"
      "s' = upd_inode q (disk_inode bs') (upd_inode q (\<lambda>i. i\<lparr>i_inum := inum, i_super := sb\<rparr>) s2)"
    by (auto simp: read_inode_def sizeof_inode_def assertr_eq_Inr bindr_eq_Inr Let_def split: if_splits)
  obtain b where b: "s1 = s\<lparr>bc := b\<rparr>" "kept (bc s) b (bmem (bc s))" by (rule test_inode_step [OF c t])
  have "block_in (bc s1) (s_dev (super s1)) (inode_blknr (super s1) inum) pt"
    using inode_in_kept [OF c b(2)] by (simp add: b(1) inode_in_def)
  from this l obtain b2 where b2: "s2 = s1\<lparr>bc := b2\<rparr>" "kept (bc s1) b2 (bmem (bc s1))"
    "bs' = bytes_at (bmem (bc s1)) (block_data (bc s1) pt + of_nat (inode_blkoff inum)) 72"
    by (rule load_block_step)
  then have "bs' = bs" using bs by (simp add: b(1) kept_data [OF b(2)] kept_mem [OF b(2)])
  moreover have "kept (bc s) b2 (bmem (bc s))" using b b2(2) kept_trans [OF b(2), of b2] by (simp add: kept_mem)
  ultimately show thesis using a e b(1) b2(1)
    by (intro that [of b2]) (simp_all add: upd_inode_def)
qed

lemma write_read_inode:
  assumes c: "inode_in s (i_inum (inodes s p)) pm pt" and fits: "inode_fits (inodes s p)"
    and wr: "write_inode io p s = Inr s1" and rd: "read_inode io q (i_inum (inodes s p)) sb s1 = Inr s2"
  shows "inodes s2 = (inodes s)(q := (inodes s p)\<lparr>i_refcnt := i_refcnt (inodes s q)\<rparr>)"
proof -
  obtain b where b: "s1 = s\<lparr>bc := b\<rparr>"
    "kept (bc s) b (stored (block_data (bc s) pt + of_nat (inode_blkoff (i_inum (inodes s p)))) (inode_bytes p s) (bmem (bc s)))"
    "i_super (inodes s p) = super_at s"
    by (rule write_inode_step [OF c wr])
  have len: "length (inode_bytes p s) = 72" using fits by (simp add: length_inode_bytes inode_fits_def)
  have bs: "bytes_at (bmem (bc s1)) (block_data (bc s1) pt + of_nat (inode_blkoff (i_inum (inodes s p)))) 72 = inode_bytes p s"
    using bytes_at_stored [of "inode_bytes p s"] len by (simp add: b(1) kept_data [OF b(2)] kept_mem [OF b(2)])
  have c1: "inode_in s1 (i_inum (inodes s p)) pm pt" using inode_in_kept [OF c b(2)] by (simp add: b(1))
  obtain b2 where "sb = super_at s1"
    "s2 = upd_inode q (\<lambda>i. disk_inode (inode_bytes p s) (i\<lparr>i_inum := i_inum (inodes s p), i_super := sb\<rparr>)) (s1\<lparr>bc := b2\<rparr>)"
    by (rule read_inode_step [OF c1 rd bs])
  moreover have "x\<lparr>i_inum := i_inum y, i_super := i_super y, i_size := i_size y, i_mode := i_mode y, i_nlink := i_nlink y,
      i_zone := i_zone y\<rparr> = y\<lparr>i_refcnt := i_refcnt x\<rparr>" for x y :: inode by (rule inode.equality) simp_all
  ultimately show ?thesis
    by (simp add: upd_inode_def b(1) inode_roundtrip(1) [OF fits] b(3) [symmetric])
qed

lemma read_inode_returns:
  assumes c: "inode_in s inum pm pt" and u: "0 < uses (bc s) pm" "0 < uses (bc s) pt"
    and n: "inum \<noteq> 0" "0 \<le> sint inum" "sint inum < 4096" "nat (sint inum) \<in> used_bits (bc s) pm"
    and bs: "get32 0 (bytes_at (bmem (bc s)) (block_data (bc s) pt + of_nat (inode_blkoff inum)) 72) = inum"
  shows "\<exists>s'. read_inode io q inum (super_at s) s = Inr s'"
proof -
  have c': "block_in (bc s) (s_dev (super s)) (s_imap_start (super s)) pm" "s_imap_count (super s) = 1"
    using c by (simp_all add: inode_in_def)
  from bitmap_ops_return(2) [OF c'(1) n(2,3) u(1), of io] obtain t b where
    "bitmap_test io (s_dev (super s)) (s_imap_start (super s)) (s_imap_start (super s) + 1) (sint inum) (bc s) = Inr (t, b)"
    by auto
  then have t: "test_inode_nr io (super_at s) (sint inum) s = Inr (t, s\<lparr>bc := b\<rparr>)"
    by (simp add: test_inode_nr_def sb_at_def on_buf_def c'(2))
  obtain b' where b': "s\<lparr>bc := b\<rparr> = s\<lparr>bc := b'\<rparr>" "kept (bc s) b' (bmem (bc s))" "t = 1"
    by (rule test_inode_step [OF c t], rule that) (use n(4) in simp_all)
  from arg_cong [OF b'(1), where f = bc] have "b = b'" by simp
  with b' have b: "kept (bc s) b (bmem (bc s))" "t = 1" by simp_all
  have c1: "block_in b (s_dev (super s)) (inode_blknr (super s) inum) pt"
    using inode_in_kept [OF c b(1)] by (simp add: inode_in_def)
  have u1: "0 < uses b pt" using u(2) kept_uses [OF b(1)] by simp
  from block_ops_return(1) [of "s\<lparr>bc := b\<rparr>", simplified, OF c1 u1, of io "inode_blkoff inum" 72] t n(1) b(2) bs
  show ?thesis
    by (auto simp: read_inode_def sizeof_inode_def Let_def kept_data [OF b(1)] kept_mem [OF b(1)])
qed

text \<open>
  C25: an inode that fits its record, written to the table by \<^verbatim>\<open>write_inode\<close> and read into any object by
  \<^verbatim>\<open>read_inode\<close>, is back with number, size, mode, link count, zones and super block; the object's
  reference count stays, and no other inode changes. While the two blocks have other users and the
  number is in use, both calls return.
\<close>

theorem inode_survives_disk:
  assumes c: "inode_in s (i_inum (inodes s p)) pm pt" and fits: "inode_fits (inodes s p)"
  shows "(\<forall>s1 sb s2. write_inode io p s = Inr s1 \<longrightarrow> read_inode io q (i_inum (inodes s p)) sb s1 = Inr s2 \<longrightarrow>
      inodes s2 = (inodes s)(q := (inodes s p)\<lparr>i_refcnt := i_refcnt (inodes s q)\<rparr>))
    \<and> (p \<noteq> 0 \<and> i_super (inodes s p) = super_at s \<and> all_used s p [] pm pt \<longrightarrow>
      (\<exists>s1 s2. write_inode io p s = Inr s1 \<and> read_inode io q (i_inum (inodes s p)) (super_at s) s1 = Inr s2))"
proof (intro conjI allI impI)
  show "inodes s2 = (inodes s)(q := (inodes s p)\<lparr>i_refcnt := i_refcnt (inodes s q)\<rparr>)"
    if "write_inode io p s = Inr s1" "read_inode io q (i_inum (inodes s p)) sb s1 = Inr s2" for s1 sb s2
    by (rule write_read_inode [OF c fits that])
next
  let ?inum = "i_inum (inodes s p)"
  assume h: "p \<noteq> 0 \<and> i_super (inodes s p) = super_at s \<and> all_used s p [] pm pt"
  then have u: "0 < uses (bc s) pm" "0 < uses (bc s) pt" and n: "?inum \<noteq> 0" "0 \<le> sint ?inum" "sint ?inum < 4096"
    "nat (sint ?inum) \<in> used_bits (bc s) pm" and ap: "apart (bc s) [pm, pt]" by (auto simp: all_used_def)
  obtain s1 where w: "write_inode io p s = Inr s1" using write_inode_returns [OF c u _ n(1) _ n(2-4)] h by blast
  obtain b where b: "s1 = s\<lparr>bc := b\<rparr>"
    "kept (bc s) b (stored (block_data (bc s) pt + of_nat (inode_blkoff ?inum)) (inode_bytes p s) (bmem (bc s)))"
    by (rule write_inode_step [OF c w])
  have len: "length (inode_bytes p s) = 72" using fits by (simp add: length_inode_bytes inode_fits_def)
  have ub: "used_bits b pm = used_bits (bc s) pm"
    by (rule used_bits_kept [OF b(2)], rule stored_other_block [OF ap])
      (use ap len inode_blkoff_le in \<open>auto simp: apart_def\<close>)
  have "\<exists>s2. read_inode io q ?inum (super_at s1) s1 = Inr s2"
  proof (rule read_inode_returns)
    show "inode_in s1 ?inum pm pt" using inode_in_kept [OF c b(2)] by (simp add: b(1))
    show "get32 0 (bytes_at (bmem (bc s1)) (block_data (bc s1) pt + of_nat (inode_blkoff ?inum)) 72) = ?inum"
      using bytes_at_stored [of "inode_bytes p s"] len inode_roundtrip(2) [OF fits]
      by (simp add: b(1) kept_data [OF b(2)] kept_mem [OF b(2)])
  qed (use u n ub in \<open>simp_all add: b(1) kept_uses [OF b(2)]\<close>)
  with w b(1) show "\<exists>s1 s2. write_inode io p s = Inr s1 \<and> read_inode io q ?inum (super_at s) s1 = Inr s2" by auto
qed

theorem inode_survives_disk_witness:
  "\<forall>io. \<exists>s1 s2. write_inode io 0x1000 small_disk = Inr s1 \<and> read_inode io 0x7000 1 0x500 s1 = Inr s2
     \<and> i_zone (inodes s2 0x7000) = 10 # replicate 8 0 \<and> i_size (inodes s2 0x7000) = 64"
proof -
  have "\<exists>s1 s2. write_inode io 0x1000 small_disk = Inr s1 \<and> read_inode io 0x7000 1 0x500 s1 = Inr s2
     \<and> i_zone (inodes s2 0x7000) = 10 # replicate 8 0 \<and> i_size (inodes s2 0x7000) = 64" for io
  proof -
    have i: "inodes small_disk 0x1000 = \<lparr>i_inum = 1, i_size = 64, i_mode = 0, i_nlink = 4, i_zone = 10 # replicate 8 0,
        i_super = 0x500, i_refcnt = 1\<rparr>" "super_at small_disk = 0x500" by (simp_all add: small_disk_def)
    have c: "inode_in small_disk (i_inum (inodes small_disk 0x1000)) 0x20000 0x20038"
      using small_file by (simp add: whole_file_def)
    have f: "inode_fits (inodes small_disk 0x1000)" by (simp add: i inode_fits_def int32_range_def)
    have u: "all_used small_disk 0x1000 [] 0x20000 0x20038" using small_used by (auto simp: all_used_def apart_def)
    from inode_survives_disk [OF c f, where io = io and q = "0x7000"] u
    obtain s1 s2 where r: "write_inode io 0x1000 small_disk = Inr s1" "read_inode io 0x7000 1 0x500 s1 = Inr s2"
      by (auto simp: i)
    moreover from this inode_survives_disk [OF c f, where io = io and q = "0x7000"]
    have "inodes s2 = (inodes small_disk)(0x7000 := (inodes small_disk 0x1000)\<lparr>i_refcnt := i_refcnt (inodes small_disk 0x7000)\<rparr>)"
      by (auto simp: i)
    ultimately show ?thesis by (simp add: i)
  qed
  then show ?thesis by blast
qed

end
