(* ===== verification/Fs_Lookup.thy ===== *)
theory Fs_Lookup imports Fs_Records begin

text \<open>
  Looking names up: what \<^verbatim>\<open>_find_dir_entry\<close> finds in a directory whose blocks are in the cache, and why a path
  of more than one component is never found.
\<close>

section \<open>Comparing names\<close>

lemma str_cmp_self_prefix:
  assumes "0 \<notin> set x" "0 \<notin> set y"
  shows "str_cmp (Suc (length x)) x y = 0 \<longleftrightarrow> x = y"
  using assms
proof (induction x arbitrary: y)
  case Nil
  then show ?case by (cases y) (auto simp: Let_def)
next
  case (Cons c x)
  then show ?case by (cases y) (auto simp: Let_def)
qed

lemma str_cmp_next_byte:
  assumes "0 \<notin> set x" "z \<noteq> 0" "str_cmp (Suc (length x)) (x @ z # r) y = 0"
  shows "take (Suc (length x)) y = x @ [z]"
  using assms
proof (induction x arbitrary: y)
  case Nil
  then show ?case by (cases y) (auto simp: Let_def split: if_splits)
next
  case (Cons c x)
  then show ?case by (cases y) (auto simp: Let_def split: if_splits)
qed

lemma c_str_nonzero: "0 \<notin> set (c_str bs)"
  by (auto simp: c_str_def dest: set_takeWhileD)

lemma c_str_append: "0 \<notin> set c \<Longrightarrow> z \<noteq> 0 \<Longrightarrow> c_str (c @ z # r) = c @ z # c_str r"
  by (induction c) (auto simp: c_str_def)

section \<open>The entries of a directory\<close>

definition dir_entry_at :: "'e fs \<Rightarrow> addr_t list \<Rightarrow> nat \<Rightarrow> dir_entry" where
  "dir_entry_at s bl k = bytes_dir_entry (file_bytes s bl (32 * k) 32)"

lemma dir_entry_at_cong:
  assumes "bc t = bc s"
  shows "dir_entry_at t bl k = dir_entry_at s bl k"
proof -
  have "file_byte t = file_byte s" using assms by (simp add: file_byte_def fun_eq_iff)
  then show ?thesis by (simp add: dir_entry_at_def file_bytes_def)
qed

text \<open>A directory of \<open>N\<close> entries whose blocks are in the cache.\<close>

definition dir_in :: "'e fs \<Rightarrow> addr_t \<Rightarrow> addr_t list \<Rightarrow> nat \<Rightarrow> bool" where
  "dir_in s dir bl N \<longleftrightarrow> file_in s dir bl \<and> dir \<noteq> 0 \<and> i_size (inodes s dir) = 32 * int N \<and> 32 * N \<le> 1024 * length bl
     \<and> blk_ok (blk (bc s))"

lemma dir_in_kept: "dir_in s dir bl N \<Longrightarrow> kept (bc s) b m \<Longrightarrow> dir_in (s\<lparr>bc := b\<rparr>) dir bl N"
  by (auto simp: dir_in_def kept_def intro: file_in_kept [unfolded kept_def])

lemma dir_entry_at_kept: "kept (bc s) b (bmem (bc s)) \<Longrightarrow> dir_entry_at (s\<lparr>bc := b\<rparr>) bl k = dir_entry_at s bl k"
  by (simp add: dir_entry_at_def file_bytes_kept)

lemma record_in_block: "in_first (32 * k) 32 = 32"
proof -
  have "32 * k mod 1024 = 32 * (k mod 32)" using mult_mod_right [of 32 k 32] by simp
  moreover have "k mod 32 < 32" by simp
  ultimately have "32 * k mod 1024 \<le> 32 * 31" by simp
  then show ?thesis by (simp add: in_first_def)
qed

lemma read_record:
  assumes d: "dir_in s dir bl N" and run: "read_file io dir (32 * int k) DIR_REC_LEN s = Inr ((r, bs), s')"
  obtains (hit) b where "k < N" "s' = s\<lparr>bc := b\<rparr>" "kept (bc s) b (bmem (bc s))" "r = 32" "bs = file_bytes s bl (32 * k) 32"
    | (stop) "N \<le> k" "s' = s" "r = - 1"
proof (cases "k < N")
  case True
  have f: "file_in s dir bl" "dir \<noteq> 0" "0 < (32 :: nat)" "int (32 * k + 32) \<le> i_size (inodes s dir)"
    "i_size (inodes s dir) \<le> 1024 * int (length bl)"
    using d True by (auto simp: dir_in_def)
  have "read_file io dir (int (32 * k)) (int 32) s = Inr ((r, bs), s')" using run by (simp add: DIR_REC_LEN_def)
  from f this obtain b where "s' = s\<lparr>bc := b\<rparr>" "kept (bc s) b (bmem (bc s))" "r = int 32" "bs = read_bytes s bl (32 * k) 32"
    by (rule read_file_step)
  with True show thesis by (intro hit) (simp_all add: read_bytes_def record_in_block)
next
  case False
  with run d show thesis by (intro stop) (auto simp: read_file_def DIR_REC_LEN_def dir_in_def at_def assertr_eq_Inr)
qed

lemma read_record_returns:
  assumes d: "dir_in s dir bl N" and u: "\<forall>q \<in> set bl. 0 < uses (bc s) q"
  shows "\<exists>r. read_file io dir (32 * int k) DIR_REC_LEN s = Inr r"
proof (cases "k < N")
  case True
  have f: "file_in s dir bl" "dir \<noteq> 0" "0 < (32 :: nat)" "int (32 * k + 32) \<le> i_size (inodes s dir)"
    "i_size (inodes s dir) \<le> 1024 * int (length bl)"
    using d True by (auto simp: dir_in_def)
  from read_file_returns [OF f u, of io] show ?thesis by (simp add: record_in_block DIR_REC_LEN_def)
next
  case False
  with d show ?thesis by (auto simp: read_file_def DIR_REC_LEN_def dir_in_def at_def)
qed

text \<open>Whether an entry matches the name asked for.\<close>

definition entry_matches :: "u8 list \<Rightarrow> nat \<Rightarrow> dir_entry \<Rightarrow> bool" where
  "entry_matches nm len de \<longleftrightarrow> str_ncmp (c_str nm) (c_str (de_name de)) len = 0"

definition first_match :: "'e fs \<Rightarrow> addr_t list \<Rightarrow> nat \<Rightarrow> u8 list \<Rightarrow> nat \<Rightarrow> nat \<Rightarrow> nat option" where
  "first_match s bl N nm len k = find (\<lambda>j. entry_matches nm len (dir_entry_at s bl j)) [k..<N]"

lemma next_pos: "32 * int (Suc k) = 32 * int k + 32"
  by simp

lemma first_match_step:
  "first_match s bl N nm len k = (if k < N then if entry_matches nm len (dir_entry_at s bl k) then Some k
     else first_match s bl N nm len (Suc k) else None)"
  by (simp add: first_match_def upt_conv_Cons)

lemma first_match_kept:
  "kept (bc s) b (bmem (bc s)) \<Longrightarrow> first_match (s\<lparr>bc := b\<rparr>) bl N nm len k = first_match s bl N nm len k"
  by (simp add: first_match_def dir_entry_at_kept)

lemma scan_entries_step:
  assumes "dir_in s dir bl N" "k \<le> N" "scan_entries io dir nm len (32 * int k) s = Inr ((pos, de), s')"
  shows "(case first_match s bl N nm len k of
        Some j \<Rightarrow> pos = 32 * int j \<and> de = Some (dir_entry_at s bl j) | None \<Rightarrow> pos = 32 * int N \<and> de = None)
    \<and> (\<exists>b. s' = s\<lparr>bc := b\<rparr> \<and> kept (bc s) b (bmem (bc s)))"
  using assms
proof (induction "N - k" arbitrary: k s rule: less_induct)
  case less
  let ?next = "\<lambda>r bs s. if r = DIR_REC_LEN then let de = bytes_dir_entry bs in
      if str_ncmp (c_str nm) (c_str (de_name de)) len = 0 then Inr ((32 * int k, Some de), s)
      else scan_entries io dir nm len (32 * int k + DIR_REC_LEN) s else Inr ((32 * int k, None), s)"
  from less.prems(3) obtain r bs s1 where run: "read_file io dir (32 * int k) DIR_REC_LEN s = Inr ((r, bs), s1)"
    and rest: "?next r bs s1 = Inr ((pos, de), s')"
    by (auto simp: scan_entries.simps [of io dir nm len "32 * int k" s] bindr_eq_Inr)
  have refl: "\<exists>b. s = s\<lparr>bc := b\<rparr> \<and> kept (bc s) b (bmem (bc s))"
    using less.prems(1) by (intro exI [of _ "bc s"]) (simp add: kept_def dir_in_def)
  from less.prems(1) run show ?case
  proof (cases rule: read_record)
    case (hit b)
    have e: "bytes_dir_entry bs = dir_entry_at s bl k" by (simp add: hit(5) dir_entry_at_def)
    have rest': "(if entry_matches nm len (dir_entry_at s bl k) then Inr ((32 * int k, Some (dir_entry_at s bl k)), s\<lparr>bc := b\<rparr>)
        else scan_entries io dir nm len (32 * int (Suc k)) (s\<lparr>bc := b\<rparr>)) = Inr ((pos, de), s')"
      using rest unfolding hit(2,4) DIR_REC_LEN_def Let_def e entry_matches_def next_pos by simp
    show ?thesis
    proof (cases "entry_matches nm len (dir_entry_at s bl k)")
      case True
      with rest' hit(1,3) show ?thesis by (auto simp: first_match_step [of s bl N nm len k])
    next
      case False
      have next': "scan_entries io dir nm len (32 * int (Suc k)) (s\<lparr>bc := b\<rparr>) = Inr ((pos, de), s')"
        using rest' False by simp
      have same: "first_match (s\<lparr>bc := b\<rparr>) bl N nm len (Suc k) = first_match s bl N nm len k"
        using False hit(1) by (simp add: first_match_step [of s bl N nm len k] first_match_kept [OF hit(3)])
      have "N - Suc k < N - k" "Suc k \<le> N" using hit(1) by simp_all
      from less.hyps [OF this(1) dir_in_kept [OF less.prems(1) hit(3)] this(2) next'] show ?thesis
        using kept_trans [OF hit(3)] unfolding same
        by (auto simp: dir_entry_at_kept [OF hit(3)] kept_mem [OF hit(3)] split: option.splits)
    qed
  next
    case stop
    then have "first_match s bl N nm len k = None" by (simp add: first_match_step [of s bl N nm len k])
    with rest stop less.prems(2) refl show ?thesis by (auto simp: DIR_REC_LEN_def)
  qed
qed

lemma scan_entries_returns:
  assumes "dir_in s dir bl N" "k \<le> N" "\<forall>q \<in> set bl. 0 < uses (bc s) q"
  shows "\<exists>r. scan_entries io dir nm len (32 * int k) s = Inr r"
  using assms
proof (induction "N - k" arbitrary: k s rule: less_induct)
  case less
  from read_record_returns [OF less.prems(1,3), of io k] obtain r bs s1 where
    run: "read_file io dir (32 * int k) DIR_REC_LEN s = Inr ((r, bs), s1)" by auto
  from less.prems(1) run show ?case
  proof (cases rule: read_record)
    case (hit b)
    have "\<exists>r. scan_entries io dir nm len (32 * int (Suc k)) (s\<lparr>bc := b\<rparr>) = Inr r"
      using hit(1) less.prems(3)
      by (intro less.hyps dir_in_kept [OF less.prems(1) hit(3)]) (simp_all add: kept_uses [OF hit(3)])
    then have "\<exists>r. scan_entries io dir nm len (32 * int k + DIR_REC_LEN) (s\<lparr>bc := b\<rparr>) = Inr r"
      unfolding next_pos DIR_REC_LEN_def .
    with run hit(2,4) show ?thesis
      by (auto simp: scan_entries.simps [of io dir nm len "32 * int k" s] Let_def)
  next
    case stop
    with run show ?thesis by (simp add: scan_entries.simps [of io dir nm len "32 * int k" s] DIR_REC_LEN_def)
  qed
qed

lemma find_dir_entry_step:
  assumes d: "dir_in s dir bl N" and run: "find_dir_entry io dir nm len s = Inr ((pos, de), s')"
  shows "(case first_match s bl N nm len 0 of
        Some j \<Rightarrow> pos = 32 * int j \<and> j < N \<and> entry_matches nm len (dir_entry_at s bl j) \<and> de = Some (dir_entry_at s bl j)
      | None \<Rightarrow> pos = - 1 \<and> de = None)
    \<and> (\<exists>b. s' = s\<lparr>bc := b\<rparr> \<and> kept (bc s) b (bmem (bc s)))"
proof -
  from run obtain p where "scan_entries io dir nm len (32 * int 0) s = Inr ((p, de), s')"
    and p: "pos = (if p < i_size (inodes s' dir) then p else - 1)"
    by (auto simp: find_dir_entry_def bindr_eq_Inr)
  note s = scan_entries_step [OF d le0 this(1)]
  then obtain b where b: "s' = s\<lparr>bc := b\<rparr>" by blast
  have sz: "i_size (inodes s' dir) = 32 * int N" using d by (simp add: b dir_in_def)
  have "j < N \<and> entry_matches nm len (dir_entry_at s bl j)" if "first_match s bl N nm len 0 = Some j" for j
    using that by (auto simp: first_match_def find_Some_iff)
  with s p sz show ?thesis by (auto split: option.splits)
qed

text \<open>
  C15: \<^verbatim>\<open>_find_dir_entry\<close> on a directory of \<open>N\<close> entries in cached blocks. When it returns it has found the first
  matching entry, with its position, or \<open>- 1\<close> and no entry when none matches, and has changed nothing on
  the way; while the blocks have other users it returns. For a whole name the match is exact:
  since \<^verbatim>\<open>strncmp\<close> compares one byte more than asked for, it takes in the terminator.
\<close>

theorem find_dir_entry_finds:
  assumes d: "dir_in s dir bl N" and nm: "c_str nm = x" "x \<noteq> []"
  shows "(\<forall>pos de s'. find_dir_entry io dir nm (length x) s = Inr ((pos, de), s') \<longrightarrow>
      (if \<exists>j < N. c_str (de_name (dir_entry_at s bl j)) = x
       then \<exists>j < N. c_str (de_name (dir_entry_at s bl j)) = x \<and> (\<forall>i < j. c_str (de_name (dir_entry_at s bl i)) \<noteq> x)
              \<and> pos = 32 * int j \<and> de = Some (dir_entry_at s bl j)
       else pos = - 1 \<and> de = None)
      \<and> s' = s\<lparr>bc := bc s'\<rparr> \<and> bmem (bc s') = bmem (bc s))
    \<and> ((\<forall>q \<in> set bl. 0 < uses (bc s) q) \<longrightarrow> (\<exists>r. find_dir_entry io dir nm (length x) s = Inr r))"
proof (intro conjI allI impI)
  have m: "entry_matches nm (length x) de \<longleftrightarrow> c_str (de_name de) = x" for de
    using str_cmp_self_prefix [OF c_str_nonzero c_str_nonzero, of nm "de_name de"] nm
    by (auto simp: entry_matches_def str_ncmp_def)
  fix pos de s'
  assume run: "find_dir_entry io dir nm (length x) s = Inr ((pos, de), s')"
  note s = find_dir_entry_step [OF d run]
  then show "s' = s\<lparr>bc := bc s'\<rparr>" "bmem (bc s') = bmem (bc s)" by (auto simp: kept_mem)
  show "if \<exists>j < N. c_str (de_name (dir_entry_at s bl j)) = x
       then \<exists>j < N. c_str (de_name (dir_entry_at s bl j)) = x \<and> (\<forall>i < j. c_str (de_name (dir_entry_at s bl i)) \<noteq> x)
              \<and> pos = 32 * int j \<and> de = Some (dir_entry_at s bl j)
       else pos = - 1 \<and> de = None"
  proof (cases "first_match s bl N nm (length x) 0")
    case None
    then have "\<forall>j < N. c_str (de_name (dir_entry_at s bl j)) \<noteq> x" by (auto simp: first_match_def find_None_iff m)
    with s [unfolded None] show ?thesis by auto
  next
    case (Some j)
    then have "\<forall>i < j. c_str (de_name (dir_entry_at s bl i)) \<noteq> x"
      by (auto simp: first_match_def find_Some_iff m)
    with s [unfolded Some] show ?thesis by (auto simp: m)
  qed
next
  assume "\<forall>q \<in> set bl. 0 < uses (bc s) q"
  with scan_entries_returns [OF d le0, of io nm "length x"]
  show "\<exists>r. find_dir_entry io dir nm (length x) s = Inr r" by (auto simp: find_dir_entry_def)
qed

lemma small_dir: "dir_in small_disk 0x1000 [0x20070] 2"
  using small_file by (simp add: dir_in_def whole_file_def) (simp add: small_disk_def small_cache_def blk_ok_def)

lemma file_bytes_nth: "i < n \<Longrightarrow> file_bytes s bl a n ! i = file_byte s bl (a + i)"
  by (simp add: file_bytes_def)

lemma small_bytes:
  assumes "i < 64"
  shows "file_byte small_disk [0x20070] i = (dir_entry_bytes (small_entry 2 97) @ dir_entry_bytes (small_entry 3 98)) ! i"
proof -
  let ?bs = "dir_entry_bytes (small_entry 2 97) @ dir_entry_bytes (small_entry 3 98)"
  have "length ?bs = 64" by (simp add: dir_entry_bytes_def small_entry_def)
  moreover have "unat (of_nat i :: addr_t) = i" using assms by (simp add: unsigned_of_nat take_bit_nat_eq_self)
  ultimately have "small_mem (0x8f400 + of_nat i) = ?bs ! i" using assms by (simp add: small_mem_def stored_def)
  moreover have "bmem small_cache = small_mem" by (simp add: bmem_def small_cache_def)
  ultimately show ?thesis using assms by (simp add: file_byte_def small_disk_def)
qed

lemma small_entries: "dir_entry_at small_disk [0x20070] 0 = small_entry 2 97" "dir_entry_at small_disk [0x20070] 1 = small_entry 3 98"
proof -
  have l: "length (dir_entry_bytes (small_entry n c)) = 32" for n c by (simp add: dir_entry_bytes_def small_entry_def)
  have "file_bytes small_disk [0x20070] 0 32 = dir_entry_bytes (small_entry 2 97)"
    by (rule nth_equalityI) (simp_all add: file_bytes_nth l small_bytes nth_append)
  then show "dir_entry_at small_disk [0x20070] 0 = small_entry 2 97"
    using dir_entry_roundtrip [of "small_entry 2 97" "[]"] by (simp add: dir_entry_at_def small_entry_def)
  have "file_bytes small_disk [0x20070] 32 32 = dir_entry_bytes (small_entry 3 98)"
    by (rule nth_equalityI) (simp_all add: file_bytes_nth l small_bytes nth_append)
  then show "dir_entry_at small_disk [0x20070] 1 = small_entry 3 98"
    using dir_entry_roundtrip [of "small_entry 3 98" "[]"] by (simp add: dir_entry_at_def small_entry_def)
qed

lemma small_names: "c_str (de_name (dir_entry_at small_disk [0x20070] 0)) = [97]"
  "c_str (de_name (dir_entry_at small_disk [0x20070] 1)) = [98]"
  unfolding small_entries by (simp_all add: small_entry_def c_str_def)

theorem find_dir_entry_finds_witness:
  "\<forall>io. \<exists>de s'. find_dir_entry io 0x1000 (98 # replicate 23 0) 1 small_disk = Inr ((32, Some de), s') \<and> de_inode de = 3"
proof -
  have "\<exists>de s'. find_dir_entry io 0x1000 (98 # replicate 23 0) 1 small_disk = Inr ((32, Some de), s') \<and> de_inode de = 3" for io
  proof -
    have nm: "c_str (98 # replicate 23 0) = [98]" "[98 :: u8] \<noteq> []" by (simp_all add: c_str_def)
    have u: "\<forall>q \<in> set [0x20070]. 0 < uses (bc small_disk) q" using small_used by (simp add: all_used_def)
    have two: "j < 2 \<longleftrightarrow> j = 0 \<or> j = 1" for j :: nat by auto
    have "c_str (de_name (dir_entry_at small_disk [0x20070] j)) = [98] \<longleftrightarrow> j = 1" if "j < 2" for j
      using that small_names by (auto simp: two)
    then have ex: "(\<exists>j < 2. c_str (de_name (dir_entry_at small_disk [0x20070] j)) = [98] \<and> P j) \<longleftrightarrow> P 1" for P by (auto intro!: exI [of _ "Suc 0"])
    from find_dir_entry_finds [OF small_dir nm, of io] u obtain pos de s' where
      r: "find_dir_entry io 0x1000 (98 # replicate 23 0) 1 small_disk = Inr ((pos, de), s')" by auto
    have "pos = 32 \<and> de = Some (small_entry 3 98)"
      using find_dir_entry_finds [OF small_dir nm, of io] r ex [of "\<lambda>_. True"] small_entries(2) by (auto simp: ex)
    with r show ?thesis by (auto simp: small_entry_def)
  qed
  then show ?thesis by blast
qed

section \<open>Paths of several components\<close>

lemma str_cmp_sym: "str_cmp n x y = 0 \<longleftrightarrow> str_cmp n y x = 0"
  by (induction n arbitrary: x y) (auto simp: Let_def)

lemma find_dentry_hit:
  assumes "find_dentry parent dname pos s = Some (Inr (Some p))"
  shows "qstrcmp \<lparr>q_len = d_len (dentries s p), q_name = dnames s (d_name (dentries s p))\<rparr> dname = 0"
proof -
  define P where "P s dname r \<longleftrightarrow> (\<forall>p. r = Inr (Some p) \<longrightarrow>
      qstrcmp \<lparr>q_len = d_len (dentries s p), q_name = dnames s (d_name (dentries s p))\<rparr> dname = 0)"
    for s :: "'a fs" and dname and r :: "addr_t option res"
  have "P s dname (Inr (Some p))"
  proof (rule find_dentry.raw_induct [OF _ assms, of "\<lambda>_ dname _ s. P s dname"])
    fix find parent dname pos s r
    assume ih: "\<And>parent dname pos s r. find parent dname pos s = Some r \<Longrightarrow> P s dname r"
      and run: "(if pos = dentry_list s then Some (Inr None) else if pos = 0 then Some (Inl Bad_access)
          else let p = pos - 24; d = dentries s p in
            if qstrcmp \<lparr>q_len = d_len d, q_name = dnames s (d_name d)\<rparr> dname = 0 \<and> d_refcnt d \<noteq> 0 \<and> d_parent d = parent
            then Some (Inr (Some p)) else find parent dname (lnext (ilk s) pos) s) = Some r"
    from run ih show "P s dname r" by (auto simp: P_def Let_def split: if_splits)
  qed
  then show ?thesis by (simp add: P_def)
qed

text \<open>The names in memory and in a directory have no slash, but for the name of the root.\<close>

definition flat_names :: "'e fs \<Rightarrow> addr_t list \<Rightarrow> nat \<Rightarrow> bool" where
  "flat_names s bl N \<longleftrightarrow> (\<forall>p. slash \<notin> set (dnames s (d_name (dentries s p))) \<or> dnames s (d_name (dentries s p)) = [slash])
     \<and> (\<forall>j < N. slash \<notin> set (c_str (de_name (dir_entry_at s bl j))))"

text \<open>A component with more of the path behind it.\<close>

definition inner_name :: "u8 list \<Rightarrow> u8 list \<Rightarrow> qstr" where
  "inner_name c r = \<lparr>q_len = length c, q_name = c @ slash # r\<rparr>"

lemma inner_name_new:
  assumes "c \<noteq> []" "0 \<notin> set c" "slash \<notin> set nm \<or> nm = [slash]"
  shows "str_cmp (Suc (length c)) (c @ slash # r) nm \<noteq> 0"
proof
  assume "str_cmp (Suc (length c)) (c @ slash # r) nm = 0"
  from str_cmp_next_byte [OF assms(2) _ this] have t: "take (Suc (length c)) nm = c @ [slash]" by (simp add: slash_def)
  then have "slash \<in> set nm" using set_take_subset [of "Suc (length c)" nm] by auto
  with assms t show False by auto
qed

lemma inner_name_misses:
  assumes d: "dir_in s (d_inode (dentries s parent)) bl N" and f: "flat_names s bl N"
    and c: "c \<noteq> []" "0 \<notin> set c" "slash \<notin> set c" and run: "get_dentry io parent (inner_name c r) s = Inr (d, s')"
  shows "d = 0 \<and> (\<exists>b. s' = s\<lparr>bc := b\<rparr>)"
proof -
  let ?q = "inner_name c r"
  from run obtain hit where h: "find_dentry parent ?q (lnext (ilk s) (dentry_list s)) s = Some (Inr hit)"
    by (auto simp: get_dentry_def Let_def bindr_eq_Inr of_loop_def split: option.splits)
  have "hit = None"
  proof (cases hit)
    case (Some p)
    let ?nm = "dnames s (d_name (dentries s p))"
    from h Some have "qstrcmp \<lparr>q_len = d_len (dentries s p), q_name = ?nm\<rparr> ?q = 0" using find_dentry_hit by blast
    then have "str_cmp (Suc (length c)) ?nm (c @ slash # r) = 0"
      using c(1) by (auto simp: qstrcmp_def str_ncmp_def inner_name_def split: if_splits)
    then have "str_cmp (Suc (length c)) (c @ slash # r) ?nm = 0" by (rule str_cmp_sym [THEN iffD1])
    moreover have "slash \<notin> set ?nm \<or> ?nm = [slash]" using f by (simp add: flat_names_def)
    ultimately show ?thesis using inner_name_new [OF c(1,2)] by blast
  qed
  with run h obtain nm pos de t where nm: "str_ncpy MAX_DENTRY_LENGTH (c @ slash # r) = Inr nm"
    and fd: "find_dir_entry io (d_inode (dentries s parent)) nm (length c) s = Inr ((pos, de), t)"
    and rest: "pos < 0 \<Longrightarrow> d = 0 \<and> s' = t"
    by (auto simp: get_dentry_def Let_def bindr_eq_Inr assertr_eq_Inr inner_name_def at_def split: if_splits)
  have "nm = c @ slash # (r @ replicate (MAX_DENTRY_LENGTH - length (c @ slash # r)) 0)"
    using nm by (auto simp: str_ncpy_def split: if_splits)
  then obtain r' where nm': "c_str nm = c @ slash # r'" using c_str_append [OF c(2), of slash] by (auto simp: slash_def)
  have "\<not> entry_matches nm (length c) (dir_entry_at s bl j)" if "j < N" for j
    using inner_name_new [OF c(1,2), of "c_str (de_name (dir_entry_at s bl j))" r'] f that c(1)
    by (auto simp: flat_names_def entry_matches_def nm' str_ncmp_def simp del: str_cmp.simps)
  then have "first_match s bl N nm (length c) 0 = None" by (auto simp: first_match_def find_None_iff)
  with find_dir_entry_step [OF d fd] rest show ?thesis by auto
qed

lemma path_names_inner:
  assumes "c \<noteq> []" "slash \<notin> set c"
  obtains qs where "path_names dirs (c @ slash # r) = inner_name c r # qs"
proof -
  have "upto_slash (c @ slash # r) = length c"
    using assms(2) by (auto simp: upto_slash_def takeWhile_append)
  then have "path_names dirs (c @ slash # r) = inner_name c r # rest_names dirs (next_name (inner_name c r))"
    using assms(1) by (simp add: path_names_def more_names_def inner_name_def Let_def)
  then show thesis by (rule that)
qed

lemma put_root:
  assumes "root \<noteq> 0" "d_parent (dentries s root) = root" "d_refcnt (dentries s root) = 2" "put_dentry io root s = Inr s'"
  shows "d_inode (dentries s' root) = 0" "d_refcnt (dentries s' root) = - 1" "root_dentry s' = root_dentry s"
  using assms
  by (auto simp: put_dentry_def dunlink_parent_def dunlink_inode_def link_del_def assertr_eq_Inr bindr_eq_Inr at_def
      upd_dentry_def upd_inode_def Let_def split: if_splits)

text \<open>
  C16: no path of more than one component is ever opened. With the root directory in the cache, as it is after
  boot, and no slash in the names of its entries and of the cached dentries, \<^verbatim>\<open>_open\<close> and \<^verbatim>\<open>_opendir\<close> of \<open>/c/r\<close>
  return \<open>NULL\<close> if they return: \<^verbatim>\<open>strncmp\<close> compares the slash after the component with the terminator of
  every name. The failure also destroys the root: releasing it drops two references and clears
  its inode, so every later lookup in it follows a null pointer.
\<close>

theorem nested_paths_fail:
  assumes root: "root_dentry s \<noteq> 0" "d_parent (dentries s (root_dentry s)) = root_dentry s"
      "d_refcnt (dentries s (root_dentry s)) = 1"
    and d: "dir_in s (d_inode (dentries s (root_dentry s))) bl N" and f: "flat_names s bl N"
    and c: "c \<noteq> []" "0 \<notin> set c" "slash \<notin> set c"
    and run: "open_path io (slash # c @ slash # r) s = Inr (p, s') \<or> open_dir io (slash # c @ slash # r) s = Inr (p, s')"
  shows "p = 0 \<and> d_inode (dentries s' (root_dentry s)) = 0 \<and> get_dentry io (root_dentry s) q s' = Inl Bad_access"
proof -
  let ?root = "root_dentry s"
  let ?s = "upd_dentry ?root (\<lambda>d. d\<lparr>d_refcnt := d_refcnt d + 1\<rparr>) s"
  from run obtain dirs where "open_from_root io dirs (slash # c @ slash # r) s = Inr (p, s')"
    by (auto simp: open_path_def open_dir_def)
  moreover obtain qs where "path_names dirs (c @ slash # r) = inner_name c r # qs" by (rule path_names_inner [OF c(1,3)])
  ultimately obtain child t where g: "get_dentry io ?root (inner_name c r) ?s = Inr (child, t)"
    and rest: "child = 0 \<Longrightarrow> \<exists>u. close_dentry io ?root t = Inr u \<and> p = 0 \<and> s' = u"
    by (auto simp: open_from_root_def assertr_eq_Inr bindr_eq_Inr split: if_splits)
  have d': "dir_in ?s (d_inode (dentries ?s ?root)) bl N" using d by (simp add: dir_in_def file_in_def upd_dentry_def)
  have "dir_entry_at ?s bl j = dir_entry_at s bl j" for j
    by (rule dir_entry_at_cong) (simp add: upd_dentry_def)
  then have f': "flat_names ?s bl N" using f by (auto simp: flat_names_def upd_dentry_def)
  from inner_name_misses [OF d' f' c g] obtain b where t: "child = 0" "t = ?s\<lparr>bc := b\<rparr>" by blast
  with rest obtain u where u: "close_dentry io ?root t = Inr u" "p = 0" "s' = u" by blast
  have r: "d_parent (dentries t ?root) = ?root" "d_refcnt (dentries t ?root) = 2" "root_dentry t = ?root"
    using root by (simp_all add: t(2) upd_dentry_def)
  from u(1) root(1) obtain v where v: "put_dentry io ?root t = Inr v"
    "(if d_refcnt (dentries v ?root) = 0 then bindr (of_loop (close_up io (d_parent (dentries t ?root)) v)) id else Inr v) = Inr u"
    by (auto simp: close_dentry_def at_def bindr_eq_Inr)
  note pr = put_root [OF root(1) r(1,2) v(1)]
  then have "s' = v" using v(2) u(3) by simp
  then show ?thesis using u(2) pr(1) root(1) by (simp add: get_dentry_def at_def)
qed

text \<open>The small disk with its root open once.\<close>

definition small_root :: "unit fs" where
  "small_root = small_disk\<lparr>dentries := (\<lambda>_. zero_dentry)(0x2000 := \<lparr>d_parent = 0x2000, d_len = 1, d_name = 0x2800,
     d_inode = 0x1000, d_refcnt = 1\<rparr>), dnames := (\<lambda>_. [])(0x2800 := [slash])\<rparr>"

lemma small_root_dir: "dir_in small_root 0x1000 [0x20070] 2" "flat_names small_root [0x20070] 2"
proof -
  show "dir_in small_root 0x1000 [0x20070] 2" using small_dir by (simp add: small_root_def dir_in_def file_in_def)
  have e: "dir_entry_at small_root bl j = dir_entry_at small_disk bl j" for bl j
    by (rule dir_entry_at_cong) (simp add: small_root_def)
  have "slash \<notin> set (c_str (de_name (dir_entry_at small_root [0x20070] j)))" if "j < 2" for j
  proof -
    from that have "j = 0 \<or> j = 1" by auto
    with small_names show ?thesis by (auto simp: e slash_def)
  qed
  then show "flat_names small_root [0x20070] 2" by (simp add: flat_names_def small_root_def)
qed

text \<open>The small disk's root dentry and its cache.\<close>

lemma small_root_simps:
  "root_dentry small_root = 0x2000" "dentry_list small_root = 0x3008" "lnext (ilk small_root) x = x" "lprev (ilk small_root) x = x"
  "dentries small_root 0x2000 = \<lparr>d_parent = 0x2000, d_len = 1, d_name = 0x2800, d_inode = 0x1000, d_refcnt = 1\<rparr>"
  by (simp_all add: small_root_def small_disk_def)

lemma small_root_open:
  "\<exists>s'. open_dir io [slash, 97, slash, 98] small_root = Inr (0, s')"
proof -
  let ?s = "upd_dentry 0x2000 (\<lambda>d. d\<lparr>d_refcnt := d_refcnt d + 1\<rparr>) small_root" and ?q = "inner_name [97] [98]"
  let ?nm = "[97, slash, 98] @ replicate 21 0"
  have s: "dentries ?s 0x2000 = \<lparr>d_parent = 0x2000, d_len = 1, d_name = 0x2800, d_inode = 0x1000, d_refcnt = 2\<rparr>"
    "ilk ?s = ilk small_root" "bc ?s = bc small_root" "dentry_list ?s = 0x3008"
    using small_root_simps by (simp_all add: upd_dentry_def)
  have dir: "dir_in ?s 0x1000 [0x20070] 2"
    using small_root_dir(1) by (simp add: dir_in_def file_in_def upd_dentry_def)
  have "\<forall>q \<in> set [0x20070]. 0 < uses (bc ?s) q" using small_used unfolding s(3) by (simp add: all_used_def small_root_def)
  from scan_entries_returns [OF dir le0 this, of io ?nm 1] obtain pos de t where
    fd: "find_dir_entry io 0x1000 ?nm 1 ?s = Inr ((pos, de), t)" by (auto simp: find_dir_entry_def)
  have e: "dir_entry_at ?s [0x20070] j = dir_entry_at small_disk [0x20070] j" for j
    by (rule dir_entry_at_cong) (simp add: upd_dentry_def small_root_def)
  have "\<not> entry_matches ?nm 1 (dir_entry_at ?s [0x20070] j)" if "j < 2" for j
  proof -
    have "j = 0 \<or> j = 1" using that by auto
    with small_names show ?thesis by (auto simp: entry_matches_def e str_ncmp_def c_str_def slash_def Let_def char_int_def)
  qed
  then have "first_match ?s [0x20070] 2 ?nm 1 0 = None" by (auto simp: first_match_def find_None_iff)
  with find_dir_entry_step [OF dir fd] obtain b where t: "pos = - 1" "t = ?s\<lparr>bc := b\<rparr>" by auto
  have "find_dentry 0x2000 ?q 0x3008 ?s = Some (Inr None)" by (simp add: find_dentry.simps s)
  with fd t(1) have g: "get_dentry io 0x2000 ?q ?s = Inr (0, t)"
    by (simp add: get_dentry_def at_def s small_root_simps inner_name_def str_ncpy_def MAX_DENTRY_LENGTH_def Let_def)
  have "\<exists>u. put_dentry io 0x2000 t = Inr u \<and> d_refcnt (dentries u 0x2000) = - 1"
    by (simp add: t(2) put_dentry_def dunlink_parent_def dunlink_inode_def link_del_def s small_root_simps at_def
        upd_dentry_def upd_inode_def Let_def d_alias_def)
  then obtain u where "close_dentry io 0x2000 t = Inr u" by (auto simp: close_dentry_def at_def)
  moreover obtain qs where "path_names True [97, slash, 98] = ?q # qs"
    using path_names_inner [of "[97]" True "[98]"] by (auto simp: slash_def)
  ultimately show ?thesis using g
    by (simp add: open_dir_def open_from_root_def small_root_simps)
qed

theorem nested_paths_fail_witness:
  "\<forall>io. \<exists>s'. open_dir io [slash, 97, slash, 98] small_root = Inr (0, s')
     \<and> get_dentry io 0x2000 \<lparr>q_len = 1, q_name = [97]\<rparr> s' = Inl Bad_access"
proof -
  have "\<exists>s'. open_dir io [slash, 97, slash, 98] small_root = Inr (0, s')
     \<and> get_dentry io 0x2000 \<lparr>q_len = 1, q_name = [97]\<rparr> s' = Inl Bad_access" for io
  proof -
    obtain s' where r: "open_dir io [slash, 97, slash, 98] small_root = Inr (0, s')" using small_root_open by blast
    have d: "dir_in small_root (d_inode (dentries small_root (root_dentry small_root))) [0x20070] 2"
      using small_root_dir(1) by (simp add: small_root_simps)
    from r have "open_path io (slash # [97] @ slash # [98]) small_root = Inr (0, s')
        \<or> open_dir io (slash # [97] @ slash # [98]) small_root = Inr (0, s')" by simp
    from nested_paths_fail [OF _ _ _ d small_root_dir(2) _ _ _ this, of "\<lparr>q_len = 1, q_name = [97]\<rparr>"] r
    show ?thesis by (auto simp: small_root_simps slash_def)
  qed
  then show ?thesis by blast
qed

end
