(* ===== verification/Kept_Pages.thy ===== *)
theory Kept_Pages imports Fs_Syscall Fork begin

text \<open>
  Pages in use stay in use: neither the file system nor a fault nor a fork gives back a page that was taken before. The
  routines are gone through with rules that follow their structure.
\<close>

section \<open>Rules\<close>

text \<open>Whatever state a routine returns has the property.\<close>

definition kept :: "('s \<Rightarrow> bool) \<Rightarrow> 's res \<Rightarrow> bool" where
  "kept P r \<longleftrightarrow> (\<forall>s. r = Inr s \<longrightarrow> P s)"

definition keptv :: "('s \<Rightarrow> bool) \<Rightarrow> ('a \<times> 's) res \<Rightarrow> bool" where
  "keptv P r \<longleftrightarrow> (\<forall>a s. r = Inr (a, s) \<longrightarrow> P s)"

lemma keptD: "kept P r \<Longrightarrow> r = Inr s \<Longrightarrow> P s"
  by (simp add: kept_def)

lemma keptvD: "keptv P r \<Longrightarrow> r = Inr (a, s) \<Longrightarrow> P s"
  by (simp add: keptv_def)

lemma kept_rules:
  "kept P q \<Longrightarrow> (\<And>s. P s \<Longrightarrow> kept P (f s)) \<Longrightarrow> kept P (bindr q f)"
  "keptv P r \<Longrightarrow> (\<And>x. P (snd x) \<Longrightarrow> kept P (g x)) \<Longrightarrow> kept P (bindr r g)"
  "kept P q \<Longrightarrow> (\<And>s. P s \<Longrightarrow> keptv P (f' s)) \<Longrightarrow> keptv P (bindr q f')"
  "keptv P r \<Longrightarrow> (\<And>x. P (snd x) \<Longrightarrow> keptv P (g' x)) \<Longrightarrow> keptv P (bindr r g')"
  "kept P q \<Longrightarrow> kept P (assertr b q)"
  "keptv P r \<Longrightarrow> keptv P (assertr b r)"
  "(b \<Longrightarrow> kept P q) \<Longrightarrow> (\<not> b \<Longrightarrow> kept P q') \<Longrightarrow> kept P (if b then q else q')"
  "(b \<Longrightarrow> keptv P r) \<Longrightarrow> (\<not> b \<Longrightarrow> keptv P r') \<Longrightarrow> keptv P (if b then r else r')"
  "P s \<Longrightarrow> kept P (Inr s)"
  "P s \<Longrightarrow> keptv P (Inr (a, s))"
  "kept P (Inl h)"
  "keptv P (Inl h)"
  by (auto simp: kept_def keptv_def res_Inr)

text \<open>The same for the body of a recursion, whose induction hypothesis asks for what was computed.\<close>

lemma kept_rec:
  "kept P q \<Longrightarrow> (\<And>s. q = Inr s \<Longrightarrow> P s \<Longrightarrow> kept P (f s)) \<Longrightarrow> kept P (bindr q f)"
  "keptv P r \<Longrightarrow> (\<And>x. r = Inr x \<Longrightarrow> P (snd x) \<Longrightarrow> kept P (g x)) \<Longrightarrow> kept P (bindr r g)"
  "keptv P r \<Longrightarrow> (\<And>x. r = Inr x \<Longrightarrow> P (snd x) \<Longrightarrow> keptv P (g' x)) \<Longrightarrow> keptv P (bindr r g')"
  "kept P q \<Longrightarrow> (\<And>s. q = Inr s \<Longrightarrow> P s \<Longrightarrow> keptv P (f' s)) \<Longrightarrow> keptv P (bindr q f')"
  by (auto simp: kept_def keptv_def res_Inr)

lemma kept_rec_pure:
  "(\<And>x. r = Inr x \<Longrightarrow> kept P (f x)) \<Longrightarrow> kept P (bindr r f)"
  "(\<And>x. r = Inr x \<Longrightarrow> keptv P (g x)) \<Longrightarrow> keptv P (bindr r g)"
  by (auto simp: kept_def keptv_def res_Inr)

lemma kept_case:
  "keptv P r \<Longrightarrow> (\<And>x. keptv P (g x)) \<Longrightarrow> keptv P (case d of None \<Rightarrow> r | Some x \<Rightarrow> g x)"
  by (cases d) simp_all

text \<open>A computation that returns no state.\<close>

lemma kept_pure:
  "(\<And>x. kept P (f x)) \<Longrightarrow> kept P (bindr r f)"
  "(\<And>x. keptv P (g x)) \<Longrightarrow> keptv P (bindr r g)"
  by (auto simp: kept_def keptv_def res_Inr)

section \<open>Pages\<close>

definition used :: "addr_t \<Rightarrow> addr_t set \<Rightarrow> page_state \<Rightarrow> bool" where
  "used H T ps \<longleftrightarrow> pages_ok ps \<and> HIGH_MEMORY ps = H \<and> (\<forall>p \<in> T. not_free ps p)"

lemma used_fresh:
  assumes "used H T ps" and "fresh_page ps ps' p"
  shows "used H (insert p T) ps' \<and> p \<notin> T"
proof -
  have ok: "pages_ok ps" using assms(1) by (simp add: used_def)
  have "HIGH_MEMORY ps' = HIGH_MEMORY ps" using assms(2) by (auto simp: fresh_page_def)
  then show ?thesis
    using assms fresh_page_ok [OF ok assms(2)] fresh_page_not_free [OF ok assms(2)] fresh_page_was_free [OF assms(2)]
    by (auto simp: used_def)
qed

lemma used_subset: "used H T ps \<Longrightarrow> S \<subseteq> T \<Longrightarrow> used H S ps"
  by (auto simp: used_def)

lemma alloc_page_fresh: "pages_ok ps \<Longrightarrow> alloc_page ps = Inr (p, ps') \<Longrightarrow> fresh_page ps ps' p"
  using alloc_page_cases by (metis fresh_page_def)

lemma used_alloc: "used H T ps \<Longrightarrow> alloc_page ps = Inr (p, ps') \<Longrightarrow> used H (insert p T) ps' \<and> p \<notin> T"
  by (rule used_fresh [OF _ alloc_page_fresh]) (simp_all add: used_def)

text \<open>Giving back a page leaves the others in use; it has an address the allocator may hand out again.\<close>

lemma used_free:
  assumes "used H (insert p T) ps" "p \<notin> T" "free_page p ps = Inr ps'" "p = page_addr i" "i < NR_PAGES" "page_addr i < H"
  shows "used H T ps'"
proof -
  have len: "length (mem_map ps) = NR_PAGES" using assms(1) by (simp add: used_def pages_ok_def)
  from free_page_cases [OF _ assms(5) len] assms(3,4)
  have ps': "ps' = ps\<lparr>mem_map := (mem_map ps)[i := mem_map ps ! i - 1]\<rparr>" by simp
  have "not_free ps' q" if "q \<in> T" for q
    unfolding not_free_def
  proof (intro allI impI)
    fix j assume j: "j < NR_PAGES" "q = page_addr j"
    with that assms(1) have "mem_map ps ! j \<noteq> 0" by (auto simp: used_def not_free_def)
    moreover have "j \<noteq> i" using j that assms(2,4) by auto
    ultimately show "mem_map ps' ! j \<noteq> 0" by (simp add: ps')
  qed
  moreover have "pages_ok ps'" unfolding pages_ok_def
  proof (intro conjI allI impI)
    fix j assume "j < NR_PAGES" "mem_map ps' ! j = 0"
    with assms(1,6) show "page_addr j < HIGH_MEMORY ps'" by (cases "j = i") (auto simp: used_def pages_ok_def ps')
  qed (use len in \<open>simp add: ps'\<close>)
  ultimately show ?thesis using assms(1) by (simp add: used_def ps')
qed

section \<open>Faults and sharing\<close>

definition kmem_used :: "addr_t \<Rightarrow> addr_t set \<Rightarrow> kmem \<Rightarrow> bool" where
  "kmem_used H T k \<longleftrightarrow> used H T (pages k)"

lemma kmem_used_ram: "kmem_used H T k \<Longrightarrow> kmem_used H T (k\<lparr>ram := m\<rparr>)"
  by (simp add: kmem_used_def)

lemma alloc_page_used: "used H T ps \<Longrightarrow> alloc_page ps = Inr (p, ps') \<Longrightarrow> used H T ps'"
  by (rule used_subset [OF conjunct1 [OF used_alloc] subset_insertI])

lemma take_page_kept: "kmem_used H T k \<Longrightarrow> keptv (kmem_used H T) (take_page k)"
  by (auto simp: keptv_def take_page_def kmem_used_def res_Inr dest: alloc_page_used)

lemma alloc_zeroed_page_kept: "kmem_used H T k \<Longrightarrow> keptv (kmem_used H T) (alloc_zeroed_page k)"
  by (auto simp: keptv_def alloc_zeroed_page_def kmem_used_def res_Inr dest: alloc_page_used [unfolded alloc_page_def])

lemmas kmem_rules = kept_rules kmem_used_ram take_page_kept

lemma table_for_kept: "kmem_used H T k \<Longrightarrow> keptv (kmem_used H T) (table_for a k)"
  unfolding table_for_def case_prod_unfold by (rule kmem_rules kept_pure | assumption)+

lemma do_no_page_kept: "kmem_used H T k \<Longrightarrow> kept (kmem_used H T) (do_no_page a k)"
  unfolding do_no_page_def Let_def case_prod_unfold by (rule kmem_rules table_for_kept kept_pure | assumption)+

lemma do_wp_page_kept: "kmem_used H T k \<Longrightarrow> kept (kmem_used H T) (do_wp_page a k)"
  unfolding do_wp_page_def Let_def case_prod_unfold by (rule kmem_rules kept_pure | assumption)+

lemma share_vma_kept: "kmem_used H T k \<Longrightarrow> kept (kmem_used H T) (share_vma a b n k)"
  unfolding share_vma_def Let_def case_prod_unfold by (rule kmem_rules kept_pure | assumption)+

section \<open>Slabs\<close>

definition slab_used :: "addr_t \<Rightarrow> addr_t set \<Rightarrow> slab_state \<Rightarrow> bool" where
  "slab_used H T s \<longleftrightarrow> kmem_used H T (km s)"

lemma slab_used_updates:
  "slab_used H T s \<Longrightarrow> slab_used H T (on_links f s)"
  "slab_used H T s \<Longrightarrow> slab_used H T (set_slab p x s)"
  "slab_used H T s \<Longrightarrow> slab_used H T (s\<lparr>caches := c\<rparr>)"
  "slab_used H T s \<Longrightarrow> slab_used H T (s\<lparr>generic_cachep := g\<rparr>)"
  "kmem_used H T k \<Longrightarrow> slab_used H T (s\<lparr>km := k\<rparr>)"
  "slab_used H T s \<Longrightarrow> slab_used H T s' \<Longrightarrow> slab_used H T (if b then s else s')"
  by (simp_all add: slab_used_def on_links_def set_slab_def)

lemmas slab_rules = kept_rules slab_used_updates kmem_used_ram

lemma slab_alloc_kept: "slab_used H T s \<Longrightarrow> keptv (slab_used H T) (slab_alloc p s)"
  unfolding slab_alloc_def Let_def by (rule slab_rules kept_pure | assumption)+

lemma slab_release_kept: "slab_used H T s \<Longrightarrow> kept (slab_used H T) (slab_release p s)"
  unfolding slab_release_def Let_def by (rule slab_rules kept_pure | assumption)+

lemma create_slab_kept: "slab_used H T s \<Longrightarrow> keptv (slab_used H T) (create_slab c s)"
proof -
  assume "slab_used H T s"
  then have "keptv (kmem_used H T) (alloc_zeroed_page (km s))" by (intro alloc_zeroed_page_kept) (simp add: slab_used_def)
  then have page: "keptv (slab_used H T) (bindr (alloc_zeroed_page (km s)) g)"
    if "\<And>x. kmem_used H T (snd x) \<Longrightarrow> keptv (slab_used H T) (g x)" for g :: "addr_t \<times> kmem \<Rightarrow> (addr_t \<times> slab_state) res"
    using that by (fastforce simp: keptv_def res_Inr)
  show ?thesis
    unfolding create_slab_def Let_def case_prod_unfold by (rule page slab_rules kept_pure | assumption)+
qed

lemma kmem_cache_alloc_kept: "slab_used H T s \<Longrightarrow> keptv (slab_used H T) (kmem_cache_alloc c s)"
  unfolding kmem_cache_alloc_def Let_def case_prod_unfold
  by (rule slab_rules create_slab_kept slab_alloc_kept kept_pure | assumption)+

lemma kmem_cache_free_kept: "slab_used H T s \<Longrightarrow> kept (slab_used H T) (kmem_cache_free c p s)"
  unfolding kmem_cache_free_def by (rule slab_rules slab_release_kept | assumption)+

lemma kmem_cache_create_kept: "slab_used H T s \<Longrightarrow> keptv (slab_used H T) (kmem_cache_create nm n s)"
  unfolding kmem_cache_create_def kmem_cache_createx_def Let_def case_prod_unfold
  by (rule slab_rules kmem_cache_alloc_kept | assumption)+

lemma create_generic_kept: "slab_used H T s \<Longrightarrow> kept (slab_used H T) (create_generic xs i s)"
proof (induction xs arbitrary: i s)
  case (Cons x xs)
  then show ?case unfolding create_generic.simps case_prod_unfold
    by (cases x) (simp only: create_generic.simps case_prod_unfold, (rule slab_rules Cons.IH kmem_cache_create_kept | assumption)+)
qed (simp add: kept_rules)

lemma cache_init_kept: "slab_used H T s \<Longrightarrow> kept (slab_used H T) (cache_init s)"
  unfolding cache_init_def by (rule create_generic_kept slab_used_updates | assumption)+

section \<open>Files\<close>

definition fs_used :: "addr_t \<Rightarrow> addr_t set \<Rightarrow> 'e fs \<Rightarrow> bool" where
  "fs_used H T s \<longleftrightarrow> slab_used H T (sl s)"

lemma fs_used_updates:
  "fs_used H T s \<Longrightarrow> fs_used H T (upd_inode p fi s)"
  "fs_used H T s \<Longrightarrow> fs_used H T (upd_dentry p fd s)"
  "fs_used H T s \<Longrightarrow> fs_used H T (upd_file p ff s)"
  "fs_used H T s \<Longrightarrow> fs_used H T (upd_mem fm s)"
  "fs_used H T s \<Longrightarrow> fs_used H T (s\<lparr>bc := b\<rparr>)"
  "fs_used H T s \<Longrightarrow> fs_used H T (s\<lparr>super := d\<rparr>)"
  "fs_used H T s \<Longrightarrow> fs_used H T (s\<lparr>ilk := l\<rparr>)"
  "fs_used H T s \<Longrightarrow> fs_used H T (s\<lparr>dnames := n\<rparr>)"
  "fs_used H T s \<Longrightarrow> fs_used H T (s\<lparr>filps := fp\<rparr>)"
  "fs_used H T s \<Longrightarrow> fs_used H T (s\<lparr>umem := m\<rparr>)"
  "fs_used H T s \<Longrightarrow> fs_used H T (s\<lparr>inode_cache := c\<rparr>)"
  "fs_used H T s \<Longrightarrow> fs_used H T (s\<lparr>dentry_cache := c\<rparr>)"
  "fs_used H T s \<Longrightarrow> fs_used H T (s\<lparr>file_cache := c\<rparr>)"
  "fs_used H T s \<Longrightarrow> fs_used H T (s\<lparr>dname_cache := c\<rparr>)"
  "fs_used H T s \<Longrightarrow> fs_used H T s' \<Longrightarrow> fs_used H T (if q then s else s')"
  by (simp_all add: fs_used_def upd_inode_def upd_dentry_def upd_file_def upd_mem_def)

text \<open>Allocation and release of objects, on the memory of the buffer cache.\<close>

lemma slab_op_kept:
  assumes "fs_used H T s" and "\<And>t. slab_used H T t \<Longrightarrow> keptv (slab_used H T) (f t)"
  shows "keptv (fs_used H T) (slab_op f s)"
proof -
  have "slab_used H T ((sl s)\<lparr>km := (km (sl s))\<lparr>ram := bmem (bc s)\<rparr>\<rparr>)"
    using assms(1) by (simp add: fs_used_def slab_used_def kmem_used_def)
  from assms(2) [OF this] show ?thesis by (auto simp: keptv_def slab_op_def res_Inr fs_used_def)
qed

lemma fs_alloc_kept: "fs_used H T s \<Longrightarrow> keptv (fs_used H T) (fs_alloc c s)"
  unfolding fs_alloc_def by (erule slab_op_kept) (rule kmem_cache_alloc_kept)

lemma fs_free_kept: "fs_used H T s \<Longrightarrow> kept (fs_used H T) (fs_free c p s)"
  unfolding fs_free_def case_prod_unfold
  by (rule kept_rules | erule slab_op_kept kmem_cache_free_kept | assumption)+

lemma link_kept:
  "fs_used H T s \<Longrightarrow> kept (fs_used H T) (link_add a b s)"
  "fs_used H T s \<Longrightarrow> kept (fs_used H T) (link_del a s)"
  by (simp_all add: link_add_def link_del_def kept_def fs_used_updates)

lemma fs_bread_kept: "fs_used H T s \<Longrightarrow> keptv (fs_used H T) (fs_bread io dev n s)"
  unfolding fs_bread_def case_prod_unfold by (rule kept_rules fs_used_updates kept_pure | assumption)+

lemma fs_brelease_kept: "fs_used H T s \<Longrightarrow> kept (fs_used H T) (fs_brelease io bh s)"
  unfolding fs_brelease_def by (rule kept_rules fs_used_updates kept_pure | assumption)+

lemma fs_bwrite_kept: "fs_used H T s \<Longrightarrow> kept (fs_used H T) (fs_bwrite bh s)"
  unfolding fs_bwrite_def by (rule kept_rules fs_used_updates kept_pure | assumption)+

lemma on_buf_kept: "fs_used H T s \<Longrightarrow> keptv (fs_used H T) (on_buf f s)"
  unfolding on_buf_def case_prod_unfold by (rule kept_rules fs_used_updates kept_pure | assumption)+

lemmas buf_rules = kept_rules fs_used_updates fs_bread_kept fs_brelease_kept fs_bwrite_kept on_buf_kept

lemma load_block_kept: "fs_used H T s \<Longrightarrow> keptv (fs_used H T) (load_block io dev n off len s)"
  unfolding load_block_def Let_def case_prod_unfold by (rule buf_rules | assumption)+

lemma save_block_kept: "fs_used H T s \<Longrightarrow> kept (fs_used H T) (save_block io dev n off bs s)"
  unfolding save_block_def case_prod_unfold by (rule buf_rules | assumption)+

lemma alloc_block_nr_kept: "fs_used H T s \<Longrightarrow> keptv (fs_used H T) (alloc_block_nr io sb s)"
  unfolding alloc_block_nr_def by (rule buf_rules kept_pure | assumption)+

lemma alloc_inode_nr_kept: "fs_used H T s \<Longrightarrow> keptv (fs_used H T) (alloc_inode_nr io sb s)"
  unfolding alloc_inode_nr_def by (rule buf_rules kept_pure | assumption)+

lemma test_inode_nr_kept: "fs_used H T s \<Longrightarrow> keptv (fs_used H T) (test_inode_nr io sb n s)"
  unfolding test_inode_nr_def by (rule buf_rules kept_pure | assumption)+

lemma free_nr_kept:
  "fs_used H T s \<Longrightarrow> kept (fs_used H T) (free_block_nr io sb n s)"
  "fs_used H T s \<Longrightarrow> kept (fs_used H T) (free_inode_nr io sb n s)"
  unfolding free_block_nr_def free_inode_nr_def by (rule buf_rules kept_pure | assumption)+

lemmas blk_rules = kept_rules fs_used_updates load_block_kept save_block_kept alloc_block_nr_kept alloc_inode_nr_kept
  test_inode_nr_kept free_nr_kept fs_alloc_kept fs_free_kept link_kept

lemma get_blk_kept: "fs_used H T s \<Longrightarrow> keptv (fs_used H T) (get_blk io sb s)"
  unfolding get_blk_def case_prod_unfold by (rule blk_rules | assumption)+

lemma put_blk_kept: "fs_used H T s \<Longrightarrow> kept (fs_used H T) (put_blk io sb n s)"
  unfolding put_blk_def by (rule blk_rules | assumption)+

lemma read_inode_kept: "fs_used H T s \<Longrightarrow> kept (fs_used H T) (read_inode io p n sb s)"
  unfolding read_inode_def Let_def case_prod_unfold by (rule blk_rules | assumption)+

lemma write_inode_kept: "fs_used H T s \<Longrightarrow> kept (fs_used H T) (write_inode io p s)"
  unfolding write_inode_def Let_def case_prod_unfold by (rule blk_rules | assumption)+

lemma set_zone_blk_kept: "fs_used H T s \<Longrightarrow> kept (fs_used H T) (set_zone_blk p z n s)"
  unfolding set_zone_blk_def by (rule blk_rules | assumption)+

lemmas zone_rules = blk_rules get_blk_kept put_blk_kept read_inode_kept write_inode_kept set_zone_blk_kept

lemma grow_zones_kept: "fs_used H T s \<Longrightarrow> kept (fs_used H T) (grow_zones io p c n s)"
proof (induction io p c n s rule: grow_zones.induct)
  case (1 io p c n s)
  show ?case
    by (subst grow_zones.simps, unfold case_prod_unfold)
      (rule 1 kept_rec zone_rules prod.collapse | assumption)+
qed

lemma shrink_zones_kept: "fs_used H T s \<Longrightarrow> kept (fs_used H T) (shrink_zones io p c n s)"
proof (induction io p c n s rule: shrink_zones.induct)
  case (1 io p c n s)
  show ?case
    by (subst shrink_zones.simps) (rule 1 kept_rec zone_rules kept_rec_pure | assumption)+
qed

lemma reserve_zone_kept: "fs_used H T s \<Longrightarrow> keptv (fs_used H T) (reserve_zone io p n t s)"
  unfolding reserve_zone_def Let_def by (rule zone_rules grow_zones_kept shrink_zones_kept | assumption)+

lemma create_inode_kept: "fs_used H T s \<Longrightarrow> keptv (fs_used H T) (create_inode io sb mode s)"
  unfolding create_inode_def Let_def case_prod_unfold by (rule zone_rules | assumption)+

lemma get_inode_kept: "fs_used H T s \<Longrightarrow> keptv (fs_used H T) (get_inode io sb n s)"
  unfolding get_inode_def case_prod_unfold by (rule zone_rules kept_case kept_pure | assumption)+

lemma put_inode_kept: "fs_used H T s \<Longrightarrow> kept (fs_used H T) (put_inode io p s)"
  unfolding put_inode_def Let_def case_prod_unfold by (rule zone_rules reserve_zone_kept | assumption)+

lemma read_zones_kept: "fs_used H T s \<Longrightarrow> keptv (fs_used H T) (read_zones io p z n s)"
proof (induction io p z n s rule: read_zones.induct)
  case (1 io p z n s)
  show ?case
    by (subst read_zones.simps, unfold case_prod_unfold)
      (rule 1 kept_rec zone_rules kept_rec_pure prod.collapse | assumption)+
qed

lemma read_file_kept: "fs_used H T s \<Longrightarrow> keptv (fs_used H T) (read_file io p pos n s)"
  unfolding read_file_def Let_def case_prod_unfold by (rule zone_rules read_zones_kept kept_pure | assumption)+

lemma write_zones_kept: "fs_used H T s \<Longrightarrow> kept (fs_used H T) (write_zones io p z bs s)"
proof (induction io p z bs s rule: write_zones.induct)
  case (1 io p z bs s)
  show ?case
    by (subst write_zones.simps) (rule 1 kept_rec zone_rules kept_rec_pure | assumption)+
qed

lemma write_file_kept: "fs_used H T s \<Longrightarrow> keptv (fs_used H T) (write_file io p pos bs s)"
  unfolding write_file_def Let_def case_prod_unfold
  by (rule zone_rules reserve_zone_kept write_zones_kept kept_pure | assumption)+

lemma super_kept:
  "fs_used H T s \<Longrightarrow> keptv (fs_used H T) (read_super io dev s)"
  "fs_used H T s \<Longrightarrow> kept (fs_used H T) (write_super io sb s)"
  unfolding read_super_def write_super_def case_prod_unfold by (rule zone_rules kept_pure | assumption)+

section \<open>Directories\<close>

lemmas file_rules = zone_rules reserve_zone_kept create_inode_kept get_inode_kept put_inode_kept read_file_kept write_file_kept

lemma scan_entries_kept: "fs_used H T s \<Longrightarrow> keptv (fs_used H T) (scan_entries io dir nm n pos s)"
proof (induction io dir nm n pos s rule: scan_entries.induct)
  case (1 io dir nm n pos s)
  show ?case
    by (subst scan_entries.simps, unfold case_prod_unfold Let_def)
      (rule 1 kept_rec file_rules prod.collapse refl | assumption)+
qed

lemma free_entry_kept: "fs_used H T s \<Longrightarrow> keptv (fs_used H T) (free_entry io dir pos s)"
proof (induction io dir pos s rule: free_entry.induct)
  case (1 io dir pos s)
  show ?case
    by (subst free_entry.simps, unfold case_prod_unfold)
      (rule 1 kept_rec file_rules prod.collapse | assumption)+
qed

lemma find_dir_entry_kept: "fs_used H T s \<Longrightarrow> keptv (fs_used H T) (find_dir_entry io dir nm n s)"
  unfolding find_dir_entry_def case_prod_unfold by (rule file_rules scan_entries_kept | assumption)+

lemma add_dir_entry_kept: "fs_used H T s \<Longrightarrow> keptv (fs_used H T) (add_dir_entry io dir de s)"
  unfolding add_dir_entry_def Let_def case_prod_unfold
  by (rule file_rules find_dir_entry_kept free_entry_kept | assumption)+

lemma dentry_links_kept:
  "fs_used H T s \<Longrightarrow> kept (fs_used H T) (dlink_inode p i s)"
  "fs_used H T s \<Longrightarrow> kept (fs_used H T) (dunlink_inode p s)"
  "fs_used H T s \<Longrightarrow> fs_used H T (dlink_parent p q s)"
  "fs_used H T s \<Longrightarrow> kept (fs_used H T) (dunlink_parent p s)"
  unfolding dlink_inode_def dunlink_inode_def dlink_parent_def dunlink_parent_def Let_def
  by (rule file_rules kept_pure | assumption)+

lemma fill_dentry_kept: "fs_used H T s \<Longrightarrow> kept (fs_used H T) (fill_dentry p parent nm i s)"
  unfolding fill_dentry_def Let_def case_prod_unfold by (rule file_rules dentry_links_kept kept_pure | assumption)+

lemma get_dentry_kept: "fs_used H T s \<Longrightarrow> keptv (fs_used H T) (get_dentry io parent nm s)"
  unfolding get_dentry_def Let_def case_prod_unfold
  by (rule file_rules find_dir_entry_kept fill_dentry_kept kept_case kept_pure | assumption)+

lemma create_dentry_kept: "fs_used H T s \<Longrightarrow> keptv (fs_used H T) (create_dentry io parent nm i s)"
  unfolding create_dentry_def Let_def case_prod_unfold
  by (rule file_rules get_dentry_kept add_dir_entry_kept fill_dentry_kept kept_pure | assumption)+

lemma put_dentry_kept: "fs_used H T s \<Longrightarrow> kept (fs_used H T) (put_dentry io p s)"
  unfolding put_dentry_def Let_def by (rule file_rules dentry_links_kept | assumption)+

lemma close_up_kept: "fs_used H T s \<Longrightarrow> close_up io p s = Some r \<Longrightarrow> kept (fs_used H T) r"
proof -
  have "fs_used H T s \<longrightarrow> kept (fs_used H T) r" if "close_up io p s = Some r"
  proof (rule close_up.raw_induct [OF _ that], intro impI)
    fix f :: "'a ports \<Rightarrow> addr_t \<Rightarrow> 'a fs \<Rightarrow> 'a fs res option" and io p s r
    assume IH: "\<And>io p s r. f io p s = Some r \<Longrightarrow> fs_used H T s \<longrightarrow> kept (fs_used H T) r" and s: "fs_used H T s"
      and body: "(if p = root_dentry s then Some (Inr s)
        else case at p (dentries s) of Inl h \<Rightarrow> Some (Inl h)
          | Inr d \<Rightarrow> (case put_dentry io p s of Inl h \<Rightarrow> Some (Inl h) | Inr s \<Rightarrow> f io (d_parent d) s)) = Some r"
    have put: "kept (fs_used H T) (put_dentry io p s)" by (rule put_dentry_kept [OF s])
    show "kept (fs_used H T) r"
      using body s keptD [OF put]
      by (auto simp: kept_rules split: if_splits sum.splits dest!: IH intro: put)
  qed
  then show "fs_used H T s \<Longrightarrow> close_up io p s = Some r \<Longrightarrow> kept (fs_used H T) r" by blast
qed

text \<open>A loop whose result is the rest of the routine's.\<close>

lemma kept_loop: "(\<And>r. l = Some r \<Longrightarrow> kept P r) \<Longrightarrow> kept P (bindr (of_loop l) id)"
  by (cases l) (simp_all add: kept_def)

lemma close_dentry_kept: "fs_used H T s \<Longrightarrow> kept (fs_used H T) (close_dentry io p s)"
  unfolding close_dentry_def
  by (rule kept_loop put_dentry_kept file_rules kept_pure | assumption | erule close_up_kept)+

lemma walk_names_kept: "fs_used H T s \<Longrightarrow> keptv (fs_used H T) (walk_names io p qs s)"
proof (induction qs arbitrary: p s)
  case (Cons q qs)
  show ?case unfolding walk_names.simps case_prod_unfold
    by (rule Cons get_dentry_kept close_dentry_kept file_rules | assumption)+
qed (simp add: kept_rules)

lemma open_from_root_kept: "fs_used H T s \<Longrightarrow> keptv (fs_used H T) (open_from_root io dirs path s)"
  unfolding open_from_root_def by (rule walk_names_kept file_rules | assumption)+

lemma open_path_kept:
  "fs_used H T s \<Longrightarrow> keptv (fs_used H T) (open_path io path s)"
  "fs_used H T s \<Longrightarrow> keptv (fs_used H T) (open_dir io path s)"
  by (simp_all add: open_path_def open_dir_def open_from_root_kept)

section \<open>System calls\<close>

text \<open>A fresh page was not among those in use, and can be given back later.\<close>

lemma fs_alloc_page_kept:
  assumes "fs_used H T s" and "fs_alloc_page s = Inr (p, s')"
  shows "fs_used H (insert p T) s'" "p \<notin> T" "\<exists>i < NR_PAGES. p = page_addr i \<and> page_addr i < H"
proof -
  have u: "used H T (pages (km (sl s)))" using assms(1) by (simp add: fs_used_def slab_used_def kmem_used_def)
  from assms(2) obtain ps where ps: "alloc_page (pages (km (sl s))) = Inr (p, ps)" "pages (km (sl s')) = ps"
    by (auto simp: fs_alloc_page_def slab_op_def take_page_def res_Inr)
  from used_alloc [OF u ps(1)] ps(2) show "fs_used H (insert p T) s'" "p \<notin> T"
    by (simp_all add: fs_used_def slab_used_def kmem_used_def)
  have "fresh_page (pages (km (sl s))) ps p" using u ps(1) by (intro alloc_page_fresh) (simp_all add: used_def)
  with u show "\<exists>i < NR_PAGES. p = page_addr i \<and> page_addr i < H" by (auto simp: fresh_page_def used_def pages_ok_def)
qed

lemma fs_free_page_kept:
  assumes "fs_used H (insert p T) s" "p \<notin> T" "\<exists>i < NR_PAGES. p = page_addr i \<and> page_addr i < H"
  shows "kept (fs_used H T) (fs_free_page p s)"
proof -
  have u: "used H (insert p T) (pages (km (sl s)))" using assms(1) by (simp add: fs_used_def slab_used_def kmem_used_def)
  obtain i where i: "i < NR_PAGES" "p = page_addr i" "page_addr i < H" using assms(3) by blast
  from used_free [OF u assms(2) _ i(2,1,3)] show ?thesis
    by (auto simp: kept_def fs_free_page_def slab_op_def res_Inr fs_used_def slab_used_def kmem_used_def)
qed

text \<open>A routine that works on a buffer page and gives it back.\<close>

lemma with_page_kept:
  assumes "fs_used H T s" and "\<And>p s. fs_used H (insert p T) s \<Longrightarrow> keptv (fs_used H (insert p T)) (f p s)"
  shows "keptv (fs_used H T) (bindr (fs_alloc_page s) (\<lambda>x. bindr (f (fst x) (snd x)) (\<lambda>y.
    bindr (fs_free_page (fst x) (snd y)) (\<lambda>s. Inr (g y, s)))))"
  unfolding keptv_def
proof (intro allI impI)
  fix a s3 assume "bindr (fs_alloc_page s) (\<lambda>x. bindr (f (fst x) (snd x)) (\<lambda>y.
    bindr (fs_free_page (fst x) (snd y)) (\<lambda>s. Inr (g y, s)))) = Inr (a, s3)"
  then obtain p s1 v s2 where run: "fs_alloc_page s = Inr (p, s1)" "f p s1 = Inr (v, s2)" "fs_free_page p s2 = Inr s3"
    by (auto simp: res_Inr)
  note p = fs_alloc_page_kept [OF assms(1) run(1)]
  have "fs_used H (insert p T) s2" by (rule keptvD [OF assms(2) [OF p(1)] run(2)])
  from keptD [OF fs_free_page_kept [OF this p(2,3)] run(3)] show "fs_used H T s3" .
qed

lemma KERNEL_STRING_kept: "fs_used H T s \<Longrightarrow> keptv (fs_used H T) (KERNEL_STRING u s)"
proof -
  assume s: "fs_used H T s"
  have "keptv (fs_used H T) (fs_alloc_page s)"
    unfolding fs_alloc_page_def case_prod_unfold
  proof (rule slab_op_kept [OF s])
    fix t assume "slab_used H T t"
    then have "keptv (kmem_used H T) (take_page (km t))" by (intro take_page_kept) (simp add: slab_used_def)
    then show "keptv (slab_used H T) (bindr (take_page (km t)) (\<lambda>p. Inr (fst p, t\<lparr>km := snd p\<rparr>)))"
      by (auto simp: keptv_def res_Inr slab_used_def)
  qed
  then show ?thesis
    unfolding KERNEL_STRING_def Let_def case_prod_unfold
    by (auto simp: keptv_def res_Inr fs_used_updates split: if_splits)
qed

lemmas call_rules = file_rules get_dentry_kept create_dentry_kept open_path_kept close_dentry_kept KERNEL_STRING_kept

lemma sys_open_kept: "fs_used H T s \<Longrightarrow> keptv (fs_used H T) (sys_open io p fl m s)"
  unfolding sys_open_def Let_def case_prod_unfold by (rule call_rules kept_case kept_pure | assumption)+

lemma sys_close_kept: "fs_used H T s \<Longrightarrow> keptv (fs_used H T) (sys_close io fd s)"
  unfolding sys_close_def by (rule call_rules kept_pure | assumption)+

lemma sys_lseek_kept: "fs_used H T s \<Longrightarrow> keptv (fs_used H T) (sys_lseek fd off wh s)"
  unfolding sys_lseek_def Let_def by (rule call_rules kept_pure | assumption)+

lemma read_loop_kept:
  assumes "fs_used H T s" "read_loop io fp p b u left count s = Some r"
  shows "keptv (fs_used H T) r"
proof -
  have "fs_used H T s \<longrightarrow> keptv (fs_used H T) r"
  proof (rule read_loop.raw_induct [OF _ assms(2)], intro impI)
    fix f :: "'a ports \<Rightarrow> addr_t \<Rightarrow> addr_t \<Rightarrow> addr_t \<Rightarrow> addr_t \<Rightarrow> u32 \<Rightarrow> u32 \<Rightarrow> 'a fs \<Rightarrow> (u32 \<times> 'a fs) res option"
      and io fp p b u and left count :: u32 and s :: "'a fs" and r
    assume IH: "\<And>io fp p b u left count s r. f io fp p b u left count s = Some r \<Longrightarrow>
        fs_used H T s \<longrightarrow> keptv (fs_used H T) r" and s: "fs_used H T s"
      and body: "(if left > 0
        then case read_file io p (f_pos (files s fp)) (min (uint left) (int PAGE_SIZE)) s of
            Inl h \<Rightarrow> Some (Inl h)
          | Inr ((bytes, bs), s) \<Rightarrow>
              if bytes > 0
              then let s = upd_mem (stored b bs) s; s = s\<lparr>umem := stored u bs (umem s)\<rparr>;
                       s = upd_file fp (\<lambda>f. f\<lparr>f_pos := f_pos f + bytes\<rparr>) s
                   in f io fp p b (u + of_int bytes) (left - of_int bytes) count s
              else let rest = of_int (i_size (inodes s p) - f_pos (files s fp))
                   in f io fp p b u rest (count - (left - rest)) s
        else Some (Inr (count - left, s))) = Some r"
    have read: "keptv (fs_used H T) (read_file io p (f_pos (files s fp)) (min (uint left) (int PAGE_SIZE)) s)"
      by (rule read_file_kept [OF s])
    show "keptv (fs_used H T) r"
      using body s keptvD [OF read]
      by (auto simp: kept_rules Let_def fs_used_updates split: if_splits sum.splits prod.splits dest!: IH)
  qed
  with assms(1) show ?thesis by blast
qed

lemma write_loop_kept:
  assumes "fs_used H T s" "write_loop io fp p b u left count s = Some r"
  shows "keptv (fs_used H T) r"
proof -
  have "fs_used H T s \<longrightarrow> keptv (fs_used H T) r"
  proof (rule write_loop.raw_induct [OF _ assms(2)], intro impI)
    fix f :: "'a ports \<Rightarrow> addr_t \<Rightarrow> addr_t \<Rightarrow> addr_t \<Rightarrow> addr_t \<Rightarrow> u32 \<Rightarrow> u32 \<Rightarrow> 'a fs \<Rightarrow> (u32 \<times> 'a fs) res option"
      and io fp p b u and left count :: u32 and s :: "'a fs" and r
    let ?bs = "bytes_at (umem s) u (min (unat left) PAGE_SIZE)"
    assume IH: "\<And>io fp p b u left count s r. f io fp p b u left count s = Some r \<Longrightarrow>
        fs_used H T s \<longrightarrow> keptv (fs_used H T) r" and s: "fs_used H T s"
      and body: "(if left > 0
        then let bs = ?bs; s = upd_mem (stored b bs) s
          in case write_file io p (f_pos (files s fp)) bs s of
            Inl h \<Rightarrow> Some (Inl h)
          | Inr (bytes, s) \<Rightarrow>
              if bytes > 0
              then let s = upd_file fp (\<lambda>f. f\<lparr>f_pos := f_pos f + bytes\<rparr>) s
                   in f io fp p b (u + of_int bytes) (left - of_int bytes) count s
              else Some (Inr (count - left, s))
        else Some (Inr (count - left, s))) = Some r"
    have "fs_used H T (upd_mem (stored b ?bs) s)" by (rule fs_used_updates(4) [OF s])
    then have wr: "keptv (fs_used H T) (write_file io p pos ?bs (upd_mem (stored b ?bs) s))" for pos
      by (rule write_file_kept)
    show "keptv (fs_used H T) r"
      using body s keptvD [OF wr]
      by (auto simp: kept_rules Let_def fs_used_updates split: if_splits sum.splits prod.splits dest!: IH)
  qed
  with assms(1) show ?thesis by blast
qed

text \<open>The loop of \<^verbatim>\<open>sys_read\<close> or \<^verbatim>\<open>sys_write\<close> between the allocation of the buffer and its release.\<close>

lemma loop_with_page_kept:
  assumes "fs_used H T s" and "\<And>p s r. fs_used H (insert p T) s \<Longrightarrow> l p s = Some r \<Longrightarrow> keptv (fs_used H (insert p T)) r"
  shows "keptv (fs_used H T) (bindr (fs_alloc_page s) (\<lambda>x. bindr (of_loop (l (fst x) (snd x))) (\<lambda>r. bindr r (\<lambda>y.
    bindr (fs_free_page (fst x) (snd y)) (\<lambda>s. Inr (g y, s))))))"
proof -
  have "keptv (fs_used H (insert p T)) (bindr (of_loop (l p s)) (\<lambda>r. r))" if "fs_used H (insert p T) s" for p s
    using assms(2) [OF that] by (cases "l p s") (simp_all add: kept_rules)
  from with_page_kept [OF assms(1) this, where g = g] show ?thesis by (simp add: bindr_assoc)
qed

lemma sys_read_kept: "fs_used H T s \<Longrightarrow> keptv (fs_used H T) (sys_read io fd u n s)"
  unfolding sys_read_def case_prod_unfold
  by (rule kept_pure loop_with_page_kept | assumption | erule read_loop_kept)+

lemma sys_write_kept: "fs_used H T s \<Longrightarrow> keptv (fs_used H T) (sys_write io fd u n s)"
  unfolding sys_write_def case_prod_unfold
  by (rule kept_pure loop_with_page_kept | assumption | erule write_loop_kept)+

section \<open>The start of the file system\<close>

lemma clear_map_kept: "fs_used H T s \<Longrightarrow> kept (fs_used H T) (clear_map io dev n c s)"
  unfolding clear_map_def Let_def case_prod_unfold by (rule buf_rules | assumption)+

lemma mkfs_kept: "fs_used H T s \<Longrightarrow> kept (fs_used H T) (mkfs io s)"
  unfolding mkfs_def Let_def by (rule zone_rules super_kept clear_map_kept | assumption)+

lemma dump_inode_kept: "fs_used H T s \<Longrightarrow> kept (fs_used H T) (dump_inode io p s)"
proof -
  have "fs_used H T s \<Longrightarrow> kept (fs_used H T) (dump_zones io p zs s)" for zs
  proof (induction zs arbitrary: s)
    case (Cons z zs)
    show ?case unfolding dump_zones.simps case_prod_unfold by (rule Cons zone_rules kept_pure | assumption)+
  qed (simp add: kept_rules)
  then show "fs_used H T s \<Longrightarrow> kept (fs_used H T) (dump_inode io p s)" by (simp add: dump_inode_def)
qed

lemma cache_create_kept: "fs_used H T s \<Longrightarrow> keptv (fs_used H T) (slab_op (kmem_cache_create nm n) s)"
  by (erule slab_op_kept) (rule kmem_cache_create_kept)

lemma fs_init_kept: "fs_used H T s \<Longrightarrow> kept (fs_used H T) (fs_init io root s)"
  unfolding fs_init_def Let_def case_prod_unfold
  by (rule zone_rules super_kept mkfs_kept dentry_links_kept dump_inode_kept cache_create_kept | assumption)+

end
