(* ===== verification/Printf.thy ===== *)
theory Printf imports Ram begin

text \<open>
  Formatted output, \<^verbatim>\<open>lib/printf.c\<close>, over the byte memory of \<open>C_String\<close>: the character classes,
  \<^verbatim>\<open>atoi\<close>, the number printers \<^verbatim>\<open>__itoa\<close> and \<^verbatim>\<open>__itoaf\<close>, and the format interpreter \<^verbatim>\<open>vsprintf\<close>.
  An \<^verbatim>\<open>int\<close> is a 32-bit word read with its sign where the source compares it, a \<^verbatim>\<open>va_list\<close> is the
  address of the next argument, as in \<^verbatim>\<open>include/stdarg.h\<close>, and pointers wrap.
\<close>

abbreviation ch :: "char \<Rightarrow> u8" where "ch \<equiv> of_char"

text \<open>A \<^verbatim>\<open>char\<close> promoted to \<^verbatim>\<open>int\<close>.\<close>

definition promote :: "u8 \<Rightarrow> u32" where
  "promote c = scast c"

section \<open>Character classes\<close>

definition ISCNTRL :: u16 where "ISCNTRL = 1"
definition ISBLANK :: u16 where "ISBLANK = 2"
definition ISSPACE :: u16 where "ISSPACE = 4"
definition ISUPPER :: u16 where "ISUPPER = 8"
definition ISLOWER :: u16 where "ISLOWER = 16"
definition ISALPHA :: u16 where "ISALPHA = 32"
definition ISDIGIT :: u16 where "ISDIGIT = 64"
definition ISXDIGIT :: u16 where "ISXDIGIT = 128"
definition ISALNUM :: u16 where "ISALNUM = 256"
definition ISPUNCT :: u16 where "ISPUNCT = 512"
definition ISGRAPH :: u16 where "ISGRAPH = 1024"
definition ISPRINT :: u16 where "ISPRINT = 2048"

definition chr_class_table :: "u16 list" where
  "chr_class_table =
  [0x1, 0x1, 0x1, 0x1, 0x1, 0x1, 0x1, 0x1, 0x1, 0x7, 0x5, 0x5, 0x5, 0x5, 0x1, 0x1,
   0x1, 0x1, 0x1, 0x1, 0x1, 0x1, 0x1, 0x1, 0x1, 0x1, 0x1, 0x1, 0x1, 0x1, 0x1, 0x1,
   0x806, 0xe00, 0xe00, 0xe00, 0xe00, 0xe00, 0xe00, 0xe00, 0xe00, 0xe00, 0xe00, 0xe00, 0xe00, 0xe00, 0xe00, 0xe00,
   0xdc0, 0xdc0, 0xdc0, 0xdc0, 0xdc0, 0xdc0, 0xdc0, 0xdc0, 0xdc0, 0xdc0, 0xe00, 0xe00, 0xe00, 0xe00, 0xe00, 0xe00,
   0xe00, 0xda8, 0xda8, 0xda8, 0xda8, 0xda8, 0xda8, 0xd28, 0xd28, 0xd28, 0xd28, 0xd28, 0xd28, 0xd28, 0xd28, 0xd28,
   0xd28, 0xd28, 0xd28, 0xd28, 0xd28, 0xd28, 0xd28, 0xd28, 0xd28, 0xd28, 0xd28, 0xe00, 0xe00, 0xe00, 0xe00, 0xe00,
   0xe00, 0xdb0, 0xdb0, 0xdb0, 0xdb0, 0xdb0, 0xdb0, 0xd30, 0xd30, 0xd30, 0xd30, 0xd30, 0xd30, 0xd30, 0xd30, 0xd30,
   0xd30, 0xd30, 0xd30, 0xd30, 0xd30, 0xd30, 0xd30, 0xd30, 0xd30, 0xd30, 0xd30, 0xe00, 0xe00, 0xe00, 0xe00, 0x1] @ replicate 128 0"

text \<open>The body of \<^verbatim>\<open>DEF_ISXXX\<close>; the table is indexed by the low byte of the argument.\<close>

definition is_class :: "u16 \<Rightarrow> u32 \<Rightarrow> bool" where
  "is_class chr_class c \<longleftrightarrow> (chr_class_table ! unat (ucast c :: u8)) AND chr_class \<noteq> 0"

definition isalnum :: "u32 \<Rightarrow> bool" where "isalnum = is_class ISALNUM"
definition isalpha :: "u32 \<Rightarrow> bool" where "isalpha = is_class ISALPHA"
definition isblank :: "u32 \<Rightarrow> bool" where "isblank = is_class ISBLANK"
definition iscntrl :: "u32 \<Rightarrow> bool" where "iscntrl = is_class ISCNTRL"
definition isdigit :: "u32 \<Rightarrow> bool" where "isdigit = is_class ISDIGIT"
definition isgraph :: "u32 \<Rightarrow> bool" where "isgraph = is_class ISGRAPH"
definition islower :: "u32 \<Rightarrow> bool" where "islower = is_class ISLOWER"
definition isprint_c :: "u32 \<Rightarrow> bool" where "isprint_c = is_class ISPRINT"
definition ispunct :: "u32 \<Rightarrow> bool" where "ispunct = is_class ISPUNCT"
definition isspace :: "u32 \<Rightarrow> bool" where "isspace = is_class ISSPACE"
definition isupper :: "u32 \<Rightarrow> bool" where "isupper = is_class ISUPPER"
definition isxdigit :: "u32 \<Rightarrow> bool" where "isxdigit = is_class ISXDIGIT"

definition tolower :: "u32 \<Rightarrow> u32" where
  "tolower c = (if isupper c then c - promote (ch CHR ''A'') + promote (ch CHR ''a'') else c)"

definition toupper :: "u32 \<Rightarrow> u32" where
  "toupper c = (if islower c then c - promote (ch CHR ''a'') + promote (ch CHR ''A'') else c)"

section \<open>Reading a number\<close>

text \<open>\<^verbatim>\<open>while (isspace(*p)) ++p;\<close>\<close>

partial_function (option) skip_spaces :: "mem \<Rightarrow> addr_t \<Rightarrow> addr_t option" where
  "skip_spaces m p = (if isspace (promote (m p)) then skip_spaces m (p + 1) else Some p)"

text \<open>\<^verbatim>\<open>do { value *= 10; value += (*p - '0'); ++p; } while (isdigit(*p));\<close>\<close>

partial_function (option) atoi_loop :: "mem \<Rightarrow> addr_t \<Rightarrow> u32 \<Rightarrow> u32 option" where
  "atoi_loop m p v =
     (let v = v * 10 + (promote (m p) - promote (ch CHR ''0'')); p = p + 1
      in if isdigit (promote (m p)) then atoi_loop m p v else Some v)"

definition INT_MIN :: u32 where "INT_MIN = 0x80000000"

definition atoi :: "mem \<Rightarrow> addr_t \<Rightarrow> u32 res" where
  "atoi m str =
     (if str = NULL then Inr 0
      else bindr (of_loop (skip_spaces m str)) (\<lambda>p.
        let signed = m p = ch CHR ''+'' \<or> m p = ch CHR ''-'';
            negative = signed \<and> m p = ch CHR ''-'';
            p = (if signed then p + 1 else p)
        in if \<not> isdigit (promote (m p)) then Inr 0
           else bindr (of_loop (atoi_loop m p 0)) (\<lambda>v.
             Inr (if negative \<and> v \<noteq> INT_MIN then - v else v))))"

section \<open>Printing a number\<close>

text \<open>
  The digits, least significant first:
  \<^verbatim>\<open>while (uvalue) { *p = uvalue % base; *p = ...; ++p; uvalue /= base; }\<close>. The remainder is cut
  to a \<^verbatim>\<open>char\<close> before it is compared with 10.
\<close>

definition digit_chr :: "u32 \<Rightarrow> u32 \<Rightarrow> u8" where
  "digit_chr uvalue base =
     (let d = ucast (uvalue mod base)
      in if sint d < 10 then d + ch CHR ''0'' else d - 10 + ch CHR ''a'')"

partial_function (option) itoa_digits :: "u32 \<Rightarrow> u32 \<Rightarrow> addr_t \<Rightarrow> mem \<Rightarrow> (addr_t \<times> mem) option" where
  "itoa_digits uvalue base p m =
     (if uvalue \<noteq> 0
      then itoa_digits (uvalue div base) base (p + 1) (m(p := digit_chr uvalue base))
      else Some (p, m))"

text \<open>\<^verbatim>\<open>while (p > tmp) { c = *p; *(p--) = *tmp; *(tmp++) = c; }\<close>\<close>

function itoa_reverse :: "addr_t \<Rightarrow> addr_t \<Rightarrow> mem \<Rightarrow> mem" where
  "itoa_reverse p tmp m =
     (if p > tmp
      then let c = m p; m = m(p := m tmp); m = m(tmp := c) in itoa_reverse (p - 1) (tmp + 1) m
      else m)"
  by pat_completeness auto
termination
  by (relation "measure (\<lambda>(p, tmp, m). unat p)") (auto simp: word_less_nat_alt unat_sub_if')

declare itoa_reverse.simps [simp del]

definition STR_INT_MIN :: "u8 list" where
  "STR_INT_MIN = List.map ch ''-2147483648''"

text \<open>
  The string literal of the case \<^verbatim>\<open>INT_MIN\<close> is kept apart from the memory: \<^verbatim>\<open>strcpy\<close> of it stores
  its bytes and the terminator. A base of 0 would trap in the division.
\<close>

definition itoa_number :: "u32 \<Rightarrow> addr_t \<Rightarrow> addr_t \<Rightarrow> u32 \<Rightarrow> mem \<Rightarrow> (addr_t \<times> mem) res" where
  "itoa_number uvalue str p base m =
     (if uvalue \<noteq> 0 \<and> base = 0 then Inl Bad_access
      else bindr (if uvalue = 0 then Inr (p + 1, m(p := ch CHR ''0''))
                  else of_loop (itoa_digits uvalue base p m)) (\<lambda>(p, m).
        let m = m(p := 0); p = p - 1;
            tmp = (if m str = ch CHR ''-'' then str + 1 else str)
        in Inr (str, itoa_reverse p tmp m)))"

definition itoa :: "u32 \<Rightarrow> addr_t \<Rightarrow> u32 \<Rightarrow> mem \<Rightarrow> (addr_t \<times> mem) res" where
  "itoa v str base m =
     (if sint v < 0 \<and> base = 10
      then if v = INT_MIN
           then assertr (str \<noteq> NULL) (Inr (str, stored str (STR_INT_MIN @ [0]) m))
           else itoa_number (- v) str (str + 1) base (m(str := ch CHR ''-''))
      else itoa_number v str str base m)"

text \<open>
  The four loops of \<^verbatim>\<open>shift_pad\<close>. They run at least once and compare with \<^verbatim>\<open>!=\<close>; the macro
  puts its arguments \<^verbatim>\<open>first\<close> and \<^verbatim>\<open>end\<close> back, so only the memory changes. When the shift is
  negative the padding starts at \<^verbatim>\<open>end - shift\<close>, beyond \<^verbatim>\<open>end\<close>, and stops only after wrapping
  around the address space.
\<close>

function shift_up :: "addr_t \<Rightarrow> addr_t \<Rightarrow> u32 \<Rightarrow> mem \<Rightarrow> mem" where
  "shift_up first endp shift m =
     (let endp = endp - 1; m = m(endp + shift := m endp)
      in if endp \<noteq> first then shift_up first endp shift m else m)"
  by pat_completeness auto

function fill_down :: "addr_t \<Rightarrow> addr_t \<Rightarrow> u8 \<Rightarrow> mem \<Rightarrow> mem" where
  "fill_down first endp pad m =
     (let endp = endp - 1; m = m(endp := pad)
      in if endp \<noteq> first then fill_down first endp pad m else m)"
  by pat_completeness auto

function shift_back :: "addr_t \<Rightarrow> addr_t \<Rightarrow> u32 \<Rightarrow> mem \<Rightarrow> mem" where
  "shift_back first endp shift m =
     (let m = m(first + shift := m first); first = first + 1
      in if endp \<noteq> first then shift_back first endp shift m else m)"
  by pat_completeness auto

function fill_to :: "addr_t \<Rightarrow> addr_t \<Rightarrow> u8 \<Rightarrow> mem \<Rightarrow> mem" where
  "fill_to first endp pad m =
     (let m = m(first := pad); first = first + 1
      in if endp \<noteq> first then fill_to first endp pad m else m)"
  by pat_completeness auto

lemma unat_dist_less: "endp \<noteq> first + 1 \<Longrightarrow> unat (endp - first - 2) < unat (endp - 1 - first)"
  for endp first :: addr_t
proof -
  assume ne: "endp \<noteq> first + 1"
  then have "endp - 1 \<noteq> first" by (metis diff_add_cancel)
  then show ?thesis using unat_diff_Suc [of "endp - 1" first] by simp
qed

lemma unat_dist_less': "endp - 1 \<noteq> first \<Longrightarrow> unat (endp - 2 - first) < unat (endp - 1 - first)"
  for endp first :: addr_t
  using unat_diff_Suc [of "endp - 1" first] by (simp add: algebra_simps)

termination shift_up
  by (relation "measure (\<lambda>(first, endp, shift, m). unat (endp - 1 - first))")
    (auto intro: unat_dist_less')
termination fill_down
  by (relation "measure (\<lambda>(first, endp, pad, m). unat (endp - 1 - first))")
    (auto intro: unat_dist_less')
termination shift_back
  by (relation "measure (\<lambda>(first, endp, shift, m). unat (endp - 1 - first))")
    (auto intro: unat_dist_less)
termination fill_to
  by (relation "measure (\<lambda>(first, endp, pad, m). unat (endp - 1 - first))")
    (auto intro: unat_dist_less)

declare shift_up.simps [simp del] fill_down.simps [simp del] shift_back.simps [simp del] fill_to.simps [simp del]

definition shift_pad :: "addr_t \<Rightarrow> addr_t \<Rightarrow> u32 \<Rightarrow> u8 \<Rightarrow> mem \<Rightarrow> mem res" where
  "shift_pad first endp shift pad m =
     assertr (first < endp \<and> shift \<noteq> 0)
     (Inr (if sint shift > 0
           then fill_down first (first + shift) pad (shift_up first endp shift m)
           else fill_to (endp - shift) endp pad (shift_back first endp shift m)))"

section \<open>Number formats\<close>

definition FMT_F_LEFT_JUST :: u8 where "FMT_F_LEFT_JUST = 1"
definition FMT_F_SIGN_PLUS :: u8 where "FMT_F_SIGN_PLUS = 2"
definition FMT_F_SIGN_SPCE :: u8 where "FMT_F_SIGN_SPCE = 4"
definition FMT_F_MARK :: u8 where "FMT_F_MARK = 8"
definition FMT_F_ZERO_PAD :: u8 where "FMT_F_ZERO_PAD = 16"

text \<open>The prefix: a sign for positive decimals, \<^verbatim>\<open>0\<close> or \<^verbatim>\<open>0x\<close> for the other bases.\<close>

definition itoaf_prefix :: "u32 \<Rightarrow> addr_t \<Rightarrow> u32 \<Rightarrow> u8 \<Rightarrow> mem \<Rightarrow> addr_t \<times> mem" where
  "itoaf_prefix v p base flags m =
     (if base = 10 \<and> sint v > 0
      then if flags AND FMT_F_SIGN_PLUS \<noteq> 0 then (p + 1, m(p := ch CHR ''+''))
           else if flags AND FMT_F_SIGN_SPCE \<noteq> 0 then (p + 1, m(p := ch CHR '' ''))
           else (p, m)
      else if base = 8 \<or> base = 16
      then if flags AND FMT_F_MARK \<noteq> 0
           then let m = m(p := ch CHR ''0''); p = p + 1
                in if base = 16 then (p + 1, m(p := ch CHR ''x'')) else (p, m)
           else (p, m)
      else (p, m))"

text \<open>Zeros up to the precision; the first component is \<^verbatim>\<open>padcnt\<close>.\<close>

definition itoaf_precision :: "addr_t \<Rightarrow> addr_t \<Rightarrow> u32 \<Rightarrow> mem \<Rightarrow> (u32 \<times> mem) res" where
  "itoaf_precision nstart nend precision m =
     (if nstart + precision > nend
      then let padcnt = precision - (nend - nstart)
           in bindr (shift_pad nstart nend padcnt (ch CHR ''0'') m) (\<lambda>m. Inr (padcnt, m))
      else Inr (0, m))"

text \<open>\<^verbatim>\<open>while ((str + width) > p) *(p++) = ' ';\<close>\<close>

function fill_spaces :: "addr_t \<Rightarrow> addr_t \<Rightarrow> mem \<Rightarrow> addr_t \<times> mem" where
  "fill_spaces lim p m =
     (if lim > p then fill_spaces lim (p + 1) (m(p := ch CHR '' '')) else (p, m))"
  by pat_completeness auto
termination
  by (relation "measure (\<lambda>(lim, p, m). unat (lim - p))") (auto simp: unat_diff_Suc)

declare fill_spaces.simps [simp del]

text \<open>Width and alignment of the text from \<^verbatim>\<open>str\<close> to \<^verbatim>\<open>p\<close>.\<close>

definition itoaf_width ::
  "addr_t \<Rightarrow> addr_t \<Rightarrow> addr_t \<Rightarrow> u8 \<Rightarrow> u32 \<Rightarrow> u32 \<Rightarrow> mem \<Rightarrow> mem res" where
  "itoaf_width str nstart p flags width precision m =
     (if str + width > p
      then if flags AND FMT_F_LEFT_JUST \<noteq> 0
           then let (p, m) = fill_spaces (str + width) p m in Inr (m(p := 0))
           else let padcnt = width - (p - str) in
             bindr (if sint precision < 0 \<and> flags AND FMT_F_ZERO_PAD \<noteq> 0
                    then shift_pad nstart p padcnt (ch CHR ''0'') m
                    else shift_pad str p padcnt (ch CHR '' '') m) (\<lambda>m.
             Inr (m(p + padcnt := 0)))
      else Inr m)"

definition itoaf ::
  "u32 \<Rightarrow> addr_t \<Rightarrow> u32 \<Rightarrow> u8 \<Rightarrow> u32 \<Rightarrow> u32 \<Rightarrow> mem \<Rightarrow> (addr_t \<times> mem) res" where
  "itoaf v str base flags width precision m =
     assertr (flags AND (flags - 1) = 0)
     (let (nstart, m) = itoaf_prefix v str base flags m in
      bindr (itoa v nstart base m) (\<lambda>(r, m).
      bindr (strlen m r) (\<lambda>n.
      let nend = nstart + n;
          nstart = (if m nstart = ch CHR ''-'' then nstart + 1 else nstart) in
      bindr (itoaf_precision nstart nend precision m) (\<lambda>(padcnt, m).
      bindr (itoaf_width str nstart (nend + padcnt) flags width precision m) (\<lambda>m.
      Inr (str, m))))))"

section \<open>Interpreting a format\<close>

definition FMT_FLAGS :: u8 where "FMT_FLAGS = 1"
definition FMT_NUMBER :: u8 where "FMT_NUMBER = 2"
definition FMT_PRECISION :: u8 where "FMT_PRECISION = 3"
definition FMT_LENGTH :: u8 where "FMT_LENGTH = 4"
definition FMT_SPECIFIER :: u8 where "FMT_SPECIFIER = 5"

definition format_table :: "u8 list" where
  "format_table =
  [0, 0, 0, 0, 0, 0, 0, 0, 0, 0, 0, 0, 0, 0, 0, 0,
   0, 0, 0, 0, 0, 0, 0, 0, 0, 0, 0, 0, 0, 0, 0, 0,
   1, 0, 0, 1, 0, 5, 0, 0, 0, 0, 2, 1, 0, 1, 3, 0,
   1, 2, 2, 2, 2, 2, 2, 2, 2, 2, 0, 0, 0, 0, 0, 0,
   0, 5, 0, 0, 0, 5, 5, 5, 0, 0, 0, 0, 4, 0, 0, 0,
   0, 0, 0, 0, 0, 0, 0, 0, 5, 0, 0, 0, 0, 0, 0, 0,
   0, 5, 0, 5, 5, 5, 5, 5, 4, 5, 4, 0, 4, 0, 5, 5,
   5, 0, 0, 5, 4, 5, 0, 0, 5, 0, 4, 0, 0, 0, 0, 0] @ replicate 128 0"

definition fmt_class :: "u8 \<Rightarrow> u8" where
  "fmt_class c = format_table ! unat c"

text \<open>
  The variables of \<^verbatim>\<open>vsprintf\<close>: \<open>to_precision\<close> says which of the two integers the pointer
  \<^verbatim>\<open>width_or_precision\<close> points to, \<open>pin\<close>, \<open>pout\<close> and \<open>pargs\<close> are \<^verbatim>\<open>in\<close>, \<^verbatim>\<open>out\<close> and \<^verbatim>\<open>args\<close>.
\<close>

record fmt_state =
  escape :: nat
  bad :: bool
  fflags :: u8
  fwidth :: u32
  fprecision :: u32
  to_precision :: bool
  pin :: addr_t
  pout :: addr_t
  pargs :: addr_t
  pmem :: mem

text \<open>\<^verbatim>\<open>va_arg\<close> of an \<^verbatim>\<open>int\<close> or of a pointer, both four bytes wide.\<close>

definition va_arg :: "fmt_state \<Rightarrow> u32 \<times> fmt_state" where
  "va_arg s = (load32 (pmem s) (pargs s), s\<lparr>pargs := pargs s + 4\<rparr>)"

definition set_width_or_precision :: "u32 \<Rightarrow> fmt_state \<Rightarrow> fmt_state" where
  "set_width_or_precision v s =
     (if to_precision s then s\<lparr>fprecision := v\<rparr> else s\<lparr>fwidth := v\<rparr>)"

text \<open>\<^verbatim>\<open>out += strlen(__itoaf(va_arg(args, int), out, base, flags, width, precision))\<close>\<close>

definition print_number :: "u32 \<Rightarrow> fmt_state \<Rightarrow> fmt_state res" where
  "print_number base s =
     (let (v, s) = va_arg s in
      bindr (itoaf v (pout s) base (fflags s) (fwidth s) (fprecision s) (pmem s)) (\<lambda>(r, m).
      bindr (strlen m r) (\<lambda>n. Inr (s\<lparr>pmem := m, pout := pout s + n\<rparr>))))"

text \<open>\<^verbatim>\<open>while (*out != '\0') { if (islower(*out)) *out = toupper(*out); ++out; }\<close>\<close>

partial_function (option) upper_loop :: "addr_t \<Rightarrow> mem \<Rightarrow> (addr_t \<times> mem) option" where
  "upper_loop p m =
     (if m p \<noteq> 0
      then upper_loop (p + 1)
             (if islower (promote (m p)) then m(p := ucast (toupper (promote (m p)))) else m)
      else Some (p, m))"

definition print_arg :: "addr_t \<Rightarrow> u8 \<Rightarrow> fmt_state \<Rightarrow> fmt_state res" where
  "print_arg start specifier s =
     (if specifier = ch CHR ''c''
      then let (v, s) = va_arg s in Inr (s\<lparr>pmem := (pmem s)(pout s := ucast v), pout := pout s + 1\<rparr>)
      else if specifier = ch CHR ''s''
      then let (v, s) = va_arg s in
        bindr (strcpy (pout s) v (pmem s)) (\<lambda>(r, m).
        bindr (strlen m r) (\<lambda>n. Inr (s\<lparr>pmem := m, pout := pout s + n\<rparr>)))
      else if specifier = ch CHR ''d'' \<or> specifier = ch CHR ''i'' then print_number 10 s
      else if specifier = ch CHR ''p''
      then print_number 16 (s\<lparr>pmem := (pmem s)(pout s := ch CHR ''b''), pout := pout s + 1\<rparr>)
      else if specifier = ch CHR ''x'' then print_number 16 s
      else if specifier = ch CHR ''X''
      then let (v, s) = va_arg s in
        bindr (itoaf v (pout s) 16 (fflags s) (fwidth s) (fprecision s) (pmem s)) (\<lambda>(r, m).
        bindr (of_loop (upper_loop (pout s) m)) (\<lambda>(p, m). Inr (s\<lparr>pmem := m, pout := p\<rparr>)))
      else if specifier = ch CHR ''o'' then print_number 8 s
      else if specifier = ch CHR ''n''
      then let (v, s) = va_arg s in Inr (s\<lparr>pmem := store32 v (pout s - start) (pmem s)\<rparr>)
      else if specifier = ch CHR ''%'' then Inr (s\<lparr>pout := pout s + 1\<rparr>)
      else if specifier \<in> ch ` {CHR ''f'', CHR ''F'', CHR ''e'', CHR ''E'', CHR ''g'', CHR ''G'', CHR ''a'', CHR ''A''}
      then Inl (Panic ''Not implemented specifier.'')
      else Inl (Panic ''Invalid specifier.''))"

text \<open>The cases of the switch; each starts with the raised \<^verbatim>\<open>escape\<close> or reports a bad format.\<close>

definition bad_format :: "fmt_state \<Rightarrow> fmt_state res" where
  "bad_format s = Inr (s\<lparr>bad := True\<rparr>)"

text \<open>\<^verbatim>\<open>while (isdigit(*in)) ++in;\<close>\<close>

partial_function (option) skip_digits :: "mem \<Rightarrow> addr_t \<Rightarrow> addr_t option" where
  "skip_digits m p = (if isdigit (promote (m p)) then skip_digits m (p + 1) else Some p)"

definition fmt_number :: "u8 \<Rightarrow> fmt_state \<Rightarrow> fmt_state res" where
  "fmt_number c s =
     (let s = s\<lparr>escape := max (escape s) 2\<rparr> in
      if escape s = 2 \<or> escape s = 3
      then let s = s\<lparr>escape := escape s + 1\<rparr> in
        if c = ch CHR ''*''
        then let (v, s) = va_arg s in Inr (set_width_or_precision v s)
        else bindr (atoi (pmem s) (pin s - 1)) (\<lambda>v.
          bindr (of_loop (skip_digits (pmem s) (pin s))) (\<lambda>p.
          Inr ((set_width_or_precision v s)\<lparr>pin := p\<rparr>)))
      else bad_format s)"

definition flag_of :: "u8 \<Rightarrow> u8" where
  "flag_of c = (if c = ch CHR ''-'' then FMT_F_LEFT_JUST else if c = ch CHR ''+'' then FMT_F_SIGN_PLUS
     else if c = ch CHR '' '' then FMT_F_SIGN_SPCE else if c = ch CHR ''#'' then FMT_F_MARK
     else if c = ch CHR ''0'' then FMT_F_ZERO_PAD else 0)"

definition fmt_flags :: "u8 \<Rightarrow> fmt_state \<Rightarrow> fmt_state res" where
  "fmt_flags c s =
     (if escape s = 1 then Inr (s\<lparr>escape := 2, fflags := fflags s OR flag_of c\<rparr>)
      else if (escape s = 2 \<or> escape s = 3) \<and> c = ch CHR ''0'' then fmt_number c s
      else bad_format s)"

definition fmt_precision :: "fmt_state \<Rightarrow> fmt_state res" where
  "fmt_precision s =
     (let s = s\<lparr>escape := max (escape s) 3\<rparr> in
      if escape s = 3 then Inr (s\<lparr>to_precision := True\<rparr>) else bad_format s)"

partial_function (option) skip_length :: "mem \<Rightarrow> addr_t \<Rightarrow> addr_t option" where
  "skip_length m p = (if fmt_class (m p) = FMT_LENGTH then skip_length m (p + 1) else Some p)"

definition fmt_length :: "fmt_state \<Rightarrow> fmt_state res" where
  "fmt_length s =
     (let s = s\<lparr>escape := max (escape s) 4\<rparr> in
      if escape s = 4
      then bindr (of_loop (skip_length (pmem s) (pin s))) (\<lambda>p. Inr (s\<lparr>escape := 5, pin := p\<rparr>))
      else bad_format s)"

definition fmt_specifier :: "addr_t \<Rightarrow> u8 \<Rightarrow> fmt_state \<Rightarrow> fmt_state res" where
  "fmt_specifier start c s =
     (let s = s\<lparr>escape := max (escape s) 5\<rparr> in
      if escape s = 5
      then bindr (print_arg start c s) (\<lambda>s.
        Inr (s\<lparr>escape := 0, fflags := 0, fwidth := 0, fprecision := - 1, to_precision := False\<rparr>))
      else bad_format s)"

text \<open>One turn of the loop: the next byte goes to \<^verbatim>\<open>*out\<close> first, whatever it is.\<close>

definition fmt_step :: "addr_t \<Rightarrow> fmt_state \<Rightarrow> fmt_state res" where
  "fmt_step start s =
     (let c = pmem s (pin s);
          s = s\<lparr>pmem := (pmem s)(pout s := c), pin := pin s + 1\<rparr> in
      if escape s = 0 \<and> c = ch CHR ''%'' then Inr (s\<lparr>escape := 1\<rparr>)
      else if escape s \<noteq> 0
      then if fmt_class c = FMT_FLAGS then fmt_flags c s
           else if fmt_class c = FMT_NUMBER then fmt_number c s
           else if fmt_class c = FMT_PRECISION then fmt_precision s
           else if fmt_class c = FMT_LENGTH then fmt_length s
           else if fmt_class c = FMT_SPECIFIER then fmt_specifier start c s
           else bad_format s
      else Inr (s\<lparr>pout := pout s + 1\<rparr>))"

partial_function (option) fmt_loop :: "addr_t \<Rightarrow> fmt_state \<Rightarrow> fmt_state res option" where
  "fmt_loop start s =
     (if pmem s (pin s) \<noteq> 0 \<and> \<not> bad s
      then (case fmt_step start s of Inl e \<Rightarrow> Some (Inl e) | Inr s \<Rightarrow> fmt_loop start s)
      else Some (Inr s))"

definition fmt_start :: "addr_t \<Rightarrow> addr_t \<Rightarrow> addr_t \<Rightarrow> mem \<Rightarrow> fmt_state" where
  "fmt_start str fmt args m =
     \<lparr>escape = 0, bad = False, fflags = 0, fwidth = 0, fprecision = - 1, to_precision = False,
      pin = fmt, pout = str, pargs = args, pmem = m\<rparr>"

text \<open>The result is the \<^verbatim>\<open>int\<close> returned and the memory.\<close>

definition vsprintf :: "addr_t \<Rightarrow> addr_t \<Rightarrow> addr_t \<Rightarrow> mem \<Rightarrow> (u32 \<times> mem) res" where
  "vsprintf str fmt args m =
     assertr (str \<noteq> NULL) (assertr (fmt \<noteq> NULL)
     (bindr (of_loop (fmt_loop str (fmt_start str fmt args m))) (\<lambda>r.
      bindr r (\<lambda>s.
      Inr (if bad s then - 1 else pout s - str, (pmem s)(pout s := 0))))))"

definition BUFFER_SIZE :: u32 where "BUFFER_SIZE = 2048"
definition stdout :: addr_t where "stdout = 1"

text \<open>
  \<^verbatim>\<open>buffer\<close> is the address of the local array, whose initial contents are whatever is on the
  stack; the second component of the result is the address handed to \<^verbatim>\<open>puts\<close>, if any.
\<close>

definition vfprintf ::
  "addr_t \<Rightarrow> addr_t \<Rightarrow> addr_t \<Rightarrow> addr_t \<Rightarrow> mem \<Rightarrow> (u32 \<times> addr_t option \<times> mem) res" where
  "vfprintf buffer stream fmt args m =
     assertr (fmt \<noteq> NULL)
     (if stream \<noteq> stdout then Inl (Panic ''IO: vfprinf only support stdout for now.'')
      else bindr (vsprintf buffer fmt args m) (\<lambda>(ret, m).
        assertr (sint ret \<le> sint BUFFER_SIZE)
        (Inr (ret, if sint ret > 0 then Some buffer else None, m))))"

text \<open>
  The variadic entries: \<open>fmt_at\<close> is the address of the parameter \<^verbatim>\<open>fmt\<close> on the stack, and
  \<^verbatim>\<open>va_start\<close> makes the argument list start right behind it.
\<close>

definition sprintf :: "addr_t \<Rightarrow> addr_t \<Rightarrow> mem \<Rightarrow> (u32 \<times> mem) res" where
  "sprintf str fmt_at m =
     (let fmt = load32 m fmt_at in
      assertr (str \<noteq> NULL) (assertr (fmt \<noteq> NULL) (vsprintf str fmt (fmt_at + 4) m)))"

definition printf :: "addr_t \<Rightarrow> addr_t \<Rightarrow> mem \<Rightarrow> (u32 \<times> addr_t option \<times> mem) res" where
  "printf buffer fmt_at m =
     (let fmt = load32 m fmt_at in
      assertr (fmt \<noteq> NULL) (vfprintf buffer stdout fmt (fmt_at + 4) m))"

declare skip_spaces.simps [code] atoi_loop.simps [code] itoa_digits.simps [code]
  upper_loop.simps [code] skip_digits.simps [code] skip_length.simps [code] fmt_loop.simps [code]

end
