(* ===== verification/Printf_Numbers.thy ===== *)
theory Printf_Numbers imports Printf begin

text \<open>
  The number printers of \<open>Printf\<close> against texts: the digits of a number in a base, what \<^verbatim>\<open>__itoa\<close>
  stores, what \<^verbatim>\<open>atoi\<close> reads back, and the fields \<^verbatim>\<open>__itoaf\<close> makes of a number with a flag, a width
  and a precision.
\<close>

section \<open>Bytes stored in memory\<close>

lemma unat_offset: "k < 2 ^ 32 \<Longrightarrow> unat (p + of_nat k - p :: addr_t) = k"
  by (simp add: unat_of_nat_addr)

lemma unat_before: "n < 2 ^ 32 \<Longrightarrow> n \<le> unat (p - (p + 1) :: addr_t)"
  by (simp only: unat_minus_one_max)

lemma stored_at: "k < length bs \<Longrightarrow> length bs \<le> 2 ^ 32 \<Longrightarrow> stored p bs m (p + of_nat k) = bs ! k"
  by (simp add: stored_def unat_of_nat_addr)

lemma stored_outside: "length bs \<le> unat (a - p) \<Longrightarrow> stored p bs m a = m a"
  by (simp add: stored_def)

lemma stored_upd: "length bs \<le> unat (a - p) \<Longrightarrow> (stored p bs m)(a := x) = stored p bs (m(a := x))"
  by (rule ext) (auto simp: stored_def)

lemma offset_iff: "k < 2 ^ 32 \<Longrightarrow> a = p + of_nat k \<longleftrightarrow> unat (a - p) = k" for a p :: addr_t
proof -
  assume k: "k < 2 ^ 32"
  have "a = p + of_nat k \<longleftrightarrow> a - p = of_nat k" by (auto simp: algebra_simps)
  also have "\<dots> \<longleftrightarrow> unat (a - p) = k"
    using k by (simp only: word_unat_eq_iff unat_of_nat_addr)
  finally show ?thesis .
qed

lemma stored_upd_in:
  "k < length bs \<Longrightarrow> length bs \<le> 2 ^ 32 \<Longrightarrow>
   (stored p bs m)(p + of_nat k := x) = stored p (bs[k := x]) m"
  by (rule ext) (auto simp: stored_def offset_iff nth_list_update)

lemma unat_sub_offset:
  fixes a p :: addr_t
  assumes "n < 2 ^ 32"
  shows "unat (a - (p + of_nat n)) = (if unat (a - p) < n then unat (a - p) + 2 ^ 32 - n else unat (a - p) - n)"
proof -
  have "a - (p + of_nat n) = (a - p) - of_nat n" by simp
  then show ?thesis using unat_of_nat_addr [OF assms] by (simp only: unat_sub_if') auto
qed

text \<open>A part of a stored block that is stored again.\<close>

lemma stored_mid:
  assumes "length xs + length ys + length zs \<le> 2 ^ 32" and "length ys' = length ys"
  shows "stored (p + of_nat (length xs)) ys' (stored p (xs @ ys @ zs) m) = stored p (xs @ ys' @ zs) m"
proof (cases "ys = []")
  case False
  then have lt: "length xs < 2 ^ 32" using assms(1) by (cases ys) auto
  show ?thesis
    using assms by (intro ext) (auto simp: stored_def unat_sub_offset [OF lt] nth_append)
qed (use assms in simp)

lemma stored_append:
  assumes "length bs + length cs \<le> 2 ^ 32"
  shows "stored (p + of_nat (length bs)) cs (stored p bs m) = stored p (bs @ cs) m"
proof (cases "cs = []")
  case False
  then have lt: "length bs < 2 ^ 32" using assms by (cases cs) auto
  show ?thesis
    using assms by (intro ext) (auto simp: stored_def unat_sub_offset [OF lt] nth_append)
qed simp

lemma stored_one: "stored p [x] m = m(p := x)"
  by (rule ext) (auto simp: stored_def unat_eq_0)

lemma stored_snoc:
  "length bs < 2 ^ 32 \<Longrightarrow> (stored p bs m)(p + of_nat (length bs) := x) = stored p (bs @ [x]) m"
  using stored_append [of bs "[x]" p m] by (simp add: stored_one)

lemma stored_stored: "length bs = length cs \<Longrightarrow> stored p cs (stored p bs m) = stored p cs m"
  by (rule ext) (simp add: stored_def)

lemma cstr_stored_tail:
  "0 \<notin> set s \<Longrightarrow> length r + length s < 2 ^ 32 \<Longrightarrow>
   cstr (stored p (r @ s @ [0]) m) (p + of_nat (length r)) s"
proof (induction s arbitrary: r)
  case Nil
  then show ?case using stored_at [of "length r" "r @ [0]" p m] by simp
next
  case (Cons c s)
  have "stored p (r @ (c # s) @ [0]) m (p + of_nat (length r)) = c"
    using stored_at [of "length r" "r @ (c # s) @ [0]" p m] Cons.prems by simp
  moreover have "cstr (stored p ((r @ [c]) @ s @ [0]) m) (p + of_nat (length (r @ [c]))) s"
    using Cons.prems by (intro Cons.IH) auto
  ultimately show ?case using Cons.prems by (simp add: algebra_simps)
qed

lemma cstr_stored: "0 \<notin> set s \<Longrightarrow> length s < 2 ^ 32 \<Longrightarrow> cstr (stored p (s @ [0]) m) p s"
  using cstr_stored_tail [of s "[]" p m] by simp

section \<open>Digits\<close>

text \<open>The digits of a number, least significant first, and their characters.\<close>

fun digits :: "nat \<Rightarrow> nat \<Rightarrow> nat list" where
  "digits b n = (if n = 0 \<or> b < 2 then [] else n mod b # digits b (n div b))"

declare digits.simps [simp del]

lemma digits_0 [simp]: "digits b 0 = []"
  by (simp add: digits.simps)

lemma digits_step: "0 < n \<Longrightarrow> 2 \<le> b \<Longrightarrow> digits b n = n mod b # digits b (n div b)"
  by (subst digits.simps) simp

lemma digits_below: "d \<in> set (digits b n) \<Longrightarrow> d < b"
  by (induction b n rule: digits.induct) (subst (asm) digits.simps, auto split: if_splits)

lemma digits_length: "2 \<le> b \<Longrightarrow> n < 2 ^ k \<Longrightarrow> length (digits b n) \<le> k"
proof (induction k arbitrary: n)
  case (Suc k)
  show ?case
  proof (cases "n = 0")
    case False
    have "n div b \<le> n div 2" using Suc.prems(1) by (intro div_le_mono2) auto
    with Suc.prems(2) have "n div b < 2 ^ k" by simp
    with Suc False show ?thesis by (simp add: digits_step)
  qed simp
qed simp

definition digit_byte :: "nat \<Rightarrow> u8" where
  "digit_byte d = of_nat (if d < 10 then 48 + d else 87 + d)"

definition number_text :: "nat \<Rightarrow> nat \<Rightarrow> u8 list" where
  "number_text b n = map digit_byte (if n = 0 then [0] else rev (digits b n))"

text \<open>Decimals carry a sign, other bases read the word as unsigned.\<close>

definition int_sign :: "nat \<Rightarrow> u32 \<Rightarrow> u8 list" where
  "int_sign b v = (if b = 10 \<and> sint v < 0 then [ch CHR ''-''] else [])"

definition int_digits :: "nat \<Rightarrow> u32 \<Rightarrow> u8 list" where
  "int_digits b v = number_text b (if b = 10 \<and> sint v < 0 then nat (- sint v) else unat v)"

lemma unat_digit_byte: "d < 36 \<Longrightarrow> unat (digit_byte d) = (if d < 10 then 48 + d else 87 + d)"
  by (simp add: digit_byte_def unat_of_nat)

lemma number_text_bytes: "2 \<le> b \<Longrightarrow> b \<le> 36 \<Longrightarrow> c \<in> set (number_text b n) \<Longrightarrow> 48 \<le> unat c \<and> unat c < 128"
  by (auto simp: number_text_def unat_digit_byte dest!: digits_below split: if_splits)

lemma number_text_length: "2 \<le> b \<Longrightarrow> n < 2 ^ 32 \<Longrightarrow> length (number_text b n) \<le> 32"
  using digits_length [of b n 32] by (simp add: number_text_def)

lemma number_text_nonempty: "2 \<le> b \<Longrightarrow> number_text b n \<noteq> []"
  by (simp add: number_text_def digits.simps)

lemma digit_chr_eq:
  assumes "2 \<le> unat base" "unat base \<le> 36"
  shows "digit_chr u base = digit_byte (unat u mod unat base)"
proof -
  let ?d = "ucast (u mod base) :: u8"
  have r: "unat u mod unat base < 36"
    using assms by (meson mod_less_divisor order_less_le_trans zero_less_numeral less_le_trans)
  then have d: "unat ?d = unat u mod unat base" by (simp add: unsigned_ucast_eq unat_mod take_bit_nat_eq_self)
  with r have lt: "unat ?d < 36" by simp
  then have "sint ?d = int (unat ?d)"
    by (intro sint_unat) simp
  with d lt show ?thesis
    by (auto simp: digit_chr_def Let_def digit_byte_def word_unat_eq_iff unat_of_nat unat_word_ariths unat_sub_if')
qed

section \<open>What \<^verbatim>\<open>__itoa\<close> stores\<close>

lemma itoa_digits_eq:
  assumes "2 \<le> unat base" "unat base \<le> 36"
  shows "itoa_digits u base p m =
    Some (p + of_nat (length (digits (unat base) (unat u))),
          stored p (map digit_byte (digits (unat base) (unat u))) m)"
proof (induction "unat u" arbitrary: u p m rule: less_induct)
  case less
  show ?case
  proof (cases "u = 0")
    case True
    then show ?thesis by (simp add: itoa_digits.simps)
  next
    case False
    then have u: "0 < unat u" by (simp add: unat_gt_0)
    then have lt: "unat (u div base) < unat u" using assms by (simp add: unat_div)
    have "length (digits (unat base) (unat u)) \<le> 32"
      using unat_lt_u32 assms(1) by (intro digits_length)
    then have "length (map digit_byte (digits (unat base) (unat u div unat base))) < 2 ^ 32 - 1"
      using digits_step [OF u assms(1)] by simp
    with False u show ?thesis
      by (subst itoa_digits.simps)
        (simp add: less [OF lt] unat_div digit_chr_eq assms digits_step stored_Cons add.assoc)
  qed
qed

lemma itoa_reverse_stored:
  "0 < unat q \<Longrightarrow> unat q + length bs < 2 ^ 32 \<Longrightarrow>
   itoa_reverse (q + of_nat (length bs) - 1) q (stored q bs m) = stored q (rev bs) m"
proof (induction "length bs" arbitrary: q bs m rule: less_induct)
  case less
  let ?p = "q + of_nat (length bs) - 1"
  have n: "unat (of_nat (length bs) :: addr_t) = length bs"
    using less.prems by (intro unat_of_nat_addr) simp
  then have up: "unat ?p = unat q + length bs - 1"
    using less.prems by (cases "length bs = 0") (simp_all add: unat_sub_if' unat_plus_if')
  show ?case
  proof (cases "length bs < 2")
    case True
    then have "\<not> q < ?p" using up by (simp add: word_less_nat_alt)
    moreover have "rev bs = bs" using True by (cases bs) (auto simp: less_Suc_eq)
    ultimately show ?thesis by (subst itoa_reverse.simps) simp
  next
    case False
    then obtain a mid z where bs: "bs = a # mid @ [z]"
      by (metis append_butlast_last_id length_0_conv length_Cons less_2_cases_iff list.exhaust list.size(3) One_nat_def)
    let ?m = "stored q (z # mid @ [a]) m"
    have p: "?p = q + of_nat (Suc (length mid))" by (simp add: bs)
    have lt: "Suc (length mid) < 2 ^ 32" using less.prems by (simp add: bs)
    have "q < ?p" using up False by (simp add: word_less_nat_alt)
    then have "itoa_reverse ?p q (stored q bs m) =
      itoa_reverse (?p - 1) (q + 1) ((stored q bs m)(?p := stored q bs m q, q := stored q bs m ?p))"
      by (subst itoa_reverse.simps) (simp add: Let_def)
    also have "stored q bs m q = a"
      using stored_at [of 0 bs q m] less.prems by (simp add: bs)
    also have "stored q bs m ?p = z"
      using stored_at [of "Suc (length mid)" bs q m] less.prems
      unfolding p by (simp add: bs nth_append del: of_nat_Suc)
    also have "(stored q bs m)(?p := a, q := z) = ?m"
      using stored_upd_in [of "Suc (length mid)" bs q m a]
        stored_upd_in [of 0 "bs[Suc (length mid) := a]" q m z] less.prems
      unfolding p by (simp add: bs list_update_append del: of_nat_Suc)
    also have "?m = stored (q + 1) mid ?m"
      using stored_mid [of "[z]" mid "[a]" mid q m] lt by simp
    also have "?p - 1 = q + 1 + of_nat (length mid) - 1" unfolding p by simp
    also have "itoa_reverse \<dots> (q + 1) (stored (q + 1) mid ?m) = stored (q + 1) (rev mid) ?m"
      using less.prems by (intro less.hyps) (simp_all add: bs unat_plus_if')
    also have "\<dots> = stored q (rev bs) m"
      using stored_mid [of "[z]" mid "[a]" "rev mid" q m] lt by (simp add: bs)
    finally show ?thesis .
  qed
qed

lemma itoa_number_eq:
  assumes b: "2 \<le> unat base" "unat base \<le> 36"
    and fit: "0 < unat p" "unat p + length (number_text (unat base) (unat u)) < 2 ^ 32"
    and str: "str = p \<or> p = str + 1 \<and> m str = ch CHR ''-''"
  shows "itoa_number u str p base m =
    Inr (str, stored p (number_text (unat base) (unat u) @ [0]) m)"
proof -
  let ?t = "rev (number_text (unat base) (unat u))"
  let ?e = "p + of_nat (length ?t)"
  let ?m = "m(?e := 0)"
  have len: "length ?t < 2 ^ 32" using fit by simp
  have b0: "base \<noteq> 0" using b by auto
  have digits: "(if u = 0 then Inr (p + 1, m(p := ch CHR ''0''))
      else of_loop (itoa_digits u base p m)) = Inr (?e, stored p ?t m)"
    using b by (auto simp: itoa_digits_eq number_text_def stored_one digit_byte_def rev_map unat_gt_0 unat_eq_0)
  have mem: "(stored p ?t m)(?e := 0) = stored p ?t ?m"
    using len by (intro stored_upd) (simp add: unat_of_nat_addr)
  have tmp: "(if stored p ?t ?m str = ch CHR ''-'' then str + 1 else str) = p"
  proof (cases "str = p")
    case True
    have ne: "?t \<noteq> []" using number_text_nonempty [OF b(1)] by simp
    then have "stored p ?t ?m p = hd ?t" using stored_at [of 0 ?t p ?m] len by (simp add: hd_conv_nth)
    moreover have "48 \<le> unat (hd ?t)" using number_text_bytes [OF b] hd_in_set [OF ne] by simp
    then have "hd ?t \<noteq> ch CHR ''-''" by auto
    ultimately show ?thesis using True by simp
  next
    case False
    then have p: "p = str + 1" "m str = ch CHR ''-''" using str by auto
    have "length ?t \<le> unat (str - p)" using unat_before [OF len, of str] p(1) by simp
    moreover have "str \<noteq> ?e"
    proof
      assume "str = ?e"
      then have "unat (str - p) = length ?t" using len by (simp add: unat_of_nat_addr)
      then show False using unat_minus_one_max [of str] p(1) fit by simp
    qed
    ultimately show ?thesis using p by (simp add: stored_outside)
  qed
  have "itoa_reverse (?e - 1) p (stored p ?t ?m) = stored p (rev ?t) ?m"
    using fit by (intro itoa_reverse_stored) simp_all
  also have "\<dots> = stored p (rev ?t @ [0]) m"
    using stored_snoc [of "rev ?t" p m 0] stored_upd [of "rev ?t" ?e p m 0] len
    by (simp add: unat_of_nat_addr)
  finally show ?thesis
    unfolding itoa_number_def digits using b0
    by (simp only: bindr_simps prod.case Let_def mem tmp) simp
qed

lemma unat_uminus_neg: "sint v < 0 \<Longrightarrow> unat (- v) = nat (- sint v)" for v :: u32
proof -
  assume neg: "sint v < 0"
  have k: "0 \<le> - sint v" "- sint v < 2 ^ 32" using neg sint_greater_eq [of v] by simp_all
  have "take_bit LENGTH(32) (- sint v) = - sint v"
    using k by (intro take_bit_int_eq_self) simp_all
  moreover have "- v = word_of_int (- sint v)" by simp
  ultimately have "uint (- v) = - sint v" using k(1) by (simp only: unsigned_of_int)
  then show ?thesis by (metis nat_uint_eq)
qed

lemma itoa_eq:
  assumes b: "2 \<le> unat base" "unat base \<le> 36" and "str \<noteq> NULL" "unat str + 40 < 2 ^ 32"
  shows "itoa v str base m =
    Inr (str, stored str (int_sign (unat base) v @ int_digits (unat base) v @ [0]) m)"
proof (cases "base = 10 \<and> sint v < 0")
  case True
  then have neg: "unat base = 10" "base = 10" "sint v < 0" by simp_all
  have "unat (- v) = nat (- sint v)" by (rule unat_uminus_neg [OF neg(3)])
  then have d: "int_digits 10 v = number_text 10 (unat (- v))" and s: "int_sign 10 v = [ch CHR ''-'']"
    using neg by (simp_all add: int_digits_def int_sign_def)
  show ?thesis
  proof (cases "v = INT_MIN")
    case True
    have "STR_INT_MIN @ [0] = int_sign 10 v @ int_digits 10 v @ [0]"
      unfolding d s by (simp add: True INT_MIN_def STR_INT_MIN_def number_text_def digits_step digit_byte_def)
    then show ?thesis using True neg assms(3) by (simp only: itoa_def) simp
  next
    case False
    have "length (number_text (unat base) (unat (- v))) \<le> 32"
      using b(1) unat_lt_u32 by (intro number_text_length)
    moreover have "0 < unat str" using assms(3) by (simp add: unat_gt_0)
    ultimately have "itoa_number (- v) str (str + 1) base (m(str := ch CHR ''-'')) =
      Inr (str, stored (str + 1) (number_text (unat base) (unat (- v)) @ [0]) (m(str := ch CHR ''-'')))"
      using b assms(4) by (intro itoa_number_eq) (simp_all add: unat_plus_if')
    moreover have "length (number_text 10 (unat (- v)) @ [0]) < 2 ^ 32 - 1"
      using number_text_length [of 10 "unat (- v)"] unat_lt_u32 by simp
    ultimately show ?thesis
      using False neg by (simp add: itoa_def d s stored_Cons)
  qed
next
  case False
  have "base = 10 \<longleftrightarrow> unat base = 10" by (simp add: word_unat_eq_iff)
  with False have d: "int_digits (unat base) v = number_text (unat base) (unat v)"
    and s: "int_sign (unat base) v = []"
    by (auto simp: int_digits_def int_sign_def)
  have "length (number_text (unat base) (unat v)) \<le> 32"
    using b(1) unat_lt_u32 by (intro number_text_length)
  moreover have "0 < unat str" using assms(3) by (simp add: unat_gt_0)
  ultimately have "itoa_number v str str base m =
      Inr (str, stored str (number_text (unat base) (unat v) @ [0]) m)"
    using b assms(4) by (intro itoa_number_eq) simp_all
  with False show ?thesis by (auto simp: itoa_def d s)
qed

section \<open>Character classes and \<^verbatim>\<open>atoi\<close>\<close>

lemma ucast_promote: "ucast (promote c) = c"
  by (rule bit_eqI) (simp add: promote_def bit_simps)

lemma class_of_byte: "is_class k (promote c) \<longleftrightarrow> (chr_class_table ! unat c) AND k \<noteq> 0"
  by (simp add: is_class_def ucast_promote)

lemma length_chr_class_table: "length chr_class_table = 256"
  by (simp add: chr_class_table_def)

text \<open>The rows of the table a program tests, as ranges of character codes.\<close>

lemma digit_rows: "map (\<lambda>w. w AND ISDIGIT \<noteq> 0) chr_class_table = map (\<lambda>n. 48 \<le> n \<and> n \<le> 57) [0..<256]"
  by code_simp

lemma space_rows:
  "map (\<lambda>w. w AND ISSPACE \<noteq> 0) chr_class_table = map (\<lambda>n. 9 \<le> n \<and> n \<le> 13 \<or> n = 32) [0..<256]"
  by code_simp

lemma row_nth:
  assumes "map f xs = map g [0..<n]" and "i < n"
  shows "f (xs ! i) = g i"
proof -
  have "length xs = n" using assms(1) by (metis length_map length_upt minus_nat.diff_0)
  moreover have "map f xs ! i = map g [0..<n] ! i" using assms(1) by simp
  ultimately show ?thesis using assms(2) by simp
qed

lemma unat_lt_u8: "unat (c :: u8) < 256"
  using unsigned_less [of c] by simp

lemma isdigit_iff: "isdigit (promote c) \<longleftrightarrow> 48 \<le> unat c \<and> unat c \<le> 57"
  using row_nth [OF digit_rows unat_lt_u8] by (simp add: isdigit_def class_of_byte)

lemma isspace_iff: "isspace (promote c) \<longleftrightarrow> 9 \<le> unat c \<and> unat c \<le> 13 \<or> unat c = 32"
  using row_nth [OF space_rows unat_lt_u8] by (simp add: isspace_def class_of_byte)

lemma promote_ascii: "unat c < 128 \<Longrightarrow> promote c = of_nat (unat c)"
proof -
  assume "unat c < 128"
  then have "sint c = int (unat c)" by (intro sint_unat) simp
  then have "(word_of_int (sint c) :: u32) = of_nat (unat c)" by simp
  then show ?thesis by (simp add: promote_def)
qed

text \<open>Bytes standing at an address, without a terminator.\<close>

fun text_at :: "mem \<Rightarrow> addr_t \<Rightarrow> u8 list \<Rightarrow> bool" where
  "text_at m p [] \<longleftrightarrow> True"
| "text_at m p (c # s) \<longleftrightarrow> m p = c \<and> text_at m (p + 1) s"

lemma text_at_append:
  "text_at m p (s @ t) \<longleftrightarrow> text_at m p s \<and> text_at m (p + of_nat (length s)) t"
  by (induction s arbitrary: p) (auto simp: add.assoc)

lemma text_at_cstr: "cstr m p s \<longleftrightarrow> 0 \<notin> set s \<and> text_at m p (s @ [0])"
  by (induction s arbitrary: p) auto

lemma text_at_nth: "text_at m p s \<longleftrightarrow> (\<forall>i < length s. m (p + of_nat i) = s ! i)"
proof (induction s arbitrary: p)
  case (Cons c s)
  show ?case
    by (auto simp: Cons.IH All_less_Suc2 add.assoc)
qed simp

lemma text_at_stored: "length s \<le> 2 ^ 32 \<Longrightarrow> text_at (stored p s m) p s"
  by (simp add: text_at_nth stored_at)

lemma atoi_loop_text:
  "ds \<noteq> [] \<Longrightarrow> \<forall>d \<in> set ds. d < 10 \<Longrightarrow> text_at m p (map digit_byte ds) \<Longrightarrow>
   \<not> isdigit (promote (m (p + of_nat (length ds)))) \<Longrightarrow>
   atoi_loop m p v = Some (foldl (\<lambda>v d. v * 10 + of_nat d) v ds)"
proof (induction ds arbitrary: p v)
  case (Cons d ds)
  have "unat (m p) = 48 + d" using Cons.prems by (simp add: unat_digit_byte)
  then have "promote (m p) - promote (ch CHR ''0'') = of_nat d"
    using Cons.prems by (simp add: promote_ascii)
  moreover have "isdigit (promote (m (p + 1))) \<longleftrightarrow> ds \<noteq> []"
    using Cons.prems by (cases ds) (auto simp: isdigit_iff unat_digit_byte)
  ultimately show ?case
    using Cons by (subst atoi_loop.simps) (auto simp: Let_def add.assoc)
qed simp

lemma number_value: "foldl (\<lambda>v d. v * 10 + of_nat d) (0 :: u32) (if n = 0 then [0] else rev (digits 10 n)) = of_nat n"
proof (induction n rule: less_induct)
  case (less n)
  show ?case
  proof (cases "n < 10")
    case True
    then show ?thesis by (cases "n = 0") (simp_all add: digits_step)
  next
    case False
    then have "foldl (\<lambda>v d. v * 10 + of_nat d) (0 :: u32) (rev (digits 10 (n div 10))) = of_nat (n div 10)"
      using less [of "n div 10"] by (auto split: if_splits)
    then have "foldl (\<lambda>v d. v * 10 + of_nat d) (0 :: u32) (rev (digits 10 n))
        = of_nat (n div 10) * 10 + of_nat (n mod 10)"
      using False by (subst digits_step) simp_all
    also have "\<dots> = of_nat (n div 10 * 10 + n mod 10)"
      by (simp only: of_nat_add of_nat_mult of_nat_numeral)
    finally show ?thesis using False by simp
  qed
qed

lemma atoi_number:
  assumes "str \<noteq> NULL" "text_at m str (number_text 10 n)"
    and "\<not> isdigit (promote (m (str + of_nat (length (number_text 10 n)))))"
  shows "atoi m str = Inr (of_nat n)"
proof -
  let ?ds = "if n = 0 then [0] else rev (digits 10 n)"
  have ds: "?ds \<noteq> []" "\<forall>d \<in> set ?ds. d < 10" "number_text 10 n = map digit_byte ?ds"
    by (auto simp: number_text_def digits_step dest: digits_below)
  then have "text_at m str (map digit_byte ?ds)" using assms(2) by simp
  moreover from this ds(1,2) have first: "48 \<le> unat (m str)" "unat (m str) \<le> 57"
    by (cases ?ds; simp add: unat_digit_byte; fail)+
  ultimately have "atoi_loop m str 0 = Some (of_nat n)"
    using atoi_loop_text [OF ds(1,2), of m str 0] assms(3) number_value [of n] ds(3) by simp
  moreover have "skip_spaces m str = Some str"
    using first by (subst skip_spaces.simps) (simp add: isspace_iff)
  moreover have "m str \<noteq> ch CHR ''+''" "m str \<noteq> ch CHR ''-''" using first by auto
  ultimately show ?thesis
    using first assms(1) by (simp add: atoi_def isdigit_iff)
qed
lemma atoi_negative:
  assumes "str \<noteq> NULL" "m str = ch CHR ''-''" "text_at m (str + 1) (number_text 10 n)"
    and "\<not> isdigit (promote (m (str + 1 + of_nat (length (number_text 10 n)))))"
  shows "atoi m str = Inr (if of_nat n \<noteq> INT_MIN then - of_nat n else of_nat n)"
proof -
  let ?ds = "if n = 0 then [0] else rev (digits 10 n)"
  have ds: "?ds \<noteq> []" "\<forall>d \<in> set ?ds. d < 10" "number_text 10 n = map digit_byte ?ds"
    by (auto simp: number_text_def digits_step dest: digits_below)
  then have "text_at m (str + 1) (map digit_byte ?ds)" using assms(3) by simp
  moreover from this ds(1,2) have "48 \<le> unat (m (str + 1))" "unat (m (str + 1)) \<le> 57"
    by (cases ?ds; simp add: unat_digit_byte; fail)+
  ultimately have "atoi_loop m (str + 1) 0 = Some (of_nat n)" "isdigit (promote (m (str + 1)))"
    using atoi_loop_text [OF ds(1,2), of m "str + 1" 0] assms(4) number_value [of n] ds(3)
    by (simp_all add: isdigit_iff)
  moreover have "skip_spaces m str = Some str"
    using assms(2) by (subst skip_spaces.simps) (simp add: isspace_iff)
  ultimately show ?thesis using assms(1,2) by (simp add: atoi_def)
qed

lemma atoi_int_text:
  assumes "str \<noteq> NULL" "text_at m str (int_sign 10 v @ int_digits 10 v @ [0])"
  shows "atoi m str = Inr v"
proof (cases "sint v < 0")
  case True
  have "atoi m str = Inr (if (of_nat (unat (- v)) :: u32) \<noteq> INT_MIN then - of_nat (unat (- v)) else of_nat (unat (- v)))"
    using assms True unat_uminus_neg [OF True]
    by (intro atoi_negative) (simp_all add: int_sign_def int_digits_def text_at_append isdigit_iff)
  then show ?thesis by (auto simp: INT_MIN_def dest: arg_cong [where f = uminus])
next
  case False
  then have "atoi m str = Inr (of_nat (unat v))"
    using assms by (intro atoi_number) (simp_all add: int_sign_def int_digits_def text_at_append isdigit_iff)
  then show ?thesis by simp
qed

section \<open>Shifting and padding\<close>

lemma shift_up_copy:
  "0 < n \<Longrightarrow> n < 2 ^ 32 \<Longrightarrow>
   shift_up p (p + of_nat n) k m = copy_down (p + of_nat n + k) (p + of_nat n) n m"
proof (induction n arbitrary: m)
  case (Suc n)
  have "p + of_nat n = p \<longleftrightarrow> n = 0"
    using Suc.prems unat_of_nat_addr [of n] by (auto simp flip: word_unat_eq_iff) 
  with Suc show ?case
    by (subst shift_up.simps) (auto simp: Let_def algebra_simps)
qed simp

lemma fill_down_eq:
  "0 < n \<Longrightarrow> n < 2 ^ 32 \<Longrightarrow>
   fill_down p (p + of_nat n) pad m = stored p (replicate n pad) m"
proof (induction n arbitrary: m)
  case (Suc n)
  have z: "p + of_nat n = p \<longleftrightarrow> n = 0" 
    using Suc.prems offset_iff [of n p p] by auto
  have "fill_down p (p + of_nat (Suc n)) pad m =
    (if n = 0 then m(p + of_nat n := pad) else fill_down p (p + of_nat n) pad (m(p + of_nat n := pad)))"
    using z by (subst fill_down.simps) (simp add: Let_def)
  also have "\<dots> = stored p (replicate n pad) (m(p + of_nat n := pad))"
    using Suc by simp
  also have "\<dots> = stored p (replicate (Suc n) pad) m"
    using stored_snoc [of "replicate n pad" p m pad] stored_upd [of "replicate n pad" "p + of_nat n" p m pad] Suc.prems
    by (simp add: unat_of_nat_addr replicate_append_same)
  finally show ?case .
qed simp

text \<open>A block shifted up by \<open>k\<close> and padded in front.\<close>

lemma shift_pad_stored:
  assumes "bs \<noteq> []" "0 < k" "unat p + length bs + k < 2 ^ 31"
  shows "shift_pad p (p + of_nat (length bs)) (of_nat k) pad (stored p bs m) =
    Inr (stored p (replicate k pad @ bs) m)"
proof -
  let ?n = "length bs"
  have n: "unat (of_nat ?n :: addr_t) = ?n" and k: "unat (of_nat k :: addr_t) = k"
    using assms(3) by (simp_all add: unat_of_nat_addr)
  have lt: "p < p + of_nat ?n"
    using assms n by (simp add: word_less_nat_alt unat_plus_if')
  have sk: "sint (of_nat k :: u32) = int k"
    using assms(3) k by (subst sint_unat) simp_all
  have e: "x - of_nat k - p = x - (p + of_nat k)" for x by simp
  have "shift_up p (p + of_nat ?n) (of_nat k) (stored p bs m) =
    copy_down (p + of_nat k + of_nat ?n) (p + of_nat ?n) ?n (stored p bs m)"
    using assms by (subst shift_up_copy) (simp_all add: add.commute add.left_commute)
  also have "\<dots> = moved (p + of_nat k) p ?n (stored p bs m)"
    using assms unat_sub_offset [of k p p] by (intro copy_down_moved) auto
  also have "\<dots> = stored (p + of_nat k) bs (stored p bs m)"
    by (intro ext) (auto simp: moved_def stored_def e)
  finally have up: "shift_up p (p + of_nat ?n) (of_nat k) (stored p bs m) = \<dots>" .
  have "fill_down p (p + of_nat k) pad (stored (p + of_nat k) bs (stored p bs m)) =
    stored p (replicate k pad) (stored (p + of_nat k) bs (stored p bs m))"
    using assms by (intro fill_down_eq) simp_all
  also have "\<dots> = stored p (replicate k pad @ bs) m"
    using assms(3) by (intro ext) (auto simp: stored_def unat_sub_offset nth_append)
  finally show ?thesis
    using lt assms sk up by (simp add: shift_pad_def word_unat_eq_iff k)
qed

lemma stored_over:
  assumes "length h + length cs \<le> 2 ^ 32" "length ds \<le> length cs"
  shows "stored (p + of_nat (length h)) cs (stored p (h @ ds) m) = stored p (h @ cs) m"
proof (cases "cs = []")
  case False
  then have lt: "length h < 2 ^ 32" using assms(1) by (cases cs) auto
  show ?thesis
    using assms by (intro ext) (auto simp: stored_def unat_sub_offset [OF lt] nth_append)
qed (use assms in simp)

text \<open>The tail of a text is shifted by \<open>k\<close>, over a terminator if there is one, and padded.\<close>

lemma shift_pad_mid:
  assumes "ds \<noteq> []" "0 < k" "t = [] \<or> t = [0]" "unat p + length h + length ds + k < 2 ^ 31"
  shows "shift_pad (p + of_nat (length h)) (p + of_nat (length h + length ds)) (of_nat k) pad (stored p (h @ ds @ t) m) =
    Inr (stored p (h @ replicate k pad @ ds) m)"
proof -
  let ?n = "p + of_nat (length h)" and ?M = "stored p (h @ ds @ t) m"
  have n: "unat ?n = unat p + length h"
    using assms(4) unat_of_nat_addr [of "length h"] by (subst unat_plus_if') simp
  have e: "p + of_nat (length h + length ds) = ?n + of_nat (length ds)" by simp
  have "?M = stored ?n ds ?M"
    using stored_mid [of h ds t ds p m] assms(3,4) by auto
  moreover have "shift_pad ?n (?n + of_nat (length ds)) (of_nat k) pad \<dots> = Inr (stored ?n (replicate k pad @ ds) ?M)"
    using assms n by (intro shift_pad_stored) simp_all
  moreover have "stored ?n (replicate k pad @ ds) ?M = stored p (h @ replicate k pad @ ds) m"
    using assms by (intro stored_over) auto
  ultimately show ?thesis unfolding e by (simp only:)
qed

lemma fill_spaces_eq:
  "unat p + k < 2 ^ 32 \<Longrightarrow>
   fill_spaces (p + of_nat k) p m = (p + of_nat k, stored p (replicate k (ch CHR '' '')) m)"
proof (induction k arbitrary: p m)
  case (Suc k)
  have k: "unat (of_nat (Suc k) :: addr_t) = Suc k" using Suc.prems by (intro unat_of_nat_addr) simp
  then have "p < p + of_nat (Suc k)"
    using Suc.prems by (simp add: word_less_nat_alt unat_plus_if' del: of_nat_Suc)
  moreover have "unat (p + 1) = unat p + 1" using Suc.prems by (simp add: unat_plus_if')
  moreover from this have "fill_spaces (p + 1 + of_nat k) (p + 1) (m(p := ch CHR '' '')) =
      (p + 1 + of_nat k, stored (p + 1) (replicate k (ch CHR '' '')) (m(p := ch CHR '' '')))"
    using Suc.prems by (intro Suc.IH) simp
  moreover have "length (replicate k (ch CHR '' '')) < 2 ^ 32 - 1" using Suc.prems by simp
  ultimately show ?case
    by (subst fill_spaces.simps) (simp add: add.assoc stored_Cons del: fun_upd_apply)
qed (simp add: fill_spaces.simps)

section \<open>The fields of \<^verbatim>\<open>__itoaf\<close>\<close>

definition int_prefix :: "u8 \<Rightarrow> nat \<Rightarrow> u32 \<Rightarrow> u8 list" where
  "int_prefix fl b v =
     (if b = 10
      then if sint v > 0 \<and> fl = FMT_F_SIGN_PLUS then [ch CHR ''+'']
           else if sint v > 0 \<and> fl = FMT_F_SIGN_SPCE then [ch CHR '' ''] else []
      else if fl = FMT_F_MARK then (if b = 16 then [ch CHR ''0'', ch CHR ''x''] else [ch CHR ''0'']) else [])"

text \<open>The digits with zeros in front up to the precision, and the field up to the width.\<close>

definition precise :: "nat option \<Rightarrow> u8 list \<Rightarrow> u8 list" where
  "precise pr ds = (case pr of None \<Rightarrow> ds | Some k \<Rightarrow> replicate (k - length ds) (ch CHR ''0'') @ ds)"

definition field :: "u8 \<Rightarrow> nat \<Rightarrow> nat option \<Rightarrow> u8 list \<Rightarrow> u8 list \<Rightarrow> u8 list" where
  "field fl w pr head ds =
     (let gap = w - length (head @ ds) in
      if fl = FMT_F_LEFT_JUST then head @ ds @ replicate gap (ch CHR '' '')
      else if fl = FMT_F_ZERO_PAD \<and> pr = None then head @ replicate gap (ch CHR ''0'') @ ds
      else replicate gap (ch CHR '' '') @ head @ ds)"

definition number_field :: "u8 \<Rightarrow> nat \<Rightarrow> nat option \<Rightarrow> nat \<Rightarrow> u32 \<Rightarrow> u8 list" where
  "number_field fl w pr b v =
     field fl w pr (int_prefix fl b v @ int_sign b v) (precise pr (int_digits b v))"

text \<open>Whether a terminator follows: zeros of the precision run over it, the width sets a new one.\<close>

definition terminated :: "u8 \<Rightarrow> nat \<Rightarrow> nat option \<Rightarrow> nat \<Rightarrow> u32 \<Rightarrow> bool" where
  "terminated fl w pr b v \<longleftrightarrow>
     precise pr (int_digits b v) = int_digits b v \<or>
     length (int_prefix fl b v @ int_sign b v @ precise pr (int_digits b v)) < w"

definition prec_word :: "nat option \<Rightarrow> u32" where
  "prec_word pr = (case pr of None \<Rightarrow> - 1 | Some k \<Rightarrow> of_nat k)"

definition prec_bound :: "nat option \<Rightarrow> nat" where
  "prec_bound pr = (case pr of None \<Rightarrow> 0 | Some k \<Rightarrow> k)"

abbreviation flag_set :: "u8 set" where
  "flag_set \<equiv> {0, FMT_F_LEFT_JUST, FMT_F_SIGN_PLUS, FMT_F_SIGN_SPCE, FMT_F_MARK, FMT_F_ZERO_PAD}"

lemmas flag_defs = FMT_F_LEFT_JUST_def FMT_F_SIGN_PLUS_def FMT_F_SIGN_SPCE_def FMT_F_MARK_def FMT_F_ZERO_PAD_def

lemma flag_bits:
  assumes "fl \<in> flag_set"
  shows "fl AND (fl - 1) = 0"
    and "fl AND FMT_F_LEFT_JUST \<noteq> 0 \<longleftrightarrow> fl = FMT_F_LEFT_JUST"
    and "fl AND FMT_F_SIGN_PLUS \<noteq> 0 \<longleftrightarrow> fl = FMT_F_SIGN_PLUS"
    and "fl AND FMT_F_SIGN_SPCE \<noteq> 0 \<longleftrightarrow> fl = FMT_F_SIGN_SPCE"
    and "fl AND FMT_F_MARK \<noteq> 0 \<longleftrightarrow> fl = FMT_F_MARK"
    and "fl AND FMT_F_ZERO_PAD \<noteq> 0 \<longleftrightarrow> fl = FMT_F_ZERO_PAD"
  using assms by (auto simp: flag_defs)

lemma itoaf_prefix_eq:
  assumes "fl \<in> flag_set" "b \<in> {8, 10, 16}"
  shows "itoaf_prefix v p (of_nat b) fl m =
    (p + of_nat (length (int_prefix fl b v)), stored p (int_prefix fl b v) m)"
proof -
  have two: "stored p [x, y] m = m(p := x, p + 1 := y)" for x y
    using stored_Cons [of "[y]" p m x] by (simp add: stored_one)
  show ?thesis
    using assms by (auto simp: itoaf_prefix_def int_prefix_def flag_defs Let_def stored_one two)
qed

lemma precision_eq:
  assumes "ds \<noteq> []" "length h + length ds + prec_bound pr + 2 < 2 ^ 31"
    and "unat p + length h + length ds + prec_bound pr < 2 ^ 31" "0 < unat p"
  shows "itoaf_precision (p + of_nat (length h)) (p + of_nat (length h + length ds)) (prec_word pr)
      (stored p (h @ ds @ [0]) m) =
    Inr (of_nat (length (precise pr ds) - length ds),
         stored p (h @ precise pr ds @ (if precise pr ds = ds then [0] else [])) m)"
proof -
  let ?n = "p + of_nat (length h)" and ?e = "p + of_nat (length h + length ds)"
  have len: "unat (of_nat (length h) :: addr_t) = length h"
    "unat (of_nat (length h + length ds) :: addr_t) = length h + length ds"
    using assms(2) by (intro unat_of_nat_addr; simp)+
  have n: "unat ?n = unat p + length h" and e: "unat ?e = unat p + length h + length ds"
    using assms(3) len by (subst unat_plus_if'; simp)+
  have ds: "?e = ?n + of_nat (length ds)" by simp
  show ?thesis
  proof (cases "\<exists>k. pr = Some k \<and> length ds < k")
    case True
    then obtain k where k: "pr = Some k" "length ds < k" by blast
    then have uk: "unat (of_nat k :: u32) = k" using assms(2) by (intro unat_of_nat_addr) (simp add: prec_bound_def)
    let ?z = "replicate (k - length ds) (ch CHR ''0'')"
    have gt: "?n + of_nat k > ?e"
      using k assms(3) n e uk by (simp add: word_less_nat_alt unat_plus_if' prec_bound_def)
    have cnt: "of_nat k - (?e - ?n) = (of_nat (k - length ds) :: u32)"
      using k by (simp add: of_nat_diff)
    have "shift_pad ?n ?e (of_nat (k - length ds)) (ch CHR ''0'') (stored p (h @ ds @ [0]) m) =
        Inr (stored p (h @ ?z @ ds) m)"
      using k assms by (intro shift_pad_mid) (simp_all add: prec_bound_def)
    moreover have "precise pr ds = ?z @ ds" "precise pr ds \<noteq> ds" using k by (simp_all add: precise_def)
    ultimately show ?thesis
      using gt by (simp only: itoaf_precision_def k prec_word_def option.case Let_def if_True cnt bindr_simps) simp
  next
    case False
    have "\<not> ?n + prec_word pr > ?e"
    proof (cases pr)
      case None
      have "?n \<noteq> 0" using n assms(4) by (metis add_gr_0 unat_gt_0)
      then have "unat (?n + - 1) = unat ?n - 1" using unat_pred [of ?n] by simp
      then show ?thesis using None n e by (simp add: prec_word_def word_less_nat_alt)
    next
      case (Some k)
      with False have "k \<le> length ds" by auto
      moreover from this have "unat (of_nat k :: u32) = k" using assms(2) by (intro unat_of_nat_addr) simp
      ultimately show ?thesis
        using Some assms(3) n e by (simp add: prec_word_def word_less_nat_alt unat_plus_if')
    qed
    moreover have "precise pr ds = ds" using False by (auto simp: precise_def split: option.splits)
    ultimately show ?thesis by (simp add: itoaf_precision_def del: of_nat_add)
  qed
qed

lemma itoaf_width_left:
  "str + width > p \<Longrightarrow> flags AND FMT_F_LEFT_JUST \<noteq> 0 \<Longrightarrow> fill_spaces (str + width) p m = (q, m') \<Longrightarrow>
   itoaf_width str nstart p flags width precision m = Inr (m'(q := 0))"
  by (simp add: itoaf_width_def)

lemma itoaf_width_right:
  "str + width > p \<Longrightarrow> flags AND FMT_F_LEFT_JUST = 0 \<Longrightarrow> width - (p - str) = gap \<Longrightarrow>
   (if sint precision < 0 \<and> flags AND FMT_F_ZERO_PAD \<noteq> 0 then shift_pad nstart p gap (ch CHR ''0'') m
    else shift_pad str p gap (ch CHR '' '') m) = Inr m' \<Longrightarrow>
   itoaf_width str nstart p flags width precision m = Inr (m'(p + gap := 0))"
  by (simp add: itoaf_width_def Let_def)

lemma sint_prec_word: "prec_bound pr < 2 ^ 31 \<Longrightarrow> sint (prec_word pr) < 0 \<longleftrightarrow> pr = None"
  using sint_unat [of "prec_word pr"]
  by (auto simp: prec_word_def prec_bound_def unat_of_nat_addr split: option.splits)

lemma width_eq:
  assumes fl: "fl \<in> flag_set" and ds: "ds \<noteq> []" and t: "t = [] \<or> t = [0]"
    and fit: "unat str + length h + length ds + w + 2 < 2 ^ 31" "prec_bound pr < 2 ^ 31"
  shows "itoaf_width str (str + of_nat (length h)) (str + of_nat (length h + length ds)) fl
      (of_nat w) (prec_word pr) (stored str (h @ ds @ t) m) =
    Inr (stored str (field fl w pr h ds @ (if length h + length ds < w then [0] else t)) m)"
proof -
  let ?l = "length h + length ds"
  let ?p = "str + of_nat ?l" and ?M = "stored str (h @ ds @ t) m"
  have u: "unat (of_nat ?l :: addr_t) = ?l" "unat (of_nat w :: addr_t) = w"
    using fit by (intro unat_of_nat_addr; simp)+
  then have p: "unat ?p = unat str + ?l" "unat (str + of_nat w) = unat str + w"
    using fit by (subst unat_plus_if'; simp)+
  show ?thesis
  proof (cases "?l < w")
    case False
    then have "\<not> str + of_nat w > ?p" using p by (simp add: word_less_nat_alt)
    then show ?thesis using False by (simp add: itoaf_width_def field_def Let_def del: of_nat_add)
  next
    case True
    let ?g = "w - ?l"
    have gt: "str + of_nat w > ?p" using True p by (simp add: word_less_nat_alt)
    have w: "str + of_nat w = ?p + of_nat ?g" using True by (simp add: of_nat_diff)
    have cnt: "of_nat w - (?p - str) = (of_nat ?g :: u32)" using True by (simp add: of_nat_diff)
    have fin: "(stored str xs m)(?p + of_nat ?g := 0) = stored str (xs @ [0]) m" if "length xs = w" for xs
      using stored_snoc [of xs str m 0] that fit unfolding w [symmetric] by simp
    consider (left) "fl = FMT_F_LEFT_JUST" | (zero) "fl = FMT_F_ZERO_PAD" "pr = None"
      | (space) "fl \<noteq> FMT_F_LEFT_JUST" "\<not> (fl = FMT_F_ZERO_PAD \<and> pr = None)" by blast
    then show ?thesis
    proof cases
      case left
      have "fill_spaces (str + of_nat w) ?p ?M =
        (str + of_nat w, stored ?p (replicate ?g (ch CHR '' '')) ?M)"
        unfolding w using p fit True by (intro fill_spaces_eq) simp
      moreover have "stored ?p (replicate ?g (ch CHR '' '')) ?M = stored str (h @ ds @ replicate ?g (ch CHR '' '')) m"
        using stored_over [of "h @ ds" "replicate ?g (ch CHR '' '')" t str m] t True fit by auto
      ultimately have "itoaf_width str (str + of_nat (length h)) ?p fl (of_nat w) (prec_word pr) ?M =
          Inr ((stored str (h @ ds @ replicate ?g (ch CHR '' '')) m)(str + of_nat w := 0))"
        using left gt flag_bits(2) [OF fl] by (intro itoaf_width_left) simp_all
      then show ?thesis
        using left True fin [of "h @ ds @ replicate ?g (ch CHR '' '')"]
        unfolding w by (simp add: field_def)
    next
      case zero
      have "shift_pad (str + of_nat (length h)) ?p (of_nat ?g) (ch CHR ''0'') ?M =
          Inr (stored str (h @ replicate ?g (ch CHR ''0'') @ ds) m)"
        using ds t True fit by (intro shift_pad_mid) simp_all
      then have "itoaf_width str (str + of_nat (length h)) ?p fl (of_nat w) (prec_word pr) ?M =
          Inr ((stored str (h @ replicate ?g (ch CHR ''0'') @ ds) m)(?p + of_nat ?g := 0))"
        using zero gt flag_bits(2,6) [OF fl] sint_prec_word [OF fit(2)]
        by (intro itoaf_width_right [OF _ _ cnt]) (simp_all add: flag_defs)
      then show ?thesis
        using zero True fin [of "h @ replicate ?g (ch CHR ''0'') @ ds"] by (simp add: field_def flag_defs)
    next
      case space
      have "shift_pad str ?p (of_nat ?g) (ch CHR '' '') ?M =
          Inr (stored str (replicate ?g (ch CHR '' '') @ h @ ds) m)"
        using shift_pad_mid [of "h @ ds" ?g t str "[]" "ch CHR '' ''" m] ds t True fit by simp
      then have "itoaf_width str (str + of_nat (length h)) ?p fl (of_nat w) (prec_word pr) ?M =
          Inr ((stored str (replicate ?g (ch CHR '' '') @ h @ ds) m)(?p + of_nat ?g := 0))"
        using space gt flag_bits(2,6) [OF fl] sint_prec_word [OF fit(2)]
        by (intro itoaf_width_right [OF _ _ cnt]) (auto simp del: of_nat_add)
      then show ?thesis
        using space True fin [of "replicate ?g (ch CHR '' '') @ h @ ds"] by (auto simp: field_def Let_def)
    qed
  qed
qed

lemma int_digits_length: "2 \<le> b \<Longrightarrow> length (int_digits b v) \<le> 32"
  using unat_lt_u32 [of v] unat_lt_u32 [of "- v"] unat_uminus_neg [of v]
  by (auto simp: int_digits_def intro!: number_text_length)

lemma int_text_bytes:
  assumes "2 \<le> b" "b \<le> 36"
  shows "0 \<notin> set (int_sign b v @ int_digits b v)" "ch CHR ''-'' \<notin> set (int_digits b v)" "int_digits b v \<noteq> []"
  using number_text_bytes [OF assms] number_text_nonempty [OF assms(1)]
  by (fastforce simp: int_sign_def int_digits_def)+

lemma head_length: "length (int_prefix fl b v @ int_sign b v) \<le> 3"
  by (simp add: int_prefix_def int_sign_def)

text \<open>The number behind its prefix: what is stored, its length, and where its digits start.\<close>

lemma number_parts:
  fixes str :: addr_t and fl :: u8 and b :: nat and v :: u32 and m :: mem
  defines "pre \<equiv> int_prefix fl b v" and "sg \<equiv> int_sign b v" and "ds \<equiv> int_digits b v"
  assumes b: "b \<in> {8, 10, 16}" and str: "str \<noteq> NULL" and fit: "unat str + 50 < 2 ^ 31"
  shows "itoa v (str + of_nat (length pre)) (of_nat b) (stored str pre m) =
      Inr (str + of_nat (length pre), stored str ((pre @ sg) @ ds @ [0]) m)"
    and "strlen (stored str ((pre @ sg) @ ds @ [0]) m) (str + of_nat (length pre)) = Inr (of_nat (length sg + length ds))"
    and "(if stored str ((pre @ sg) @ ds @ [0]) m (str + of_nat (length pre)) = ch CHR ''-''
      then str + of_nat (length pre) + 1 else str + of_nat (length pre)) = str + of_nat (length (pre @ sg))"
proof -
  let ?n = "str + of_nat (length pre)" and ?M = "stored str ((pre @ sg) @ ds @ [0]) m"
  have b2: "2 \<le> b" "b \<le> 36" "unat (of_nat b :: u32) = b" using b by auto
  have bytes: "0 \<notin> set (sg @ ds)" "ch CHR ''-'' \<notin> set ds" "ds \<noteq> []"
    using int_text_bytes [OF b2(1,2), of v] unfolding sg_def ds_def by blast+
  have len: "length (pre @ sg) \<le> 3" "length ds \<le> 32"
    using head_length int_digits_length [OF b2(1)] unfolding pre_def sg_def ds_def by blast+
  have n: "unat ?n = unat str + length pre"
    using fit len(1) by (subst unat_plus_if') (simp add: unat_of_nat_addr)
  have n0: "?n \<noteq> NULL" using n str by (metis add_gr_0 unat_gt_0)
  have "itoa v ?n (of_nat b) (stored str pre m) = Inr (?n, stored ?n (sg @ ds @ [0]) (stored str pre m))"
    using itoa_eq [of "of_nat b" ?n v] b2 n0 n fit len(1) by (simp add: sg_def ds_def)
  also have "stored ?n (sg @ ds @ [0]) (stored str pre m) = ?M"
    using stored_append [of pre "sg @ ds @ [0]" str m] len by simp
  finally show "itoa v ?n (of_nat b) (stored str pre m) = Inr (?n, ?M)" .
  have "cstr ?M ?n (sg @ ds)"
    using cstr_stored_tail [of "sg @ ds" pre str m] bytes(1) len by simp
  then show "strlen ?M ?n = Inr (of_nat (length sg + length ds))"
    using n0 strlen_cstr [of ?n ?M "sg @ ds"] by simp
  show "(if ?M ?n = ch CHR ''-'' then ?n + 1 else ?n) = str + of_nat (length (pre @ sg))"
  proof (cases "sg = []")
    case True
    have "?M ?n = hd ds"
      using stored_at [of "length pre" "(pre @ sg) @ ds @ [0]" str m] len True bytes(3)
      by (simp add: nth_append hd_conv_nth)
    then show ?thesis using True bytes(2,3) by (metis append_Nil2 hd_in_set)
  next
    case False
    then have sg: "sg = [ch CHR ''-'']" by (auto simp: sg_def int_sign_def split: if_splits)
    then have "?M ?n = ch CHR ''-''"
      using stored_at [of "length pre" "(pre @ sg) @ ds @ [0]" str m] len by (simp add: nth_append)
    then show ?thesis by (simp add: sg)
  qed
qed

lemma itoaf_eq:
  assumes fl: "fl \<in> flag_set" and b: "b \<in> {8, 10, 16}" and str: "str \<noteq> NULL"
    and fit: "unat str + w + prec_bound pr + 50 < 2 ^ 31"
  shows "itoaf v str (of_nat b) fl (of_nat w) (prec_word pr) m =
    Inr (str, stored str (number_field fl w pr b v @ (if terminated fl w pr b v then [0] else [])) m)"
proof -
  let ?pre = "int_prefix fl b v" and ?sg = "int_sign b v" and ?ds = "int_digits b v"
  let ?h = "?pre @ ?sg"
  let ?n = "str + of_nat (length ?pre)" and ?M = "stored str (?h @ ?ds @ [0]) m"
  have b2: "2 \<le> b" "b \<le> 36" using b by auto
  note bytes = int_text_bytes [OF b2, of v]
  have len: "length ?h \<le> 3" "length ?ds \<le> 32" using head_length int_digits_length [OF b2(1)] by blast+
  have pos: "0 < unat str" using str by (simp add: unat_gt_0)
  have fit': "unat str + 50 < 2 ^ 31" using fit by simp
  note parts = number_parts [OF b str fit', where fl = fl and v = v and m = m]
  have nend: "?n + of_nat (length ?sg + length ?ds) = str + of_nat (length ?h + length ?ds)" by simp
  let ?q = "precise pr ?ds"
  let ?t = "if ?q = ?ds then [0] else [] :: u8 list"
  have q: "?q \<noteq> []" "length ?ds \<le> length ?q" "length ?q \<le> prec_bound pr + length ?ds"
    using bytes(3) by (auto simp: precise_def prec_bound_def split: option.splits)
  have prec: "itoaf_precision (str + of_nat (length ?h)) (str + of_nat (length ?h + length ?ds)) (prec_word pr) ?M =
      Inr (of_nat (length ?q - length ?ds), stored str (?h @ ?q @ ?t) m)"
    using precision_eq [OF bytes(3), of ?h pr str m] pos fit len by simp
  have pend: "str + of_nat (length ?h + length ?ds) + of_nat (length ?q - length ?ds)
      = str + of_nat (length ?h + length ?q)"
    using q(2) by (simp add: of_nat_diff)
  have width: "itoaf_width str (str + of_nat (length ?h)) (str + of_nat (length ?h + length ?q)) fl
      (of_nat w) (prec_word pr) (stored str (?h @ ?q @ ?t) m) =
    Inr (stored str (field fl w pr ?h ?q @ (if length ?h + length ?q < w then [0] else ?t)) m)"
    using fl q fit len by (intro width_eq) simp_all
  have "(if length ?h + length ?q < w then [0] else ?t) = (if terminated fl w pr b v then [0] else [])"
    by (auto simp: terminated_def)
  with width show ?thesis
    unfolding itoaf_def itoaf_prefix_eq [OF fl b] number_field_def
    by (simp only: flag_bits(1) [OF fl] assertr_simps Let_def prod.case parts bindr_simps nend prec pend simp_thms)
qed

section \<open>Where the number printer does not return\<close>

lemma itoa_digits_unary: "u \<noteq> 0 \<Longrightarrow> itoa_digits u 1 p m = None"
proof (rule ccontr)
  assume u: "u \<noteq> 0" and "itoa_digits u 1 p m \<noteq> None"
  then obtain r where "itoa_digits u 1 p m = Some r" by blast
  then have "(1 :: u32) = 1 \<longrightarrow> u = 0"
    by (rule itoa_digits.raw_induct [where P = "\<lambda>u b p m r. b = 1 \<longrightarrow> u = 0", rotated])
      (auto split: if_splits)
  with u show False by simp
qed

lemma itoa_digits_returns: "2 \<le> unat base \<Longrightarrow> \<exists>r. itoa_digits u base p m = Some r"
proof (induction "unat u" arbitrary: u p m rule: less_induct)
  case less
  show ?case
  proof (cases "u = 0")
    case False
    then have "unat (u div base) < unat u" using less.prems by (simp add: unat_div unat_gt_0)
    then show ?thesis using less.hyps less.prems False by (subst itoa_digits.simps) simp
  qed (simp add: itoa_digits.simps)
qed

lemma itoa_number_result:
  "itoa_number u str p base m \<in> (if u = 0 \<or> 2 \<le> unat base then range Inr
     else if base = 0 then {Inl Bad_access} else {Inl Hang})"
proof (cases "u = 0 \<or> base = 0")
  case False
  show ?thesis
  proof (cases "2 \<le> unat base")
    case True
    then show ?thesis using False itoa_digits_returns [OF True, of u p m] by (auto simp: itoa_number_def Let_def)
  next
    case small: False
    moreover have "unat base \<noteq> 0" using False by (simp add: unat_eq_0)
    ultimately have "unat base = unat (1 :: u32)" by simp
    then have "base = 1" by (simp only: word_unat_eq_iff)
    with False small show ?thesis by (simp add: itoa_number_def itoa_digits_unary)
  qed
qed (auto simp: itoa_number_def Let_def)

section \<open>Properties\<close>

text \<open>
  C22: when \<^verbatim>\<open>__itoa\<close> returns. With a base of at least 2 it returns for every number, whatever is in
  memory, but for the smallest integer in base 10, which is printed through \<^verbatim>\<open>strcpy\<close> and so needs
  a buffer that is not null. With base 1 the digit loop never ends, with base 0 the division
  traps, except for the number 0, which is not divided.
\<close>

theorem itoa_returns:
  "itoa v str base m \<in>
     (if v = INT_MIN \<and> base = 10 then if str = NULL then {Inl Assert_failed} else range Inr
      else if v = 0 \<or> 2 \<le> unat base then range Inr
      else if base = 0 then {Inl Bad_access} else {Inl Hang})"
proof (cases "base = 10 \<and> sint v < 0")
  case True
  then have "v \<noteq> 0" "2 \<le> unat base" by auto
  then show ?thesis
    using True itoa_number_result [of "- v" str "str + 1" base "m(str := ch CHR ''-'')"]
    by (cases "str = NULL") (simp_all add: itoa_def)
next
  case False
  then have "\<not> (v = INT_MIN \<and> base = 10)" by (auto simp: INT_MIN_def)
  then show ?thesis using False itoa_number_result [of v str str base m] by (auto simp: itoa_def)
qed

text \<open>
  C20: what \<^verbatim>\<open>__itoa\<close> prints in base 10, \<^verbatim>\<open>atoi\<close> reads back, for each of the \<^verbatim>\<open>2^32\<close> integers, the
  smallest included.
\<close>

theorem atoi_reads_itoa:
  assumes "str \<noteq> NULL" "unat str + 40 < 2 ^ 32"
  shows "\<exists>m'. itoa v str 10 m = Inr (str, m') \<and> atoi m' str = Inr v"
proof -
  let ?t = "int_sign 10 v @ int_digits 10 v @ [0]"
  have "length ?t \<le> 2 ^ 32"
    using int_digits_length [of 10 v] by (simp add: int_sign_def)
  then have "atoi (stored str ?t m) str = Inr v"
    using assms(1) by (intro atoi_int_text text_at_stored)
  then show ?thesis using itoa_eq [of 10 str v m] assms by simp
qed

theorem atoi_reads_itoa_witness:
  "\<forall>m. \<exists>m'. itoa 0x80000000 0x5000 10 m = Inr (0x5000, m') \<and> atoi m' 0x5000 = Inr 0x80000000"
proof
  fix m
  show "\<exists>m'. itoa 0x80000000 0x5000 10 m = Inr (0x5000, m') \<and> atoi m' 0x5000 = Inr 0x80000000"
    using atoi_reads_itoa [of "0x5000" "0x80000000" m] by simp
qed

text \<open>
  C19: number fields. For each flag and base, any width and any precision, \<^verbatim>\<open>__itoaf\<close> stores the prefix, the
  sign, the zeros of the precision and the digits, padded to the width on the side and with the
  character the flag asks for. The terminator is the exception: when the precision adds zeros
  and the width adds nothing there is none, and what follows in memory becomes part of the
  text.
\<close>

theorem number_fields:
  assumes "fl \<in> flag_set" "b \<in> {8, 10, 16}" "str \<noteq> NULL" "unat str + w + prec_bound pr + 50 < 2 ^ 31"
  shows "itoaf v str (of_nat b) fl (of_nat w) (prec_word pr) m =
    Inr (str, stored str (number_field fl w pr b v @ (if terminated fl w pr b v then [0] else [])) m)"
  using itoaf_eq [OF assms] by simp

theorem number_fields_witness:
  "\<forall>m. itoaf 7 0x5000 10 0 0 3 m = Inr (0x5000, stored 0x5000 (List.map ch ''007'') m)"
proof
  fix m
  have d: "int_digits 10 7 = [55]" "int_sign 10 7 = []"
    by (simp_all add: int_digits_def int_sign_def number_text_def digits_step digit_byte_def)
  have pad: "replicate 2 x = [x, x]" for x :: u8 by (simp add: numeral_2_eq_2)
  have "number_field 0 0 (Some 3) 10 7 = List.map ch ''007''"
    by (simp add: number_field_def precise_def int_prefix_def field_def flag_defs d pad)
  moreover have "\<not> terminated 0 0 (Some 3) 10 7"
    by (simp add: terminated_def precise_def d pad)
  ultimately show "itoaf 7 0x5000 10 0 0 3 m = Inr (0x5000, stored 0x5000 (List.map ch ''007'') m)"
    using number_fields [of 0 10 "0x5000" 0 "Some 3" 7 m] by (simp add: prec_bound_def prec_word_def)
qed

end
