(* ===== verification/Printf_Format.thy ===== *)
theory Printf_Format imports Printf_Numbers begin

text \<open>
  What \<^verbatim>\<open>vsprintf\<close> prints: formats as lists of items, each with its text in the format, the
  arguments it takes and the bytes it stands for, and the proof that the interpreter of \<open>Printf\<close>
  stores exactly these bytes and a terminator.
\<close>

section \<open>Regions of memory\<close>

definition cells :: "addr_t \<Rightarrow> nat \<Rightarrow> addr_t set" where
  "cells p n = {a. unat (a - p) < n}"

lemma cells_shift: "k + n \<le> 2 ^ 32 \<Longrightarrow> a \<in> cells (p + of_nat k) n \<Longrightarrow> a \<in> cells p (k + n)"
  by (cases "n = 0") (auto simp: cells_def unat_sub_offset split: if_splits)

lemma cells_less: "n \<le> n' \<Longrightarrow> a \<in> cells p n \<Longrightarrow> a \<in> cells p n'"
  by (simp add: cells_def)

lemma cells_offset: "i < n \<Longrightarrow> n \<le> 2 ^ 32 \<Longrightarrow> p + of_nat i \<in> cells p n"
  by (simp add: cells_def unat_of_nat_addr)

lemma text_at_cong:
  "length s \<le> 2 ^ 32 \<Longrightarrow> (\<And>a. a \<in> cells p (length s) \<Longrightarrow> m' a = m a) \<Longrightarrow> text_at m' p s = text_at m p s"
  by (auto simp: text_at_nth cells_offset)

text \<open>The argument list: consecutive double words.\<close>

fun words_at :: "mem \<Rightarrow> addr_t \<Rightarrow> u32 list \<Rightarrow> bool" where
  "words_at m p [] \<longleftrightarrow> True"
| "words_at m p (w # ws) \<longleftrightarrow> load32 m p = w \<and> words_at m (p + 4) ws"

lemma words_at_append:
  "words_at m p (ws @ vs) \<longleftrightarrow> words_at m p ws \<and> words_at m (p + 4 * of_nat (length ws)) vs"
  by (induction ws arbitrary: p) (auto simp: algebra_simps)

lemma load32_cong: "(\<And>a. a \<in> cells p 4 \<Longrightarrow> m' a = m a) \<Longrightarrow> load32 m' p = load32 m p"
  by (simp add: load32_def cells_def)

lemma words_at_cong:
  "4 * length ws \<le> 2 ^ 32 \<Longrightarrow> (\<And>a. a \<in> cells p (4 * length ws) \<Longrightarrow> m' a = m a) \<Longrightarrow>
   words_at m' p ws = words_at m p ws"
proof (induction ws arbitrary: p)
  case (Cons w ws)
  have "load32 m' p = load32 m p"
    using Cons.prems(2) cells_less [of 4 "4 * length (w # ws)"] by (intro load32_cong) simp
  moreover have "words_at m' (p + 4) ws = words_at m (p + 4) ws"
  proof (rule Cons.IH)
    fix a
    assume "a \<in> cells (p + 4) (4 * length ws)"
    then show "m' a = m a"
      using cells_shift [of 4 "4 * length ws" a p] Cons.prems by simp
  qed (use Cons.prems in simp)
  ultimately show ?case by simp
qed simp

section \<open>Single steps\<close>

lemma fmt_loop_step:
  "pmem s (pin s) \<noteq> 0 \<Longrightarrow> \<not> bad s \<Longrightarrow> fmt_step start s = Inr s' \<Longrightarrow> fmt_loop start s = fmt_loop start s'"
  by (subst fmt_loop.simps) simp

lemma fmt_loop_end: "pmem s (pin s) = 0 \<Longrightarrow> fmt_loop start s = Some (Inr s)"
  by (subst fmt_loop.simps) simp

definition conv_chars :: "u8 list" where
  "conv_chars = List.map ch ''dixosc%''"

lemma fmt_classes:
  "fmt_class (ch CHR ''.'') = FMT_PRECISION" "fmt_class (ch CHR ''0'') = FMT_FLAGS"
  "c \<in> set (List.map ch ''-+ #0'') \<Longrightarrow> fmt_class c = FMT_FLAGS"
  "c \<in> set conv_chars \<Longrightarrow> fmt_class c = FMT_SPECIFIER"
  by (auto simp: fmt_class_def format_table_def FMT_PRECISION_def FMT_FLAGS_def FMT_SPECIFIER_def conv_chars_def)

lemma fmt_number_rows: "map (\<lambda>n. format_table ! n) [49..<58] = replicate 9 FMT_NUMBER"
  by code_simp

lemma fmt_class_digit: "48 < unat c \<Longrightarrow> unat c \<le> 57 \<Longrightarrow> fmt_class c = FMT_NUMBER"
proof -
  assume "48 < unat c" "unat c \<le> 57"
  then have i: "unat c - 49 < 9" "49 + (unat c - 49) = unat c" by simp_all
  have "map (\<lambda>n. format_table ! n) [49..<58] ! (unat c - 49) = format_table ! unat c"
    using i nth_upt [of 49 "unat c - 49" 58] by (subst nth_map) (simp_all only: length_upt)
  then show ?thesis using i(1) by (simp only: fmt_number_rows nth_replicate fmt_class_def)
qed

lemma step_percent:
  assumes "escape s = 0" "\<not> bad s" "pmem s (pin s) = ch CHR ''%''"
  shows "fmt_loop start s =
    fmt_loop start (s\<lparr>escape := 1, pin := pin s + 1, pmem := (pmem s)(pout s := ch CHR ''%'')\<rparr>)"
  using assms by (intro fmt_loop_step) (simp_all add: fmt_step_def)

lemma step_flag:
  assumes "escape s = 1" "\<not> bad s" "pmem s (pin s) = f" "f \<in> set (List.map ch ''-+ #0'')"
  shows "fmt_loop start s = fmt_loop start
    (s\<lparr>escape := 2, fflags := fflags s OR flag_of f, pin := pin s + 1, pmem := (pmem s)(pout s := f)\<rparr>)"
proof -
  have "f \<noteq> 0" using assms(4) by auto
  then show ?thesis
    using assms by (intro fmt_loop_step) (simp_all add: fmt_step_def Let_def fmt_classes(3) fmt_flags_def)
qed

lemma step_dot:
  assumes "escape s \<in> {1, 2, 3}" "\<not> bad s" "pmem s (pin s) = ch CHR ''.''"
  shows "fmt_loop start s = fmt_loop start
    (s\<lparr>escape := 3, to_precision := True, pin := pin s + 1, pmem := (pmem s)(pout s := ch CHR ''.'')\<rparr>)"
proof -
  have "fmt_class 46 = FMT_PRECISION" using fmt_classes(1) by simp
  then show ?thesis
    using assms by (intro fmt_loop_step)
      (auto simp: fmt_step_def Let_def fmt_precision_def FMT_FLAGS_def FMT_NUMBER_def FMT_PRECISION_def)
qed

lemma digits_last: "0 < n \<Longrightarrow> 2 \<le> b \<Longrightarrow> last (digits b n) \<noteq> 0"
proof (induction n rule: less_induct)
  case (less n)
  show ?case
  proof (cases "n div b = 0")
    case True
    then have "n < b" using less.prems by (simp add: div_eq_0_iff)
    then show ?thesis using less.prems by (subst digits_step) simp_all
  next
    case False
    then have "digits b (n div b) \<noteq> []" using less.prems by (subst digits_step) simp_all
    moreover have "last (digits b (n div b)) \<noteq> 0"
      using False less.prems by (intro less.IH) simp_all
    ultimately show ?thesis using less.prems by (subst digits_step) simp_all
  qed
qed

lemma number_text_digits: "c \<in> set (number_text 10 n) \<Longrightarrow> 48 \<le> unat c \<and> unat c \<le> 57"
  by (auto simp: number_text_def unat_digit_byte dest!: digits_below split: if_splits)

lemma number_text_first: "0 < n \<Longrightarrow> 48 < unat (hd (number_text 10 n))"
proof -
  assume n: "0 < n"
  then have ne: "digits 10 n \<noteq> []" by (subst digits_step) simp_all
  then have "last (digits 10 n) < 10" using digits_below [of _ 10 n] last_in_set by blast
  moreover have "last (digits 10 n) \<noteq> 0" using n by (rule digits_last) simp
  moreover have "hd (number_text 10 n) = digit_byte (last (digits 10 n))"
    using n ne by (simp add: number_text_def hd_map hd_rev)
  ultimately show ?thesis by (simp add: unat_digit_byte)
qed

lemma skip_digits_text:
  "text_at m p t \<Longrightarrow> \<forall>c \<in> set t. isdigit (promote c) \<Longrightarrow> \<not> isdigit (promote (m (p + of_nat (length t)))) \<Longrightarrow>
   skip_digits m p = Some (p + of_nat (length t))"
proof (induction t arbitrary: p)
  case (Cons c t)
  then show ?case by (subst skip_digits.simps) (simp add: add.assoc)
qed (simp add: skip_digits.simps)

lemma fmt_number_digits:
  assumes "pin s - 1 \<noteq> NULL" "text_at (pmem s) (pin s - 1) (number_text 10 n @ [c])" "\<not> isdigit (promote c)"
    and "escape s \<le> 3" "d \<noteq> ch CHR ''*''"
  shows "fmt_number d s = Inr ((set_width_or_precision (of_nat n) (s\<lparr>escape := max (escape s) 2 + 1\<rparr>))
    \<lparr>pin := pin s - 1 + of_nat (length (number_text 10 n))\<rparr>)"
proof -
  let ?t = "number_text 10 n"
  have "?t \<noteq> []" by (rule number_text_nonempty) simp
  then obtain e t where t: "?t = e # t" by (cases ?t) simp_all
  have at: "text_at (pmem s) (pin s - 1) ?t" "pmem s (pin s - 1 + of_nat (length ?t)) = c"
    using assms(2) by (simp_all add: text_at_append)
  have "atoi (pmem s) (pin s - 1) = Inr (of_nat n)"
    using assms(1,3) at by (intro atoi_number) simp_all
  moreover have "skip_digits (pmem s) (pin s) = Some (pin s + of_nat (length t))"
    using at t assms(3) number_text_digits [of _ n]
    by (intro skip_digits_text) (auto simp: isdigit_iff algebra_simps)
  ultimately show ?thesis
    using assms(4,5) t by (auto simp: fmt_number_def Let_def max_def set_width_or_precision_def)
qed

lemma step_number:
  assumes "escape s \<in> {1, 2, 3}" "\<not> bad s" "pin s \<noteq> NULL"
    and "text_at (pmem s) (pin s) (number_text 10 n @ [c])" "\<not> isdigit (promote c)"
    and "n < 2 ^ 32" "0 < n \<or> escape s = 3" "pout s \<notin> cells (pin s) (length (number_text 10 n) + 1)"
  shows "fmt_loop start s = fmt_loop start ((set_width_or_precision (of_nat n) s)
    \<lparr>escape := max (escape s) 2 + 1, pin := pin s + of_nat (length (number_text 10 n)),
      pmem := (pmem s)(pout s := hd (number_text 10 n))\<rparr>)"
proof -
  let ?t = "number_text 10 n"
  let ?s = "s\<lparr>pmem := (pmem s)(pout s := hd ?t), pin := pin s + 1\<rparr>"
  have ne: "?t \<noteq> []" by (rule number_text_nonempty) simp
  then have hd: "pmem s (pin s) = hd ?t" using assms(4) by (cases ?t) simp_all
  have d: "48 \<le> unat (hd ?t)" "unat (hd ?t) \<le> 57" using number_text_digits [of _ n] hd_in_set [OF ne] by blast+
  then have star: "hd ?t \<noteq> ch CHR ''*''" by auto
  have "length ?t \<le> 32" using assms(6) by (intro number_text_length) simp_all
  then have "text_at (pmem ?s) (pin ?s - 1) (?t @ [c])"
    using assms(4,8) by (subst text_at_cong [where m = "pmem s"]) auto
  then have num: "fmt_number (hd ?t) ?s = Inr ((set_width_or_precision (of_nat n) s)
    \<lparr>escape := max (escape s) 2 + 1, pin := pin s + of_nat (length ?t), pmem := (pmem s)(pout s := hd ?t)\<rparr>)"
    using assms(1,3,5) star fmt_number_digits [of ?s n c "hd ?t"]
    by (cases s) (auto simp: set_width_or_precision_def)
  have "fmt_step start s = fmt_number (hd ?t) ?s"
  proof (cases "unat (hd ?t) = 48")
    case True
    then have "hd ?t = ch CHR ''0''" "\<not> 0 < n" using number_text_first [of n] by (auto simp: word_unat_eq_iff)
    then show ?thesis
      using assms(7) fmt_classes(2) by (simp add: fmt_step_def hd Let_def fmt_flags_def)
  next
    case False
    then have "fmt_class (hd ?t) = FMT_NUMBER" using d by (intro fmt_class_digit) simp_all
    then show ?thesis
      using assms(1) by (auto simp: fmt_step_def hd Let_def FMT_FLAGS_def FMT_NUMBER_def)
  qed
  then show ?thesis
    using num hd d assms(2) by (intro fmt_loop_step) auto
qed

lemma step_conv:
  assumes "0 < escape s" "escape s \<le> 5" "\<not> bad s" "pmem s (pin s) = c" "c \<in> set conv_chars"
    and "print_arg start c (s\<lparr>pmem := (pmem s)(pout s := c), pin := pin s + 1, escape := 5\<rparr>) = Inr s'"
  shows "fmt_loop start s = fmt_loop start
    (s'\<lparr>escape := 0, fflags := 0, fwidth := 0, fprecision := - 1, to_precision := False\<rparr>)"
proof -
  let ?s = "s\<lparr>pmem := (pmem s)(pout s := c), pin := pin s + 1\<rparr>"
  have c: "fmt_class c = FMT_SPECIFIER" by (rule fmt_classes(4) [OF assms(5)])
  have c0: "c \<noteq> 0" using assms(5) by (auto simp: conv_chars_def)
  have "max (escape s) 5 = 5" using assms(2) by simp
  then have "fmt_specifier start c ?s =
      Inr (s'\<lparr>escape := 0, fflags := 0, fwidth := 0, fprecision := - 1, to_precision := False\<rparr>)"
    using assms(6) by (simp add: fmt_specifier_def Let_def)
  then have "fmt_step start s =
      Inr (s'\<lparr>escape := 0, fflags := 0, fwidth := 0, fprecision := - 1, to_precision := False\<rparr>)"
    using assms(1,4) c
    by (simp add: fmt_step_def Let_def FMT_FLAGS_def FMT_NUMBER_def FMT_PRECISION_def FMT_LENGTH_def FMT_SPECIFIER_def)
  then show ?thesis using assms(3,4) c0 by (intro fmt_loop_step) simp_all
qed

section \<open>Formats as lists of items\<close>

text \<open>
  A plain byte, \<^verbatim>\<open>%%\<close>, \<^verbatim>\<open>%c\<close> and \<^verbatim>\<open>%s\<close> with the argument they print, and a number: the flag
  character if any, the width (0 for none), the precision if any, one of \<^verbatim>\<open>d\<close>, \<^verbatim>\<open>i\<close>, \<^verbatim>\<open>x\<close>, \<^verbatim>\<open>o\<close>,
  and the argument.
\<close>

datatype item =
    Plain u8
  | Percent
  | Chr u32
  | Text addr_t "u8 list"
  | Num "u8 option" nat "nat option" u8 u32

definition flag_text :: "u8 option \<Rightarrow> u8 list" where
  "flag_text f = (case f of None \<Rightarrow> [] | Some c \<Rightarrow> [c])"

definition width_text :: "nat \<Rightarrow> u8 list" where
  "width_text w = (if w = 0 then [] else number_text 10 w)"

definition precision_text :: "nat option \<Rightarrow> u8 list" where
  "precision_text pr = (case pr of None \<Rightarrow> [] | Some k \<Rightarrow> ch CHR ''.'' # number_text 10 k)"

fun item_format :: "item \<Rightarrow> u8 list" where
  "item_format (Plain c) = [c]"
| "item_format Percent = [ch CHR ''%'', ch CHR ''%'']"
| "item_format (Chr v) = [ch CHR ''%'', ch CHR ''c'']"
| "item_format (Text p s) = [ch CHR ''%'', ch CHR ''s'']"
| "item_format (Num f w pr c v) = ch CHR ''%'' # flag_text f @ width_text w @ precision_text pr @ [c]"

fun item_args :: "item \<Rightarrow> u32 list" where
  "item_args (Chr v) = [v]"
| "item_args (Text p s) = [p]"
| "item_args (Num f w pr c v) = [v]"
| "item_args it = []"

definition flag_bit :: "u8 option \<Rightarrow> u8" where
  "flag_bit f = (case f of None \<Rightarrow> 0 | Some c \<Rightarrow> flag_of c)"

definition conv_base :: "u8 \<Rightarrow> nat" where
  "conv_base c = (if c = ch CHR ''x'' then 16 else if c = ch CHR ''o'' then 8 else 10)"

fun item_out :: "item \<Rightarrow> u8 list" where
  "item_out (Plain c) = [c]"
| "item_out Percent = [ch CHR ''%'']"
| "item_out (Chr v) = [ucast v]"
| "item_out (Text p s) = s"
| "item_out (Num f w pr c v) = number_field (flag_bit f) w pr (conv_base c) v"

text \<open>
  Items with a meaning. A precision that adds zeros must be followed by a width that adds
  padding, since \<^verbatim>\<open>__itoaf\<close> leaves no terminator otherwise.
\<close>

fun item_ok :: "item \<Rightarrow> bool" where
  "item_ok (Plain c) \<longleftrightarrow> c \<noteq> 0 \<and> c \<noteq> ch CHR ''%''"
| "item_ok (Num f w pr c v) \<longleftrightarrow>
     set (flag_text f) \<subseteq> set (List.map ch ''-+ #0'') \<and> w < 2 ^ 20 \<and> prec_bound pr < 2 ^ 20 \<and>
     c \<in> set (List.map ch ''dixo'') \<and> terminated (flag_bit f) w pr (conv_base c) v"
| "item_ok (Text p s) \<longleftrightarrow> p \<noteq> NULL \<and> length s < 2 ^ 31"
| "item_ok it \<longleftrightarrow> True"

text \<open>Between two items the interpreter is in this state, up to the positions and the memory.\<close>

definition ready :: "fmt_state \<Rightarrow> bool" where
  "ready s \<longleftrightarrow> escape s = 0 \<and> \<not> bad s \<and> fflags s = 0 \<and> fwidth s = 0 \<and> fprecision s = - 1 \<and> \<not> to_precision s"

definition advance :: "nat \<Rightarrow> nat \<Rightarrow> u8 list \<Rightarrow> u8 \<Rightarrow> fmt_state \<Rightarrow> fmt_state" where
  "advance nf na out x s =
     s\<lparr>pin := pin s + of_nat nf, pargs := pargs s + 4 * of_nat na, pout := pout s + of_nat (length out),
       pmem := (stored (pout s) out (pmem s))(pout s + of_nat (length out) := x)\<rparr>"

lemma ready_advance: "ready s \<Longrightarrow> ready (advance nf na out x s)"
  by (simp add: ready_def advance_def)

lemma text_at_upd: "q \<notin> cells p (length t) \<Longrightarrow> length t \<le> 2 ^ 32 \<Longrightarrow> text_at (m(q := x)) p t = text_at m p t"
  by (intro text_at_cong) auto

lemma load32_upd: "q \<notin> cells p 4 \<Longrightarrow> load32 (m(q := x)) p = load32 m p"
  by (intro load32_cong) auto

lemma stored_cell:
  "length bs < 2 ^ 32 \<Longrightarrow> stored q (bs @ [0]) (m(q := x)) = (stored q bs m)(q + of_nat (length bs) := 0)"
proof (rule ext)
  fix a
  assume "length bs < 2 ^ 32"
  moreover from this have "(a = q + of_nat (length bs)) = (unat (a - q) = length bs)" by (rule offset_iff)
  moreover have "a = q \<Longrightarrow> unat (a - q) = 0" by simp
  ultimately show "stored q (bs @ [0]) (m(q := x)) a = ((stored q bs m)(q + of_nat (length bs) := 0)) a"
    by (auto simp: stored_def nth_append)
qed

lemma item_plain:
  assumes "ready s" "pmem s (pin s) = c" "c \<noteq> 0" "c \<noteq> ch CHR ''%''"
  shows "fmt_loop start s = fmt_loop start (advance 1 0 [c] (pmem s (pout s + 1)) s)"
proof -
  have "(stored (pout s) [c] (pmem s))(pout s + 1 := pmem s (pout s + 1)) = (pmem s)(pout s := c)"
    by (rule ext) (simp add: stored_one)
  then have "advance 1 0 [c] (pmem s (pout s + 1)) s =
      s\<lparr>pmem := (pmem s)(pout s := c), pin := pin s + 1, pout := pout s + 1\<rparr>"
    by (cases s) (simp add: advance_def)
  then show ?thesis
    using assms by (intro fmt_loop_step) (simp_all add: ready_def fmt_step_def)
qed

text \<open>\<^verbatim>\<open>%\<close> and a conversion character with nothing between.\<close>

lemma item_conv:
  assumes "ready s" "text_at (pmem s) (pin s) [ch CHR ''%'', c]" "pout s \<notin> cells (pin s) 2" "c \<in> set conv_chars"
    and "print_arg start c (s\<lparr>pmem := (pmem s)(pout s := c), pin := pin s + 2, escape := 5\<rparr>) = Inr s'"
  shows "fmt_loop start s = fmt_loop start
    (s'\<lparr>escape := 0, fflags := 0, fwidth := 0, fprecision := - 1, to_precision := False\<rparr>)"
proof -
  let ?s = "s\<lparr>escape := 1, pin := pin s + 1, pmem := (pmem s)(pout s := ch CHR ''%'')\<rparr>"
  have eq: "?s\<lparr>pmem := (pmem ?s)(pout ?s := c), pin := pin ?s + 1, escape := 5\<rparr> =
      s\<lparr>pmem := (pmem s)(pout s := c), pin := pin s + 2, escape := 5\<rparr>"
    by (cases s) simp
  have ne: "pin s + 1 \<noteq> pout s"
    using assms(3) cells_offset [of 1 2 "pin s"] by auto
  have "fmt_loop start s = fmt_loop start ?s"
    using assms(1,2) by (intro step_percent) (simp_all add: ready_def)
  also have "\<dots> = fmt_loop start (s'\<lparr>escape := 0, fflags := 0, fwidth := 0, fprecision := - 1, to_precision := False\<rparr>)"
  proof (rule step_conv [OF _ _ _ _ assms(4)])
    show "print_arg start c (?s\<lparr>pmem := (pmem ?s)(pout ?s := c), pin := pin ?s + 1, escape := 5\<rparr>) = Inr s'"
      unfolding eq by (rule assms(5))
  qed (use assms(1,2) ne in \<open>simp_all add: ready_def\<close>)
  finally show ?thesis .
qed

lemma item_percent:
  assumes "ready s" "text_at (pmem s) (pin s) (item_format Percent)" "pout s \<notin> cells (pin s) 2"
  shows "\<exists>x. fmt_loop start s = fmt_loop start (advance 2 0 [ch CHR ''%''] x s)"
proof -
  let ?m = "(pmem s)(pout s := ch CHR ''%'')"
  have "(stored (pout s) [ch CHR ''%''] (pmem s))(pout s + 1 := pmem s (pout s + 1)) = ?m"
    by (rule ext) (simp add: stored_one)
  then have "s\<lparr>pmem := ?m, pin := pin s + 2, escape := 5, pout := pout s + 1\<rparr>
        \<lparr>escape := 0, fflags := 0, fwidth := 0, fprecision := - 1, to_precision := False\<rparr>
      = advance 2 0 [ch CHR ''%''] (pmem s (pout s + 1)) s"
    using assms(1) by (cases s) (simp add: ready_def advance_def)
  moreover have "fmt_loop start s = fmt_loop start
      (s\<lparr>pmem := ?m, pin := pin s + 2, escape := 5, pout := pout s + 1\<rparr>
        \<lparr>escape := 0, fflags := 0, fwidth := 0, fprecision := - 1, to_precision := False\<rparr>)"
    using assms by (intro item_conv [where c = "ch CHR ''%''"]) (simp_all add: conv_chars_def print_arg_def)
  ultimately show ?thesis by (intro exI) (simp only:)
qed

lemma item_chr:
  assumes "ready s" "text_at (pmem s) (pin s) (item_format (Chr v))" "pout s \<notin> cells (pin s) 2"
    and "load32 (pmem s) (pargs s) = v" "pout s \<notin> cells (pargs s) 4"
  shows "\<exists>x. fmt_loop start s = fmt_loop start (advance 2 1 [ucast v] x s)"
proof -
  let ?m = "(pmem s)(pout s := ch CHR ''c'', pout s := ucast v)"
  let ?s = "s\<lparr>pmem := (pmem s)(pout s := ch CHR ''c''), pin := pin s + 2, escape := 5\<rparr>"
  let ?r = "?s\<lparr>pargs := pargs s + 4, pmem := ?m, pout := pout s + 1\<rparr>"
  have "(stored (pout s) [ucast v] (pmem s))(pout s + 1 := pmem s (pout s + 1)) = ?m"
    by (rule ext) (simp add: stored_one)
  then have "?r\<lparr>escape := 0, fflags := 0, fwidth := 0, fprecision := - 1, to_precision := False\<rparr>
      = advance 2 1 [ucast v] (pmem s (pout s + 1)) s"
    using assms(1) by (cases s) (simp add: ready_def advance_def)
  moreover have "print_arg start (ch CHR ''c'') ?s = Inr ?r"
    using assms(4) load32_upd [OF assms(5), of "pmem s" "ch CHR ''c''"] by (simp add: print_arg_def va_arg_def)
  then have "fmt_loop start s = fmt_loop start
      (?r\<lparr>escape := 0, fflags := 0, fwidth := 0, fprecision := - 1, to_precision := False\<rparr>)"
    using assms(1-3) by (intro item_conv [where c = "ch CHR ''c''"]) (simp_all add: conv_chars_def)
  ultimately show ?thesis by (intro exI) (simp only:)
qed

lemma item_text:
  assumes "ready s" "text_at (pmem s) (pin s) (item_format (Text p t))" "pout s \<notin> cells (pin s) 2"
    and "load32 (pmem s) (pargs s) = p" "pout s \<notin> cells (pargs s) 4"
    and "p \<noteq> NULL" "pout s \<noteq> NULL" "cstr (pmem s) p t" "length t < 2 ^ 31" "pout s \<notin> cells p (length t + 1)"
  shows "\<exists>x. fmt_loop start s = fmt_loop start (advance 2 1 t x s)"
proof -
  let ?m = "(pmem s)(pout s := ch CHR ''s'')"
  let ?s = "s\<lparr>pmem := ?m, pin := pin s + 2, escape := 5\<rparr>"
  let ?r = "?s\<lparr>pargs := pargs s + 4, pmem := stored (pout s) (t @ [0]) ?m, pout := pout s + of_nat (length t)\<rparr>"
  have "?r\<lparr>escape := 0, fflags := 0, fwidth := 0, fprecision := - 1, to_precision := False\<rparr> = advance 2 1 t 0 s"
    using assms(1,9) by (cases s) (simp add: ready_def advance_def stored_cell)
  moreover have "print_arg start (ch CHR ''s'') ?s = Inr ?r"
  proof -
    have "load32 ?m (pargs s) = p" using assms(4) load32_upd [OF assms(5)] by simp
    moreover have "cstr ?m p t"
      using assms(8,9,10) by (simp add: text_at_cstr text_at_upd)
    then have "strcpy_loop (pout s) p ?m = Some (stored (pout s) (t @ [0]) ?m)"
      using assms(9,10) by (intro strcpy_loop_cstr) (simp_all add: cells_def)
    moreover have "strlen (stored (pout s) (t @ [0]) ?m) (pout s) = Inr (of_nat (length t))"
      using assms(7,9) cstr_nonzero [OF assms(8)] by (intro strlen_cstr cstr_stored) simp_all
    ultimately show ?thesis
      using assms(6,7) by (simp add: print_arg_def va_arg_def strcpy_def)
  qed
  then have "fmt_loop start s = fmt_loop start
      (?r\<lparr>escape := 0, fflags := 0, fwidth := 0, fprecision := - 1, to_precision := False\<rparr>)"
    using assms(1-3) by (intro item_conv [where c = "ch CHR ''s''"]) (simp_all add: conv_chars_def)
  ultimately show ?thesis by (intro exI) (simp only:)
qed

section \<open>Number items\<close>

lemma length_field: "length (field fl w pr h ds) = max w (length h + length ds)"
  by (auto simp: field_def Let_def)

lemma length_precise: "length (precise pr ds) = max (prec_bound pr) (length ds)"
  by (auto simp: precise_def prec_bound_def split: option.splits)

lemma length_number_field:
  "2 \<le> b \<Longrightarrow> length (number_field fl w pr b v) \<le> w + prec_bound pr + 35"
  using head_length [of fl b v] int_digits_length [of b v]
  by (simp add: number_field_def length_field length_precise)

lemma number_field_nonzero: "2 \<le> b \<Longrightarrow> b \<le> 36 \<Longrightarrow> 0 \<notin> set (number_field fl w pr b v)"
  using int_text_bytes(1) [of b v]
  by (auto simp: number_field_def field_def Let_def precise_def int_prefix_def split: option.splits)

lemma print_number_eq:
  assumes "fflags s = fl" "fwidth s = of_nat w" "fprecision s = prec_word pr" "load32 (pmem s) (pargs s) = v"
    and fl: "fl \<in> flag_set" and b: "b \<in> {8, 10, 16}" and "pout s \<noteq> NULL"
    and "unat (pout s) + w + prec_bound pr + 50 < 2 ^ 31" "terminated fl w pr b v"
  shows "print_number (of_nat b) s = Inr (s\<lparr>pargs := pargs s + 4,
    pmem := stored (pout s) (number_field fl w pr b v @ [0]) (pmem s),
    pout := pout s + of_nat (length (number_field fl w pr b v))\<rparr>)"
proof -
  let ?f = "number_field fl w pr b v"
  have b2: "2 \<le> b" "b \<le> 36" using b by auto
  have "itoaf v (pout s) (of_nat b) fl (of_nat w) (prec_word pr) (pmem s) =
      Inr (pout s, stored (pout s) (?f @ [0]) (pmem s))"
    using itoaf_eq [OF fl b assms(7,8), of v "pmem s"] assms(9) by simp
  moreover have "strlen (stored (pout s) (?f @ [0]) (pmem s)) (pout s) = Inr (of_nat (length ?f))"
    using number_field_nonzero [OF b2] length_number_field [OF b2(1), of fl w pr v] assms(7,8)
    by (intro strlen_cstr cstr_stored) simp_all
  ultimately show ?thesis
    using assms(1-4) by (simp add: print_number_def va_arg_def)
qed

text \<open>The state behind \<open>k\<close> bytes of a conversion.\<close>

definition parsed :: "nat \<Rightarrow> u8 \<Rightarrow> u32 \<Rightarrow> u32 \<Rightarrow> bool \<Rightarrow> nat \<Rightarrow> u8 \<Rightarrow> fmt_state \<Rightarrow> fmt_state" where
  "parsed e fl w p tp k x s =
     s\<lparr>pmem := (pmem s)(pout s := x), pin := pin s + of_nat k, escape := e, fflags := fl,
       fwidth := w, fprecision := p, to_precision := tp\<rparr>"

lemma parsed_flag:
  assumes "text_at (pmem s) (pin s + of_nat k) (flag_text f)" "set (flag_text f) \<subseteq> set (List.map ch ''-+ #0'')"
    and "\<not> bad s" "pout s \<notin> cells (pin s) (k + length (flag_text f))" "k < 2 ^ 31"
  shows "\<exists>e x'. e \<in> {1, 2} \<and> fmt_loop start (parsed 1 0 w p tp k x s) =
    fmt_loop start (parsed e (flag_bit f) w p tp (k + length (flag_text f)) x' s)"
proof (cases f)
  case None
  then show ?thesis by (auto simp: flag_text_def flag_bit_def)
next
  case (Some c)
  then have c: "pmem s (pin s + of_nat k) = c" "c \<in> set (List.map ch ''-+ #0'')"
    using assms(1,2) by (simp_all add: flag_text_def)
  have "pin s + of_nat k \<noteq> pout s"
    using assms(4,5) Some cells_offset [of k "k + 1" "pin s"] by (auto simp: flag_text_def)
  then have "fmt_loop start (parsed 1 0 w p tp k x s) =
    fmt_loop start (parsed 2 (flag_of c) w p tp (k + 1) c s)"
    using step_flag [of "parsed 1 0 w p tp k x s" c start] c assms(3)
    by (cases s) (simp add: parsed_def add.assoc add.commute [of "1 :: addr_t" "of_nat k"])
  then show ?thesis using Some by (auto simp: flag_text_def flag_bit_def)
qed

lemma parsed_number:
  assumes "text_at (pmem s) (pin s + of_nat k) (number_text 10 n @ [c])" "\<not> isdigit (promote c)"
    and "e \<in> {1, 2, 3}" "\<not> bad s" "n < 2 ^ 20" "0 < n \<or> e = 3"
    and "pout s \<notin> cells (pin s) (k + length (number_text 10 n) + 1)"
    and "pin s \<noteq> NULL" "unat (pin s) + k + length (number_text 10 n) < 2 ^ 32"
  shows "\<exists>x'. fmt_loop start (parsed e fl w p tp k x s) = fmt_loop start
    (parsed (max e 2 + 1) fl (if tp then w else of_nat n) (if tp then of_nat n else p) tp
      (k + length (number_text 10 n)) x' s)"
proof -
  let ?t = "number_text 10 n" and ?s = "parsed e fl w p tp k x s"
  have len: "length ?t \<le> 32" using assms(5) by (intro number_text_length) simp_all
  have k: "k + (length ?t + 1) \<le> 2 ^ 32" using assms(9) by simp
  have out: "pout s \<notin> cells (pin s + of_nat k) (length ?t + 1)"
    using cells_shift [OF k] assms(7) by (auto simp: add.assoc)
  have "unat (pin s + of_nat k) = unat (pin s) + k"
    using assms(9) by (subst unat_plus_if') (simp add: unat_of_nat_addr)
  then have "pin s + of_nat k \<noteq> NULL" using assms(8) by (metis add_is_0 unat_0 unat_eq_zero)
  moreover have "text_at ((pmem s)(pout s := x)) (pin s + of_nat k) (?t @ [c])"
    using assms(1) out len by (subst text_at_upd) simp_all
  ultimately have "fmt_loop start ?s = fmt_loop start ((set_width_or_precision (of_nat n) ?s)
    \<lparr>escape := max (escape ?s) 2 + 1, pin := pin ?s + of_nat (length ?t), pmem := (pmem ?s)(pout ?s := hd ?t)\<rparr>)"
    using assms(2-6) out by (intro step_number [where c = c]) (simp_all add: parsed_def)
  also have "(set_width_or_precision (of_nat n) ?s)
    \<lparr>escape := max (escape ?s) 2 + 1, pin := pin ?s + of_nat (length ?t), pmem := (pmem ?s)(pout ?s := hd ?t)\<rparr> =
    parsed (max e 2 + 1) fl (if tp then w else of_nat n) (if tp then of_nat n else p) tp (k + length ?t) (hd ?t) s"
    by (cases s) (simp add: parsed_def set_width_or_precision_def add.assoc)
  finally show ?thesis by blast
qed

lemma parsed_width:
  assumes "text_at (pmem s) (pin s + of_nat k) (width_text w @ [c])" "\<not> isdigit (promote c)"
    and "e \<in> {1, 2}" "\<not> bad s" "w < 2 ^ 20" "pout s \<notin> cells (pin s) (k + length (width_text w) + 1)"
    and "pin s \<noteq> NULL" "unat (pin s) + k + length (width_text w) < 2 ^ 32"
  shows "\<exists>e' x'. e' \<in> {1, 2, 3} \<and> fmt_loop start (parsed e fl 0 p False k x s) =
    fmt_loop start (parsed e' fl (of_nat w) p False (k + length (width_text w)) x' s)"
proof (cases "w = 0")
  case True
  then show ?thesis using assms(3) by (intro exI [of _ e] exI [of _ x]) (auto simp: width_text_def)
next
  case False
  then show ?thesis
    using parsed_number [of s k w c e start fl 0 p False x] assms
    by (intro exI [of _ "3 :: nat"]) (auto simp: width_text_def numeral_3_eq_3)
qed

lemma parsed_precision:
  assumes "text_at (pmem s) (pin s + of_nat k) (precision_text pr @ [c])" "\<not> isdigit (promote c)"
    and "e \<in> {1, 2, 3}" "\<not> bad s" "prec_bound pr < 2 ^ 20"
    and "pout s \<notin> cells (pin s) (k + length (precision_text pr) + 1)"
    and "pin s \<noteq> NULL" "unat (pin s) + k + length (precision_text pr) < 2 ^ 32"
  shows "\<exists>e' tp x'. e' \<in> {1, 2, 3, 4} \<and> fmt_loop start (parsed e fl w (- 1) False k x s) =
    fmt_loop start (parsed e' fl w (prec_word pr) tp (k + length (precision_text pr)) x' s)"
proof (cases pr)
  case None
  then show ?thesis
    using assms(3) by (intro exI [of _ e] exI [of _ False] exI [of _ x]) (auto simp: precision_text_def prec_word_def)
next
  case (Some n)
  have at: "pmem s (pin s + of_nat k) = ch CHR ''.''" "text_at (pmem s) (pin s + of_nat (k + 1)) (number_text 10 n @ [c])"
    using assms(1) Some by (simp_all add: precision_text_def add.assoc add.commute [of "1 :: addr_t" "of_nat k"])
  have "pin s + of_nat k \<noteq> pout s"
    using assms(6,8) Some cells_offset [of k "k + length (precision_text pr) + 1" "pin s"] by auto
  then have "fmt_loop start (parsed e fl w (- 1) False k x s) =
    fmt_loop start (parsed 3 fl w (- 1) True (k + 1) (ch CHR ''.'') s)"
    using step_dot [of "parsed e fl w (- 1) False k x s" start] at(1) assms(3,4)
    by (cases s) (simp add: parsed_def add.assoc add.commute [of "1 :: addr_t" "of_nat k"])
  moreover have "\<exists>x'. fmt_loop start (parsed 3 fl w (- 1) True (k + 1) (ch CHR ''.'') s) = fmt_loop start
    (parsed (max 3 2 + 1) fl (if True then w else of_nat n) (if True then of_nat n else - 1) True
      (k + 1 + length (number_text 10 n)) x' s)"
    using assms Some at(2)
    by (intro parsed_number [where c = c]) (simp_all add: precision_text_def prec_bound_def)
  ultimately show ?thesis
    using Some by - (rule exI [of _ 4], rule exI [of _ True], simp add: precision_text_def prec_word_def)
qed

lemma conv_char_not_digit: "c \<in> set (List.map ch ''dixo'') \<Longrightarrow> \<not> isdigit (promote c)"
  by (auto simp: isdigit_iff)

lemma flag_bit_set: "set (flag_text f) \<subseteq> set (List.map ch ''-+ #0'') \<Longrightarrow> flag_bit f \<in> flag_set"
  by (auto simp: flag_text_def flag_bit_def flag_of_def split: option.splits)

lemma print_arg_number:
  "c \<in> set (List.map ch ''dixo'') \<Longrightarrow> print_arg start c s = print_number (of_nat (conv_base c)) s"
  by (auto simp: print_arg_def conv_base_def)

lemma parsed_conv:
  assumes "ready s" "e \<in> {1, 2, 3, 4}" "pmem s (pin s + of_nat k) = c" "pin s + of_nat k \<noteq> pout s"
    and num: "c \<in> set (List.map ch ''dixo'')" "fl \<in> flag_set" "terminated fl w pr (conv_base c) v"
    and "load32 (pmem s) (pargs s) = v" "pout s \<notin> cells (pargs s) 4" "pout s \<noteq> NULL"
    and "unat (pout s) + w + prec_bound pr + 50 < 2 ^ 31"
  shows "fmt_loop start (parsed e fl (of_nat w) (prec_word pr) tp k x s) =
    fmt_loop start (advance (k + 1) 1 (number_field fl w pr (conv_base c) v) 0 s)"
proof -
  let ?s = "parsed e fl (of_nat w) (prec_word pr) tp k x s"
  let ?f = "number_field fl w pr (conv_base c) v"
  let ?t = "?s\<lparr>pmem := (pmem ?s)(pout ?s := c), pin := pin ?s + 1, escape := 5\<rparr>"
  let ?r = "?t\<lparr>pargs := pargs ?t + 4, pmem := stored (pout ?t) (?f @ [0]) (pmem ?t), pout := pout ?t + of_nat (length ?f)\<rparr>"
  have b: "conv_base c \<in> {8, 10, 16}" by (simp add: conv_base_def)
  have "length ?f < 2 ^ 32"
    using length_number_field [of "conv_base c" fl w pr v] b assms(11) by auto
  then have cell: "stored (pout s) (?f @ [0]) ((pmem s)(pout s := c)) = (stored (pout s) ?f (pmem s))(pout s + of_nat (length ?f) := 0)"
    by (rule stored_cell)
  have "print_number (of_nat (conv_base c)) ?t = Inr ?r"
    using assms(8-11) num(2,3) b load32_upd [OF assms(9), of "pmem s" c]
    by (intro print_number_eq) (simp_all add: parsed_def)
  then have "print_arg start c ?t = Inr ?r" using num(1) by (simp only: print_arg_number)
  moreover have "c \<in> set conv_chars" using num(1) by (auto simp: conv_chars_def)
  moreover have "pmem ?s (pin ?s) = c" using assms(3,4) by (simp add: parsed_def)
  ultimately have "fmt_loop start ?s = fmt_loop start
      (?r\<lparr>escape := 0, fflags := 0, fwidth := 0, fprecision := - 1, to_precision := False\<rparr>)"
    using assms(1,2) by (intro step_conv) (auto simp: parsed_def ready_def)
  also have "?r\<lparr>escape := 0, fflags := 0, fwidth := 0, fprecision := - 1, to_precision := False\<rparr> = advance (k + 1) 1 ?f 0 s"
    using assms(1) cell by (cases s) (simp add: parsed_def ready_def advance_def add.assoc add.commute [of "1 :: addr_t" "of_nat k"])
  finally show ?thesis .
qed

lemma item_num:
  assumes "ready s" and ok: "item_ok (Num f w pr c v)"
    and "text_at (pmem s) (pin s) (item_format (Num f w pr c v))"
    and "pout s \<notin> cells (pin s) (length (item_format (Num f w pr c v)))"
    and "pin s \<noteq> NULL" "unat (pin s) + length (item_format (Num f w pr c v)) < 2 ^ 32"
    and "load32 (pmem s) (pargs s) = v" "pout s \<notin> cells (pargs s) 4"
    and "pout s \<noteq> NULL" "unat (pout s) + 2 ^ 22 < 2 ^ 31"
  shows "\<exists>x. fmt_loop start s = fmt_loop start
    (advance (length (item_format (Num f w pr c v))) 1 (item_out (Num f w pr c v)) x s)"
proof -
  let ?F = "flag_text f" and ?W = "width_text w" and ?P = "precision_text pr"
  have s: "escape s = 0" "\<not> bad s" using assms(1) by (simp_all add: ready_def)
  let ?n = "1 + length ?F + length ?W + length ?P + 1"
  have num: "set ?F \<subseteq> set (List.map ch ''-+ #0'')" "w < 2 ^ 20" "prec_bound pr < 2 ^ 20"
    "c \<in> set (List.map ch ''dixo'')" "terminated (flag_bit f) w pr (conv_base c) v"
    using ok by simp_all
  have n: "length (item_format (Num f w pr c v)) = ?n" by simp
  have at: "pmem s (pin s) = ch CHR ''%''" "text_at (pmem s) (pin s + of_nat 1) ?F"
    "text_at (pmem s) (pin s + of_nat (1 + length ?F)) (?W @ ?P @ [c])"
    "text_at (pmem s) (pin s + of_nat (1 + length ?F + length ?W)) (?P @ [c])"
    "pmem s (pin s + of_nat (1 + length ?F + length ?W + length ?P)) = c"
    using assms(3) by (simp_all add: text_at_append add.assoc)
  have out: "pout s \<notin> cells (pin s) k" if "k \<le> ?n" for k
    using assms(4) cells_less [OF that] unfolding n by blast
  have fit: "unat (pin s) + ?n < 2 ^ 32" using assms(6) unfolding n .
  have "pin s + of_nat (1 + length ?F + length ?W + length ?P) \<in> cells (pin s) ?n"
    using fit by (intro cells_offset) simp_all
  then have ne: "pin s + of_nat (1 + length ?F + length ?W + length ?P) \<noteq> pout s"
    using out [of ?n] by (metis order_refl)
  have nd: "\<not> isdigit (promote (hd (?P @ [c])))"
    using conv_char_not_digit [OF num(4)] by (auto simp: precision_text_def isdigit_iff split: option.splits)
  have "text_at (pmem s) (pin s + of_nat (1 + length ?F)) (?W @ [hd (?P @ [c])])"
    using at(3) by (cases "?P @ [c]") (simp_all add: text_at_append)
  note w = parsed_width [OF this nd _ s(2) num(2) out assms(5)]
  note p = parsed_precision [OF at(4) conv_char_not_digit [OF num(4)] _ s(2) num(3) out assms(5)]
  have "fmt_loop start s = fmt_loop start (parsed 1 0 0 (- 1) False 1 (ch CHR ''%'') s)"
  proof -
    have "s\<lparr>escape := 1, pin := pin s + 1, pmem := (pmem s)(pout s := ch CHR ''%'')\<rparr> =
        parsed 1 0 0 (- 1) False 1 (ch CHR ''%'') s"
      using assms(1) by (cases s) (simp add: parsed_def ready_def)
    then show ?thesis using step_percent [OF s at(1), of start] by simp
  qed
  also obtain e x where e: "e \<in> {1, 2}" and "\<dots> =
      fmt_loop start (parsed e (flag_bit f) 0 (- 1) False (1 + length ?F) x s)"
    using parsed_flag [OF at(2) num(1) s(2) out, of start 0 "- 1" False "ch CHR ''%''"] by fastforce
  note this(2)
  also obtain e' x' where e': "e' \<in> {1, 2, 3}" and "\<dots> =
      fmt_loop start (parsed e' (flag_bit f) (of_nat w) (- 1) False (1 + length ?F + length ?W) x' s)"
    using w [OF e, of start "flag_bit f" "- 1" x] fit by fastforce
  note this(2)
  also obtain e'' tp x'' where e'': "e'' \<in> {1, 2, 3, 4}" and "\<dots> = fmt_loop start
      (parsed e'' (flag_bit f) (of_nat w) (prec_word pr) tp (1 + length ?F + length ?W + length ?P) x'' s)"
    using p [OF e', of start "flag_bit f" "of_nat w" x'] fit by fastforce
  note this(2)
  also have "\<dots> = fmt_loop start (advance ?n 1 (item_out (Num f w pr c v)) 0 s)"
    using parsed_conv [OF assms(1) e'' at(5) ne num(4) flag_bit_set [OF num(1)] num(5) assms(7-9), of start tp x'']
      num(2,3) assms(10) by simp
  finally show ?thesis unfolding n by blast
qed

section \<open>Whole formats\<close>

fun item_strings :: "item \<Rightarrow> (addr_t \<times> u8 list) list" where
  "item_strings (Text p t) = [(p, t)]"
| "item_strings it = []"

definition formats :: "item list \<Rightarrow> u8 list" where
  "formats its = concat (map item_format its)"

definition args_of :: "item list \<Rightarrow> u32 list" where
  "args_of its = concat (map item_args its)"

definition outs :: "item list \<Rightarrow> u8 list" where
  "outs its = concat (map item_out its)"

definition strings_of :: "item list \<Rightarrow> (addr_t \<times> u8 list) list" where
  "strings_of its = concat (map item_strings its)"

text \<open>
  The format and the arguments stand in memory, and the bytes from \<open>q\<close> on, where the output
  goes, are none of the bytes they occupy.
\<close>

definition reads :: "mem \<Rightarrow> addr_t \<Rightarrow> addr_t \<Rightarrow> item list \<Rightarrow> bool" where
  "reads m f a its \<longleftrightarrow> text_at m f (formats its @ [0]) \<and> words_at m a (args_of its) \<and>
     (\<forall>(p, t) \<in> set (strings_of its). cstr m p t)"

definition read_cells :: "addr_t \<Rightarrow> addr_t \<Rightarrow> item list \<Rightarrow> addr_t set" where
  "read_cells f a its = cells f (length (formats its) + 1) \<union> cells a (4 * length (args_of its))
     \<union> (\<Union>(p, t) \<in> set (strings_of its). cells p (length t + 1))"

lemma items_simps [simp]:
  "formats [] = []" "formats (it # its) = item_format it @ formats its"
  "args_of [] = []" "args_of (it # its) = item_args it @ args_of its"
  "outs [] = []" "outs (it # its) = item_out it @ outs its"
  "strings_of [] = []" "strings_of (it # its) = item_strings it @ strings_of its"
  by (simp_all add: formats_def args_of_def outs_def strings_of_def)

lemma item_step:
  assumes "ready s" "item_ok it" and r: "reads (pmem s) (pin s) (pargs s) (it # its)"
    and q: "pout s \<notin> read_cells (pin s) (pargs s) (it # its)"
    and "pin s \<noteq> NULL" "unat (pin s) + length (item_format it) < 2 ^ 32"
    and "pout s \<noteq> NULL" "unat (pout s) + 2 ^ 22 < 2 ^ 31"
  shows "\<exists>x. fmt_loop start s = fmt_loop start
    (advance (length (item_format it)) (length (item_args it)) (item_out it) x s)"
proof -
  have t: "text_at (pmem s) (pin s) (item_format it)" using r by (simp add: reads_def text_at_append)
  have o: "pout s \<notin> cells (pin s) (length (item_format it))"
    using q cells_less [of "length (item_format it)" "length (formats (it # its)) + 1"] by (auto simp: read_cells_def)
  have a: "load32 (pmem s) (pargs s) = v" "pout s \<notin> cells (pargs s) 4" if "item_args it = [v]" for v
    using r q that cells_less [of 4 "4 * length (args_of (it # its))" "pout s" "pargs s"]
    by (auto simp: reads_def read_cells_def)
  show ?thesis
  proof (cases it)
    case (Plain c)
    then show ?thesis
      using item_plain [OF assms(1), of c start] assms(2) t by (intro exI [of _ "pmem s (pout s + 1)"]) simp
  next
    case Percent
    then show ?thesis using item_percent [OF assms(1), of start] t o by (simp add: numeral_2_eq_2)
  next
    case (Chr v)
    then show ?thesis using item_chr [OF assms(1), of v start] t o a by (simp add: numeral_2_eq_2)
  next
    case (Text p u)
    then have "cstr (pmem s) p u" "pout s \<notin> cells p (length u + 1)"
      using r q by (auto simp: reads_def read_cells_def)
    then show ?thesis
      using Text item_text [OF assms(1), of p u start] assms(2,7) t o a by (simp add: numeral_2_eq_2)
  next
    case (Num f w pr c v)
    then show ?thesis
      using item_num [OF assms(1), of f w pr c v start] assms(2,5-8) t o a by simp
  qed
qed

lemma advance_advance:
  assumes "length o1 + length o2 < 2 ^ 32"
  shows "advance n2 a2 o2 y (advance n1 a1 o1 x s) = advance (n1 + n2) (a1 + a2) (o1 @ o2) y s"
proof -
  have "((stored (pout s + of_nat (length o1)) o2 ((stored (pout s) o1 (pmem s))(pout s + of_nat (length o1) := x)))
      (pout s + of_nat (length o1) + of_nat (length o2) := y)) a =
    ((stored (pout s) (o1 @ o2) (pmem s))(pout s + of_nat (length o1 + length o2) := y)) a" for a
  proof (cases "o2 = []")
    case False
    then have "a = pout s + of_nat (length o1) \<Longrightarrow> unat (a - pout s) = length o1"
      using assms by (simp add: unat_of_nat_addr)
    then show ?thesis
      using assms False by (auto simp: stored_def unat_sub_offset nth_append add.assoc)
  qed simp
  then show ?thesis
    by (cases s) (simp add: advance_def add.assoc distrib_left fun_eq_iff)
qed

lemma read_cells_tail:
  assumes "length (formats (it # its)) + 1 \<le> 2 ^ 32" "4 * length (args_of (it # its)) \<le> 2 ^ 32"
  shows "read_cells (f + of_nat (length (item_format it))) (a + 4 * of_nat (length (item_args it))) its
    \<subseteq> read_cells f a (it # its)"
  using assms cells_shift [of "length (item_format it)" "length (formats its) + 1" _ f]
    cells_shift [of "4 * length (item_args it)" "4 * length (args_of its)" _ a]
  by (auto simp: read_cells_def add.assoc distrib_left)

lemma reads_tail:
  assumes r: "reads m f a (it # its)" and same: "\<And>c. c \<in> read_cells f a (it # its) \<Longrightarrow> m' c = m c"
    and len: "length (formats (it # its)) + 1 \<le> 2 ^ 32" "4 * length (args_of (it # its)) \<le> 2 ^ 32"
    and ok: "\<forall>it \<in> set its. item_ok it"
  shows "reads m' (f + of_nat (length (item_format it))) (a + 4 * of_nat (length (item_args it))) its"
proof -
  let ?f = "f + of_nat (length (item_format it))" and ?a = "a + 4 * of_nat (length (item_args it))"
  note sub = subsetD [OF read_cells_tail [OF len, of f a]]
  have "text_at m' ?f (formats its @ [0]) = text_at m ?f (formats its @ [0])"
    using len(1) by (intro text_at_cong same sub) (auto simp: read_cells_def)
  moreover have "words_at m' ?a (args_of its) = words_at m ?a (args_of its)"
    using len(2) by (intro words_at_cong same sub) (auto simp: read_cells_def)
  moreover have "cstr m' p t = cstr m p t" if "(p, t) \<in> set (strings_of its)" for p t
  proof -
    from that obtain i where i: "i \<in> set its" "(p, t) \<in> set (item_strings i)"
      by (auto simp: strings_of_def)
    then have "item_ok i" using ok by blast
    with i(2) have "length t < 2 ^ 31" by (cases i) simp_all
    then have "text_at m' p (t @ [0]) = text_at m p (t @ [0])"
      using that by (intro text_at_cong same sub) (auto simp: read_cells_def)
    then show ?thesis by (simp add: text_at_cstr)
  qed
  ultimately show ?thesis
    using r by (fastforce simp: reads_def text_at_append words_at_append)
qed

lemma items_run:
  "ready s \<Longrightarrow> \<forall>it \<in> set its. item_ok it \<Longrightarrow> reads (pmem s) (pin s) (pargs s) its \<Longrightarrow>
   cells (pout s) (length (outs its) + 1) \<inter> read_cells (pin s) (pargs s) its = {} \<Longrightarrow>
   pin s \<noteq> NULL \<Longrightarrow> unat (pin s) + length (formats its) < 2 ^ 32 \<Longrightarrow> 4 * length (args_of its) \<le> 2 ^ 32 \<Longrightarrow>
   pout s \<noteq> NULL \<Longrightarrow> unat (pout s) + length (outs its) + 2 ^ 22 < 2 ^ 31 \<Longrightarrow>
   \<exists>x. fmt_loop start s = fmt_loop start (advance (length (formats its)) (length (args_of its)) (outs its) x s)"
proof (induction its arbitrary: s)
  case Nil
  have "advance 0 0 [] (pmem s (pout s)) s = s" by (cases s) (simp add: advance_def)
  then show ?case by (intro exI [of _ "pmem s (pout s)"]) simp
next
  case (Cons it its)
  let ?nf = "length (item_format it)" and ?na = "length (item_args it)" and ?o = "item_out it"
  have len: "length (formats (it # its)) + 1 \<le> 2 ^ 32" "4 * length (args_of (it # its)) \<le> 2 ^ 32"
    using Cons.prems(6,7) by simp_all
  have "pout s \<in> cells (pout s) (length (outs (it # its)) + 1)" by (simp add: cells_def)
  then have "pout s \<notin> read_cells (pin s) (pargs s) (it # its)" using Cons.prems(4) by blast
  then obtain x where step: "fmt_loop start s = fmt_loop start (advance ?nf ?na ?o x s)"
    using item_step [OF Cons.prems(1) _ Cons.prems(3), of start] Cons.prems by auto
  let ?s = "advance ?nf ?na ?o x s"
  have same: "pmem ?s c = pmem s c" if "c \<in> read_cells (pin s) (pargs s) (it # its)" for c
  proof -
    have "c \<notin> cells (pout s) (length ?o + 1)"
      using that Cons.prems(4) cells_less [of "length ?o + 1" "length (outs (it # its)) + 1" c] by auto
    then show ?thesis
      using Cons.prems(9) offset_iff [of "length ?o" c "pout s"] by (auto simp: advance_def stored_def cells_def)
  qed
  have "reads (pmem ?s) (pin ?s) (pargs ?s) its"
    using reads_tail [where m' = "pmem ?s", OF Cons.prems(3) same len] Cons.prems(2) by (simp add: advance_def)
  moreover have "cells (pout ?s) (length (outs its) + 1) \<inter> read_cells (pin ?s) (pargs ?s) its = {}"
    using Cons.prems(4,9) read_cells_tail [OF len, of "pin s" "pargs s"]
      cells_shift [of "length ?o" "length (outs its) + 1" _ "pout s"]
    by (auto simp: advance_def add.assoc)
  moreover have pin: "unat (pin ?s) = unat (pin s) + ?nf"
    using Cons.prems(6) by (simp add: advance_def unat_plus_if' unat_of_nat_addr)
  moreover have pout: "unat (pout ?s) = unat (pout s) + length ?o"
    using Cons.prems(9) by (simp add: advance_def unat_plus_if' unat_of_nat_addr)
  moreover have "pin ?s \<noteq> NULL" "pout ?s \<noteq> NULL"
    using pin pout Cons.prems(5,8) by (metis add_is_0 unat_0 unat_eq_zero)+
  ultimately obtain y where "fmt_loop start ?s =
      fmt_loop start (advance (length (formats its)) (length (args_of its)) (outs its) y ?s)"
    using Cons.IH [OF ready_advance [OF Cons.prems(1)], of ?nf ?na ?o x] Cons.prems(2,6,7,9) by auto
  with step show ?case
    using Cons.prems(9) by (auto simp: advance_advance)
qed

lemma vsprintf_eq:
  assumes ok: "\<forall>it \<in> set its. item_ok it" and r: "reads m fmt args its"
    and apart: "cells str (length (outs its) + 1) \<inter> read_cells fmt args its = {}"
    and f: "fmt \<noteq> NULL" "unat fmt + length (formats its) < 2 ^ 32" "4 * length (args_of its) \<le> 2 ^ 32"
    and q: "str \<noteq> NULL" "unat str + length (outs its) + 2 ^ 22 < 2 ^ 31"
  shows "vsprintf str fmt args m = Inr (of_nat (length (outs its)), stored str (outs its @ [0]) m)"
proof -
  let ?s = "fmt_start str fmt args m" and ?n = "length (formats its)" and ?o = "outs its"
  have s: "pmem ?s = m" "pin ?s = fmt" "pargs ?s = args" "pout ?s = str" "ready ?s"
    by (simp_all add: fmt_start_def ready_def)
  obtain x where run: "fmt_loop str ?s = fmt_loop str (advance ?n (length (args_of its)) ?o x ?s)"
    using items_run [of ?s its str] assms s by auto
  let ?e = "advance ?n (length (args_of its)) ?o x ?s"
  have "fmt + of_nat ?n \<in> read_cells fmt args its"
    using f(2) cells_offset [of ?n "?n + 1" fmt] by (auto simp: read_cells_def)
  then have "fmt + of_nat ?n \<notin> cells str (length ?o + 1)" using apart by blast
  then have "pmem ?e (pin ?e) = m (fmt + of_nat ?n)"
    using q(2) offset_iff [of "length ?o" "fmt + of_nat ?n" str] s
    by (auto simp: advance_def stored_def cells_def)
  also have "\<dots> = 0" using r by (simp add: reads_def text_at_append)
  finally have "fmt_loop str ?s = Some (Inr ?e)" using run by (simp add: fmt_loop_end)
  moreover have "(pmem ?e)(pout ?e := 0) = stored str (?o @ [0]) m"
    using stored_snoc [of ?o str m 0] q(2) s by (simp add: advance_def)
  moreover have "\<not> bad ?e" "pout ?e - str = of_nat (length ?o)"
    using s by (simp_all add: advance_def fmt_start_def)
  ultimately show ?thesis using f(1) q(1) by (simp add: vsprintf_def)
qed

lemma vfprintf_eq:
  assumes "vsprintf buffer fmt args m = Inr (of_nat n, m')" "n < 2 ^ 31" "fmt \<noteq> NULL"
  shows "vfprintf buffer stdout fmt args m =
    (if n \<le> 2048 then Inr (of_nat n, if n = 0 then None else Some buffer, m') else Inl Assert_failed)"
proof -
  have "sint (of_nat n :: u32) = int n"
    using assms(2) by (subst sint_unat) (simp_all add: unat_of_nat_addr)
  moreover have "sint BUFFER_SIZE = 2048" by (simp add: BUFFER_SIZE_def)
  ultimately show ?thesis using assms(1,3) by (simp add: vfprintf_def)
qed

text \<open>Cells that do not wrap are intervals.\<close>

lemma cells_interval:
  assumes "unat p + n \<le> 2 ^ 32"
  shows "a \<in> cells p n \<longleftrightarrow> unat p \<le> unat a \<and> unat a < unat p + n"
  using assms unat_lt_u32 [of a] unat_lt_u32 [of p] by (auto simp: cells_def unat_sub_if')

section \<open>Properties\<close>

text \<open>
  C18: formatted printing. Take a format of plain bytes, \<^verbatim>\<open>%%\<close>, \<^verbatim>\<open>%c\<close>, \<^verbatim>\<open>%s\<close> and the number
  conversions \<^verbatim>\<open>d\<close>, \<^verbatim>\<open>i\<close>, \<^verbatim>\<open>x\<close> and \<^verbatim>\<open>o\<close> with any flag, width and precision, whose text, arguments
  and string arguments stand in memory apart from the output. Then \<^verbatim>\<open>vsprintf\<close> stores the bytes
  the items stand for, one after the other, and a terminator, changes nothing else, and returns
  their number. \<^verbatim>\<open>vfprintf\<close> hands them to the console when there are at most 2048 of them; with
  more it has written behind its buffer by the time the assertion stops it.
\<close>

theorem vsprintf_renders:
  assumes "\<forall>it \<in> set its. item_ok it" "reads m fmt args its"
    and "cells str (length (outs its) + 1) \<inter> read_cells fmt args its = {}"
    and "fmt \<noteq> NULL" "unat fmt + length (formats its) < 2 ^ 32" "4 * length (args_of its) \<le> 2 ^ 32"
    and "str \<noteq> NULL" "unat str + length (outs its) + 2 ^ 22 < 2 ^ 31"
  shows "vsprintf str fmt args m = Inr (of_nat (length (outs its)), stored str (outs its @ [0]) m) \<and>
    vfprintf str stdout fmt args m =
      (if length (outs its) \<le> 2048
       then Inr (of_nat (length (outs its)), if outs its = [] then None else Some str, stored str (outs its @ [0]) m)
       else Inl Assert_failed)"
  using vsprintf_eq [OF assms] vfprintf_eq [OF vsprintf_eq [OF assms]] assms(4,8) by simp_all

definition sample_items :: "item list" where
  "sample_items = [Text 0x4000 (List.map ch ''pid''), Plain (ch CHR ''=''),
     Num (Some (ch CHR ''-'')) 4 None (ch CHR ''d'') 7, Num (Some (ch CHR ''0'')) 3 None (ch CHR ''x'') 10]"

definition sample_memory :: mem where
  "sample_memory = stored 0x2000 (List.map ch ''%s=%-4d%03x'' @ [0])
     (stored 0x3000 [0, 0x40, 0, 0, 7, 0, 0, 0, 10, 0, 0, 0] (stored 0x4000 (List.map ch ''pid'' @ [0]) (\<lambda>_. 0)))"

theorem vsprintf_renders_witness:
  "vsprintf 0x1000 0x2000 0x3000 sample_memory =
    Inr (11, stored 0x1000 (List.map ch ''pid=7   00a'' @ [0]) sample_memory)"
proof -
  have f: "formats sample_items = List.map ch ''%s=%-4d%03x''"
    by (simp add: sample_items_def flag_text_def width_text_def precision_text_def number_text_def digits_step digit_byte_def)
  have a: "args_of sample_items = [0x4000, 7, 10]" "strings_of sample_items = [(0x4000, List.map ch ''pid'')]"
    by (simp_all add: sample_items_def)
  have n: "int_digits 10 7 = [55]" "int_digits 16 10 = [97]" "int_sign 10 7 = []" "int_sign 16 10 = []"
    by (simp_all add: int_digits_def int_sign_def number_text_def digits_step digit_byte_def)
  have pad: "replicate 3 x = [x, x, x]" "replicate 2 x = [x, x]" for x :: u8
    by (simp_all add: numeral_3_eq_3 numeral_2_eq_2)
  have "item_out (Num (Some (ch CHR ''-'')) 4 None (ch CHR ''d'') 7) = List.map ch ''7   ''"
    "item_out (Num (Some (ch CHR ''0'')) 3 None (ch CHR ''x'') 10) = List.map ch ''00a''"
    by (simp_all add: number_field_def n precise_def int_prefix_def field_def flag_bit_def flag_of_def
      flag_defs conv_base_def pad)
  then have o: "outs sample_items = List.map ch ''pid=7   00a''"
    by (simp add: sample_items_def)
  have "reads sample_memory 0x2000 0x3000 sample_items"
    by (simp add: reads_def f a sample_memory_def stored_def load32_def)
  moreover have "cells 0x1000 (length (outs sample_items) + 1) \<inter> read_cells 0x2000 0x3000 sample_items = {}"
    by (auto simp: read_cells_def f a o cells_interval)
  moreover have "\<forall>it \<in> set sample_items. item_ok it"
    by (simp add: sample_items_def flag_text_def prec_bound_def terminated_def precise_def)
  ultimately show ?thesis
    using vsprintf_renders [where its = sample_items and m = sample_memory and fmt = "0x2000" and args = "0x3000" and str = "0x1000"] f a o by simp
qed

section \<open>The states of the interpreter\<close>

text \<open>
  The stage of a conversion bounds what has been read of it: at most one flag, and only behind
  stage 1, a width behind stage 2, a precision only behind its point.
\<close>

definition one_flag :: "u8 \<Rightarrow> bool" where
  "one_flag fl \<longleftrightarrow> fl \<in> flag_set"

definition fmt_ok :: "fmt_state \<Rightarrow> bool" where
  "fmt_ok s \<longleftrightarrow> escape s \<le> 5 \<and> one_flag (fflags s) \<and>
     (escape s \<le> 1 \<longrightarrow> fflags s = 0) \<and> (escape s \<le> 2 \<longrightarrow> fwidth s = 0) \<and>
     (to_precision s \<longrightarrow> 3 \<le> escape s) \<and> (\<not> to_precision s \<longrightarrow> fprecision s = - 1)"

inductive fmt_runs :: "addr_t \<Rightarrow> fmt_state \<Rightarrow> fmt_state \<Rightarrow> bool" for start :: addr_t and s :: fmt_state where
  here: "fmt_runs start s s"
| turn: "fmt_runs start s t \<Longrightarrow> pmem t (pin t) \<noteq> 0 \<Longrightarrow> \<not> bad t \<Longrightarrow> fmt_step start t = Inr u \<Longrightarrow> fmt_runs start s u"

lemma fmt_runs_front:
  assumes "pmem s (pin s) \<noteq> 0" "\<not> bad s" "fmt_step start s = Inr u" and "fmt_runs start u t"
  shows "fmt_runs start s t"
  using assms(4)
proof induction
  case here
  show ?case using assms(1-3) by (intro fmt_runs.turn [OF fmt_runs.here])
qed (rule fmt_runs.turn)

lemma fmt_loop_runs: "fmt_loop start s = Some (Inr t) \<Longrightarrow> fmt_runs start s t"
proof -
  assume "fmt_loop start s = Some (Inr t)"
  then have "\<forall>t'. (Inr t :: fmt_state res) = Inr t' \<longrightarrow> fmt_runs start s t'"
    by (rule fmt_loop.raw_induct [where P = "\<lambda>start s r. \<forall>t. r = Inr t \<longrightarrow> fmt_runs start s t", rotated])
      (auto split: if_splits sum.splits intro: fmt_runs_front fmt_runs.here)
  then show ?thesis by blast
qed

lemma one_flag_simps [simp]: "one_flag 0" "one_flag (flag_of c)"
  by (simp_all add: one_flag_def flag_of_def)

lemma fmt_ok_start: "fmt_ok (fmt_start str fmt args m)"
  by (simp add: fmt_ok_def fmt_start_def)

lemma fmt_number_ok:
  assumes "fmt_ok s" "0 < escape s" "fmt_number c s = Inr s'"
  shows "fmt_ok s'"
proof (cases "escape s \<le> 3")
  case True
  then have m: "max (escape s) 2 = 2 \<or> max (escape s) 2 = 3" by auto
  have "\<exists>v p a. s' = (set_width_or_precision v s)\<lparr>escape := max (escape s) 2 + 1, pin := p, pargs := a\<rparr>"
  proof (cases "c = ch CHR ''*''")
    case True
    then have "s' = (set_width_or_precision (load32 (pmem s) (pargs s)) s)
        \<lparr>escape := max (escape s) 2 + 1, pin := pin s, pargs := pargs s + 4\<rparr>"
      using assms(3) m by (cases s) (simp add: fmt_number_def Let_def va_arg_def set_width_or_precision_def split: if_splits)
    then show ?thesis by blast
  next
    case False
    then obtain v p where "s' = (set_width_or_precision v (s\<lparr>escape := max (escape s) 2 + 1\<rparr>))\<lparr>pin := p\<rparr>"
      using assms(3) m by (auto simp: fmt_number_def Let_def res_Inr)
    then have "s' = (set_width_or_precision v s)\<lparr>escape := max (escape s) 2 + 1, pin := p, pargs := pargs s\<rparr>"
      by (cases s) (simp add: set_width_or_precision_def)
    then show ?thesis by blast
  qed
  then show ?thesis
    using assms(1,2) True by (auto simp: fmt_ok_def set_width_or_precision_def)
next
  case False
  then have "s' = s\<lparr>bad := True\<rparr>"
    using assms(3) by (cases s) (simp add: fmt_number_def bad_format_def Let_def max_def)
  then show ?thesis using assms(1) by (simp add: fmt_ok_def)
qed


lemma fmt_step_ok:
  assumes ok: "fmt_ok s" and step: "fmt_step start s = Inr s'"
  shows "fmt_ok s'"
proof -
  define c where "c = pmem s (pin s)"
  define u where "u = s\<lparr>pmem := (pmem s)(pout s := c), pin := pin s + 1\<rparr>"
  have u: "fmt_ok u" "escape u = escape s" using ok by (simp_all add: u_def fmt_ok_def)
  have step': "(if escape u = 0 \<and> c = ch CHR ''%'' then Inr (u\<lparr>escape := 1\<rparr>)
      else if escape u \<noteq> 0
      then if fmt_class c = FMT_FLAGS then fmt_flags c u
           else if fmt_class c = FMT_NUMBER then fmt_number c u
           else if fmt_class c = FMT_PRECISION then fmt_precision u
           else if fmt_class c = FMT_LENGTH then fmt_length u
           else if fmt_class c = FMT_SPECIFIER then fmt_specifier start c u
           else bad_format u
      else Inr (u\<lparr>pout := pout u + 1\<rparr>)) = Inr s'"
    using step by (simp only: fmt_step_def Let_def c_def u_def)
  show ?thesis
  proof (cases "escape s = 0")
    case True
    then have "s' = u\<lparr>escape := 1\<rparr> \<or> s' = u\<lparr>pout := pout u + 1\<rparr>"
      using step' u(2) by (auto split: if_splits)
    then show ?thesis using u True by (auto simp: fmt_ok_def)
  next
    case False
    then have pos: "0 < escape u" using u(2) by simp
    have "fmt_ok s'" if "fmt_flags c u = Inr s'"
      using that u(1) pos fmt_number_ok [OF u(1) pos, of c s']
      by (auto simp: fmt_flags_def fmt_ok_def bad_format_def split: if_splits)
    moreover have "fmt_ok s'" if "fmt_precision u = Inr s'"
      using that u(1) by (auto simp: fmt_precision_def fmt_ok_def bad_format_def Let_def max_def split: if_splits)
    moreover have "fmt_ok s'" if "fmt_length u = Inr s'"
      using that u(1) by (auto simp: fmt_length_def fmt_ok_def bad_format_def Let_def max_def res_Inr split: if_splits)
    moreover have "fmt_ok s'" if "fmt_specifier start c u = Inr s'"
      using that u(1) by (auto simp: fmt_specifier_def fmt_ok_def bad_format_def Let_def max_def res_Inr split: if_splits)
    moreover have "fmt_ok s'" if "bad_format u = Inr s'"
      using that u(1) by (auto simp: fmt_ok_def bad_format_def)
    ultimately show ?thesis
      using step' pos fmt_number_ok [OF u(1) pos, of c s'] by (auto split: if_splits)
  qed
qed

lemma fmt_runs_ok: "fmt_runs start s t \<Longrightarrow> fmt_ok s \<Longrightarrow> fmt_ok t"
  by (induction rule: fmt_runs.induct) (auto intro: fmt_step_ok)

text \<open>
  C21: the states of the format interpreter are well formed, whatever the format and the arguments:
  from the start, every turn of the loop keeps the stage of the conversion within its range and
  the fields read so far within what the stage allows. In particular at most one flag is set
  when a number is printed, so the assertion of \<^verbatim>\<open>__itoaf\<close> on its flags never stops the machine.
\<close>

theorem format_state_typed:
  assumes "fmt_runs str (fmt_start str fmt args m) s \<or> fmt_loop str (fmt_start str fmt args m) = Some (Inr s)"
  shows "fmt_ok s \<and> fflags s AND (fflags s - 1) = 0"
proof -
  have "fmt_runs str (fmt_start str fmt args m) s" using assms fmt_loop_runs by blast
  then have "fmt_ok s" using fmt_ok_start by (rule fmt_runs_ok)
  then show ?thesis using flag_bits(1) by (simp add: fmt_ok_def one_flag_def)
qed

theorem format_state_typed_witness:
  "fmt_ok ((fmt_start 1 2 3 (\<lambda>_. 37))\<lparr>pmem := (\<lambda>_. 37)(1 := 37), pin := 2 + 1, escape := 1\<rparr>)"
proof -
  let ?s = "fmt_start 1 2 3 (\<lambda>_. 37)"
  let ?t = "?s\<lparr>pmem := (\<lambda>_. 37)(1 := 37), pin := 2 + 1, escape := 1\<rparr>"
  have "fmt_step 1 ?s = Inr ?t" by (simp add: fmt_step_def fmt_start_def)
  then have "fmt_runs 1 ?s ?t"
    by (intro fmt_runs.turn [OF fmt_runs.here]) (simp_all add: fmt_start_def)
  then show ?thesis using format_state_typed [of 1 2 3 "\<lambda>_. 37" ?t] by simp
qed

end
