(* ===== verification/Runs.thy ===== *)
theory Runs imports First_Program Kept_Pages begin

text \<open>
  Runs of the machine: any number of system calls, interrupts, page faults and instructions of the programs. A machine in
  order stays in order, so that what one event does to the programs holds of every run.
\<close>

section \<open>Pages of tasks\<close>

lemma tasks_paged_used: "tasks_paged s ps \<longleftrightarrow> used (HIGH_MEMORY ps) (live_tasks s) ps"
  by (auto simp: tasks_paged_def used_def)

lemma used_paged: "used H (live_tasks s) ps \<Longrightarrow> tasks_paged s ps"
  by (simp add: tasks_paged_def used_def)

lemma add_task_table: "add_task c s = Inr s' \<Longrightarrow> \<exists>n. task_table s' = (task_table s)[n := c]"
  by (auto simp: add_task_def res_Inr split: if_splits)

lemma fork_child_pages:
  assumes "fork_child ret k = Inr (True, k')"
  shows "\<exists>p v a b c n. take_page (vm k) = Inr (p, v) \<and> share_vma a b c v = Inr (vm k') \<and>
    task_table (sched k') = (task_table (sched k))[n := p]"
proof -
  from assms obtain p v a b c s s' where "take_page (vm k) = Inr (p, v)" "share_vma a b c v = Inr (vm k')"
    "add_task p s = Inr s'" "sched k' = s'" "task_table s = task_table (sched k)"
    by (auto simp: fork_child_def res_Inr Let_def copy_process_def set_ldt_desc_def upd_task_def SET_TASK_RETVAL_def
      split: if_splits; blast?)
  with add_task_table show ?thesis by metis
qed

lemma schedule_live: "sched_ok s \<Longrightarrow> schedule s = Some (Inr s') \<Longrightarrow> live_tasks s' = live_tasks s"
  by (simp add: schedule_handed_over handed_over_live)

lemma do_fork_paged:
  assumes pg: "tasks_paged (sched k) (pages (vm k))" and ok: "running_ok ret (sched k)" and run: "do_fork ret k = Inr k'"
  shows "tasks_paged (sched k') (pages (vm k'))"
proof -
  let ?H = "HIGH_MEMORY (pages (vm k))"
  from run obtain forked j where j: "fork_child ret k = Inr (forked, j)"
    and r: "if forked then \<exists>s. schedule (sched j) = Some (Inr s) \<and> k' = j\<lparr>sched := s\<rparr> else k' = j"
    by (auto simp: do_fork_def res_Inr split: option.splits if_splits)
  have "sched_ok (sched j)" using fork_child_grown [OF ok pg j] by (simp add: grown_def running_ok_def)
  then have live: "live_tasks (sched k') = live_tasks (sched j)" and v: "vm k' = vm j"
    using r schedule_live by (auto split: if_splits)
  have "used ?H (live_tasks (sched j)) (pages (vm j))"
  proof (cases forked)
    case False
    with j have "sched j = SET_TASK_RETVAL (current_task (sched k)) (- 1) (sched k)" "vm j = vm k"
      by (auto simp: fork_child_def Let_def res_Inr split: if_splits)
    with pg show ?thesis by (simp add: tasks_paged_used SET_TASK_RETVAL_def upd_task_def live_tasks_def)
  next
    case True
    with j have "fork_child ret k = Inr (True, j)" by simp
    from fork_child_pages [OF this] obtain p w a b c n where p: "take_page (vm k) = Inr (p, w)" "share_vma a b c w = Inr (vm j)"
      "task_table (sched j) = (task_table (sched k))[n := p]" by blast
    from p(1) obtain ps where ps: "alloc_page (pages (vm k)) = Inr (p, ps)" "pages w = ps" by (auto simp: take_page_def res_Inr)
    have "kmem_used ?H (insert p (live_tasks (sched k))) w"
      using used_alloc [OF _ ps(1)] pg ps(2) by (simp add: tasks_paged_used kmem_used_def)
    from keptD [OF share_vma_kept [OF this] p(2)] have "used ?H (insert p (live_tasks (sched k))) (pages (vm j))"
      by (simp add: kmem_used_def)
    moreover have "live_tasks (sched j) \<subseteq> insert p (live_tasks (sched k))"
      using set_update_subset_insert [of "task_table (sched k)" n p] p(3) by (auto simp: live_tasks_def)
    ultimately show ?thesis by (rule used_subset)
  qed
  then show ?thesis using live v by (simp add: used_paged)
qed

section \<open>Machines in order\<close>

text \<open>Besides the tasks, their pages: a fork will not take the page of a living task for its child.\<close>

definition in_order :: "u32 \<Rightarrow> 'e machine \<Rightarrow> bool" where
  "in_order ret m \<longleftrightarrow> machine_ok ret m \<and> tasks_paged (ksched (kern m)) (pages (km (sl (fsys (kern m)))))"

lemma file_syscall_kept: "fs_used H T s \<Longrightarrow> keptv (fs_used H T) (file_syscall io f (a, b, c) s)"
  by (cases f) (simp_all add: kept_rules sys_open_kept sys_close_kept sys_read_kept sys_write_kept sys_lseek_kept)

lemma file_call_kept:
  assumes "\<And>H T s. fs_used H T s \<Longrightarrow> keptv (fs_used H T) (f s)" "fs_used H T (fsys k)" "file_call f k = Inr (v, k')"
  shows "fs_used H T (fsys k')"
proof -
  from assms(3) obtain t :: task and g where g: "f ((fsys k)\<lparr>filps := task.filp t\<rparr>) = Inr (v, g)" "fsys k' = g"
    by (auto simp: file_call_def res_Inr Let_def)
  from keptvD [OF assms(1) [OF fs_used_updates(9) [OF assms(2)]] g(1)] g(2) show ?thesis by simp
qed

lemma fault_call_kept:
  assumes "fs_used H T (fsys k)" "fault_call err a k = Inr k'"
  shows "fs_used H T (fsys k')"
proof -
  let ?f = "\<lambda>t. bindr (if err AND 1 = 0 then do_no_page a (km t) else do_wp_page a (km t)) (\<lambda>v. Inr ((), t\<lparr>km := v\<rparr>))"
  have f: "keptv (slab_used H T) (?f t)" if "slab_used H T t" for t
  proof -
    have "kmem_used H T (km t)" using that by (simp add: slab_used_def)
    then have "kept (kmem_used H T) (if err AND 1 = 0 then do_no_page a (km t) else do_wp_page a (km t))"
      by (simp add: do_no_page_kept do_wp_page_kept)
    then show ?thesis by (auto simp: kept_def keptv_def bindr_eq_Inr slab_used_def simp del: and_one_eq)
  qed
  from assms(2) obtain u where "slab_op ?f (fsys k) = Inr (u, fsys k')" by (auto simp: fault_call_def res_Inr)
  from keptvD [OF slab_op_kept [OF assms(1) f] this] show ?thesis .
qed

lemma port_sl [simp]:
  "sl (fsys (set_kdev e k)) = sl (fsys k)" "sl (fsys (mask_line io f n k)) = sl (fsys k)" "sl (fsys (send_EOI io n k)) = sl (fsys k)"
  by (simp_all add: set_kdev_def on_bc_def mask_line_def send_EOI_def Let_def split: prod.splits)

lemma handle_irq_sl: "handle_irq io h n k = Inr k' \<Longrightarrow> sl (fsys k') = sl (fsys k)"
  by (cases h) (auto simp: handle_irq_def on_unknown_irq_def on_hd_interrupt_def res_Inr)

lemma irq_call_sl: "irq_call io n k = Inr k' \<Longrightarrow> sl (fsys k') = sl (fsys k)"
  by (auto simp: irq_call_def res_Inr dest!: handle_irq_sl split: if_splits)

section \<open>One event\<close>

text \<open>The tasks that wait inside a call after an event: those that did before, and one that was switched away from in a call.\<close>

definition waiting_ok :: "event \<Rightarrow> 'e machine \<Rightarrow> 'e machine \<Rightarrow> bool" where
  "waiting_ok ev m m' \<longleftrightarrow> (\<forall>p \<in> live_of m. p \<noteq> current_of m' \<longrightarrow>
     in_syscall m' p = (if p = current_of m then \<exists>left. ev = Int_0x90 left else in_syscall m p))"

lemma after_call_waiting:
  assumes ok: "running_ok ret s" and h: "handed_over s (ksched k)" and cur: "current_of m = current_task s"
    and run: "after_call ret g v k m = Inr m'" and p: "p \<in> live_tasks s" "p \<noteq> current_of m'"
  shows "in_syscall m' p = (if p = current_task s then g = Syscall_stub
    else parked m p = Syscall_stub \<and> (\<exists>t. tasks s p = Some t \<and> eip t = switch_label s))"
proof -
  have c: "current_of m' = current_task (ksched k)" using after_call_result [OF ok h cur run] by simp
  have park: "parked m' = (if current_task (ksched k) = current_task s then parked m else (parked m)(current_task s := g))"
    using run cur by (auto simp: after_call_def Let_def res_Inr leave_stub_def split: if_splits)
  have "ksched (kern m') = ksched k \<or>
      (\<exists>st. ksched (kern m') = upd_task (current_task (ksched k)) (\<lambda>t. t\<lparr>kstack := st\<rparr>) (ksched k))"
    using run leave_stub_result(2) by (fastforce simp: after_call_def Let_def res_Inr split: if_splits)
  then have t': "tasks (ksched (kern m')) p = tasks (ksched k) p" "switch_label (ksched (kern m')) = switch_label (ksched k)"
    using p(2) c by (auto simp: upd_task_def)
  have "sched_ok s" using ok by (simp add: running_ok_def)
  then obtain t where t: "tasks s p = Some t" using live_task p(1) by blast
  with h obtain u where u: "tasks (ksched k) p = Some u" "p \<noteq> current_task s \<longrightarrow> eip u = eip t"
    by (auto simp: handed_over_def)
  have lab: "switch_label (ksched k) = switch_label s" using h by (simp add: handed_over_def)
  show ?thesis
  proof (cases "p = current_task s")
    case True
    with h p(2) c u(1) have "eip u = switch_label s" by (auto simp: handed_over_def split: if_splits)
    with True p(2) c park u(1) t' lab show ?thesis by (auto simp: in_syscall_def)
  next
    case False
    with park u t t' lab show ?thesis by (auto simp: in_syscall_def)
  qed
qed

lemma stub_waiting:
  assumes ok: "machine_ok ret m" and save: "save = SAVE_ALL \<or> save = save_fault"
    and entry: "enter_kernel save args (cpu m) (ksched (kern m)) = Inr s"
    and call: "grown ret s s1" "handed_over s1 (ksched k)" and run: "after_call ret g v k m = Inr m'"
    and ev: "(\<exists>left. ev = Int_0x90 left) \<longleftrightarrow> g = Syscall_stub"
  shows "waiting_ok ev m m'"
proof -
  note e = enter_kernel_machine [OF ok save entry]
  have live: "live_tasks s = live_of m" using e(4) by (simp add: live_tasks_def)
  have ok1: "running_ok ret s1" and g1: "current_task s1 = current_of m" "switch_label s1 = switch_label (ksched (kern m))"
      "live_of m \<subseteq> live_tasks s1" "\<And>p. p \<in> live_of m \<Longrightarrow> p \<noteq> current_of m \<Longrightarrow> tasks s1 p = tasks (ksched (kern m)) p"
    using call(1) e(2,3,6) live by (auto simp: grown_def)
  show ?thesis
    unfolding waiting_ok_def
  proof (intro ballI impI)
    fix p assume p: "p \<in> live_of m" "p \<noteq> current_of m'"
    have w: "in_syscall m' p = (if p = current_of m then g = Syscall_stub
        else parked m p = Syscall_stub \<and> (\<exists>t. tasks s1 p = Some t \<and> eip t = switch_label s1))"
      using after_call_waiting [OF ok1 call(2) _ run _ p(2)] g1(1,3) p(1) by auto
    show "in_syscall m' p = (if p = current_of m then \<exists>left. ev = Int_0x90 left else in_syscall m p)"
    proof (cases "p = current_of m")
      case False
      then have "in_syscall m p = (parked m p = Syscall_stub \<and> (\<exists>t. tasks s1 p = Some t \<and> eip t = switch_label s1))"
        using g1(2,4) p(1) by (simp add: in_syscall_def)
      with w False show ?thesis by simp
    qed (use w ev in simp)
  qed
qed

lemma stub_paged:
  assumes ok: "running_ok ret s1" "handed_over s1 (ksched k)" "current_of m = current_task s1"
    and run: "after_call ret g v k m = Inr m'" and pg: "tasks_paged (ksched k) (pages (km (sl (fsys k))))"
  shows "in_order ret m'"
  using after_call_result [OF ok run] handed_over_live [OF ok(2)] pg by (simp add: in_order_def tasks_paged_def)

text \<open>A machine in order stays in order.\<close>

lemma entered_paged:
  assumes "machine_ok ret m" "tasks_paged (ksched (kern m)) ps" "save = SAVE_ALL \<or> save = save_fault"
    and "enter_kernel save args (cpu m) (ksched (kern m)) = Inr s"
  shows "tasks_paged s ps"
  using enter_kernel_machine(4) [OF assms(1,3,4)] assms(2) by (simp add: tasks_paged_def live_tasks_def)

lemma fs_used_paged:
  "tasks_paged s (pages (km (sl g))) \<longleftrightarrow> fs_used (HIGH_MEMORY (pages (km (sl g)))) (live_tasks s) g"
  by (simp add: tasks_paged_used fs_used_def slab_used_def kmem_used_def)

lemma fs_usedD: "fs_used H (live_tasks s) g \<Longrightarrow> tasks_paged s (pages (km (sl g)))"
  by (simp add: used_paged fs_used_def slab_used_def kmem_used_def)

lemma sys_call_in_order:
  assumes ok: "in_order ret m" and run: "sys_call io ret left m = Inr m'"
  shows "in_order ret m' \<and> waiting_ok (Int_0x90 left) m m'"
proof -
  have mok: "machine_ok ret m" and pg: "tasks_paged (ksched (kern m)) (pages (km (sl (fsys (kern m)))))"
    using ok by (simp_all add: in_order_def)
  from run obtain s where entry: "enter_kernel SAVE_ALL [r_edx (cpu m), r_ecx (cpu m), r_ebx (cpu m)] (cpu m) (ksched (kern m)) = Inr s"
    and rest: "(\<exists>k. fork_call ret ((kern m)\<lparr>ksched := s\<rparr>) = Inr k \<and> after_call ret Syscall_stub left k m = Inr m') \<or>
      (\<exists>f a v k. file_call (file_syscall io f a) ((kern m)\<lparr>ksched := s\<rparr>) = Inr (v, k) \<and>
         after_call ret Syscall_stub (of_int v) k m = Inr m')"
    by (auto simp: sys_call_def Let_def res_Inr split: if_splits option.splits) blast
  have save: "SAVE_ALL = SAVE_ALL \<or> SAVE_ALL = save_fault" by simp
  note e = enter_kernel_machine [OF mok save entry]
  have okS: "running_ok ret s" and sok: "sched_ok s" using e(1) by (simp_all add: running_ok_def)
  note pgS = entered_paged [OF mok pg save entry]
  have ev: "(\<exists>l. Int_0x90 left = Int_0x90 l) \<longleftrightarrow> Syscall_stub = Syscall_stub" by simp
  let ?k = "(kern m)\<lparr>ksched := s\<rparr>"
  from rest show ?thesis
  proof (elim disjE exE conjE)
    fix k assume k: "fork_call ret ?k = Inr k" "after_call ret Syscall_stub left k m = Inr m'"
    with fork_call_result [OF _ _ k(1)] okS pgS obtain s1 where g: "grown ret s s1" "handed_over s1 (ksched k)" by auto
    from k(1) obtain v f where f: "do_fork ret \<lparr>sched = s, vm = v\<rparr> = Inr f" "pages v = pages (km (sl (fsys (kern m))))"
      "ksched k = sched f" "pages (km (sl (fsys k))) = pages (vm f)"
      by (auto simp: fork_call_def slab_op_def res_Inr)
    from do_fork_paged [OF _ _ f(1)] okS pgS f(2) have "tasks_paged (ksched k) (pages (km (sl (fsys k))))"
      by (simp add: f(3,4))
    with g stub_paged [OF _ g(2) _ k(2)] stub_waiting [OF mok save entry g k(2) ev] e(2) show ?thesis
      by (simp add: grown_def)
  next
    fix f a v k assume k: "file_call (file_syscall io f a) ?k = Inr (v, k)" "after_call ret Syscall_stub (of_int v) k m = Inr m'"
    have h: "handed_over s (ksched k)" using file_call_handed_over [OF _ k(1)] sok by simp
    obtain x y z where a: "a = (x, y, z)" by (cases a)
    have "fs_used (HIGH_MEMORY (pages (km (sl (fsys (kern m)))))) (live_tasks s) (fsys ?k)" using pgS by (simp add: fs_used_paged)
    from fs_usedD [OF file_call_kept [OF file_syscall_kept this k(1) [unfolded a]]] handed_over_live [OF h]
    have "tasks_paged (ksched k) (pages (km (sl (fsys k))))" by (simp add: tasks_paged_def)
    with stub_paged [OF okS h _ k(2)] stub_waiting [OF mok save entry grown_refl [OF okS] h k(2) ev] e(2) show ?thesis by simp
  qed
qed

lemma event_in_order:
  assumes ok: "in_order ret m" and run: "kernel_event io ret ev m = Inr m'"
  shows "in_order ret m' \<and> waiting_ok ev m m'"
proof (cases ev)
  case (Int_0x90 left)
  with run sys_call_in_order [OF ok] show ?thesis by simp
next
  case (Program r mm)
  with run have m': "m' = m\<lparr>cpu := r, kern := (kern m)\<lparr>fsys := (fsys (kern m))\<lparr>umem := mm\<rparr>\<rparr>\<rparr>" by simp
  with ok have "in_order ret m'" by (simp add: in_order_def machine_ok_def)
  moreover have "waiting_ok ev m m'" by (auto simp: waiting_ok_def m' in_syscall_def)
  ultimately show ?thesis ..
next
  case (Irq n left)
  have mok: "machine_ok ret m" and pg: "tasks_paged (ksched (kern m)) (pages (km (sl (fsys (kern m)))))"
    using ok by (simp_all add: in_order_def)
  from run Irq obtain s k where entry: "enter_kernel SAVE_ALL [of_nat n] (cpu m) (ksched (kern m)) = Inr s"
    and k: "irq_call io n ((kern m)\<lparr>ksched := s\<rparr>) = Inr k" "after_call ret Irq_stub left k m = Inr m'"
    by (auto simp: irq_entry_def res_Inr split: if_splits)
  have save: "SAVE_ALL = SAVE_ALL \<or> SAVE_ALL = save_fault" by simp
  note e = enter_kernel_machine [OF mok save entry]
  then have h: "handed_over s (ksched k)" using irq_call_handed_over [OF _ k(1)] by (simp add: running_ok_def)
  have "tasks_paged (ksched k) (pages (km (sl (fsys k))))"
    using entered_paged [OF mok pg save entry] handed_over_live [OF h] irq_call_sl [OF k(1)] by (simp add: tasks_paged_def)
  with stub_paged [OF e(1) h _ k(2)] stub_waiting [OF mok save entry grown_refl [OF e(1)] h k(2)] e(2) Irq show ?thesis by simp
next
  case (Fault err addr)
  have mok: "machine_ok ret m" and pg: "tasks_paged (ksched (kern m)) (pages (km (sl (fsys (kern m)))))"
    using ok by (simp_all add: in_order_def)
  from run Fault obtain s k where entry: "enter_kernel save_fault [addr, err] (cpu m) (ksched (kern m)) = Inr s"
    and k: "fault_call err addr ((kern m)\<lparr>ksched := s\<rparr>) = Inr k" "after_call ret Irq_stub 0 k m = Inr m'"
    by (auto simp: page_fault_def res_Inr)
  have save: "save_fault = SAVE_ALL \<or> save_fault = save_fault" by simp
  note e = enter_kernel_machine [OF mok save entry]
  have ks: "ksched k = s" using k(1) by (auto simp: fault_call_def res_Inr)
  have h: "handed_over s (ksched k)" using e(1) handed_over_refl ks by (simp add: running_ok_def)
  have "fs_used (HIGH_MEMORY (pages (km (sl (fsys (kern m)))))) (live_tasks s) (fsys ((kern m)\<lparr>ksched := s\<rparr>))"
    using entered_paged [OF mok pg save entry] by (simp add: fs_used_paged)
  from fs_usedD [OF fault_call_kept [OF this k(1)]] ks have "tasks_paged (ksched k) (pages (km (sl (fsys k))))" by simp
  with stub_paged [OF e(1) h _ k(2)] stub_waiting [OF mok save entry grown_refl [OF e(1)] h k(2)] e(2) Fault show ?thesis by simp
qed

lemma in_order_contexts: "in_order ret m \<Longrightarrow> kernel_event io ret ev m = Inr m' \<Longrightarrow> contexts_ok ret ev m m'"
  by (rule event_contexts) (simp_all add: in_order_def)

section \<open>Runs\<close>

fun run_events :: "'e ports \<Rightarrow> u32 \<Rightarrow> event list \<Rightarrow> 'e machine \<Rightarrow> 'e machine res" where
  "run_events io ret [] m = Inr m"
| "run_events io ret (ev # evs) m = bindr (kernel_event io ret ev m) (run_events io ret evs)"

text \<open>Program \<open>p\<close> executes nothing in the run: whenever it has the processor, it is interrupted.\<close>

fun quiet :: "'e ports \<Rightarrow> u32 \<Rightarrow> addr_t \<Rightarrow> event list \<Rightarrow> 'e machine \<Rightarrow> bool" where
  "quiet io ret p [] m = True"
| "quiet io ret p (ev # evs) m =
     ((p = current_of m \<longrightarrow> (case ev of Irq _ _ \<Rightarrow> True | Fault _ _ \<Rightarrow> True | _ \<Rightarrow> False)) \<and>
      (case kernel_event io ret ev m of Inl _ \<Rightarrow> True | Inr m' \<Rightarrow> quiet io ret p evs m'))"

lemma run_in_order:
  "in_order ret m \<Longrightarrow> run_events io ret evs m = Inr m' \<Longrightarrow>
    in_order ret m' \<and> fs_base m' = fs_base m \<and> live_of m \<subseteq> live_of m'"
proof (induction evs arbitrary: m)
  case (Cons ev evs)
  then obtain m1 where m1: "kernel_event io ret ev m = Inr m1" "run_events io ret evs m1 = Inr m'" by (auto simp: res_Inr)
  have "contexts_ok ret ev m m1" by (rule in_order_contexts [OF Cons.prems(1) m1(1)])
  with Cons.IH [OF conjunct1 [OF event_in_order [OF Cons.prems(1) m1(1)]] m1(2)] show ?case by (auto simp: contexts_ok_def)
qed simp

lemma quiet_event:
  assumes ok: "in_order ret m" and ev: "kernel_event io ret ev m = Inr m1" and p: "p \<in> live_of m"
    and q: "p = current_of m \<longrightarrow> (case ev of Irq _ _ \<Rightarrow> True | Fault _ _ \<Rightarrow> True | _ \<Rightarrow> False)"
  shows "\<exists>v. user_regs m1 p = (user_regs m p)\<lparr>r_eax := v\<rparr>"
    and "p = current_of m \<or> \<not> in_syscall m p \<Longrightarrow>
      user_regs m1 p = user_regs m p \<and> (p = current_of m1 \<or> \<not> in_syscall m1 p)"
proof -
  have c: "contexts_ok ret ev m m1" by (rule in_order_contexts [OF ok ev])
  have after: "regs_after ev m p = user_regs m p" using q by (cases ev) (auto simp: regs_after_def)
  have r: "\<exists>v. user_regs m1 p = (user_regs m p)\<lparr>r_eax := v\<rparr>" "\<not> gets_result ev m m1 p \<Longrightarrow> user_regs m1 p = user_regs m p"
    using c p unfolding contexts_ok_def after [symmetric] by blast+
  show "\<exists>v. user_regs m1 p = (user_regs m p)\<lparr>r_eax := v\<rparr>" by (rule r)
  assume free: "p = current_of m \<or> \<not> in_syscall m p"
  then have "\<not> gets_result ev m m1 p" using q by (auto simp: gets_result_def)
  moreover have "p = current_of m1 \<or> \<not> in_syscall m1 p"
  proof (cases "p = current_of m1")
    case False
    with event_in_order [OF ok ev] p have "in_syscall m1 p = (if p = current_of m then \<exists>left. ev = Int_0x90 left else in_syscall m p)"
      by (simp add: waiting_ok_def)
    with free q show ?thesis by (cases ev) (auto split: if_splits)
  qed simp
  ultimately show "user_regs m1 p = user_regs m p \<and> (p = current_of m1 \<or> \<not> in_syscall m1 p)"
    using r(2) by blast
qed

lemma quiet_run:
  "in_order ret m \<Longrightarrow> run_events io ret evs m = Inr m' \<Longrightarrow> p \<in> live_of m \<Longrightarrow> quiet io ret p evs m \<Longrightarrow>
    (\<exists>v. user_regs m' p = (user_regs m p)\<lparr>r_eax := v\<rparr>) \<and>
    (p = current_of m \<or> \<not> in_syscall m p \<longrightarrow> user_regs m' p = user_regs m p)"
proof (induction evs arbitrary: m)
  case Nil
  then show ?case using regs_same_eax by simp
next
  case (Cons ev evs)
  then obtain m1 where m1: "kernel_event io ret ev m = Inr m1" "run_events io ret evs m1 = Inr m'" by (auto simp: res_Inr)
  with Cons.prems(4) have q: "p = current_of m \<longrightarrow> (case ev of Irq _ _ \<Rightarrow> True | Fault _ _ \<Rightarrow> True | _ \<Rightarrow> False)"
    "quiet io ret p evs m1" by simp_all
  note e = quiet_event [OF Cons.prems(1) m1(1) Cons.prems(3) q(1)]
  have ok1: "in_order ret m1" using event_in_order [OF Cons.prems(1) m1(1)] ..
  have "p \<in> live_of m1" using run_in_order [OF Cons.prems(1), of io "[ev]" m1] m1(1) Cons.prems(3) by auto
  from Cons.IH [OF ok1 m1(2) this q(2)] e show ?case by auto
qed

text \<open>
  C1: programs are left alone. However many system calls, interrupts, faults and instructions of programs follow on a
  machine in order, the machine stays in order, no task disappears, and a program that executes nothing itself, being
  interrupted or suspended all along, has at the end the registers it had at the beginning, up to \<^verbatim>\<open>eax\<close> when it waits in a system call.
\<close>

theorem programs_left_alone:
  assumes "in_order ret m" and "run_events io ret evs m = Inr m'"
  shows "in_order ret m' \<and> fs_base m' = fs_base m \<and> live_of m \<subseteq> live_of m' \<and>
    (\<forall>p \<in> live_of m. quiet io ret p evs m \<longrightarrow> (\<exists>v. user_regs m' p = (user_regs m p)\<lparr>r_eax := v\<rparr>) \<and>
       (p = current_of m \<or> \<not> in_syscall m p \<longrightarrow> user_regs m' p = user_regs m p))"
  using run_in_order [OF assms] quiet_run [OF assms] by blast

text \<open>The first task is interrupted, the second one runs and changes every register.\<close>

theorem programs_left_alone_witness:
  "\<exists>m'. run_events idle_drive 0x1234 [Irq 0 0, Program (sample_regs\<lparr>r_ebx := 99\<rparr>) (\<lambda>_. 7)] sample_machine = Inr m' \<and>
    cpu m' = sample_regs\<lparr>r_ebx := 99\<rparr> \<and> user_regs m' 0x5000 = sample_regs"
proof -
  let ?P = "Program (sample_regs\<lparr>r_ebx := 99\<rparr>) (\<lambda>_. 7)"
  have "find (runnable (two_tasks\<lparr>tss_esp0 := 0x6000\<rparr>)) (cycle (two_tasks\<lparr>tss_esp0 := 0x6000\<rparr>)) = Some 0x200000"
    by (simp add: cycle_def two_tasks_def runnable_def span_def some_task_def)
  with clock_switches [OF sample_ok sample_sched(2), of _ idle_drive 0] obtain m1 where
    m1: "kernel_event idle_drive 0x1234 (Irq 0 0) sample_machine = Inr m1" "current_of m1 = 0x200000"
    by (auto simp: sample_sched)
  define m2 where "m2 = m1\<lparr>cpu := sample_regs\<lparr>r_ebx := 99\<rparr>, kern := (kern m1)\<lparr>fsys := (fsys (kern m1))\<lparr>umem := \<lambda>_. 7\<rparr>\<rparr>\<rparr>"
  have run: "run_events idle_drive 0x1234 [Irq 0 0, ?P] sample_machine = Inr m2" by (simp add: m1(1) m2_def del: kernel_event.simps(2))
  have p: "current_of sample_machine = 0x5000" "0x5000 \<in> live_of sample_machine"
    using two_tasks_live by (simp_all add: sample_sched live_tasks_def) (simp_all add: two_tasks_def)
  have q: "quiet idle_drive 0x1234 0x5000 [Irq 0 0, ?P] sample_machine"
    using m1(2) by (simp add: m1(1) del: kernel_event.simps(2))
  have "in_order 0x1234 sample_machine" unfolding in_order_def using sample_ok sample_paged by blast
  note left_alone = mp [OF bspec [OF conjunct2 [OF conjunct2 [OF conjunct2 [OF programs_left_alone [OF this run]]]] p(2)] q]
  have "user_regs m2 0x5000 = user_regs sample_machine 0x5000" by (rule mp [OF conjunct2 [OF left_alone] disjI1 [OF p(1) [symmetric]]])
  moreover have "user_regs sample_machine 0x5000 = sample_regs" using p(1) by (simp add: user_regs_def) (simp add: sample_machine_def)
  moreover have "cpu m2 = sample_regs\<lparr>r_ebx := 99\<rparr>" by (simp add: m2_def)
  ultimately show ?thesis using run by auto
qed

section \<open>From the start on\<close>

lemma kmain_devices_used:
  assumes "kmain_devices io raw s = Inr s'"
  shows "fs_used 0xffffff {p. p < LOW_MEM} (fsys s')"
proof -
  from assms obtain ps u f where ps: "mem_init 0x100000 0xffffff = Inr ps"
    and f: "slab_op (\<lambda>t. bindr (cache_init t) (\<lambda>t. Inr ((), t))) (fsys (on_sl (\<lambda>t. t\<lparr>km := (km t)\<lparr>pages := ps\<rparr>\<rparr>) s)) = Inr (u, f)"
    and s': "sl (fsys s') = sl f"
    by (auto simp: kmain_devices_def res_Inr Let_def on_bc_def)
  have "pages_ok ps" "HIGH_MEMORY ps = 0xffffff" using ps by (auto simp: mem_init_boot pages_ok_high)
  then have "fs_used 0xffffff {p. p < LOW_MEM} (fsys (on_sl (\<lambda>t. t\<lparr>km := (km t)\<lparr>pages := ps\<rparr>\<rparr>) s))"
    using low_not_free by (simp add: fs_used_def slab_used_def kmem_used_def used_def on_sl_def)
  moreover have "keptv (slab_used 0xffffff {p. p < LOW_MEM}) (bindr (cache_init t) (\<lambda>t. Inr ((), t)))"
    if "slab_used 0xffffff {p. p < LOW_MEM} t" for t by (rule kept_rules cache_init_kept that | assumption)+
  ultimately have "fs_used 0xffffff {p. p < LOW_MEM} f" using keptvD [OF slab_op_kept f] by blast
  then show ?thesis using s' by (simp add: fs_used_def)
qed

text \<open>The first task's page is below the memory that is handed out, so the machine is in order when the first program starts.\<close>

lemma kmain_in_order:
  assumes run: "kmain io raw root_name init_task s = Inr k" and t: "tasks (ksched s) init_task = Some t"
    and p: "init_task \<noteq> 0" "init_task < LOW_MEM" "unat init_task mod 65536 < 0xf000" and lab: "switch_label (ksched s) \<noteq> ret"
  shows "\<exists>m. move_to_user_mode pk k = Inr m \<and> in_order ret m"
proof -
  from run obtain s1 f where s1: "kmain_devices io raw s = Inr s1" "fs_init io root_name (fsys s1) = Inr f" "sl (fsys k) = sl f"
    by (auto simp: kmain_def res_Inr Let_def)
  from keptD [OF fs_init_kept [OF kmain_devices_used [OF s1(1)]] s1(2)] have "fs_used 0xffffff {p. p < LOW_MEM} f" .
  then have used: "used 0xffffff {p. p < LOW_MEM} (pages (km (sl (fsys k))))"
    by (simp add: s1(3) fs_used_def slab_used_def kmem_used_def)
  from kmain_last_step [OF run] obtain table e table' e' where
    "sched_init io Clock_irq init_task (ksched s, table, e) = Inr (ksched k, table', e')" by blast
  from user_mode_starts [OF this t p(1) lab, of pk] obtain m where m: "move_to_user_mode pk k = Inr m"
    "fsys (kern m) = fsys k" "machine_ok ret m" "live_of m = {init_task}" using p(3) by metis
  have "tasks_paged (ksched (kern m)) (pages (km (sl (fsys (kern m)))))"
    using used_subset [OF used, of "{init_task}"] p(2) m(2,4) by (intro used_paged) simp
  with m show ?thesis by (auto simp: in_order_def)
qed

end
