(* ===== verification/Trap.thy ===== *)
theory Trap imports Printf_Format begin

text \<open>
  The exception handler, \<^verbatim>\<open>kernel/trap.c\<close>. It prints through \<^verbatim>\<open>printf\<close> of \<open>Printf\<close>, so the model
  has the memory it runs on: the string literals of the file, the arguments it pushes for the
  call and the buffer \<^verbatim>\<open>vfprintf\<close> prints into. Where they lie is up to compiler and stack.
\<close>

record trap_layout =
  desc_lit :: "nat \<Rightarrow> addr_t"
  format_lit :: addr_t
  call_args :: addr_t
  print_buffer :: addr_t

text \<open>The texts of \<^verbatim>\<open>err_desc\<close>; two of them begin with a dash in UTF-8.\<close>

definition em_dash :: "u8 list" where
  "em_dash = [0xe2, 0x80, 0x94]"

definition err_texts :: "u8 list list" where
  "err_texts = [List.map ch ''#DE Divide Error'',
     List.map ch ''#DB RESERVED'',
     em_dash @ List.map ch ''  NMI Interrupt'',
     List.map ch ''#BP Breakpoint'',
     List.map ch ''#OF Overflow'',
     List.map ch ''#BR BOUND Range Exceeded'',
     List.map ch ''#UD Invalid Opcode (Undefined Opcode)'',
     List.map ch ''#NM Device Not Available (No Math Coprocessor)'',
     List.map ch ''#DF Double Fault'',
     List.map ch ''    Coprocessor Segment Overrun (reserved)'',
     List.map ch ''#TS Invalid TSS'',
     List.map ch ''#NP Segment Not Present'',
     List.map ch ''#SS Stack-Segment Fault'',
     List.map ch ''#GP General Protection'',
     List.map ch ''#PF Page Fault'',
     em_dash @ List.map ch ''  (Intel reserved. Do not use.)'',
     List.map ch ''#MF x87 FPU Floating-Point Error (Math Fault)'',
     List.map ch ''#AC Alignment Check'',
     List.map ch ''#MC Machine Check'',
     List.map ch ''#XF SIMD Floating-Point Exception'']"

definition exception_format :: "u8 list" where
  "exception_format = List.map ch ''Exception: %s'' @ [10] @ List.map ch ''Error Code: 0x%x'' @ [10]"

text \<open>\<^verbatim>\<open>char * err_desc[64]\<close>: the elements without an initializer are null.\<close>

definition err_desc :: "trap_layout \<Rightarrow> addr_t list" where
  "err_desc t = List.map (desc_lit t) [0..<length err_texts] @ replicate (64 - length err_texts) NULL"

text \<open>The arguments of a variadic call, from \<^verbatim>\<open>fmt\<close> upwards.\<close>

fun push_args :: "addr_t \<Rightarrow> u32 list \<Rightarrow> mem \<Rightarrow> mem" where
  "push_args sp [] m = m"
| "push_args sp (v # vs) m = store32 sp v (push_args (sp + 4) vs m)"

text \<open>An index outside the array is \<open>Bad_access\<close>.\<close>

definition exception_handler ::
  "trap_layout \<Rightarrow> u32 \<Rightarrow> u32 \<Rightarrow> mem \<Rightarrow> (u32 \<times> addr_t option \<times> mem) res" where
  "exception_handler t exp_nr err_code m =
     (if unat exp_nr < length (err_desc t)
      then printf (print_buffer t) (call_args t)
             (push_args (call_args t) [format_lit t, err_desc t ! unat exp_nr, err_code] m)
      else Inl Bad_access)"

section \<open>The call\<close>

lemma store32_cells: "a \<notin> cells p 4 \<Longrightarrow> store32 p v m a = m a"
proof -
  assume a: "a \<notin> cells p 4"
  have "p + of_nat i \<in> cells p 4" if "i < 4" for i using that by (intro cells_offset) simp_all
  from this [of 0] this [of 1] this [of 2] this [of 3] a show ?thesis
    by (auto simp: store32_def)
qed

lemma push_args_apart:
  "4 * length vs \<le> 2 ^ 32 \<Longrightarrow> a \<notin> cells p (4 * length vs) \<Longrightarrow> push_args p vs m a = m a"
proof (induction vs arbitrary: p)
  case (Cons v vs)
  have "a \<notin> cells p 4" "a \<notin> cells (p + 4) (4 * length vs)"
    using Cons.prems cells_less [of 4 "4 * length (v # vs)" a p] cells_shift [of 4 "4 * length vs" a p] by auto
  then show ?case using Cons.IH Cons.prems by (simp add: store32_cells)
qed simp

lemma push_args_words: "4 * length vs \<le> 2 ^ 32 \<Longrightarrow> words_at (push_args p vs m) p vs"
proof (induction vs arbitrary: p)
  case (Cons v vs)
  have "words_at (store32 p v (push_args (p + 4) vs m)) (p + 4) vs = words_at (push_args (p + 4) vs m) (p + 4) vs"
  proof (rule words_at_cong)
    fix a
    assume a: "a \<in> cells (p + 4) (4 * length vs)"
    have "a \<notin> cells p 4"
    proof
      assume "a \<in> cells p 4"
      then have "unat (a - p) < 4" by (simp add: cells_def)
      moreover have "a - (p + 4) = (a - p) - 4" by simp
      ultimately have "unat (a - (p + 4)) = 2 ^ 32 + unat (a - p) - 4"
        by (simp only: unat_sub_if') simp
      then show False using a Cons.prems \<open>unat (a - p) < 4\<close> by (simp add: cells_def)
    qed
    then show "store32 p v (push_args (p + 4) vs m) a = push_args (p + 4) vs m a" by (rule store32_cells)
  qed (use Cons.prems in simp)
  then show ?case using Cons by (simp add: load_store_same)
qed simp

text \<open>The format as items, and the place of everything the call reads.\<close>

definition exception_items :: "addr_t \<Rightarrow> u8 list \<Rightarrow> u32 \<Rightarrow> item list" where
  "exception_items p d v = List.map (Plain \<circ> ch) ''Exception: '' @ [Text p d, Plain 10] @
     List.map (Plain \<circ> ch) ''Error Code: 0x'' @ [Num None 0 None (ch CHR ''x'') v, Plain 10]"

definition exception_text :: "u8 list \<Rightarrow> u32 \<Rightarrow> u8 list" where
  "exception_text d v =
     List.map ch ''Exception: '' @ d @ [10] @ List.map ch ''Error Code: 0x'' @ number_text 16 (unat v) @ [10]"

lemma formats_plain [simp]:
  "formats (List.map (Plain \<circ> f) cs) = List.map f cs" "outs (List.map (Plain \<circ> f) cs) = List.map f cs"
  "args_of (List.map (Plain \<circ> f) cs) = []" "strings_of (List.map (Plain \<circ> f) cs) = []"
  by (induction cs) simp_all

lemma items_append [simp]:
  "formats (xs @ ys) = formats xs @ formats ys" "outs (xs @ ys) = outs xs @ outs ys"
  "args_of (xs @ ys) = args_of xs @ args_of ys" "strings_of (xs @ ys) = strings_of xs @ strings_of ys"
  by (simp_all add: formats_def outs_def args_of_def strings_of_def)

lemma exception_items_simps:
  "formats (exception_items p d v) = exception_format"
  "outs (exception_items p d v) = exception_text d v"
  "args_of (exception_items p d v) = [p, v]" "strings_of (exception_items p d v) = [(p, d)]"
  by (simp_all only: exception_items_def items_append formats_plain)
    (simp_all add: exception_format_def exception_text_def flag_text_def width_text_def precision_text_def
      number_field_def field_def int_prefix_def precise_def int_sign_def int_digits_def conv_base_def
      flag_bit_def flag_defs)

lemma exception_items_ok:
  "p \<noteq> NULL \<Longrightarrow> length d < 2 ^ 31 \<Longrightarrow> \<forall>it \<in> set (exception_items p d v). item_ok it"
  by (simp add: exception_items_def flag_text_def prec_bound_def terminated_def precise_def)

text \<open>A run of plain bytes, wherever the format goes on.\<close>

lemma plain_run:
  "ready s \<Longrightarrow> text_at (pmem s) (pin s) cs \<Longrightarrow> 0 \<notin> set cs \<Longrightarrow> ch CHR ''%'' \<notin> set cs \<Longrightarrow> length cs < 2 ^ 32 \<Longrightarrow>
   cells (pout s) (length cs) \<inter> cells (pin s) (length cs) = {} \<Longrightarrow>
   \<exists>x. fmt_loop start s = fmt_loop start (advance (length cs) 0 cs x s)"
proof (induction cs arbitrary: s)
  case Nil
  have "advance 0 0 [] (pmem s (pout s)) s = s" by (cases s) (simp add: advance_def)
  then show ?case by (intro exI [of _ "pmem s (pout s)"]) simp
next
  case (Cons c cs)
  let ?s = "advance 1 0 [c] (pmem s (pout s + 1)) s" and ?n = "length (c # cs)"
  have sub: "cells (p + 1) (length cs) \<subseteq> cells p ?n" for p :: addr_t
    using cells_shift [of 1 "length cs" _ p] Cons.prems(5) by auto
  have c: "fmt_loop start s = fmt_loop start ?s"
    using Cons.prems by (intro item_plain) simp_all
  have m: "pmem ?s = (pmem s)(pout s := c)"
    by (rule ext) (simp add: advance_def stored_one)
  have pin: "pin ?s = pin s + 1" by (simp add: advance_def)
  have "pout s \<in> cells (pout s) ?n" by (simp add: cells_def)
  then have "pout s \<notin> cells (pin s + 1) (length cs)" using Cons.prems(6) sub [of "pin s"] by blast
  then have "text_at (pmem ?s) (pin ?s) cs"
    unfolding m pin using Cons.prems(2,5) by (simp add: text_at_upd)
  moreover have "cells (pout ?s) (length cs) \<inter> cells (pin ?s) (length cs) = {}"
    using Cons.prems(6) sub [of "pout s"] sub [of "pin s"] by (auto simp: advance_def)
  ultimately obtain x where "fmt_loop start ?s = fmt_loop start (advance (length cs) 0 cs x ?s)"
    using Cons.IH [OF ready_advance [OF Cons.prems(1)], of 1 0 "[c]" "pmem s (pout s + 1)"] Cons.prems(3-5) by auto
  with c show ?case using Cons.prems(5) by (auto simp: advance_advance)
qed

text \<open>\<^verbatim>\<open>%s\<close> with a null pointer stops the machine.\<close>

lemma null_text:
  assumes s: "ready s" and t: "text_at (pmem s) (pin s) [ch CHR ''%'', ch CHR ''s'']" "pout s \<notin> cells (pin s) 2"
    and a: "load32 (pmem s) (pargs s) = NULL" "pout s \<notin> cells (pargs s) 4"
  shows "fmt_loop start s = Some (Inl Assert_failed)"
proof -
  let ?s = "s\<lparr>escape := 1, pin := pin s + 1, pmem := (pmem s)(pout s := ch CHR ''%'')\<rparr>"
  have "pin s + 1 \<noteq> pout s" using t(2) cells_offset [of 1 2 "pin s"] by auto
  then have "pmem ?s (pin ?s) = ch CHR ''s''" using t(1) by simp
  moreover have "fmt_class (ch CHR ''s'') = FMT_SPECIFIER" by (rule fmt_classes(4)) (simp add: conv_chars_def)
  moreover have "load32 ((pmem s)(pout s := y)) (pargs s) = NULL" for y using a by (simp add: load32_upd)
  ultimately have "fmt_step start ?s = Inl Assert_failed"
    by (cases "pout s = NULL") (simp_all add: fmt_step_def Let_def FMT_FLAGS_def FMT_NUMBER_def FMT_PRECISION_def FMT_LENGTH_def
      FMT_SPECIFIER_def fmt_specifier_def print_arg_def va_arg_def strcpy_def)
  moreover have "fmt_loop start s = fmt_loop start ?s"
    using s t(1) by (intro step_percent) (simp_all add: ready_def)
  ultimately show ?thesis
    using \<open>pmem ?s (pin ?s) = ch CHR ''s''\<close> s by (subst (asm) (2) fmt_loop.simps) (simp add: ready_def)
qed


section \<open>Property\<close>

definition literal_cells :: "trap_layout \<Rightarrow> addr_t set" where
  "literal_cells t = cells (format_lit t) (length exception_format + 1) \<union>
     (\<Union>k < 20. cells (desc_lit t k) (length (err_texts ! k) + 1))"

text \<open>
  The kernel is loaded: the literals stand in memory, and the arguments, the print buffer and the
  literals are apart from each other.
\<close>

definition loaded :: "trap_layout \<Rightarrow> mem \<Rightarrow> bool" where
  "loaded t m \<longleftrightarrow> cstr m (format_lit t) exception_format \<and> format_lit t \<noteq> NULL \<and>
     unat (format_lit t) + length exception_format < 2 ^ 32 \<and>
     (\<forall>k < 20. cstr m (desc_lit t k) (err_texts ! k) \<and> desc_lit t k \<noteq> NULL) \<and>
     cells (call_args t) 12 \<inter> literal_cells t = {} \<and>
     cells (print_buffer t) 2048 \<inter> (literal_cells t \<union> cells (call_args t) 12) = {} \<and>
     print_buffer t \<noteq> NULL \<and> unat (print_buffer t) + 2 ^ 23 < 2 ^ 31"

definition exception_args :: "trap_layout \<Rightarrow> u32 \<Rightarrow> u32 \<Rightarrow> u32 list" where
  "exception_args t exp_nr err_code = [format_lit t, err_desc t ! unat exp_nr, err_code]"

lemma length_err_texts [simp]: "length err_texts = 20"
  by (simp add: err_texts_def)

lemma err_desc_nth:
  "unat nr < 20 \<Longrightarrow> err_desc t ! unat nr = desc_lit t (unat nr)"
  "20 \<le> unat nr \<Longrightarrow> unat nr < 64 \<Longrightarrow> err_desc t ! unat nr = NULL"
  by (simp_all add: err_desc_def nth_append)

lemma err_text_bounds: "k < 20 \<Longrightarrow> length (err_texts ! k) < 50"
proof -
  have "list_all (\<lambda>d. length d < 50) err_texts" by (simp add: err_texts_def em_dash_def)
  then show "k < 20 \<Longrightarrow> length (err_texts ! k) < 50" by (simp add: list_all_length)
qed

lemma number_text_hex: "length (number_text 16 (unat (v :: u32))) \<le> 32"
  using number_text_length [of 16 "unat v"] unat_lt_u32 [of v] by simp


lemma loaded_call:
  assumes l: "loaded t m" and m': "m' = push_args (call_args t) (exception_args t nr v) m"
  shows "load32 m' (call_args t) = format_lit t" "words_at m' (call_args t + 4) [err_desc t ! unat nr, v]"
    and "cstr m' (format_lit t) exception_format"
    and "k < 20 \<Longrightarrow> cstr m' (desc_lit t k) (err_texts ! k)"
proof -
  have "words_at m' (call_args t) (exception_args t nr v)"
    unfolding m' by (rule push_args_words) (simp add: exception_args_def)
  then show "load32 m' (call_args t) = format_lit t" "words_at m' (call_args t + 4) [err_desc t ! unat nr, v]"
    by (simp_all add: exception_args_def)
  have same: "m' a = m a" if "a \<in> literal_cells t" for a
  proof -
    have "a \<notin> cells (call_args t) (4 * length (exception_args t nr v))"
      using l that by (auto simp: loaded_def exception_args_def)
    then show ?thesis unfolding m' by (intro push_args_apart) (simp_all add: exception_args_def)
  qed
  have keep: "cstr m' p d" if "cstr m p d" "cells p (length d + 1) \<subseteq> literal_cells t" "length d < 50" for p d
  proof -
    have "text_at m' p (d @ [0]) = text_at m p (d @ [0])"
      using that(2,3) by (intro text_at_cong same) auto
    then show ?thesis using that(1) by (simp add: text_at_cstr)
  qed
  show "cstr m' (format_lit t) exception_format"
    using l by (intro keep) (auto simp: loaded_def literal_cells_def exception_format_def)
  show "cstr m' (desc_lit t k) (err_texts ! k)" if "k < 20"
    using l that err_text_bounds [OF that] by (intro keep) (auto simp: loaded_def literal_cells_def)
qed

lemma exception_apart:
  assumes "loaded t m" "n \<le> 2047"
  shows "cells (print_buffer t) (n + 1) \<inter> (literal_cells t \<union> cells (call_args t) 12) = {}"
  using assms cells_less [of "n + 1" 2048 _ "print_buffer t"] by (auto simp: loaded_def)

lemma exception_known:
  assumes l: "loaded t m" and nr: "unat nr < 20" and msg_def: "msg = exception_text (err_texts ! unat nr) v"
  shows "exception_handler t nr v m = Inr (of_nat (length msg), Some (print_buffer t),
    stored (print_buffer t) (msg @ [0]) (push_args (call_args t) (exception_args t nr v) m))"
proof -
  let ?m = "push_args (call_args t) (exception_args t nr v) m"
  let ?d = "err_texts ! unat nr" and ?p = "desc_lit t (unat nr)"
  let ?its = "exception_items ?p ?d v"
  note call = loaded_call [OF l refl, where nr = nr and v = v]
  have len: "length msg \<le> 120" "msg \<noteq> []"
    using err_text_bounds [OF nr] number_text_hex [of v] by (simp_all add: msg_def exception_text_def)
  have ok: "\<forall>it \<in> set ?its. item_ok it"
    using l nr err_text_bounds [OF nr] by (intro exception_items_ok) (simp_all add: loaded_def)
  have reads: "reads ?m (format_lit t) (call_args t + 4) ?its"
    using call nr by (simp add: reads_def exception_items_simps err_desc_nth text_at_cstr)
  have "cells (call_args t + 4) 8 \<subseteq> cells (call_args t) 12"
    using cells_shift [of 4 8 _ "call_args t"] by auto
  then have "read_cells (format_lit t) (call_args t + 4) ?its \<subseteq> literal_cells t \<union> cells (call_args t) 12"
    using nr by (auto simp: read_cells_def exception_items_simps literal_cells_def)
  then have apart: "cells (print_buffer t) (length msg + 1) \<inter> read_cells (format_lit t) (call_args t + 4) ?its = {}"
    using exception_apart [OF l, of "length msg"] len by fastforce
  have "vsprintf (print_buffer t) (format_lit t) (call_args t + 4) ?m =
      Inr (of_nat (length (outs ?its)), stored (print_buffer t) (outs ?its @ [0]) ?m)"
    using reads apart l ok nr len
    by (intro vsprintf_eq) (simp_all add: exception_items_simps loaded_def flip: msg_def)
  then have "vfprintf (print_buffer t) stdout (format_lit t) (call_args t + 4) ?m =
      Inr (of_nat (length msg), Some (print_buffer t), stored (print_buffer t) (msg @ [0]) ?m)"
    using l len by (simp add: vfprintf_eq exception_items_simps loaded_def flip: msg_def)
  then show ?thesis
    using call(1) l nr
    by (simp add: exception_handler_def printf_def err_desc_def exception_args_def loaded_def del: push_args.simps)
qed


lemma exception_unknown:
  assumes l: "loaded t m" and nr: "20 \<le> unat nr" "unat nr < 64"
  shows "exception_handler t nr v m = Inl Assert_failed"
proof -
  let ?m = "push_args (call_args t) (exception_args t nr v) m" and ?a = "call_args t + 4" and ?q = "print_buffer t"
  let ?s = "fmt_start ?q (format_lit t) ?a ?m"
  define pre where "pre = List.map ch ''Exception: ''"
  have pre: "length pre = 11" "0 \<notin> set pre" "ch CHR ''%'' \<notin> set pre" by (simp_all add: pre_def)
  have fm: "exception_format = pre @ [ch CHR ''%'', ch CHR ''s''] @ [10] @ List.map ch ''Error Code: 0x%x'' @ [10]"
    by (simp add: exception_format_def pre_def)
  note call = loaded_call [OF l refl, where nr = nr and v = v]
  have tx: "text_at ?m (format_lit t) pre" "text_at ?m (format_lit t + 11) [ch CHR ''%'', ch CHR ''s'']"
    using call(3) pre(1) unfolding fm text_at_cstr by (simp_all add: text_at_append add.assoc)
  have s: "pmem ?s = ?m" "pin ?s = format_lit t" "pargs ?s = ?a" "pout ?s = ?q" "ready ?s"
    by (simp_all add: ready_def fmt_start_def)
  have lits: "cells (format_lit t) 13 \<subseteq> literal_cells t"
    using cells_less [of 13 "length exception_format + 1" _ "format_lit t"]
    by (auto simp: literal_cells_def exception_format_def)
  have arg: "cells ?a 4 \<subseteq> cells (call_args t) 12"
    using cells_shift [of 4 4 _ "call_args t"] cells_less [of 8 12 _ "call_args t"] by auto
  have outc: "cells ?q 12 \<inter> (cells (format_lit t) 13 \<union> cells ?a 4) = {}"
    using exception_apart [OF l, of 11] lits arg by auto
  have "cells ?q 11 \<inter> cells (format_lit t) 11 = {}"
    using outc cells_less [of 11 12 _ ?q] cells_less [of 11 13 _ "format_lit t"] by auto
  then obtain x where run: "fmt_loop ?q ?s = fmt_loop ?q (advance 11 0 pre x ?s)"
    using plain_run [OF s(5), of pre ?q] tx(1) pre s by auto
  let ?t = "advance 11 0 pre x ?s"
  have t: "pin ?t = format_lit t + 11" "pargs ?t = ?a" "pout ?t = ?q + 11"
    using pre(1) s by (simp_all add: advance_def)
  have mem: "pmem ?t b = ?m b" if "b \<in> cells (format_lit t) 13 \<union> cells ?a 4" for b
  proof -
    have "b \<notin> cells ?q 12" using outc that by blast
    then show ?thesis
      using offset_iff [of 11 b ?q] pre(1) s by (auto simp: advance_def stored_def cells_def)
  qed
  have f: "cells (format_lit t + 11) 2 \<subseteq> cells (format_lit t) 13"
    using cells_shift [of 11 2 _ "format_lit t"] by auto
  have "?q + 11 \<in> cells ?q 12" by (simp add: cells_def)
  then have q: "?q + 11 \<notin> cells (format_lit t + 11) 2" "?q + 11 \<notin> cells ?a 4" using outc f by blast+
  have "fmt_loop ?q ?t = Some (Inl Assert_failed)"
  proof (rule null_text)
    show "ready ?t" using s(5) by (rule ready_advance)
    have two: "length [ch CHR ''%'', ch CHR ''s''] = 2" by simp
    have "text_at (pmem ?t) (format_lit t + 11) [ch CHR ''%'', ch CHR ''s''] =
        text_at ?m (format_lit t + 11) [ch CHR ''%'', ch CHR ''s'']"
      using f by (intro text_at_cong mem, unfold two) auto
    then show "text_at (pmem ?t) (pin ?t) [ch CHR ''%'', ch CHR ''s'']" using tx(2) t by simp
    have "load32 (pmem ?t) ?a = load32 ?m ?a" by (intro load32_cong mem) simp
    then show "load32 (pmem ?t) (pargs ?t) = NULL" using call(2) t nr by (simp add: err_desc_nth)
  qed (simp_all add: t q)
  then have "vsprintf ?q (format_lit t) ?a ?m = Inl Assert_failed"
    using l run by (simp add: vsprintf_def loaded_def)
  then show ?thesis
    using call(1) l nr
    by (simp add: exception_handler_def printf_def vfprintf_def err_desc_def exception_args_def loaded_def del: push_args.simps)
qed

text \<open>
  C24: what the exception handler does. In a loaded kernel an exception below 20 has its text and
  the error code in hexadecimal handed to the console, and only the print buffer and the
  arguments of the call change. The numbers 20 to 63 have no text, so the null pointer in the table
  stops the machine in \<^verbatim>\<open>strcpy\<close>; a larger number is read outside the table.
\<close>

theorem exception_reported:
  assumes "loaded t m"
  shows "exception_handler t exp_nr err_code m =
    (if unat exp_nr < 20
     then let msg = exception_text (err_texts ! unat exp_nr) err_code in
       Inr (of_nat (length msg), Some (print_buffer t), stored (print_buffer t) (msg @ [0])
         (push_args (call_args t) (exception_args t exp_nr err_code) m))
     else if unat exp_nr < 64 then Inl Assert_failed else Inl Bad_access)"
  using exception_known [OF assms] exception_unknown [OF assms]
  by (auto simp: Let_def exception_handler_def err_desc_def)

text \<open>A loaded kernel: every literal in 256 bytes of its own.\<close>

definition sample_layout :: trap_layout where
  "sample_layout = \<lparr>desc_lit = \<lambda>k. 0x3000 + of_nat (256 * k), format_lit = 0x2000, call_args = 0x8000, print_buffer = 0x9000\<rparr>"

definition sample_rom :: mem where
  "sample_rom a = (let k = unat a div 256; i = unat a mod 256;
     d = (if k = 0x20 then exception_format else if 0x30 \<le> k \<and> k < 0x30 + 20 then err_texts ! (k - 0x30) else [])
     in if i < length d then d ! i else 0)"

lemma rom_text:
  assumes "unat p = 256 * k" "length d < 255" "0 \<notin> set d"
    and "d = (if k = 0x20 then exception_format else if 0x30 \<le> k \<and> k < 0x30 + 20 then err_texts ! (k - 0x30) else [])"
  shows "cstr sample_rom p d"
proof -
  have "sample_rom (p + of_nat i) = (d @ [0]) ! i" if "i \<le> length d" for i
  proof -
    have "unat (p + of_nat i) = 256 * k + i"
      using assms(1,2) that unat_lt_u32 [of p] by (simp add: unat_plus_if' unat_of_nat_addr)
    then show ?thesis using assms(2,4) that by (simp add: sample_rom_def Let_def nth_append)
  qed
  then show ?thesis using assms(3) by (simp add: text_at_cstr text_at_nth)
qed

lemma sample_loaded: "loaded sample_layout sample_rom"
proof -
  have z: "list_all (\<lambda>d. 0 \<notin> set d) err_texts" by (simp add: err_texts_def em_dash_def)
  have p: "unat (0x3000 + of_nat (256 * k) :: addr_t) = 256 * (0x30 + k)" if "k < 20" for k
    using that by (simp add: unat_plus_if' unat_word_ariths unat_of_nat)
  have d: "cstr sample_rom (desc_lit sample_layout k) (err_texts ! k)" "desc_lit sample_layout k \<noteq> NULL" if "k < 20" for k
  proof -
    show "cstr sample_rom (desc_lit sample_layout k) (err_texts ! k)"
      using that z p [OF that] err_text_bounds [OF that]
      by (intro rom_text [of _ "0x30 + k"]) (simp_all add: sample_layout_def list_all_length)
    show "desc_lit sample_layout k \<noteq> NULL"
      using p [OF that] by (auto simp: sample_layout_def dest: arg_cong [of _ _ unat])
  qed
  have f: "cstr sample_rom 0x2000 exception_format"
    by (rule rom_text [of _ "0x20"]) (simp_all add: exception_format_def)
  have c: "0x2000 \<le> unat a \<and> unat a < 0x8000" if "a \<in> literal_cells sample_layout" for a
  proof -
    from that consider "a \<in> cells 0x2000 32" | k where "k < 20" "a \<in> cells (0x3000 + of_nat (256 * k)) (length (err_texts ! k) + 1)"
      unfolding literal_cells_def sample_layout_def by (auto simp: exception_format_def eval_nat_numeral)
    then show ?thesis
    proof cases
      case 2
      then have "a \<in> cells (0x3000 + of_nat (256 * k)) 50"
        using err_text_bounds [OF 2(1)] by (elim cells_less [rotated]) simp
      then show ?thesis using p [OF 2(1)] 2(1) by (simp add: cells_interval)
    qed (simp add: cells_interval)
  qed
  show ?thesis
    using d f c by (fastforce simp: loaded_def sample_layout_def cells_interval exception_format_def)
qed

theorem exception_reported_witness:
  "exception_handler sample_layout 14 0x1f sample_rom =
    Inr (43, Some 0x9000, stored 0x9000 (List.map ch ''Exception: #PF Page Fault'' @ [10] @ List.map ch ''Error Code: 0x1f'' @ [10, 0])
      (push_args 0x8000 [0x2000, 0x3e00, 0x1f] sample_rom)) \<and>
   exception_handler sample_layout 20 0x1f sample_rom = Inl Assert_failed"
proof -
  have "number_text 16 0x1f = List.map ch ''1f''" by (simp add: number_text_def digits_step digit_byte_def)
  then have "exception_text (err_texts ! 14) 0x1f =
      List.map ch ''Exception: #PF Page Fault'' @ [10] @ List.map ch ''Error Code: 0x1f'' @ [10]"
    by (simp add: exception_text_def err_texts_def)
  moreover have "exception_args sample_layout 14 0x1f = [0x2000, 0x3e00, 0x1f]"
    using err_desc_nth(1) [of "14 :: u32" sample_layout] by (simp add: exception_args_def) (simp add: sample_layout_def)
  moreover have "print_buffer sample_layout = 0x9000" "call_args sample_layout = 0x8000"
    by (simp_all add: sample_layout_def)
  ultimately show ?thesis
    using exception_reported [OF sample_loaded, of 14 "0x1f"] exception_reported [OF sample_loaded, of 20 "0x1f"]
    by (simp add: Let_def del: push_args.simps)
qed

end
