(* ===== verification/Spec2Isabelle.thy ===== *)
theory Spec2Isabelle
  imports Bitmap Boot Buffer C_String Descriptor First_Program Fork Fs_Lookup Fs_Syscall Gate Hd Kept_Pages Keyboard Linked_List
    Page_Alloc Paging Printf_Format Processes Ring_Queue Runs Scheduler Slab_System Trap Tty
begin

text \<open>
  A model of the RXD-OS kernel, a small x86 kernel in C: memory, tasks, terminal, disk and file system.

  \<^bold>\<open>The program and its model.\<close>
  Every routine is a function on an explicit state. A state is a record of the component's
  variables; machine integers are words of their width where wrapping or bit operations matter and
  unbounded integers for signed C variables, whose overflow is not modelled. A routine that can stop the
  machine returns \<open>halt + 'a\<close> (\<open>Prelude\<close>): \<open>Assert_failed\<close> and \<open>Panic\<close> for \<^verbatim>\<open>assert\<close> and \<^verbatim>\<open>panic\<close>, \<open>Bad_access\<close> where C
  follows a null or unusable pointer or reads what was never set, \<open>Hang\<close> for a loop that never ends. Loops whose end is not
  evident are \<open>partial_function (option)\<close>; where a routine returns, that is proved and not assumed.

  \<^enum> \<^bold>\<open>Lists and strings.\<close> \<open>Linked_List\<close> has \<^verbatim>\<open>include/list.h\<close> on a store of links, with predicates that relate it to
    HOL lists and the locale \<open>front_list\<close> for clients. \<open>C_String\<close> has \<^verbatim>\<open>lib/string.c\<close> on byte memory.
  \<^enum> \<^bold>\<open>Memory.\<close> \<open>Page_Alloc\<close> has the page table of \<^verbatim>\<open>mm/memory.c\<close> and the locale \<open>resource_pool\<close>, the contract of an
    allocator; \<open>Paging\<close> the page tables in RAM (\<open>Ram\<close>), faults and sharing; \<open>Slab\<close> the caches of \<^verbatim>\<open>mm/slab.c\<close>, \<open>Slab_Pool\<close>
    their objects as sets and \<open>Slab_System\<close> all caches together, from \<^verbatim>\<open>cache_init\<close> on.
  \<^enum> \<^bold>\<open>Tasks.\<close> \<open>Descriptor\<close> has \<^verbatim>\<open>kernel/head.c\<close>, \<open>Scheduler\<close> has \<^verbatim>\<open>kernel/proc.c\<close> with the task switch of \<^verbatim>\<open>include/proc.h\<close>,
    \<open>Fork\<close> has \<^verbatim>\<open>do_fork\<close> of \<^verbatim>\<open>kernel/syscall_impl.c\<close> over the scheduler and the address spaces.
  \<^enum> \<^bold>\<open>Terminal.\<close> \<open>Ring_Queue\<close> has the queue macros of \<^verbatim>\<open>include/io.h\<close>, \<open>Keyboard\<close> the tables of \<^verbatim>\<open>kernel/keyboard.c\<close>, \<open>Tty\<close> the
    handler and the cooking of \<^verbatim>\<open>kernel/io.c\<close>.
  \<^enum> \<^bold>\<open>Disk.\<close> \<open>Hd\<close> has the driver of \<^verbatim>\<open>kernel/blk_drv/hd.c\<close>, \<open>Blk\<close> the requests of \<^verbatim>\<open>ll_rw_blk.c\<close>, \<open>Buffer\<close> the cache of
    \<^verbatim>\<open>buffer.c\<close>; \<open>Cached_Block\<close> is what a client of the cache relies on. What the drive makes of the driver's port
    writes is specified from its side of the cable: the task file at the end of \<open>Hd\<close>, and in \<open>Ata_Disk\<close> polled writes
    of an ATA drive. These are no code of the kernel but the hardware's documented behaviour, there to state what its commands and
    write-backs do; nothing of the driver's model depends on them.
  \<^enum> \<^bold>\<open>File system.\<close> \<open>Bitmap\<close> has \<^verbatim>\<open>fs/bitmap.h\<close>; \<open>Fs_State\<close> the structs of \<^verbatim>\<open>include/fs.h\<close> and their bytes on the disk,
    \<open>Fs_Inode\<close> blocks, inodes, zones and file contents, \<open>Fs_Dentry\<close> directories and paths, \<open>Fs_Syscall\<close> the calls, \<^verbatim>\<open>mkfs\<close> and
    \<^verbatim>\<open>fs_init\<close>, all of \<^verbatim>\<open>fs/fs.c\<close>. \<open>Fs_Contents\<close>, \<open>Fs_Files\<close>, \<open>Fs_Records\<close> and \<open>Fs_Lookup\<close> hold the proofs.

  \<^enum> \<^bold>\<open>Formatted output.\<close> \<open>Printf\<close> has \<^verbatim>\<open>lib/printf.c\<close>: the character classes, \<^verbatim>\<open>atoi\<close>, the number printers and the format
    interpreter, on byte memory, with a \<^verbatim>\<open>va_list\<close> as the address of the next argument. \<open>Printf_Numbers\<close> and \<open>Printf_Format\<close> hold
    the proofs. \<open>Trap\<close> has \<^verbatim>\<open>kernel/trap.c\<close>, with its string literals and call arguments in memory.
  \<^enum> \<^bold>\<open>Start.\<close> \<open>Boot\<close> has \<^verbatim>\<open>kernel/main.c\<close>: \<^verbatim>\<open>kmain\<close> on the record \<open>kernel\<close> of all parts, the test programs, the first user program.
  \<^enum> \<^bold>\<open>Programs.\<close> \<open>Gate\<close> has the way into the kernel: the stubs of \<^verbatim>\<open>include/syscall.h\<close>, the table of \<^verbatim>\<open>kernel/syscall_impl.c\<close>,
    the frame of \<^verbatim>\<open>include/entry.h\<close> and, of \<^verbatim>\<open>kernel/entry.asm\<close>, the entries for system calls, interrupts and page faults and the
    switch to user mode, on a \<open>machine\<close>: a kernel with the registers of the running program. \<open>Processes\<close> shows
    what an event does to the programs, \<open>First_Program\<close> takes the program \<^verbatim>\<open>init\<close> from \<^verbatim>\<open>kmain\<close> through its calls, \<open>Runs\<close>
    has runs of any number of events, and \<open>Kept_Pages\<close> what they rest on: no call, fault or fork gives back a page in use.

  Names are the source's, without leading underscores (\<open>isprint_c\<close> is the one of \<^verbatim>\<open>printf.c\<close>); a loop of a routine is a function of its own.
  The parts meet where the code has them meet: the file system calls the cache, the bitmaps, the slab and the
  page allocators on one memory; the cache calls the requests, these the driver; a fork calls the
  scheduler, the descriptors and the page tables; \<^verbatim>\<open>kmain\<close> runs every initialisation on one state; a system call runs
  a routine of the file system, or a fork, on the current task's file table and stack.

  \<^bold>\<open>Parameters.\<close> The ports of the machine are the record \<open>ports\<close> of four functions on an environment state, which
  stands for the devices behind them. What memory held before a routine first writes it is an argument
  (\<open>raw\<close> of \<open>buffer_init\<close>). The addresses the linker assigns are fields of the states.

  \<^bold>\<open>What is shown.\<close>
  List and string routines compute the list operations and the results C describes, except where the
  theorem says otherwise. Page and object allocation: what is handed out was free, is now in use and
  overlaps nothing in use; releasing undoes it. An operation on one cache leaves all others alone, so every run of the allocator
  keeps the whole system of caches in order, with the caches of objects too small or too large to be of use among them. Faults, sharing and fork change exactly the mappings they name. The scheduler picks in
  cyclic order, and every task gets its slice within an epoch. The keyboard path is a decoder and always
  returns. A drive takes up exactly the command asked for, on the drive, sector and count asked for. The buffer cache holds every
  block at most once; the last release of a dirty block puts its bytes on the disk, or loses them when the drive is busy. On cached blocks: bitmap allocation takes the least free number; a read after a write
  gives the bytes written; inodes come back from the disk; a lookup finds the entry with the name.
  \<^verbatim>\<open>vsprintf\<close> stores exactly the bytes its items stand for; \<^verbatim>\<open>atoi\<close> reads what \<^verbatim>\<open>itoa\<close> prints. \<^verbatim>\<open>kmain\<close> reaches \<^verbatim>\<open>fs_init\<close> with
  all parts in order. Across every run of system calls, interrupts and page faults each program keeps its registers; a
  call reaches the routine of its number with its arguments and returns its value; and the first program does what
  its calls do one after the other.

  Where the code does not do what it is meant to do, a theorem says what it does instead: reads with a rest
  beyond 1024 bytes after the first block, paths with several components, the request table that is never
  emptied, writes to a busy drive, caches of unusable sizes, the last page, an overlapping \<^verbatim>\<open>memmove\<close>, a long \<^verbatim>\<open>strncpy\<close>, limits of descriptors, zeros of a precision without
  a terminator, output longer than the print buffer, exceptions without a text, system call numbers without a routine,
  what a fork returns, the segment of user memory after a switch, the kernel stack of the first task.

  \<^bold>\<open>Bounds.\<close> No fuel is used. A file has at most seven blocks, since larger zone numbers panic; the loops over zones and
  over directory entries end for that reason. The theorems on files take the blocks to be in
  the cache: without I/O nothing depends on the drive, and the release of a block that is used elsewhere always returns.

  \<^bold>\<open>Not modelled.\<close> The messages of the parts other than \<open>Trap\<close>, the routines that only print them, and the console;
  \<^verbatim>\<open>klock\<close> and \<^verbatim>\<open>kunlock\<close>, so interrupts arrive between routines, not inside them; \<^verbatim>\<open>fork_test\<close>, which nothing calls and which runs
  in several processes at once; \<^verbatim>\<open>kmem_cache_destroy\<close> is modelled but, since nothing calls it, not among the runs of \<open>Slab_System\<close>;
  the boot loader, the start of the kernel and the console, which are assembly, and of \<^verbatim>\<open>kernel/entry.asm\<close> the entries of the
  exceptions that stop the machine; the copies between user and kernel memory appear as their effects, on the memory of the first
  program, whose segment stays in \<^verbatim>\<open>fs\<close>. Of the task switch, only stack and instruction pointers are modelled, and
  the store of \<^verbatim>\<open>eax\<close> in \<^verbatim>\<open>current_task\<close> behind it is taken to store the task switched to; of the C
  frames of a suspended task, only the stub they return to (\<open>parked\<close> of a machine), and no interrupt while the kernel runs.
  In the file system, strings are lists of the bytes before the terminator, objects of different
  caches are kept in maps by address, apart from the byte memory, and overwriting all of memory by a \<^verbatim>\<open>strncpy\<close> of a longer
  string is \<open>Bad_access\<close>. That messages are left out hides one effect: \<^verbatim>\<open>sys_read\<close> and \<^verbatim>\<open>sys_write\<close> (\<^verbatim>\<open>fs/fs.c\<close>, lines 754 and
  782) print their page buffer with \<^verbatim>\<open>%s\<close>, and contents of some 2000 bytes without a zero overflow the 2048 bytes of
  \<^verbatim>\<open>vfprintf\<close> and stop the machine, where the model of the two calls returns; the theorems on runs and programs
  are to be read for contents that do not.
\<close>

end
